(* ===== verification/Idf_Base.thy ===== *)
theory Idf_Base
  imports Main "HOL-Library.Word" "HOL-Library.Code_Target_Nat"
begin

text \<open>
  Prelude of the development: error codes, faults, the result type of code that can
  assert or touch memory out of range, 32-bit C arithmetic on natural numbers, byte memories
  with their frame lemmas, and little-endian encoding. Every component theory imports it.
\<close>

unbundle bit_operations_syntax

named_theorems mem_simps \<open>reads and writes of byte memories\<close>
named_theorems res_simps \<open>the result monad\<close>

type_synonym byte = "8 word"
type_synonym u32 = "32 word"
type_synonym mem = "byte list"

section \<open>Error codes and faults\<close>

text \<open>
  The error codes of \<^verbatim>\<open>esp_err.h\<close> and of the component headers that the modelled code returns.
\<close>

datatype esp_err =
    ESP_OK
  | ESP_FAIL
  | ESP_ERR_NO_MEM
  | ESP_ERR_INVALID_ARG
  | ESP_ERR_INVALID_STATE
  | ESP_ERR_INVALID_SIZE
  | ESP_ERR_NOT_FOUND
  | ESP_ERR_NOT_SUPPORTED
  | ESP_ERR_TIMEOUT
  | ESP_ERR_INVALID_CRC
  | ESP_ERR_INVALID_VERSION
  | ESP_ERR_OTA_PARTITION_CONFLICT
  | ESP_ERR_OTA_SELECT_INFO_INVALID
  | ESP_ERR_OTA_VALIDATE_FAILED
  | ESP_ERR_OTA_SMALL_SEC_VER
  | ESP_ERR_OTA_ROLLBACK_FAILED
  | ESP_ERR_OTA_ROLLBACK_INVALID_STATE
  | ESP_ERR_ULP_SIZE_TOO_BIG
  | ESP_ERR_ULP_INVALID_LOAD_ADDR
  | ESP_ERR_ULP_DUPLICATE_LABEL
  | ESP_ERR_ULP_UNDEFINED_LABEL
  | ESP_ERR_ULP_BRANCH_OUT_OF_RANGE
  | ESP_ERR_FLASH_OP_FAIL

text \<open>
  What ends a C function without a result: a failed \<^verbatim>\<open>configASSERT\<close> or \<^verbatim>\<open>assert\<close>,
  an access outside the object, the use of a pointer to freed memory or to nothing, a division by
  zero, a loop that ran longer than its bound in the model.
\<close>

datatype fault = Assert_failed | Out_of_bounds | Bad_pointer | Div_by_zero | Out_of_fuel

type_synonym 'a res = "fault + 'a"

definition bindR :: "'a res \<Rightarrow> ('a \<Rightarrow> 'b res) \<Rightarrow> 'b res" where
  "bindR m f = (case m of Inl e \<Rightarrow> Inl e | Inr x \<Rightarrow> f x)"

definition assertR :: "bool \<Rightarrow> 'a res \<Rightarrow> 'a res" where
  "assertR b k = (if b then k else Inl Assert_failed)"

lemma bindR_Inr [simp, res_simps]: "bindR (Inr x) f = f x"
  by (simp add: bindR_def)

lemma bindR_Inl [simp, res_simps]: "bindR (Inl e) f = Inl e"
  by (simp add: bindR_def)

lemma bindR_eq_Inr: "bindR m f = Inr y \<longleftrightarrow> (\<exists>x. m = Inr x \<and> f x = Inr y)"
  by (cases m) auto

lemma assertR_True [simp, res_simps]: "assertR True k = k"
  by (simp add: assertR_def)

lemma assertR_eq_Inr: "assertR b k = Inr y \<longleftrightarrow> b \<and> k = Inr y"
  by (simp add: assertR_def)

lemma assertR_holds: "b \<Longrightarrow> assertR b k = k"
  by simp

section \<open>32-bit unsigned arithmetic on natural numbers\<close>

text \<open>
  \<open>usub a b\<close> is the C expression \<^verbatim>\<open>a - b\<close> read as a \<^verbatim>\<open>size_t\<close>, also when it is a
  difference of pointers into one object: it wraps when \<open>b\<close> exceeds \<open>a\<close>.
\<close>

definition usub :: "nat \<Rightarrow> nat \<Rightarrow> nat" where
  "usub a b = nat ((int a - int b) mod 2 ^ 32)"

definition uadd :: "nat \<Rightarrow> nat \<Rightarrow> nat" where
  "uadd a b = (a + b) mod 2 ^ 32"

definition umul :: "nat \<Rightarrow> nat \<Rightarrow> nat" where
  "umul a b = (a * b) mod 2 ^ 32"

lemma umul_small [simp]: "a * b < 2 ^ 32 \<Longrightarrow> umul a b = a * b"
  by (simp add: umul_def)

lemma usub_le [simp]: "b \<le> a \<Longrightarrow> a < 2 ^ 32 \<Longrightarrow> usub a b = a - b"
  by (simp add: usub_def nat_mod_distrib flip: of_nat_diff)

lemma uadd_small [simp]: "a + b < 2 ^ 32 \<Longrightarrow> uadd a b = a + b"
  by (simp add: uadd_def)

lemma usub_bound: "usub a b < 2 ^ 32"
  by (simp add: usub_def nat_less_iff)

section \<open>Byte memories\<close>

definition mem_read :: "nat \<Rightarrow> nat \<Rightarrow> mem \<Rightarrow> byte list" where
  "mem_read p n m = take n (drop p m)"

definition mem_write :: "nat \<Rightarrow> byte list \<Rightarrow> mem \<Rightarrow> mem" where
  "mem_write p bs m = take p m @ bs @ drop (p + length bs) m"

text \<open>\<^verbatim>\<open>memcpy\<close> into an object: a fault when it does not fit.\<close>

definition mem_store :: "nat \<Rightarrow> byte list \<Rightarrow> mem \<Rightarrow> mem res" where
  "mem_store p bs m =
     (if p + length bs \<le> length m then Inr (mem_write p bs m) else Inl Out_of_bounds)"

definition mem_load :: "nat \<Rightarrow> nat \<Rightarrow> mem \<Rightarrow> byte list res" where
  "mem_load p n m = (if p + n \<le> length m then Inr (mem_read p n m) else Inl Out_of_bounds)"

lemma length_mem_read [simp]: "p + n \<le> length m \<Longrightarrow> length (mem_read p n m) = n"
  by (simp add: mem_read_def)

lemma length_mem_write [simp]: "p + length bs \<le> length m \<Longrightarrow> length (mem_write p bs m) = length m"
  by (simp add: mem_write_def)

lemma nth_mem_read [mem_simps]: "p + n \<le> length m \<Longrightarrow> i < n \<Longrightarrow> mem_read p n m ! i = m ! (p + i)"
  by (simp add: mem_read_def)

lemma nth_mem_write [mem_simps]:
  "p + length bs \<le> length m \<Longrightarrow> i < length m \<Longrightarrow>
   mem_write p bs m ! i = (if p \<le> i \<and> i < p + length bs then bs ! (i - p) else m ! i)"
  by (auto simp: mem_write_def nth_append min_def)

lemma mem_read_0 [simp]: "mem_read p 0 m = []"
  by (simp add: mem_read_def)

lemma mem_write_Nil [simp]: "mem_write p [] m = m"
  by (simp add: mem_write_def)

lemma mem_read_write_same [simp]:
  "p + length bs \<le> length m \<Longrightarrow> n = length bs \<Longrightarrow> mem_read p n (mem_write p bs m) = bs"
  by (simp add: mem_read_def mem_write_def)

text \<open>Two memories agree on a set of addresses.\<close>

definition mem_agree :: "nat set \<Rightarrow> mem \<Rightarrow> mem \<Rightarrow> bool" where
  "mem_agree A m m' \<longleftrightarrow> length m = length m' \<and> (\<forall>i \<in> A. i < length m \<longrightarrow> m ! i = m' ! i)"

lemma mem_agree_subset: "mem_agree A m m' \<Longrightarrow> B \<subseteq> A \<Longrightarrow> mem_agree B m m'"
  by (auto simp: mem_agree_def)

lemma mem_agree_trans: "mem_agree A m m' \<Longrightarrow> mem_agree A m' m'' \<Longrightarrow> mem_agree A m m''"
  by (auto simp: mem_agree_def)

lemma mem_agree_write:
  "p + length bs \<le> length m \<Longrightarrow> A \<inter> {p..<p + length bs} = {} \<Longrightarrow> mem_agree A m (mem_write p bs m)"
  by (auto simp: mem_agree_def nth_mem_write)

lemma mem_read_agree:
  assumes "mem_agree {p..<p + n} m m'" and "p + n \<le> length m"
  shows "mem_read p n m = mem_read p n m'"
proof (rule nth_equalityI)
  show "length (mem_read p n m) = length (mem_read p n m')"
    using assms by (simp add: mem_agree_def)
  show "mem_read p n m ! i = mem_read p n m' ! i" if "i < length (mem_read p n m)" for i
    using assms that by (auto simp: mem_agree_def nth_mem_read)
qed

lemma mem_read_write_disjoint [mem_simps]:
  "p + length bs \<le> length m \<Longrightarrow> q + n \<le> length m \<Longrightarrow> q + n \<le> p \<or> p + length bs \<le> q \<Longrightarrow>
   mem_read q n (mem_write p bs m) = mem_read q n m"
  by (rule mem_read_agree [symmetric]) (auto intro!: mem_agree_write)

lemma mem_read_append:
  "mem_read p (a + b) m = mem_read p a m @ mem_read (p + a) b m"
  by (simp add: mem_read_def take_add drop_drop add.commute)

section \<open>Little-endian 32-bit values\<close>

definition le32 :: "nat \<Rightarrow> byte list" where
  "le32 v = [of_nat v, of_nat (v div 256), of_nat (v div 65536), of_nat (v div 16777216)]"

definition le32_dec :: "byte list \<Rightarrow> nat" where
  "le32_dec bs =
     unat (bs ! 0) + 256 * unat (bs ! 1) + 65536 * unat (bs ! 2) + 16777216 * unat (bs ! 3)"

lemma length_le32 [simp]: "length (le32 v) = 4"
  by (simp add: le32_def)

lemma le32_dec_le32 [simp]:
  assumes "v < 2 ^ 32"
  shows "le32_dec (le32 v) = v"
proof -
  have 1: "v = 256 * (v div 256) + v mod 256" by simp
  have 2: "v div 256 = 256 * (v div 65536) + v div 256 mod 256"
    using div_mult2_eq [of v 256 256] by simp
  have 3: "v div 65536 = 256 * (v div 16777216) + v div 65536 mod 256"
    using div_mult2_eq [of v 65536 256] by simp
  have "v mod 256 + 256 * (v div 256 mod 256) + 65536 * (v div 65536 mod 256)
      + 16777216 * (v div 16777216) = v"
    using 1 2 3 by linarith
  then show ?thesis
    using assms by (simp add: le32_def le32_dec_def unat_of_nat)
qed

end
