(* ===== verification/Ringbuf.thy ===== *)
theory Ringbuf
  imports Idf_Base
begin

text \<open>
  The ring buffer of \<^verbatim>\<open>components/esp_ringbuf/ringbuf.c\<close>: control structure, the functions behind the
  function pointers of the three buffer types, and the public API with its two binary semaphores.

  Pointers into the storage are offsets from \<^verbatim>\<open>pucHead\<close>, so \<^verbatim>\<open>pucHead\<close> is 0 and \<^verbatim>\<open>pucTail\<close> is
  \<open>xSize\<close>; the storage comes word aligned from \<^verbatim>\<open>malloc\<close>, so an address is aligned when its offset is.
  The storage is a list of bytes, and item headers live in it as two little-endian 32-bit words, as on
  the target. A failed \<^verbatim>\<open>configASSERT\<close> and an access outside the storage are faults.
\<close>

section \<open>Macros and data\<close>

definition rbALIGN_MASK :: u32 where
  "rbALIGN_MASK = 0x03"

definition rbALIGN_SIZE :: "nat \<Rightarrow> nat" where
  "rbALIGN_SIZE xSize = unat ((of_nat xSize + rbALIGN_MASK) AND NOT rbALIGN_MASK)"

definition rbCHECK_ALIGNED :: "nat \<Rightarrow> bool" where
  "rbCHECK_ALIGNED pvPtr \<longleftrightarrow> (of_nat pvPtr AND rbALIGN_MASK) = 0"

definition rbALLOW_SPLIT_FLAG :: u32 where "rbALLOW_SPLIT_FLAG = 1"
definition rbBYTE_BUFFER_FLAG :: u32 where "rbBYTE_BUFFER_FLAG = 2"
definition rbBUFFER_FULL_FLAG :: u32 where "rbBUFFER_FULL_FLAG = 4"
definition rbBUFFER_STATIC_FLAG :: u32 where "rbBUFFER_STATIC_FLAG = 8"

definition rbITEM_FREE_FLAG :: u32 where "rbITEM_FREE_FLAG = 1"
definition rbITEM_DUMMY_DATA_FLAG :: u32 where "rbITEM_DUMMY_DATA_FLAG = 2"
definition rbITEM_SPLIT_FLAG :: u32 where "rbITEM_SPLIT_FLAG = 4"
definition rbITEM_WRITTEN_FLAG :: u32 where "rbITEM_WRITTEN_FLAG = 8"

text \<open>\<open>flag w f\<close> is the C test \<^verbatim>\<open>w & f\<close>.\<close>

definition flag :: "u32 \<Rightarrow> u32 \<Rightarrow> bool" where
  "flag w f \<longleftrightarrow> w AND f \<noteq> 0"

record ItemHeader_t =
  xItemLen :: nat
  uxItemFlags :: u32

definition rbHEADER_SIZE :: nat where
  "rbHEADER_SIZE = 8"

datatype RingbufferType_t = RINGBUF_TYPE_NOSPLIT | RINGBUF_TYPE_ALLOWSPLIT | RINGBUF_TYPE_BYTEBUF

text \<open>
  The five function pointers are set together from the buffer type and never change; \<open>xMethods\<close>
  names the set. \<open>xTransSem\<close> and \<open>xRecvSem\<close> are the counts of the two binary semaphores.
\<close>

record Ringbuffer_t =
  xSize :: nat
  xMaxItemSize :: nat
  uxRingbufferFlags :: u32
  xMethods :: RingbufferType_t
  pucAcquire :: nat
  pucWrite :: nat
  pucRead :: nat
  pucFree :: nat
  pucStorage :: mem
  xItemsWaiting :: int
  xTransSem :: bool
  xRecvSem :: bool

text \<open>Reading and writing an item header through a pointer into the storage.\<close>

definition get_hdr :: "nat \<Rightarrow> mem \<Rightarrow> ItemHeader_t res" where
  "get_hdr p m =
     (if p + rbHEADER_SIZE \<le> length m
      then Inr \<lparr>xItemLen = le32_dec (mem_read p 4 m),
                uxItemFlags = of_nat (le32_dec (mem_read (p + 4) 4 m))\<rparr>
      else Inl Out_of_bounds)"

definition hdr_bytes :: "ItemHeader_t \<Rightarrow> byte list" where
  "hdr_bytes h = le32 (xItemLen h) @ le32 (unat (uxItemFlags h))"

definition put_hdr :: "nat \<Rightarrow> ItemHeader_t \<Rightarrow> mem \<Rightarrow> mem res" where
  "put_hdr p h m = mem_store p (hdr_bytes h) m"

section \<open>Creation\<close>

definition prvInitializeNewRingbuffer :: "nat \<Rightarrow> RingbufferType_t \<Rightarrow> mem \<Rightarrow> Ringbuffer_t" where
  "prvInitializeNewRingbuffer xBufferSize xBufferType storage =
     \<lparr>xSize = xBufferSize,
      xMaxItemSize =
        (case xBufferType of
           RINGBUF_TYPE_NOSPLIT \<Rightarrow> usub (rbALIGN_SIZE (xBufferSize div 2)) rbHEADER_SIZE
         | RINGBUF_TYPE_ALLOWSPLIT \<Rightarrow> usub xBufferSize (rbHEADER_SIZE * 2)
         | RINGBUF_TYPE_BYTEBUF \<Rightarrow> xBufferSize),
      uxRingbufferFlags =
        (case xBufferType of
           RINGBUF_TYPE_NOSPLIT \<Rightarrow> 0
         | RINGBUF_TYPE_ALLOWSPLIT \<Rightarrow> 0 OR rbALLOW_SPLIT_FLAG
         | RINGBUF_TYPE_BYTEBUF \<Rightarrow> 0 OR rbBYTE_BUFFER_FLAG),
      xMethods = xBufferType,
      pucAcquire = 0, pucWrite = 0, pucRead = 0, pucFree = 0,
      pucStorage = storage,
      xItemsWaiting = 0,
      xTransSem = True, xRecvSem = False\<rparr>"

text \<open>
  \<^verbatim>\<open>malloc\<close> is the parameter: it gives storage of the requested size with any contents, or \<open>None\<close>.
\<close>

definition xRingbufferCreate ::
    "(nat \<Rightarrow> mem option) \<Rightarrow> nat \<Rightarrow> RingbufferType_t \<Rightarrow> Ringbuffer_t option res" where
  "xRingbufferCreate alloc xBufferSize xBufferType =
     assertR (xBufferSize > 0)
       (let xBufferSize = (if xBufferType \<noteq> RINGBUF_TYPE_BYTEBUF then rbALIGN_SIZE xBufferSize
                           else xBufferSize)
        in case alloc xBufferSize of
             None \<Rightarrow> Inr None
           | Some storage \<Rightarrow>
               Inr (Some (prvInitializeNewRingbuffer xBufferSize xBufferType storage)))"

definition xRingbufferCreateNoSplit ::
    "(nat \<Rightarrow> mem option) \<Rightarrow> nat \<Rightarrow> nat \<Rightarrow> Ringbuffer_t option res" where
  "xRingbufferCreateNoSplit alloc xItemSize xItemNum =
     xRingbufferCreate alloc ((uadd (rbALIGN_SIZE xItemSize) rbHEADER_SIZE * xItemNum) mod 2 ^ 32)
       RINGBUF_TYPE_NOSPLIT"

definition xRingbufferCreateStatic :: "nat \<Rightarrow> RingbufferType_t \<Rightarrow> mem \<Rightarrow> Ringbuffer_t res" where
  "xRingbufferCreateStatic xBufferSize xBufferType storage =
     assertR (xBufferSize > 0)
       (assertR (xBufferType \<noteq> RINGBUF_TYPE_BYTEBUF \<longrightarrow> rbCHECK_ALIGNED xBufferSize)
         (let rb = prvInitializeNewRingbuffer xBufferSize xBufferType storage
          in Inr (rb\<lparr>uxRingbufferFlags := uxRingbufferFlags rb OR rbBUFFER_STATIC_FLAG\<rparr>)))"

section \<open>Free space\<close>

definition prvGetFreeSize :: "Ringbuffer_t \<Rightarrow> nat res" where
  "prvGetFreeSize rb =
     (let xReturn =
        (if flag (uxRingbufferFlags rb) rbBUFFER_FULL_FLAG then 0
         else let xFreeSize = int (pucFree rb) - int (pucAcquire rb);
                  xFreeSize = (if xFreeSize \<le> 0 then xFreeSize + int (xSize rb) else xFreeSize)
              in nat (xFreeSize mod 2 ^ 32))
      in assertR (xReturn \<le> xSize rb) (Inr xReturn))"

definition prvCheckItemFitsDefault :: "Ringbuffer_t \<Rightarrow> nat \<Rightarrow> bool res" where
  "prvCheckItemFitsDefault rb xItemSize =
     assertR (rbCHECK_ALIGNED (pucAcquire rb))
       (assertR (0 \<le> pucAcquire rb \<and> pucAcquire rb < xSize rb)
         (let xTotalItemSize = uadd (rbALIGN_SIZE xItemSize) rbHEADER_SIZE
          in if pucAcquire rb = pucFree rb
             then Inr (\<not> flag (uxRingbufferFlags rb) rbBUFFER_FULL_FLAG)
             else if pucFree rb > pucAcquire rb
             then Inr (xTotalItemSize \<le> usub (pucFree rb) (pucAcquire rb))
             else if xTotalItemSize \<le> usub (xSize rb) (pucAcquire rb)
             then Inr True
             else if flag (uxRingbufferFlags rb) rbALLOW_SPLIT_FLAG
             then Inr (uadd xTotalItemSize rbHEADER_SIZE
                         \<le> usub (xSize rb) (usub (pucAcquire rb) (pucFree rb)))
             else Inr (xTotalItemSize \<le> pucFree rb)))"

definition prvCheckItemFitsByteBuffer :: "Ringbuffer_t \<Rightarrow> nat \<Rightarrow> bool res" where
  "prvCheckItemFitsByteBuffer rb xItemSize =
     assertR (0 \<le> pucAcquire rb \<and> pucAcquire rb < xSize rb)
       (if pucAcquire rb = pucFree rb
        then Inr (\<not> flag (uxRingbufferFlags rb) rbBUFFER_FULL_FLAG)
        else if pucFree rb > pucAcquire rb
        then Inr (xItemSize \<le> usub (pucFree rb) (pucAcquire rb))
        else Inr (xItemSize \<le> usub (xSize rb) (usub (pucAcquire rb) (pucFree rb))))"

section \<open>Writing items\<close>

definition prvAcquireItemNoSplit :: "Ringbuffer_t \<Rightarrow> nat \<Rightarrow> (Ringbuffer_t \<times> nat) res" where
  "prvAcquireItemNoSplit rb xItemSize =
     (let xAlignedItemSize = rbALIGN_SIZE xItemSize;
          xRemLen = usub (xSize rb) (pucAcquire rb)
      in assertR (rbCHECK_ALIGNED (pucAcquire rb))
          (assertR (0 \<le> pucAcquire rb \<and> pucAcquire rb < xSize rb)
            (assertR (xRemLen \<ge> rbHEADER_SIZE)
              (bindR
                (if xRemLen < uadd xAlignedItemSize rbHEADER_SIZE
                 then bindR (put_hdr (pucAcquire rb)
                               \<lparr>xItemLen = 0, uxItemFlags = rbITEM_DUMMY_DATA_FLAG\<rparr> (pucStorage rb))
                        (\<lambda>m. Inr (rb\<lparr>pucStorage := m, pucAcquire := 0\<rparr>))
                 else Inr rb)
                (\<lambda>rb. bindR (put_hdr (pucAcquire rb) \<lparr>xItemLen = xItemSize, uxItemFlags = 0\<rparr>
                               (pucStorage rb))
                  (\<lambda>m. let item_address = pucAcquire rb + rbHEADER_SIZE;
                           acq = pucAcquire rb + uadd rbHEADER_SIZE xAlignedItemSize;
                           acq = (if usub (xSize rb) acq < rbHEADER_SIZE then 0 else acq);
                           flags = (if acq = pucFree rb
                                    then uxRingbufferFlags rb OR rbBUFFER_FULL_FLAG
                                    else uxRingbufferFlags rb)
                       in Inr (rb\<lparr>pucStorage := m, pucAcquire := acq, uxRingbufferFlags := flags\<rparr>,
                               item_address)))))))"

text \<open>
  The loop of \<^verbatim>\<open>prvSendItemDoneNoSplit\<close> that moves \<^verbatim>\<open>pucWrite\<close> over written and dummy items. Corrupt
  headers can make it run forever, hence the bound; the callers pass \<open>xSize + 2\<close>, more than the
  number of headers that fit.
\<close>

fun prvSkipWritten :: "nat \<Rightarrow> Ringbuffer_t \<Rightarrow> Ringbuffer_t res" where
  "prvSkipWritten 0 rb = Inl Out_of_fuel"
| "prvSkipWritten (Suc n) rb =
     bindR (get_hdr (pucWrite rb) (pucStorage rb))
       (\<lambda>pxCurHeader.
          if (flag (uxItemFlags pxCurHeader) rbITEM_WRITTEN_FLAG \<or>
              flag (uxItemFlags pxCurHeader) rbITEM_DUMMY_DATA_FLAG) \<and> pucWrite rb \<noteq> pucAcquire rb
          then bindR
            (if flag (uxItemFlags pxCurHeader) rbITEM_DUMMY_DATA_FLAG
             then bindR (put_hdr (pucWrite rb)
                           (pxCurHeader\<lparr>uxItemFlags := uxItemFlags pxCurHeader OR rbITEM_WRITTEN_FLAG\<rparr>)
                           (pucStorage rb))
                    (\<lambda>m. Inr (rb\<lparr>pucStorage := m, pucWrite := 0\<rparr>))
             else let w = pucWrite rb + uadd (rbALIGN_SIZE (xItemLen pxCurHeader)) rbHEADER_SIZE
                  in assertR (w \<le> xSize rb) (Inr (rb\<lparr>pucWrite := w\<rparr>)))
            (\<lambda>rb. prvSkipWritten n
                    (if usub (xSize rb) (pucWrite rb) < rbHEADER_SIZE then rb\<lparr>pucWrite := 0\<rparr> else rb))
          else Inr rb)"

text \<open>The header in front of an item address; no header fits before the first eight bytes.\<close>

definition get_item_hdr :: "nat \<Rightarrow> mem \<Rightarrow> ItemHeader_t res" where
  "get_item_hdr pucItem m =
     (if pucItem < rbHEADER_SIZE then Inl Out_of_bounds else get_hdr (pucItem - rbHEADER_SIZE) m)"

definition prvSendItemDoneNoSplit :: "Ringbuffer_t \<Rightarrow> nat \<Rightarrow> Ringbuffer_t res" where
  "prvSendItemDoneNoSplit rb pucItem =
     assertR (rbCHECK_ALIGNED pucItem)
      (assertR (0 \<le> pucItem)
       (assertR (pucItem \<le> xSize rb)
         (bindR (get_item_hdr pucItem (pucStorage rb))
           (\<lambda>pxCurHeader.
              assertR (xItemLen pxCurHeader \<le> xMaxItemSize rb)
               (assertR (\<not> flag (uxItemFlags pxCurHeader) rbITEM_DUMMY_DATA_FLAG)
                (assertR (\<not> flag (uxItemFlags pxCurHeader) rbITEM_WRITTEN_FLAG)
                 (bindR (put_hdr (pucItem - rbHEADER_SIZE)
                           (pxCurHeader\<lparr>uxItemFlags :=
                              (uxItemFlags pxCurHeader AND NOT rbITEM_SPLIT_FLAG) OR rbITEM_WRITTEN_FLAG\<rparr>)
                           (pucStorage rb))
                   (\<lambda>m. prvSkipWritten (xSize rb + 2)
                          (rb\<lparr>pucStorage := m, xItemsWaiting := xItemsWaiting rb + 1\<rparr>)))))))))"

definition prvCopyItemNoSplit :: "Ringbuffer_t \<Rightarrow> byte list \<Rightarrow> Ringbuffer_t res" where
  "prvCopyItemNoSplit rb pucItem =
     bindR (prvAcquireItemNoSplit rb (length pucItem))
       (\<lambda>(rb, item_addr). bindR (mem_store item_addr pucItem (pucStorage rb))
          (\<lambda>m. prvSendItemDoneNoSplit (rb\<lparr>pucStorage := m\<rparr>) item_addr))"

text \<open>
  The first part of a split item: the header and the bytes that still fit before the end. The result
  is the buffer, the rest of the item and its aligned size.
\<close>

definition prvCopyFirstPart ::
    "Ringbuffer_t \<Rightarrow> byte list \<Rightarrow> nat \<Rightarrow> nat \<Rightarrow> (Ringbuffer_t \<times> byte list \<times> nat) res" where
  "prvCopyFirstPart rb pucItem xAlignedItemSize xRemLen =
     (let xRem = usub xRemLen rbHEADER_SIZE;
          acq = pucAcquire rb + rbHEADER_SIZE;
          hdr = \<lparr>xItemLen = xRem,
                 uxItemFlags = (if xRem > 0 then 0 OR rbITEM_SPLIT_FLAG
                                else 0 OR rbITEM_DUMMY_DATA_FLAG)\<rparr>
      in bindR (put_hdr (pucAcquire rb) hdr (pucStorage rb))
          (\<lambda>m. if xRem > 0
               then bindR (if xRem \<le> length pucItem then mem_store acq (take xRem pucItem) m
                           else Inl Out_of_bounds)
                      (\<lambda>m. Inr (rb\<lparr>pucStorage := m, pucAcquire := 0,
                                   xItemsWaiting := xItemsWaiting rb + 1\<rparr>,
                                 drop xRem pucItem, usub xAlignedItemSize xRem))
               else Inr (rb\<lparr>pucStorage := m, pucAcquire := 0\<rparr>, pucItem, xAlignedItemSize)))"

definition prvCopyItemAllowSplit :: "Ringbuffer_t \<Rightarrow> byte list \<Rightarrow> Ringbuffer_t res" where
  "prvCopyItemAllowSplit rb pucItem =
     (let xAlignedItemSize = rbALIGN_SIZE (length pucItem);
          xRemLen = usub (xSize rb) (pucAcquire rb)
      in assertR (rbCHECK_ALIGNED (pucAcquire rb))
          (assertR (0 \<le> pucAcquire rb \<and> pucAcquire rb < xSize rb)
            (assertR (xRemLen \<ge> rbHEADER_SIZE)
              (bindR
                (if xRemLen < uadd xAlignedItemSize rbHEADER_SIZE
                 then prvCopyFirstPart rb pucItem xAlignedItemSize xRemLen
                 else Inr (rb, pucItem, xAlignedItemSize))
                (\<lambda>(rb, pucItem, xAlignedItemSize).
                   bindR (put_hdr (pucAcquire rb)
                            \<lparr>xItemLen = length pucItem, uxItemFlags = 0\<rparr> (pucStorage rb))
                     (\<lambda>m. bindR (mem_store (pucAcquire rb + rbHEADER_SIZE) pucItem m)
                       (\<lambda>m. let acq = pucAcquire rb + rbHEADER_SIZE + xAlignedItemSize;
                                acq = (if usub (xSize rb) acq < rbHEADER_SIZE then 0 else acq);
                                flags = (if acq = pucFree rb
                                         then uxRingbufferFlags rb OR rbBUFFER_FULL_FLAG
                                         else uxRingbufferFlags rb)
                            in Inr (rb\<lparr>pucStorage := m, xItemsWaiting := xItemsWaiting rb + 1,
                                       pucAcquire := acq, uxRingbufferFlags := flags,
                                       pucWrite := acq\<rparr>))))))))"

definition prvCopyItemByteBuf :: "Ringbuffer_t \<Rightarrow> byte list \<Rightarrow> Ringbuffer_t res" where
  "prvCopyItemByteBuf rb pucItem =
     assertR (0 \<le> pucAcquire rb \<and> pucAcquire rb < xSize rb)
       (let xRemLen = usub (xSize rb) (pucAcquire rb)
        in bindR
            (if xRemLen < length pucItem
             then bindR (mem_store (pucAcquire rb) (take xRemLen pucItem) (pucStorage rb))
                    (\<lambda>m. Inr (rb\<lparr>pucStorage := m, xItemsWaiting := xItemsWaiting rb + int xRemLen,
                                 pucAcquire := 0\<rparr>, drop xRemLen pucItem))
             else Inr (rb, pucItem))
            (\<lambda>(rb, pucItem).
               bindR (mem_store (pucAcquire rb) pucItem (pucStorage rb))
                 (\<lambda>m. let acq = pucAcquire rb + length pucItem;
                          acq = (if acq = xSize rb then 0 else acq);
                          flags = (if acq = pucFree rb
                                   then uxRingbufferFlags rb OR rbBUFFER_FULL_FLAG
                                   else uxRingbufferFlags rb)
                      in Inr (rb\<lparr>pucStorage := m,
                                 xItemsWaiting := xItemsWaiting rb + int (length pucItem),
                                 pucAcquire := acq, uxRingbufferFlags := flags, pucWrite := acq\<rparr>))))"

section \<open>Reading and returning items\<close>

definition prvCheckItemAvail :: "Ringbuffer_t \<Rightarrow> bool" where
  "prvCheckItemAvail rb \<longleftrightarrow>
     (if flag (uxRingbufferFlags rb) rbBYTE_BUFFER_FLAG \<and> pucRead rb \<noteq> pucFree rb then False
      else xItemsWaiting rb > 0 \<and>
           (pucRead rb \<noteq> pucWrite rb \<or> flag (uxRingbufferFlags rb) rbBUFFER_FULL_FLAG))"

text \<open>The result is the new buffer, the item's address, its size and whether it is split.\<close>

definition prvGetItemDefault :: "Ringbuffer_t \<Rightarrow> (Ringbuffer_t \<times> nat \<times> nat \<times> bool) res" where
  "prvGetItemDefault rb =
     assertR (xItemsWaiting rb > 0 \<and>
              (pucRead rb \<noteq> pucWrite rb \<or> flag (uxRingbufferFlags rb) rbBUFFER_FULL_FLAG))
      (assertR (rbCHECK_ALIGNED (pucRead rb))
       (assertR (0 \<le> pucRead rb \<and> pucRead rb < xSize rb)
        (bindR (get_hdr (pucRead rb) (pucStorage rb))
          (\<lambda>pxHeader.
             assertR (xItemLen pxHeader \<le> xMaxItemSize rb \<or>
                      flag (uxItemFlags pxHeader) rbITEM_DUMMY_DATA_FLAG)
              (bindR
                (if flag (uxItemFlags pxHeader) rbITEM_DUMMY_DATA_FLAG
                 then bindR (get_hdr 0 (pucStorage rb))
                        (\<lambda>pxHeader. assertR (xItemLen pxHeader \<le> xMaxItemSize rb)
                           (Inr (rb\<lparr>pucRead := 0\<rparr>, pxHeader)))
                 else Inr (rb, pxHeader))
                (\<lambda>(rb, pxHeader).
                   let pcReturn = pucRead rb + rbHEADER_SIZE;
                       r = pucRead rb + uadd rbHEADER_SIZE (rbALIGN_SIZE (xItemLen pxHeader));
                       r = (if usub (xSize rb) r < rbHEADER_SIZE then 0 else r)
                   in assertR (if xItemLen pxHeader = 0 then pcReturn \<le> xSize rb
                               else pcReturn < xSize rb)
                       (Inr (rb\<lparr>xItemsWaiting := xItemsWaiting rb - 1, pucRead := r\<rparr>,
                             pcReturn, xItemLen pxHeader,
                             flag (uxItemFlags pxHeader) rbITEM_SPLIT_FLAG))))))))"

definition prvGetItemByteBuf :: "Ringbuffer_t \<Rightarrow> nat \<Rightarrow> (Ringbuffer_t \<times> nat \<times> nat) res" where
  "prvGetItemByteBuf rb xMaxSize =
     assertR (xItemsWaiting rb > 0 \<and>
              (pucRead rb \<noteq> pucWrite rb \<or> flag (uxRingbufferFlags rb) rbBUFFER_FULL_FLAG))
      (assertR (0 \<le> pucRead rb \<and> pucRead rb < xSize rb)
       (assertR (pucRead rb = pucFree rb)
         (let ret = pucRead rb
          in if pucRead rb > pucWrite rb \<or> flag (uxRingbufferFlags rb) rbBUFFER_FULL_FLAG
             then if xMaxSize = 0 \<or> usub (xSize rb) (pucRead rb) \<le> xMaxSize
                  then let n = usub (xSize rb) (pucRead rb)
                       in Inr (rb\<lparr>xItemsWaiting := xItemsWaiting rb - int n, pucRead := 0\<rparr>, ret, n)
                  else Inr (rb\<lparr>xItemsWaiting := xItemsWaiting rb - int xMaxSize,
                               pucRead := pucRead rb + xMaxSize\<rparr>, ret, xMaxSize)
             else if xMaxSize = 0 \<or> usub (pucWrite rb) (pucRead rb) \<le> xMaxSize
                  then let n = usub (pucWrite rb) (pucRead rb)
                       in Inr (rb\<lparr>xItemsWaiting := xItemsWaiting rb - int n,
                                  pucRead := pucWrite rb\<rparr>, ret, n)
                  else Inr (rb\<lparr>xItemsWaiting := xItemsWaiting rb - int xMaxSize,
                               pucRead := pucRead rb + xMaxSize\<rparr>, ret, xMaxSize))))"

text \<open>The loop of \<^verbatim>\<open>prvReturnItemDefault\<close> that moves \<^verbatim>\<open>pucFree\<close> over free and dummy items.\<close>

fun prvSkipFreed :: "nat \<Rightarrow> Ringbuffer_t \<Rightarrow> Ringbuffer_t res" where
  "prvSkipFreed 0 rb = Inl Out_of_fuel"
| "prvSkipFreed (Suc n) rb =
     bindR (get_hdr (pucFree rb) (pucStorage rb))
       (\<lambda>pxCurHeader.
          if (flag (uxItemFlags pxCurHeader) rbITEM_FREE_FLAG \<or>
              flag (uxItemFlags pxCurHeader) rbITEM_DUMMY_DATA_FLAG) \<and> pucFree rb \<noteq> pucRead rb
          then bindR
            (if flag (uxItemFlags pxCurHeader) rbITEM_DUMMY_DATA_FLAG
             then bindR (put_hdr (pucFree rb)
                           (pxCurHeader\<lparr>uxItemFlags := uxItemFlags pxCurHeader OR rbITEM_FREE_FLAG\<rparr>)
                           (pucStorage rb))
                    (\<lambda>m. Inr (rb\<lparr>pucStorage := m, pucFree := 0\<rparr>))
             else let f = pucFree rb + uadd (rbALIGN_SIZE (xItemLen pxCurHeader)) rbHEADER_SIZE
                  in assertR (f \<le> xSize rb) (Inr (rb\<lparr>pucFree := f\<rparr>)))
            (\<lambda>rb. prvSkipFreed n
                    (if usub (xSize rb) (pucFree rb) < rbHEADER_SIZE then rb\<lparr>pucFree := 0\<rparr> else rb))
          else Inr rb)"

definition prvResetFullFlag :: "Ringbuffer_t \<Rightarrow> Ringbuffer_t" where
  "prvResetFullFlag rb =
     (if flag (uxRingbufferFlags rb) rbBUFFER_FULL_FLAG
      then if pucFree rb \<noteq> pucAcquire rb
           then rb\<lparr>uxRingbufferFlags := uxRingbufferFlags rb AND NOT rbBUFFER_FULL_FLAG\<rparr>
           else if pucFree rb = pucAcquire rb \<and> pucFree rb = pucRead rb
           then rb\<lparr>uxRingbufferFlags := uxRingbufferFlags rb AND NOT rbBUFFER_FULL_FLAG\<rparr>
           else rb
      else rb)"

definition prvReturnItemDefault :: "Ringbuffer_t \<Rightarrow> nat \<Rightarrow> Ringbuffer_t res" where
  "prvReturnItemDefault rb pucItem =
     assertR (rbCHECK_ALIGNED pucItem)
      (assertR (0 \<le> pucItem)
       (assertR (pucItem \<le> xSize rb)
         (bindR (get_item_hdr pucItem (pucStorage rb))
           (\<lambda>pxCurHeader.
              assertR (xItemLen pxCurHeader \<le> xMaxItemSize rb)
               (assertR (\<not> flag (uxItemFlags pxCurHeader) rbITEM_DUMMY_DATA_FLAG)
                (assertR (\<not> flag (uxItemFlags pxCurHeader) rbITEM_FREE_FLAG)
                 (bindR (put_hdr (pucItem - rbHEADER_SIZE)
                           (pxCurHeader\<lparr>uxItemFlags :=
                              (uxItemFlags pxCurHeader AND NOT rbITEM_SPLIT_FLAG) OR rbITEM_FREE_FLAG\<rparr>)
                           (pucStorage rb))
                   (\<lambda>m. bindR (prvSkipFreed (xSize rb + 2) (rb\<lparr>pucStorage := m\<rparr>))
                     (\<lambda>rb. Inr (prvResetFullFlag rb))))))))))"

definition prvReturnItemByteBuf :: "Ringbuffer_t \<Rightarrow> nat \<Rightarrow> Ringbuffer_t res" where
  "prvReturnItemByteBuf rb pucItem =
     assertR (pucItem \<ge> 0)
      (assertR (pucItem < xSize rb)
        (let rb = rb\<lparr>pucFree := pucRead rb\<rparr>
         in Inr (if flag (uxRingbufferFlags rb) rbBUFFER_FULL_FLAG
                 then rb\<lparr>uxRingbufferFlags := uxRingbufferFlags rb AND NOT rbBUFFER_FULL_FLAG\<rparr>
                 else rb)))"

section \<open>Largest item that can be sent now\<close>

definition prvGetCurMaxSizeNoSplit :: "Ringbuffer_t \<Rightarrow> nat" where
  "prvGetCurMaxSizeNoSplit rb =
     (if flag (uxRingbufferFlags rb) rbBUFFER_FULL_FLAG then 0
      else let xFreeSize =
                 (if pucAcquire rb < pucFree rb then int (pucFree rb) - int (pucAcquire rb)
                  else let xSize1 = usub (xSize rb) (pucAcquire rb); xSize2 = pucFree rb
                       in int (if xSize1 > xSize2 then xSize1 else xSize2));
               xFreeSize = xFreeSize - int rbHEADER_SIZE
           in if xFreeSize < 0 then 0
              else if xFreeSize > int (xMaxItemSize rb) then xMaxItemSize rb
              else nat xFreeSize)"

definition prvGetCurMaxSizeAllowSplit :: "Ringbuffer_t \<Rightarrow> nat" where
  "prvGetCurMaxSizeAllowSplit rb =
     (if flag (uxRingbufferFlags rb) rbBUFFER_FULL_FLAG then 0
      else let xFreeSize =
                 (if pucAcquire rb = 0 \<and> pucFree rb = 0
                  then int (xSize rb) - int rbHEADER_SIZE
                  else if pucAcquire rb < pucFree rb
                  then (int (pucFree rb) - int (pucAcquire rb)) - int rbHEADER_SIZE
                  else int (pucFree rb) + (int (xSize rb) - int (pucAcquire rb))
                         - int (rbHEADER_SIZE * 2))
           in if xFreeSize < 0 then 0
              else if xFreeSize > int (xMaxItemSize rb) then xMaxItemSize rb
              else nat xFreeSize)"

definition prvGetCurMaxSizeByteBuf :: "Ringbuffer_t \<Rightarrow> nat" where
  "prvGetCurMaxSizeByteBuf rb =
     (if flag (uxRingbufferFlags rb) rbBUFFER_FULL_FLAG then 0
      else let xFreeSize = int (pucFree rb) - int (pucAcquire rb)
           in nat (if xFreeSize \<le> 0 then xFreeSize + int (xSize rb) else xFreeSize))"

section \<open>The function pointers\<close>

definition xCheckItemFits :: "Ringbuffer_t \<Rightarrow> nat \<Rightarrow> bool res" where
  "xCheckItemFits rb n =
     (case xMethods rb of
        RINGBUF_TYPE_NOSPLIT \<Rightarrow> prvCheckItemFitsDefault rb n
      | RINGBUF_TYPE_ALLOWSPLIT \<Rightarrow> prvCheckItemFitsDefault rb n
      | RINGBUF_TYPE_BYTEBUF \<Rightarrow> prvCheckItemFitsByteBuffer rb n)"

definition vCopyItem :: "Ringbuffer_t \<Rightarrow> byte list \<Rightarrow> Ringbuffer_t res" where
  "vCopyItem rb item =
     (case xMethods rb of
        RINGBUF_TYPE_NOSPLIT \<Rightarrow> prvCopyItemNoSplit rb item
      | RINGBUF_TYPE_ALLOWSPLIT \<Rightarrow> prvCopyItemAllowSplit rb item
      | RINGBUF_TYPE_BYTEBUF \<Rightarrow> prvCopyItemByteBuf rb item)"

definition pvGetItem :: "Ringbuffer_t \<Rightarrow> nat \<Rightarrow> (Ringbuffer_t \<times> nat \<times> nat \<times> bool) res" where
  "pvGetItem rb xMaxSize =
     (case xMethods rb of
        RINGBUF_TYPE_NOSPLIT \<Rightarrow> prvGetItemDefault rb
      | RINGBUF_TYPE_ALLOWSPLIT \<Rightarrow> prvGetItemDefault rb
      | RINGBUF_TYPE_BYTEBUF \<Rightarrow>
          bindR (prvGetItemByteBuf rb xMaxSize) (\<lambda>(rb, p, n). Inr (rb, p, n, False)))"

definition vReturnItem :: "Ringbuffer_t \<Rightarrow> nat \<Rightarrow> Ringbuffer_t res" where
  "vReturnItem rb item =
     (case xMethods rb of
        RINGBUF_TYPE_NOSPLIT \<Rightarrow> prvReturnItemDefault rb item
      | RINGBUF_TYPE_ALLOWSPLIT \<Rightarrow> prvReturnItemDefault rb item
      | RINGBUF_TYPE_BYTEBUF \<Rightarrow> prvReturnItemByteBuf rb item)"

definition xGetCurMaxSize :: "Ringbuffer_t \<Rightarrow> nat" where
  "xGetCurMaxSize rb =
     (case xMethods rb of
        RINGBUF_TYPE_NOSPLIT \<Rightarrow> prvGetCurMaxSizeNoSplit rb
      | RINGBUF_TYPE_ALLOWSPLIT \<Rightarrow> prvGetCurMaxSizeAllowSplit rb
      | RINGBUF_TYPE_BYTEBUF \<Rightarrow> prvGetCurMaxSizeByteBuf rb)"

end
