(* ===== verification/Ring.thy ===== *)
theory Ring
  imports Idf_Base
begin

text \<open>
  Positions on a ring of \<open>S\<close> bytes: advancing, the distance from one position to another, the
  positions a run of bytes covers, and the contents of such a run. Shared by the ring buffer theories.
\<close>

named_theorems ring_simps \<open>case splits for ring positions\<close>

definition radv :: "nat \<Rightarrow> nat \<Rightarrow> nat \<Rightarrow> nat" where
  "radv S p k = (p + k) mod S"

definition rdist :: "nat \<Rightarrow> nat \<Rightarrow> nat \<Rightarrow> nat" where
  "rdist S p q = (if p \<le> q then q - p else q + S - p)"

definition rrun :: "nat \<Rightarrow> nat \<Rightarrow> nat \<Rightarrow> nat set" where
  "rrun S p n = radv S p ` {..<n}"

definition rbytes :: "mem \<Rightarrow> nat \<Rightarrow> nat \<Rightarrow> nat \<Rightarrow> byte list" where
  "rbytes m S p n = map (\<lambda>i. m ! radv S p i) [0..<n]"

lemma radv_if [ring_simps]:
  assumes "p < S" and "k \<le> S"
  shows "radv S p k = (if p + k < S then p + k else p + k - S)"
  using assms by (auto simp: radv_def mod_if)

lemma radv_less [simp]: "0 < S \<Longrightarrow> radv S p k < S"
  by (simp add: radv_def)

lemma radv_0 [simp]: "p < S \<Longrightarrow> radv S p 0 = p"
  by (simp add: radv_def)

lemma radv_full [simp]: "p < S \<Longrightarrow> radv S p S = p"
  by (simp add: radv_def)

lemma radv_radv [simp]: "radv S (radv S p a) b = radv S p (a + b)"
  by (simp add: radv_def mod_simps add.assoc)

lemma rdist_less: "p < S \<Longrightarrow> q < S \<Longrightarrow> rdist S p q < S"
  by (auto simp: rdist_def)

lemma rdist_radv [simp]: "p < S \<Longrightarrow> k < S \<Longrightarrow> rdist S p (radv S p k) = k"
  by (auto simp: radv_if rdist_def)

lemma radv_rdist [simp]: "p < S \<Longrightarrow> q < S \<Longrightarrow> radv S p (rdist S p q) = q"
  by (auto simp: radv_if rdist_def)

lemma rdist_behind:
  "p < S \<Longrightarrow> i < a \<Longrightarrow> a \<le> S \<Longrightarrow> rdist S (radv S p a) (radv S p i) = i + S - a"
  by (auto simp: radv_if rdist_def)

lemma radv_inject: "p < S \<Longrightarrow> a < S \<Longrightarrow> b < S \<Longrightarrow> radv S p a = radv S p b \<longleftrightarrow> a = b"
  by (metis rdist_radv)

lemma radv_eq_self: "p < S \<Longrightarrow> k \<le> S \<Longrightarrow> radv S p k = p \<longleftrightarrow> k = 0 \<or> k = S"
  by (auto simp: radv_if split: if_splits)

lemma radv_cases:
  assumes "p < S" and "T \<le> S" and "a = radv S p T"
  shows "T = 0 \<and> a = p \<or> T = S \<and> a = p \<or> p < a \<and> T = a - p \<or> a < p \<and> T = S - (p - a)"
proof (cases "p + T < S")
  case True
  then have "a = p + T" using assms by (simp add: radv_if)
  then show ?thesis by auto
next
  case False
  then have "a = p + T - S" using assms by (simp add: radv_if)
  then show ?thesis using False assms(1,2) by linarith
qed

section \<open>Runs of positions\<close>

lemma rrun_iff:
  assumes "p < S" and "n \<le> S"
  shows "q \<in> rrun S p n \<longleftrightarrow> q < S \<and> rdist S p q < n"
proof
  assume "q \<in> rrun S p n"
  then show "q < S \<and> rdist S p q < n"
    using assms by (auto simp: rrun_def)
next
  assume "q < S \<and> rdist S p q < n"
  then show "q \<in> rrun S p n"
    unfolding rrun_def using assms by (intro image_eqI [of _ _ "rdist S p q"]) auto
qed

lemma rrun_linear: "p + n \<le> S \<Longrightarrow> rrun S p n = {p..<p + n}"
proof -
  assume "p + n \<le> S"
  then have "rrun S p n = (+) p ` {0..<n}"
    by (auto simp: rrun_def radv_def lessThan_atLeast0 intro!: image_cong)
  then show ?thesis
    by (simp only: image_add_atLeastLessThan add_0 add.commute)
qed

lemma rrun_add: "rrun S p (a + b) = rrun S p a \<union> rrun S (radv S p a) b"
proof -
  have "{..<a + b} = {..<a} \<union> (\<lambda>i. a + i) ` {..<b}"
    by (simp add: lessThan_atLeast0 image_add_atLeastLessThan ivl_disj_un_two(3) add.commute)
  then show ?thesis
    by (simp add: rrun_def image_Un image_image)
qed

lemma rrun_mono: "a \<le> b \<Longrightarrow> rrun S p a \<subseteq> rrun S p b"
  by (auto simp: rrun_def)

lemma rrun_disjoint:
  assumes "p < S" and "a + b \<le> S"
  shows "rrun S p a \<inter> rrun S (radv S p a) b = {}"
proof -
  have "radv S p i \<noteq> radv S p (a + j)" if "i < a" "j < b" for i j
    using that assms by (simp add: radv_inject)
  then show ?thesis
    by (auto simp: rrun_def)
qed

section \<open>Contents of runs\<close>

lemma length_rbytes [simp]: "length (rbytes m S p n) = n"
  by (simp add: rbytes_def)

lemma nth_rbytes [simp]: "i < n \<Longrightarrow> rbytes m S p n ! i = m ! radv S p i"
  by (simp add: rbytes_def)

lemma rbytes_add: "rbytes m S p (a + b) = rbytes m S p a @ rbytes m S (radv S p a) b"
  by (rule nth_equalityI) (auto simp: nth_append)

lemma rbytes_0 [simp]: "rbytes m S p 0 = []"
  by (simp add: rbytes_def)

lemma rbytes_linear:
  assumes "p + n \<le> length m" and "S = length m"
  shows "rbytes m S p n = mem_read p n m"
  by (rule nth_equalityI) (use assms in \<open>auto simp: nth_mem_read radv_def\<close>)

lemma rbytes_agree:
  assumes "mem_agree (rrun S p n) m m'" and "length m = S" and "0 < S"
  shows "rbytes m S p n = rbytes m' S p n"
  by (rule nth_equalityI) (use assms in \<open>auto simp: mem_agree_def rrun_def\<close>)

text \<open>Writing a run of bytes that may wrap once, as two contiguous copies.\<close>

definition rwrite :: "nat \<Rightarrow> nat \<Rightarrow> byte list \<Rightarrow> mem \<Rightarrow> mem" where
  "rwrite S p bs m =
     (if S - p < length bs
      then mem_write 0 (drop (S - p) bs) (mem_write p (take (S - p) bs) m)
      else mem_write p bs m)"

lemma length_rwrite [simp]:
  "length m = S \<Longrightarrow> p < S \<Longrightarrow> length bs \<le> S \<Longrightarrow> length (rwrite S p bs m) = S"
  by (auto simp: rwrite_def)

lemma nth_rwrite:
  assumes "length m = S" and "p < S" and "length bs \<le> S" and "q < S"
  shows "rwrite S p bs m ! q = (if rdist S p q < length bs then bs ! rdist S p q else m ! q)"
  using assms by (auto simp: rwrite_def nth_mem_write rdist_def add.commute)

lemma rbytes_rwrite:
  assumes "length m = S" and "p < S" and "length bs \<le> S"
  shows "rbytes (rwrite S p bs m) S p (length bs) = bs"
  by (rule nth_equalityI) (use assms in \<open>auto simp: nth_rwrite\<close>)

lemma rwrite_agree:
  assumes "length m = S" and "p < S" and "a + length bs \<le> S"
  shows "mem_agree (rrun S p a) m (rwrite S (radv S p a) bs m)"
proof -
  have "\<not> rdist S (radv S p a) (radv S p i) < length bs" if "i < a" for i
    using that assms rdist_behind [of p S i a] by simp
  then show ?thesis
    using assms by (auto simp: mem_agree_def nth_rwrite rrun_def)
qed

end
