(* ===== verification/Ringbuf_Facts.thy ===== *)
theory Ringbuf_Facts
  imports Ringbuf Ring
begin

text \<open>
  Basic facts about the macros of \<^verbatim>\<open>ringbuf.c\<close>: the flag bits do not overlap, the alignment macro rounds
  up to a multiple of four, a header written is the header read back.
\<close>

section \<open>Flags\<close>

lemma flag_or [simp]: "flag (a OR b) f \<longleftrightarrow> flag a f \<or> flag b f"
  by (simp add: flag_def bit.conj_disj_distrib2 or_eq_0_iff)

lemma flag_and_not: "flag (a AND NOT g) f \<longleftrightarrow> flag a (f AND NOT g)"
  by (simp add: flag_def and.commute and.left_commute and.assoc)

lemma flag_zero [simp]: "\<not> flag 0 f" "\<not> flag w 0"
  by (simp_all add: flag_def)

lemmas ring_flag_defs = rbALLOW_SPLIT_FLAG_def rbBYTE_BUFFER_FLAG_def rbBUFFER_FULL_FLAG_def
  rbBUFFER_STATIC_FLAG_def
lemmas item_flag_defs = rbITEM_FREE_FLAG_def rbITEM_DUMMY_DATA_FLAG_def rbITEM_SPLIT_FLAG_def
  rbITEM_WRITTEN_FLAG_def

lemma ring_flags_distinct [simp]:
  "flag rbBUFFER_FULL_FLAG rbBUFFER_FULL_FLAG"
  "\<not> flag rbBUFFER_FULL_FLAG rbALLOW_SPLIT_FLAG"
  "\<not> flag rbBUFFER_FULL_FLAG rbBYTE_BUFFER_FLAG"
  "flag rbALLOW_SPLIT_FLAG rbALLOW_SPLIT_FLAG"
  "\<not> flag rbALLOW_SPLIT_FLAG rbBUFFER_FULL_FLAG"
  "\<not> flag rbALLOW_SPLIT_FLAG rbBYTE_BUFFER_FLAG"
  "flag rbBYTE_BUFFER_FLAG rbBYTE_BUFFER_FLAG"
  "\<not> flag rbBYTE_BUFFER_FLAG rbBUFFER_FULL_FLAG"
  "\<not> flag rbBYTE_BUFFER_FLAG rbALLOW_SPLIT_FLAG"
  by (simp_all add: flag_def ring_flag_defs)

lemma ring_flags_cleared [simp]:
  "\<not> flag (w AND NOT rbBUFFER_FULL_FLAG) rbBUFFER_FULL_FLAG"
  "flag (w AND NOT rbBUFFER_FULL_FLAG) rbALLOW_SPLIT_FLAG \<longleftrightarrow> flag w rbALLOW_SPLIT_FLAG"
  "flag (w AND NOT rbBUFFER_FULL_FLAG) rbBYTE_BUFFER_FLAG \<longleftrightarrow> flag w rbBYTE_BUFFER_FLAG"
  unfolding flag_and_not by (simp_all add: ring_flag_defs)

lemma item_flags_distinct [simp]:
  "flag rbITEM_FREE_FLAG rbITEM_FREE_FLAG"
  "\<not> flag rbITEM_FREE_FLAG rbITEM_DUMMY_DATA_FLAG"
  "\<not> flag rbITEM_FREE_FLAG rbITEM_SPLIT_FLAG"
  "\<not> flag rbITEM_FREE_FLAG rbITEM_WRITTEN_FLAG"
  "flag rbITEM_DUMMY_DATA_FLAG rbITEM_DUMMY_DATA_FLAG"
  "\<not> flag rbITEM_DUMMY_DATA_FLAG rbITEM_FREE_FLAG"
  "\<not> flag rbITEM_DUMMY_DATA_FLAG rbITEM_SPLIT_FLAG"
  "\<not> flag rbITEM_DUMMY_DATA_FLAG rbITEM_WRITTEN_FLAG"
  "flag rbITEM_SPLIT_FLAG rbITEM_SPLIT_FLAG"
  "\<not> flag rbITEM_SPLIT_FLAG rbITEM_FREE_FLAG"
  "\<not> flag rbITEM_SPLIT_FLAG rbITEM_DUMMY_DATA_FLAG"
  "\<not> flag rbITEM_SPLIT_FLAG rbITEM_WRITTEN_FLAG"
  "flag rbITEM_WRITTEN_FLAG rbITEM_WRITTEN_FLAG"
  "\<not> flag rbITEM_WRITTEN_FLAG rbITEM_FREE_FLAG"
  "\<not> flag rbITEM_WRITTEN_FLAG rbITEM_DUMMY_DATA_FLAG"
  "\<not> flag rbITEM_WRITTEN_FLAG rbITEM_SPLIT_FLAG"
  by (simp_all add: flag_def item_flag_defs)

lemma item_split_cleared [simp]:
  "\<not> flag (w AND NOT rbITEM_SPLIT_FLAG) rbITEM_SPLIT_FLAG"
  "flag (w AND NOT rbITEM_SPLIT_FLAG) rbITEM_FREE_FLAG \<longleftrightarrow> flag w rbITEM_FREE_FLAG"
  "flag (w AND NOT rbITEM_SPLIT_FLAG) rbITEM_DUMMY_DATA_FLAG \<longleftrightarrow> flag w rbITEM_DUMMY_DATA_FLAG"
  "flag (w AND NOT rbITEM_SPLIT_FLAG) rbITEM_WRITTEN_FLAG \<longleftrightarrow> flag w rbITEM_WRITTEN_FLAG"
  unfolding flag_and_not by (simp_all add: item_flag_defs)

section \<open>Alignment\<close>

lemma rbCHECK_ALIGNED_iff [simp]: "rbCHECK_ALIGNED p \<longleftrightarrow> p mod 4 = 0"
proof -
  have "(of_nat p AND mask 2 :: u32) = of_nat (p mod 4)"
    by (simp add: take_bit_of_nat flip: take_bit_eq_mask) (simp add: take_bit_eq_mod)
  moreover have "(of_nat (p mod 4) :: u32) = 0 \<longleftrightarrow> p mod 4 = 0"
    using mod_less_divisor [of 4 p] by (auto simp: word_of_nat_eq_0_iff dest: dvd_imp_le)
  ultimately show ?thesis
    by (simp add: rbCHECK_ALIGNED_def rbALIGN_MASK_def mask_eq_exp_minus_1)
qed

definition align4 :: "nat \<Rightarrow> nat" where
  "align4 n = (n + 3) div 4 * 4"

lemma and_not_mask_2: "(x AND NOT 3 :: u32) = push_bit 2 (drop_bit 2 x)"
proof -
  have "(x AND NOT (mask 2) :: u32) = push_bit 2 (drop_bit 2 x)"
    by (rule bit_word_eqI) (auto simp: bit_simps le_add_diff_inverse simp del: add_2_eq_Suc)
  then show ?thesis by (simp add: mask_eq_exp_minus_1)
qed

lemma rbALIGN_SIZE_eq:
  assumes "n + 3 < 2 ^ 32"
  shows "rbALIGN_SIZE n = align4 n"
proof -
  have w: "of_nat n + rbALIGN_MASK = (of_nat (n + 3) :: u32)"
    by (simp add: rbALIGN_MASK_def)
  have u: "unat (of_nat (n + 3) :: u32) = n + 3"
    using assms by (subst unat_of_nat) simp
  have "(n + 3) div 4 * 4 < 2 ^ 32"
    using assms by (rule le_less_trans [rotated]) simp
  then have "take_bit 32 (push_bit 2 (drop_bit 2 (take_bit 32 (n + 3)))) = align4 n"
    using assms by (simp add: push_bit_eq_mult drop_bit_eq_div take_bit_eq_mod align4_def)
  then show ?thesis
    unfolding rbALIGN_SIZE_def w unfolding rbALIGN_MASK_def and_not_mask_2
      unsigned_push_bit_eq unsigned_drop_bit_eq u by simp
qed

lemma align4_bounds: "n \<le> align4 n" "align4 n \<le> n + 3"
  by (auto simp: align4_def) 

lemma align4_mod [simp]: "align4 n mod 4 = 0"
  by (simp add: align4_def)

lemma align4_aligned: "n mod 4 = 0 \<Longrightarrow> align4 n = n"
  by (auto simp: align4_def)

lemma align4_0 [simp]: "align4 0 = 0"
  by (simp add: align4_def)

lemma align4_le_iff: "k mod 4 = 0 \<Longrightarrow> align4 n \<le> k \<longleftrightarrow> n \<le> k"
  unfolding align4_def by presburger

section \<open>Headers\<close>

lemma length_hdr_bytes [simp]: "length (hdr_bytes h) = rbHEADER_SIZE"
  by (simp add: hdr_bytes_def rbHEADER_SIZE_def)

lemma get_hdr_put [simp]:
  assumes "p + rbHEADER_SIZE \<le> length m" and "xItemLen h < 2 ^ 32"
  shows "get_hdr p (mem_write p (hdr_bytes h) m) = Inr h"
proof -
  let ?m = "mem_write p (hdr_bytes h) m"
  have "mem_read p 8 ?m = hdr_bytes h"
    using assms by (simp add: rbHEADER_SIZE_def)
  then have "mem_read p 4 ?m @ mem_read (p + 4) 4 ?m = hdr_bytes h"
    using mem_read_append [of p 4 4 ?m] by simp
  then have "mem_read p 4 ?m = le32 (xItemLen h)" "mem_read (p + 4) 4 ?m = le32 (unat (uxItemFlags h))"
    using assms by (simp_all add: hdr_bytes_def rbHEADER_SIZE_def append_eq_append_conv)
  moreover have "unat (uxItemFlags h) < 2 ^ 32"
    using unsigned_less [of "uxItemFlags h"] by simp
  ultimately show ?thesis
    using assms by (simp add: get_hdr_def)
qed

lemma get_hdr_agree:
  assumes "mem_agree {p..<p + rbHEADER_SIZE} m m'"
  shows "get_hdr p m = get_hdr p m'"
proof (cases "p + rbHEADER_SIZE \<le> length m")
  case True
  have "mem_agree {p..<p + 4} m m'" "mem_agree {p + 4..<p + 4 + 4} m m'"
    using assms by (auto elim!: mem_agree_subset simp: rbHEADER_SIZE_def)
  then have "mem_read p 4 m = mem_read p 4 m'" "mem_read (p + 4) 4 m = mem_read (p + 4) 4 m'"
    using True by (auto intro!: mem_read_agree simp: rbHEADER_SIZE_def)
  then show ?thesis
    using assms by (simp add: get_hdr_def mem_agree_def)
next
  case False
  then show ?thesis
    using assms by (simp add: get_hdr_def mem_agree_def)
qed

lemma put_hdr_Inr: "p + rbHEADER_SIZE \<le> length m \<Longrightarrow> put_hdr p h m = Inr (mem_write p (hdr_bytes h) m)"
  by (simp add: put_hdr_def mem_store_def)

end
