(* ===== verification/Ringbuf_Chain.thy ===== *)
theory Ringbuf_Chain
  imports Ringbuf_Facts
begin

text \<open>
  The layout of no-split and allow-split buffers: the storage between two pointers is a chain of
  blocks, each an item with its header or the dummy block that fills the end of the storage. A write
  outside the run a chain covers leaves the chain as it is.
\<close>

datatype blk = Item (bfl: u32) (bdat: "byte list") | Dummy (bfl: u32)

fun is_item :: "blk \<Rightarrow> bool" where
  "is_item (Item _ _) = True"
| "is_item (Dummy _) = False"

fun blk_hdr :: "blk \<Rightarrow> ItemHeader_t" where
  "blk_hdr (Item fl ds) = \<lparr>xItemLen = length ds, uxItemFlags = fl\<rparr>"
| "blk_hdr (Dummy fl) = \<lparr>xItemLen = 0, uxItemFlags = fl\<rparr>"

fun blk_size :: "blk \<Rightarrow> nat" where
  "blk_size (Item fl ds) = rbHEADER_SIZE + align4 (length ds)"
| "blk_size (Dummy fl) = rbHEADER_SIZE"

fun blk_data_at :: "mem \<Rightarrow> nat \<Rightarrow> blk \<Rightarrow> bool" where
  "blk_data_at m p (Item fl ds) = (mem_read (p + rbHEADER_SIZE) (length ds) m = ds)"
| "blk_data_at m p (Dummy fl) = True"

text \<open>A position where a header fits.\<close>

definition vpos :: "nat \<Rightarrow> nat \<Rightarrow> bool" where
  "vpos S p \<longleftrightarrow> S mod 4 = 0 \<and> p mod 4 = 0 \<and> p + rbHEADER_SIZE \<le> S"

definition blk_at :: "mem \<Rightarrow> nat \<Rightarrow> nat \<Rightarrow> blk \<Rightarrow> bool" where
  "blk_at m S p b \<longleftrightarrow>
     p + blk_size b \<le> S \<and> get_hdr p m = Inr (blk_hdr b) \<and> blk_data_at m p b \<and>
     (flag (bfl b) rbITEM_DUMMY_DATA_FLAG \<longleftrightarrow> \<not> is_item b)"

text \<open>The bytes from a block to the next one: to the end of the storage when no header fits after it.\<close>

fun bspan :: "nat \<Rightarrow> nat \<Rightarrow> blk \<Rightarrow> nat" where
  "bspan S p (Item fl ds) =
     (let n = rbHEADER_SIZE + align4 (length ds)
      in if S - (p + n) < rbHEADER_SIZE then S - p else n)"
| "bspan S p (Dummy fl) = S - p"

definition bnext :: "nat \<Rightarrow> nat \<Rightarrow> blk \<Rightarrow> nat" where
  "bnext S p b = radv S p (bspan S p b)"

fun chain :: "mem \<Rightarrow> nat \<Rightarrow> nat \<Rightarrow> blk list \<Rightarrow> nat \<Rightarrow> bool" where
  "chain m S p [] q \<longleftrightarrow> p = q"
| "chain m S p (b # bs) q \<longleftrightarrow> blk_at m S p b \<and> chain m S (bnext S p b) bs q"

fun tspan :: "nat \<Rightarrow> nat \<Rightarrow> blk list \<Rightarrow> nat" where
  "tspan S p [] = 0"
| "tspan S p (b # bs) = bspan S p b + tspan S (bnext S p b) bs"

section \<open>Positions\<close>

lemma vpos_less [simp]: "vpos S p \<Longrightarrow> p < S"
  by (simp add: vpos_def rbHEADER_SIZE_def)

lemma vpos_0: "vpos S p \<Longrightarrow> vpos S 0"
  by (simp add: vpos_def)

lemma blk_size_mod [simp]: "blk_size b mod 4 = 0"
  by (cases b) (simp_all add: rbHEADER_SIZE_def mod_add_eq [symmetric])

lemma blk_size_ge: "rbHEADER_SIZE \<le> blk_size b"
  by (cases b) simp_all

lemma bspan_bounds:
  assumes "p + blk_size b \<le> S"
  shows "blk_size b \<le> bspan S p b" and "p + bspan S p b \<le> S"
  using assms by (cases b; auto simp: Let_def)+

lemma bspan_cases:
  assumes "p + blk_size b \<le> S"
  shows "p + bspan S p b = S \<or> (bspan S p b = blk_size b \<and> p + blk_size b + rbHEADER_SIZE \<le> S)"
  using assms by (cases b) (auto simp: Let_def)

lemma bspan_pos: "p + blk_size b \<le> S \<Longrightarrow> 0 < bspan S p b"
  using bspan_bounds(1) [of p b S] blk_size_ge [of b] by (simp add: rbHEADER_SIZE_def)

lemma bnext_vpos:
  assumes v: "vpos S p" and "p + blk_size b \<le> S"
  shows "vpos S (bnext S p b)"
proof -
  consider "p + bspan S p b = S" | "bspan S p b = blk_size b" "p + blk_size b + rbHEADER_SIZE \<le> S"
    using bspan_cases [OF assms(2)] by blast
  then show ?thesis
  proof cases
    case 1
    then show ?thesis using v by (simp add: bnext_def radv_def vpos_def)
  next
    case 2
    then have "bnext S p b = p + blk_size b"
      by (simp add: bnext_def radv_def rbHEADER_SIZE_def)
    then show ?thesis
      using v 2 by (simp add: vpos_def mod_add_eq [symmetric, of p])
  qed
qed

lemma bnext_less [simp]: "p < S \<Longrightarrow> bnext S p b < S"
  by (simp add: bnext_def)

lemma chain_vpos: "chain m S p bs q \<Longrightarrow> vpos S p \<Longrightarrow> vpos S q"
  by (induction bs arbitrary: p) (auto simp: blk_at_def intro: bnext_vpos)

lemma chain_end: "chain m S p bs q \<Longrightarrow> p < S \<Longrightarrow> q = radv S p (tspan S p bs)"
proof (induction bs arbitrary: p)
  case (Cons b bs)
  then have "q = radv S (bnext S p b) (tspan S (bnext S p b) bs)" by simp
  then show ?case by (simp add: bnext_def)
qed simp

lemma chain_append [simp]:
  "chain m S p (bs @ cs) q \<longleftrightarrow> (\<exists>r. chain m S p bs r \<and> chain m S r cs q)"
  by (induction bs arbitrary: p) auto

lemma tspan_append:
  "p < S \<Longrightarrow> tspan S p (bs @ cs) = tspan S p bs + tspan S (radv S p (tspan S p bs)) cs"
  by (induction bs arbitrary: p) (auto simp: bnext_def)

lemma radv_tspan_snoc:
  "p < S \<Longrightarrow> radv S p (tspan S p (bs @ [b])) = bnext S (radv S p (tspan S p bs)) b"
  by (simp add: tspan_append bnext_def)

lemma tspan_ge_length: "chain m S p bs q \<Longrightarrow> length bs \<le> tspan S p bs"
proof (induction bs arbitrary: p)
  case (Cons b bs)
  have "0 < bspan S p b" using Cons.prems by (simp add: blk_at_def bspan_pos)
  moreover have "length bs \<le> tspan S (bnext S p b) bs" using Cons by simp
  ultimately show ?case by simp
qed simp

lemma tspan_pos: "chain m S p bs q \<Longrightarrow> bs \<noteq> [] \<Longrightarrow> 0 < tspan S p bs"
  using tspan_ge_length [of m S p bs q] by (cases bs) auto

section \<open>Frames\<close>

lemma blk_at_agree:
  assumes b: "blk_at m S p b" and ag: "mem_agree {p..<p + bspan S p b} m m'" and "length m = S"
  shows "blk_at m' S p b"
proof -
  have sz: "p + blk_size b \<le> S" using b by (simp add: blk_at_def)
  have le: "blk_size b \<le> bspan S p b" using bspan_bounds(1) [OF sz] .
  have "mem_agree {p..<p + rbHEADER_SIZE} m m'"
    using ag by (rule mem_agree_subset) (use le blk_size_ge [of b] in auto)
  then have h: "get_hdr p m' = get_hdr p m"
    using get_hdr_agree by simp
  have d: "blk_data_at m' p b"
  proof (cases b)
    case (Item fl ds)
    have "mem_agree {p + rbHEADER_SIZE..<p + rbHEADER_SIZE + length ds} m m'"
      using ag by (rule mem_agree_subset)
        (use le Item align4_bounds(1) [of "length ds"] in auto)
    then have "mem_read (p + rbHEADER_SIZE) (length ds) m = mem_read (p + rbHEADER_SIZE) (length ds) m'"
      using sz Item align4_bounds(1) [of "length ds"] \<open>length m = S\<close>
      by (intro mem_read_agree) auto
    then show ?thesis using b Item by (simp add: blk_at_def)
  qed simp
  show ?thesis using b h d by (simp add: blk_at_def)
qed

lemma blk_run:
  assumes "blk_at m S p b"
  shows "{p..<p + bspan S p b} = rrun S p (bspan S p b)"
  using assms bspan_bounds(2) [of p b S] by (simp add: blk_at_def rrun_linear)

lemma chain_agree:
  assumes "chain m S p bs q" and "mem_agree (rrun S p (tspan S p bs)) m m'" and "length m = S" and "p < S"
  shows "chain m' S p bs q"
  using assms
proof (induction bs arbitrary: p)
  case (Cons b bs)
  have b: "blk_at m S p b" using Cons.prems(1) by simp
  have un: "rrun S p (tspan S p (b # bs)) =
      rrun S p (bspan S p b) \<union> rrun S (bnext S p b) (tspan S (bnext S p b) bs)"
    by (simp add: rrun_add bnext_def)
  have "mem_agree {p..<p + bspan S p b} m m'"
    using Cons.prems(2) unfolding un blk_run [OF b] by (rule mem_agree_subset) blast
  then have "blk_at m' S p b"
    using blk_at_agree [OF b] Cons.prems(3) by blast
  moreover have "mem_agree (rrun S (bnext S p b) (tspan S (bnext S p b) bs)) m m'"
    using Cons.prems(2) unfolding un by (rule mem_agree_subset) blast
  then have "chain m' S (bnext S p b) bs q"
    using Cons.IH [of "bnext S p b"] Cons.prems by simp
  ultimately show ?case by simp
qed simp

end
