(* ===== verification/Ringbuf_Skip.thy ===== *)
theory Ringbuf_Skip
  imports Ringbuf_Chain
begin

text \<open>
  The loops of \<^verbatim>\<open>prvSendItemDoneNoSplit\<close> and \<^verbatim>\<open>prvReturnItemDefault\<close> are one loop over a chain of
  blocks: it moves a pointer over the longest prefix of blocks that carry a flag or are dummies.
\<close>

fun skip_loop :: "nat \<Rightarrow> u32 \<Rightarrow> nat \<Rightarrow> nat \<Rightarrow> nat \<Rightarrow> mem \<Rightarrow> (nat \<times> mem) res" where
  "skip_loop 0 F S p stop m = Inl Out_of_fuel"
| "skip_loop (Suc n) F S p stop m =
     bindR (get_hdr p m)
       (\<lambda>h. if (flag (uxItemFlags h) F \<or> flag (uxItemFlags h) rbITEM_DUMMY_DATA_FLAG) \<and> p \<noteq> stop
            then bindR
              (if flag (uxItemFlags h) rbITEM_DUMMY_DATA_FLAG
               then bindR (put_hdr p (h\<lparr>uxItemFlags := uxItemFlags h OR F\<rparr>) m) (\<lambda>m. Inr (0, m))
               else let q = p + uadd (rbALIGN_SIZE (xItemLen h)) rbHEADER_SIZE
                    in assertR (q \<le> S) (Inr (q, m)))
              (\<lambda>(q, m). skip_loop n F S (if usub S q < rbHEADER_SIZE then 0 else q) stop m)
            else Inr (p, m))"

lemma bindR_assoc: "bindR (bindR x f) g = bindR x (\<lambda>y. bindR (f y) g)"
  by (cases x) simp_all

lemma bindR_if: "bindR (if c then x else y) f = (if c then bindR x f else bindR y f)"
  by simp

lemma bindR_assertR: "bindR (assertR c x) f = assertR c (bindR x f)"
  by (simp add: assertR_def)

lemma bindR_cong: "(\<And>x. m = Inr x \<Longrightarrow> f x = g x) \<Longrightarrow> bindR m f = bindR m g"
  by (cases m) simp_all

lemma rb_update_same [simp]:
  "rb\<lparr>pucStorage := pucStorage rb, pucWrite := pucWrite rb\<rparr> = rb"
  "rb\<lparr>pucStorage := pucStorage rb, pucFree := pucFree rb\<rparr> = rb"
  by (cases rb; simp)+

lemma prvSkipWritten_loop:
  "prvSkipWritten n rb =
     bindR (skip_loop n rbITEM_WRITTEN_FLAG (xSize rb) (pucWrite rb) (pucAcquire rb) (pucStorage rb))
       (\<lambda>(p, m). Inr (rb\<lparr>pucStorage := m, pucWrite := p\<rparr>))"
proof (induction n arbitrary: rb)
  case (Suc n)
  have "(if c then (s\<lparr>pucWrite := 0\<rparr> :: Ringbuffer_t) else s) = s\<lparr>pucWrite := if c then 0 else pucWrite s\<rparr>"
    for c s by (cases s) simp
  then show ?case
    by (auto simp: Suc.IH bindR_assoc bindR_assertR Let_def intro!: bindR_cong)
qed simp

lemma prvSkipFreed_loop:
  "prvSkipFreed n rb =
     bindR (skip_loop n rbITEM_FREE_FLAG (xSize rb) (pucFree rb) (pucRead rb) (pucStorage rb))
       (\<lambda>(p, m). Inr (rb\<lparr>pucStorage := m, pucFree := p\<rparr>))"
proof (induction n arbitrary: rb)
  case (Suc n)
  have "(if c then (s\<lparr>pucFree := 0\<rparr> :: Ringbuffer_t) else s) = s\<lparr>pucFree := if c then 0 else pucFree s\<rparr>"
    for c s by (cases s) simp
  then show ?case
    by (auto simp: Suc.IH bindR_assoc bindR_assertR Let_def intro!: bindR_cong)
qed simp

declare prvSkipWritten.simps [simp del] prvSkipFreed.simps [simp del]

section \<open>The loop on a chain\<close>

definition skips :: "u32 \<Rightarrow> blk \<Rightarrow> bool" where
  "skips F b \<longleftrightarrow> flag (bfl b) F \<or> \<not> is_item b"

fun mark :: "u32 \<Rightarrow> blk \<Rightarrow> blk" where
  "mark F (Item fl ds) = Item fl ds"
| "mark F (Dummy fl) = Dummy (fl OR F)"

lemma bspan_mark [simp]: "bspan S p (mark F b) = bspan S p b"
  by (cases b) simp_all

lemma is_item_mark [simp]: "is_item (mark F b) = is_item b"
  by (cases b) simp_all

lemma tspan_mark [simp]: "tspan S p (map (mark F) bs) = tspan S p bs"
  by (induction bs arbitrary: p) (simp_all add: bnext_def)

definition mark_mem :: "u32 \<Rightarrow> nat \<Rightarrow> blk \<Rightarrow> mem \<Rightarrow> mem" where
  "mark_mem F p b m = (if is_item b then m else mem_write p (hdr_bytes (blk_hdr (mark F b))) m)"

lemma length_mark_mem [simp]: "p + rbHEADER_SIZE \<le> length m \<Longrightarrow> length (mark_mem F p b m) = length m"
  by (simp add: mark_mem_def)

lemma mark_mem_at:
  assumes "blk_at m S p b" and "length m = S"
  shows "blk_at (mark_mem F p b m) S p (mark F b)"
  using assms by (cases b) (auto simp: blk_at_def mark_mem_def)

lemma mark_mem_agree:
  assumes "blk_at m S p b" and "length m = S"
  shows "mem_agree (- {p..<p + bspan S p b}) m (mark_mem F p b m)"
proof -
  have "p + rbHEADER_SIZE \<le> S" "rbHEADER_SIZE \<le> bspan S p b"
    using assms(1) blk_size_ge [of b] bspan_bounds(1) [of p b S] by (auto simp: blk_at_def)
  then show ?thesis
    using assms(2) by (auto simp: mark_mem_def mem_agree_def nth_mem_write)
qed

lemma skip_loop_step:
  assumes b: "blk_at m S p b" and v: "vpos S p" and m: "length m = S" and S: "S < 2 ^ 31"
    and "p \<noteq> stop" and "skips F b"
  shows "skip_loop (Suc n) F S p stop m = skip_loop n F S (bnext S p b) stop (mark_mem F p b m)"
proof (cases b)
  case (Item fl ds)
  have sz: "p + rbHEADER_SIZE + align4 (length ds) \<le> S" using b Item by (simp add: blk_at_def)
  then have "length ds + 3 < 2 ^ 32" using S align4_bounds(1) [of "length ds"] by simp
  then have al: "rbALIGN_SIZE (length ds) = align4 (length ds)" by (rule rbALIGN_SIZE_eq)
  have "bnext S p b = (if S - (p + (rbHEADER_SIZE + align4 (length ds))) < rbHEADER_SIZE then 0
                       else p + (rbHEADER_SIZE + align4 (length ds)))"
    using sz v by (auto simp: bnext_def Item Let_def radv_def rbHEADER_SIZE_def)
  with assms Item sz al show ?thesis
    by (simp add: blk_at_def skips_def mark_mem_def add.commute add.left_commute)
next
  case (Dummy fl)
  have "bnext S p b = 0" using vpos_less [OF v] by (simp add: bnext_def Dummy radv_def)
  with assms Dummy show ?thesis
    by (simp add: blk_at_def mark_mem_def put_hdr_Inr vpos_def rbHEADER_SIZE_def)
qed

lemma skip_loop_stop:
  assumes "get_hdr p m = Inr h"
    and "p = stop \<or> \<not> (flag (uxItemFlags h) F \<or> flag (uxItemFlags h) rbITEM_DUMMY_DATA_FLAG)"
  shows "skip_loop (Suc n) F S p stop m = Inr (p, m)"
  using assms by auto

lemma get_hdr_vpos: "vpos S p \<Longrightarrow> length m = S \<Longrightarrow> \<exists>h. get_hdr p m = Inr h"
  by (simp add: get_hdr_def vpos_def)

lemma skip_loop_at_stop:
  "vpos S p \<Longrightarrow> length m = S \<Longrightarrow> 0 < n \<Longrightarrow> skip_loop n F S p p m = Inr (p, m)"
  using get_hdr_vpos [of S p m] skip_loop_stop by (cases n) blast+

lemma not_skips_hdr:
  "blk_at m S p b \<Longrightarrow> \<not> skips F b \<Longrightarrow>
   \<not> (flag (uxItemFlags (blk_hdr b)) F \<or> flag (uxItemFlags (blk_hdr b)) rbITEM_DUMMY_DATA_FLAG)"
  by (cases b) (auto simp: blk_at_def skips_def)

lemma chain_not_back:
  assumes "chain m S p (b # bs) q" and "p < S" and "tspan S p (b # bs) < S"
  shows "p \<noteq> q"
  using chain_end [OF assms(1,2)] tspan_pos [OF assms(1)] assms(2,3)
  by (metis list.distinct(1) nat_less_le radv_eq_self)

lemma skip_loop_chain:
  assumes "chain m S p bs q" and "vpos S p" and "length m = S" and "S < 2 ^ 31"
    and "tspan S p bs < S" and "length bs < n"
  shows "\<exists>m'. let ts = takeWhile (skips F) bs; p' = radv S p (tspan S p ts)
              in skip_loop n F S p q m = Inr (p', m') \<and>
                 mem_agree (- rrun S p (tspan S p ts)) m m' \<and>
                 chain m' S p (map (mark F) ts) p'"
  using assms
proof (induction bs arbitrary: p m n)
  case Nil
  then show ?case
    by (intro exI [of _ m]) (auto simp: skip_loop_at_stop Let_def mem_agree_def)
next
  case (Cons b bs)
  have b: "blk_at m S p b" and bs: "chain m S (bnext S p b) bs q" using Cons.prems by simp_all
  have p: "p < S" "p \<noteq> q" using Cons.prems chain_not_back by simp_all
  have sz: "p + blk_size b \<le> S" using b by (simp add: blk_at_def)
  obtain n' where n: "n = Suc n'" "length bs < n'" using Cons.prems by (cases n) auto
  show ?case
  proof (cases "skips F b")
    case False
    then have "skip_loop n F S p q m = Inr (p, m)"
      unfolding n using b not_skips_hdr [OF b False] by (intro skip_loop_stop) (auto simp: blk_at_def)
    with False p show ?thesis
      by (intro exI [of _ m]) (auto simp: Let_def mem_agree_def)
  next
    case True
    let ?p = "bnext S p b" and ?m = "mark_mem F p b m" and ?ts = "takeWhile (skips F) bs"
    let ?p' = "radv S ?p (tspan S ?p ?ts)"
    have le: "tspan S ?p ?ts \<le> tspan S ?p bs"
      using tspan_append [of ?p S ?ts "dropWhile (skips F) bs"] p by simp
    have run: "{p..<p + bspan S p b} = rrun S p (bspan S p b)" using blk_run [OF b] .
    have dis: "rrun S p (bspan S p b) \<inter> rrun S ?p (tspan S ?p bs) = {}"
      unfolding bnext_def using Cons.prems p by (intro rrun_disjoint) (auto simp: bnext_def)
    have lm: "length ?m = S" using Cons.prems by (simp add: vpos_def)
    have ag: "mem_agree (- rrun S p (bspan S p b)) m ?m"
      using mark_mem_agree [OF b] Cons.prems unfolding run by blast
    have "chain ?m S ?p bs q"
      using bs by (rule chain_agree) (use mem_agree_subset [OF ag] dis Cons.prems p in auto)
    from Cons.IH [OF this] bnext_vpos [OF Cons.prems(2) sz] lm Cons.prems n
    obtain m' where m': "skip_loop n' F S ?p q ?m = Inr (?p', m')"
      "mem_agree (- rrun S ?p (tspan S ?p ?ts)) ?m m'" "chain m' S ?p (map (mark F) ?ts) ?p'"
      by (auto simp: Let_def)
    have "mem_agree (rrun S p (bspan S p b)) ?m m'"
      using m'(2) by (rule mem_agree_subset) (use dis rrun_mono [OF le] in blast)
    then have "blk_at m' S p (mark F b)"
      using blk_at_agree [OF mark_mem_at [OF b Cons.prems(3)], of F m'] lm run by simp
    moreover have "mem_agree (- rrun S p (bspan S p b + tspan S ?p ?ts)) m m'"
      using mem_agree_trans [OF mem_agree_subset [OF ag] mem_agree_subset [OF m'(2)]]
      by (simp add: rrun_add bnext_def)
    moreover have "skip_loop n F S p q m = Inr (?p', m')"
      using skip_loop_step [OF b _ _ _ p(2) True] Cons.prems m'(1) n by simp
    ultimately show ?thesis
      using True m'(3) by (intro exI [of _ m']) (simp add: Let_def bnext_def)
  qed
qed

end
