(* ===== verification/Ringbuf_Items.thy ===== *)
theory Ringbuf_Items
  imports Ringbuf_Skip
begin

text \<open>
  The invariant of no-split and allow-split buffers and what each operation does to it. The storage
  from \<^verbatim>\<open>pucFree\<close> to \<^verbatim>\<open>pucAcquire\<close> is a chain of blocks in three parts: items that were retrieved and
  not yet reclaimed, items that wait to be retrieved, and items that are acquired and not yet
  complete; \<^verbatim>\<open>pucRead\<close> and \<^verbatim>\<open>pucWrite\<close> point between the parts.
\<close>

text \<open>A dummy block is always followed by the item that did not fit in its place.\<close>

fun dummies_ok :: "blk list \<Rightarrow> bool" where
  "dummies_ok [] = True"
| "dummies_ok (Item fl ds # bs) = dummies_ok bs"
| "dummies_ok (Dummy fl # bs) = (bs \<noteq> [] \<and> is_item (hd bs) \<and> dummies_ok bs)"

definition n_items :: "blk list \<Rightarrow> nat" where
  "n_items bs = length (filter is_item bs)"

definition n_written :: "blk list \<Rightarrow> nat" where
  "n_written bs = length (filter (\<lambda>b. is_item b \<and> flag (bfl b) rbITEM_WRITTEN_FLAG) bs)"

definition item_cfg :: "Ringbuffer_t \<Rightarrow> bool" where
  "item_cfg rb \<longleftrightarrow>
     \<not> flag (uxRingbufferFlags rb) rbBYTE_BUFFER_FLAG \<and>
     (xMethods rb = RINGBUF_TYPE_NOSPLIT \<and> \<not> flag (uxRingbufferFlags rb) rbALLOW_SPLIT_FLAG \<and>
        xMaxItemSize rb + rbHEADER_SIZE = align4 (xSize rb div 2) \<or>
      xMethods rb = RINGBUF_TYPE_ALLOWSPLIT \<and> flag (uxRingbufferFlags rb) rbALLOW_SPLIT_FLAG \<and>
        xMaxItemSize rb + 2 * rbHEADER_SIZE = xSize rb)"

definition it_inv :: "Ringbuffer_t \<Rightarrow> blk list \<Rightarrow> blk list \<Rightarrow> blk list \<Rightarrow> bool" where
  "it_inv rb xs ys zs \<longleftrightarrow>
     length (pucStorage rb) = xSize rb \<and> xSize rb < 2 ^ 31 \<and> item_cfg rb \<and>
     vpos (xSize rb) (pucFree rb) \<and>
     chain (pucStorage rb) (xSize rb) (pucFree rb) (xs @ ys @ zs) (pucAcquire rb) \<and>
     pucRead rb = radv (xSize rb) (pucFree rb) (tspan (xSize rb) (pucFree rb) xs) \<and>
     pucWrite rb = radv (xSize rb) (pucFree rb) (tspan (xSize rb) (pucFree rb) (xs @ ys)) \<and>
     tspan (xSize rb) (pucFree rb) (xs @ ys @ zs) \<le> xSize rb \<and>
     (flag (uxRingbufferFlags rb) rbBUFFER_FULL_FLAG \<longleftrightarrow>
        tspan (xSize rb) (pucFree rb) (xs @ ys @ zs) = xSize rb) \<and>
     (\<forall>b \<in> set (xs @ ys @ zs). xItemLen (blk_hdr b) \<le> xMaxItemSize rb) \<and>
     dummies_ok xs \<and> dummies_ok (ys @ zs) \<and>
     (\<forall>b \<in> set (ys @ zs). \<not> flag (bfl b) rbITEM_FREE_FLAG) \<and>
     xItemsWaiting rb = int (n_items ys + n_written zs)"

section \<open>Chains and replaced runs\<close>

lemma dummies_ok_append: "dummies_ok xs \<Longrightarrow> dummies_ok ys \<Longrightarrow> dummies_ok (xs @ ys)"
  by (induction xs rule: dummies_ok.induct) (auto simp: hd_append)

lemma dummies_ok_drop: "dummies_ok (xs @ ys) \<Longrightarrow> dummies_ok ys"
  by (induction xs rule: dummies_ok.induct) auto

lemma dummies_ok_dropWhile: "dummies_ok xs \<Longrightarrow> dummies_ok (dropWhile P xs)"
  by (metis dummies_ok_drop takeWhile_dropWhile_id)

lemma dummies_ok_Cons:
  "dummies_ok (b # bs) \<longleftrightarrow> (is_item b \<or> (bs \<noteq> [] \<and> is_item (hd bs))) \<and> dummies_ok bs"
  by (cases b) auto

lemma dummies_ok_iff_map:
  assumes "map is_item xs = map is_item ys"
  shows "dummies_ok xs \<longleftrightarrow> dummies_ok ys"
proof -
  have "length xs = length ys" using assms map_eq_imp_length_eq by blast
  then show ?thesis using assms
  proof (induction rule: list_induct2)
    case (Cons x xs y ys)
    then have "xs \<noteq> [] \<and> is_item (hd xs) \<longleftrightarrow> ys \<noteq> [] \<and> is_item (hd ys)"
      by (cases xs; cases ys) simp_all
    with Cons show ?case by (simp only: dummies_ok_Cons) simp
  qed simp
qed

lemma n_items_append [simp]: "n_items (xs @ ys) = n_items xs + n_items ys"
  by (simp add: n_items_def)

lemma n_written_append [simp]: "n_written (xs @ ys) = n_written xs + n_written ys"
  by (simp add: n_written_def)

lemma n_items_simps [simp]:
  "n_items [] = 0" "n_items (Item fl ds # bs) = Suc (n_items bs)" "n_items (Dummy fl # bs) = n_items bs"
  by (simp_all add: n_items_def)

lemma n_written_simps [simp]:
  "n_written [] = 0"
  "n_written (Item fl ds # bs) = (if flag fl rbITEM_WRITTEN_FLAG then Suc (n_written bs) else n_written bs)"
  "n_written (Dummy fl # bs) = n_written bs"
  by (simp_all add: n_written_def)

lemma tspan_cong:
  assumes "p < S" and "tspan S (radv S p (tspan S p us)) ts' = tspan S (radv S p (tspan S p us)) ts"
  shows "tspan S p (us @ ts' @ vs) = tspan S p (us @ ts @ vs)"
proof -
  have "radv S p (tspan S p us) < S" using assms(1) by simp
  then show ?thesis using assms by (simp add: tspan_append)
qed

lemma chain_replace:
  assumes ch: "chain m S p (us @ ts @ vs) q" and p: "p < S" and m: "length m = S"
    and le: "tspan S p (us @ ts @ vs) \<le> S"
    and q0: "q0 = radv S p (tspan S p us)"
    and ts': "chain m' S q0 ts' (radv S q0 (tspan S q0 ts))"
    and ag: "mem_agree (- rrun S q0 (tspan S q0 ts)) m m'"
  shows "chain m' S p (us @ ts' @ vs) q"
proof -
  let ?a = "tspan S p us" and ?b = "tspan S q0 ts"
  let ?q1 = "radv S q0 ?b"
  let ?c = "tspan S ?q1 vs"
  have q0S: "q0 < S" and q1S: "?q1 < S" using p q0 by simp_all
  obtain r r' where r: "chain m S p us r" "chain m S r ts r'" "chain m S r' vs q"
    using ch by auto
  have "r = q0" using chain_end [OF r(1) p] q0 by simp
  moreover have "r' = ?q1" using chain_end [OF r(2)] calculation q0S by simp
  ultimately have us: "chain m S p us q0" and vs: "chain m S ?q1 vs q" using r by simp_all
  have sum: "?a + ?b + ?c \<le> S"
    using le tspan_append [OF p, of us "ts @ vs"] tspan_append [OF q0S, of ts vs] q0 by simp
  have "rrun S p ?a \<inter> rrun S q0 ?b = {}"
    using rrun_disjoint [OF p, of ?a ?b] sum q0 by simp
  then have 1: "chain m' S p us q0"
    by (intro chain_agree [OF us _ m p] mem_agree_subset [OF ag]) blast
  have "rrun S q0 ?b \<inter> rrun S ?q1 ?c = {}"
    using rrun_disjoint [OF q0S, of ?b ?c] sum by simp
  then have "chain m' S ?q1 vs q"
    by (intro chain_agree [OF vs _ m q1S] mem_agree_subset [OF ag]) blast
  with 1 ts' show ?thesis by auto
qed

lemma chain_replace_blk:
  assumes ch: "chain m S p (us @ b # vs) q" and p: "p < S" and m: "length m = S"
    and le: "tspan S p (us @ b # vs) \<le> S"
    and q0: "q0 = radv S p (tspan S p us)"
    and b': "blk_at m' S q0 b'" and sp: "bspan S q0 b' = bspan S q0 b"
    and ag: "mem_agree (- {q0..<q0 + bspan S q0 b}) m m'"
  shows "chain m' S p (us @ b' # vs) q"
proof -
  have "chain m' S p (us @ [b'] @ vs) q"
  proof (rule chain_replace [OF _ p m _ q0])
    show "chain m S p (us @ [b] @ vs) q" "tspan S p (us @ [b] @ vs) \<le> S" using ch le by simp_all
    show "chain m' S q0 [b'] (radv S q0 (tspan S q0 [b]))" using b' sp by (simp add: bnext_def)
    show "mem_agree (- rrun S q0 (tspan S q0 [b])) m m'" using ag blk_run [OF b'] sp by simp
  qed
  then show ?thesis by simp
qed

lemma chain_blk:
  assumes "chain m S p (us @ b # vs) q" and "p < S" and "q0 = radv S p (tspan S p us)"
  shows "blk_at m S q0 b"
proof -
  obtain r where "chain m S p us r" "blk_at m S r b" using assms(1) by auto
  then show ?thesis using chain_end [of m S p us r] assms(2,3) by simp
qed

section \<open>Where the free space is\<close>

lemma it_inv_basic:
  assumes "it_inv rb xs ys zs"
  shows "length (pucStorage rb) = xSize rb" "xSize rb < 2 ^ 31" "item_cfg rb"
    "vpos (xSize rb) (pucFree rb)" "vpos (xSize rb) (pucAcquire rb)" "vpos (xSize rb) (pucRead rb)"
    "vpos (xSize rb) (pucWrite rb)"
    "pucAcquire rb = radv (xSize rb) (pucFree rb) (tspan (xSize rb) (pucFree rb) (xs @ ys @ zs))"
proof -
  show *: "length (pucStorage rb) = xSize rb" "xSize rb < 2 ^ 31" "item_cfg rb"
    "vpos (xSize rb) (pucFree rb)"
    using assms by (simp_all add: it_inv_def)
  let ?ch = "chain (pucStorage rb) (xSize rb)"
  have f: "pucFree rb < xSize rb" using * by simp
  obtain r w where r: "?ch (pucFree rb) xs r" and w: "?ch r ys w" "?ch w zs (pucAcquire rb)"
    using assms by (auto simp: it_inv_def)
  have xy: "?ch (pucFree rb) (xs @ ys) w" using r w by auto
  show "vpos (xSize rb) (pucRead rb)"
    using chain_vpos [OF r *(4)] chain_end [OF r f] assms by (simp add: it_inv_def)
  show "vpos (xSize rb) (pucWrite rb)"
    using chain_vpos [OF xy *(4)] chain_end [OF xy f] assms by (simp add: it_inv_def)
  have all: "?ch (pucFree rb) (xs @ ys @ zs) (pucAcquire rb)" using assms by (simp only: it_inv_def)
  show "vpos (xSize rb) (pucAcquire rb)" by (rule chain_vpos [OF all *(4)])
  show "pucAcquire rb = radv (xSize rb) (pucFree rb) (tspan (xSize rb) (pucFree rb) (xs @ ys @ zs))"
    by (rule chain_end [OF all f])
qed

text \<open>The total span and the two pointers determine each other, up to empty and full.\<close>

lemma acq_cases:
  assumes "it_inv rb xs ys zs"
  obtains (empty) "tspan (xSize rb) (pucFree rb) (xs @ ys @ zs) = 0" "pucAcquire rb = pucFree rb"
      "\<not> flag (uxRingbufferFlags rb) rbBUFFER_FULL_FLAG"
  | (full) "tspan (xSize rb) (pucFree rb) (xs @ ys @ zs) = xSize rb" "pucAcquire rb = pucFree rb"
      "flag (uxRingbufferFlags rb) rbBUFFER_FULL_FLAG"
  | (after) "pucFree rb < pucAcquire rb"
      "tspan (xSize rb) (pucFree rb) (xs @ ys @ zs) = pucAcquire rb - pucFree rb"
      "\<not> flag (uxRingbufferFlags rb) rbBUFFER_FULL_FLAG"
  | (before) "pucAcquire rb < pucFree rb"
      "tspan (xSize rb) (pucFree rb) (xs @ ys @ zs) = xSize rb - (pucFree rb - pucAcquire rb)"
      "\<not> flag (uxRingbufferFlags rb) rbBUFFER_FULL_FLAG"
proof -
  let ?T = "tspan (xSize rb) (pucFree rb) (xs @ ys @ zs)"
  have f: "pucFree rb < xSize rb" and a: "pucAcquire rb = radv (xSize rb) (pucFree rb) ?T"
    using it_inv_basic [OF assms] by simp_all
  have T: "?T \<le> xSize rb" and fl: "flag (uxRingbufferFlags rb) rbBUFFER_FULL_FLAG \<longleftrightarrow> ?T = xSize rb"
    using assms by (simp_all only: it_inv_def)
  from radv_cases [OF f T a] show thesis
  proof (elim disjE conjE, goal_cases)
    case 1 with fl f show thesis by (intro empty) auto
  next
    case 2 with fl show thesis by (intro full) auto
  next
    case 3
    moreover have "pucAcquire rb < xSize rb" using it_inv_basic(5) [OF assms] by simp
    ultimately show thesis using fl by (intro after) auto
  next
    case 4 with fl f show thesis by (intro before) auto
  qed
qed

lemma fits_eq:
  assumes inv: "it_inv rb xs ys zs" and n: "n \<le> xMaxItemSize rb"
  shows "prvCheckItemFitsDefault rb n =
    (let t = rbHEADER_SIZE + align4 n; a = pucAcquire rb; f = pucFree rb; S = xSize rb
     in Inr (if a = f then \<not> flag (uxRingbufferFlags rb) rbBUFFER_FULL_FLAG
             else if f > a then t \<le> f - a
             else t \<le> S - a \<or> (if flag (uxRingbufferFlags rb) rbALLOW_SPLIT_FLAG
                               then t + rbHEADER_SIZE \<le> S - (a - f) else t \<le> f)))"
proof -
  note b = it_inv_basic [OF inv]
  have cfg: "xMaxItemSize rb + rbHEADER_SIZE \<le> xSize rb"
    using b(3) align4_le_iff [of "xSize rb" "xSize rb div 2"] b(4) by (auto simp: item_cfg_def vpos_def)
  have al: "rbALIGN_SIZE n = align4 n" using n cfg b(2) by (intro rbALIGN_SIZE_eq) simp
  have t: "uadd (align4 n) rbHEADER_SIZE = rbHEADER_SIZE + align4 n"
    and t2: "uadd (rbHEADER_SIZE + align4 n) rbHEADER_SIZE = rbHEADER_SIZE + align4 n + rbHEADER_SIZE"
    using n cfg b(2) align4_bounds(2) [of n] by (simp_all add: rbHEADER_SIZE_def)
  show ?thesis
    using b(2,4,5) vpos_less [OF b(4)] vpos_less [OF b(5)]
    by (auto simp: prvCheckItemFitsDefault_def al t t2 vpos_def Let_def)
qed

end
