(* ===== verification/Ringbuf_Send.thy ===== *)
theory Ringbuf_Send
  imports Ringbuf_Items
begin

text \<open>
  Sending to no-split and allow-split buffers: acquiring room, copying, completing. An item that the
  fit check accepts is appended to the items that wait, and nothing else changes.
\<close>

section \<open>Changing the invariant's chain\<close>

lemma it_inv_extend:
  assumes inv: "it_inv rb xs ys zs" and new: "new \<noteq> []" "dummies_ok new" "n_written new = 0"
    and ch: "chain m' (xSize rb) (pucAcquire rb) new a'"
    and ag: "mem_agree (rrun (xSize rb) (pucFree rb) (tspan (xSize rb) (pucFree rb) (xs @ ys @ zs)))
               (pucStorage rb) m'"
    and room: "tspan (xSize rb) (pucFree rb) (xs @ ys @ zs) + tspan (xSize rb) (pucAcquire rb) new
                 \<le> xSize rb"
    and each: "\<forall>b \<in> set new. xItemLen (blk_hdr b) \<le> xMaxItemSize rb \<and> \<not> flag (bfl b) rbITEM_FREE_FLAG"
  shows "it_inv (rb\<lparr>pucStorage := m', pucAcquire := a',
                    uxRingbufferFlags := (if a' = pucFree rb then uxRingbufferFlags rb OR rbBUFFER_FULL_FLAG
                                          else uxRingbufferFlags rb)\<rparr>) xs ys (zs @ new)"
proof -
  let ?S = "xSize rb" and ?f = "pucFree rb" and ?m = "pucStorage rb"
  let ?W = "xs @ ys @ zs"
  note b = it_inv_basic [OF inv]
  have f: "?f < ?S" using b by simp
  have W: "chain ?m ?S ?f ?W (pucAcquire rb)" using inv by (simp only: it_inv_def)
  have "chain m' ?S ?f ?W (pucAcquire rb)" using chain_agree [OF W ag b(1) f] .
  then have all: "chain m' ?S ?f (xs @ ys @ zs @ new) a'"
    using ch chain_append [of m' ?S ?f ?W new a'] by auto
  have T: "tspan ?S ?f (xs @ ys @ zs @ new) = tspan ?S ?f ?W + tspan ?S (pucAcquire rb) new"
    using tspan_append [OF f, of ?W new] b(8) by simp
  have pos: "0 < tspan ?S (pucAcquire rb) new" using tspan_pos [OF ch new(1)] .
  have a': "a' = ?f \<longleftrightarrow> tspan ?S ?f (xs @ ys @ zs @ new) = ?S"
    using chain_end [OF all f] radv_eq_self [OF f] room pos T by auto
  have nf: "\<not> flag (uxRingbufferFlags rb) rbBUFFER_FULL_FLAG"
    using inv room pos by (auto simp: it_inv_def)
  have cfg: "item_cfg (rb\<lparr>pucStorage := m', pucAcquire := a', uxRingbufferFlags := w\<rparr>)"
    if "w = uxRingbufferFlags rb \<or> w = uxRingbufferFlags rb OR rbBUFFER_FULL_FLAG" for w
    using b(3) that by (auto simp: item_cfg_def)
  have dk: "dummies_ok (ys @ zs @ new)"
    using inv new(2) dummies_ok_append [of "ys @ zs" new] by (simp add: it_inv_def)
  show ?thesis
    unfolding it_inv_def
    using inv all T room a' nf cfg each new(3) dk ag b(1)
    by (auto simp: it_inv_def mem_agree_def simp del: chain_append)
qed

lemma it_inv_commit:
  assumes "it_inv rb xs ys zs" and "n_written zs = 0"
  shows "it_inv (rb\<lparr>pucWrite := pucAcquire rb, xItemsWaiting := xItemsWaiting rb + int (n_items zs)\<rparr>)
           xs (ys @ zs) []"
  using assms it_inv_basic(8) [OF assms(1)] by (auto simp: it_inv_def item_cfg_def simp del: chain_append)

lemma it_inv_join:
  assumes "it_inv rb xs ys zs" and "pucWrite rb = pucAcquire rb" and "n_written zs = n_items zs"
  shows "it_inv rb xs (ys @ zs) []"
  using assms it_inv_basic(8) [OF assms(1)] by (auto simp: it_inv_def simp del: chain_append)

lemma it_inv_replace:
  assumes inv: "it_inv rb xs ys (us @ b # vs)"
    and q0: "q0 = radv (xSize rb) (pucFree rb) (tspan (xSize rb) (pucFree rb) (xs @ ys @ us))"
    and b': "blk_at m' (xSize rb) q0 b'" "bspan (xSize rb) q0 b' = bspan (xSize rb) q0 b"
    and k: "is_item b' = is_item b" "xItemLen (blk_hdr b') \<le> xMaxItemSize rb"
      "\<not> flag (bfl b') rbITEM_FREE_FLAG"
    and ag: "mem_agree (- {q0..<q0 + bspan (xSize rb) q0 b}) (pucStorage rb) m'"
  shows "it_inv (rb\<lparr>pucStorage := m',
                    xItemsWaiting := xItemsWaiting rb + int (n_written [b']) - int (n_written [b])\<rparr>)
           xs ys (us @ b' # vs)"
proof -
  let ?S = "xSize rb" and ?f = "pucFree rb" and ?m = "pucStorage rb"
  note basic = it_inv_basic [OF inv]
  have f: "?f < ?S" using basic by simp
  have W: "chain ?m ?S ?f ((xs @ ys @ us) @ b # vs) (pucAcquire rb)"
    using inv by (simp add: it_inv_def del: chain_append)
  have le: "tspan ?S ?f ((xs @ ys @ us) @ b # vs) \<le> ?S" using inv by (simp add: it_inv_def)
  have ch: "chain m' ?S ?f ((xs @ ys @ us) @ b' # vs) (pucAcquire rb)"
    by (rule chain_replace_blk [OF W f basic(1) le q0 b' ag])
  have T: "tspan ?S ?f (xs @ ys @ us @ b' # vs) = tspan ?S ?f (xs @ ys @ us @ b # vs)"
    using tspan_cong [OF f, of "xs @ ys @ us" "[b']" "[b]" vs] b'(2) q0 by simp
  have dk: "dummies_ok (ys @ us @ b' # vs) \<longleftrightarrow> dummies_ok (ys @ us @ b # vs)"
    by (rule dummies_ok_iff_map) (simp add: k)
  have nw: "n_written (b # vs) = n_written [b] + n_written vs"
    "n_written (b' # vs) = n_written [b'] + n_written vs"
    using n_written_append [of "[b]" vs] n_written_append [of "[b']" vs] by simp_all
  have lm: "length m' = ?S" using ag basic(1) by (simp add: mem_agree_def)
  show ?thesis
    unfolding it_inv_def
    using inv ch T dk k lm by (auto simp: it_inv_def nw item_cfg_def simp del: chain_append)
qed

section \<open>Acquiring room in a no-split buffer\<close>

lemma align4_half: "S mod 4 = 0 \<Longrightarrow> 2 * align4 (S div 2) \<le> S + 4"
  unfolding align4_def by presburger

lemma mult4_gap: "a mod 4 = 0 \<Longrightarrow> b mod 4 = 0 \<Longrightarrow> b < a \<Longrightarrow> b + 4 \<le> (a :: nat)"
  by presburger

lemma mod4_diff: "a mod 4 = 0 \<Longrightarrow> b mod 4 = 0 \<Longrightarrow> (a - b) mod 4 = (0 :: nat)"
  by (auto simp: dvd_diff_nat simp flip: dvd_eq_mod_eq_0)

lemma mod4_add: "a mod 4 = 0 \<Longrightarrow> b mod 4 = 0 \<Longrightarrow> (a + b) mod 4 = (0 :: nat)"
  by presburger

lemma nosplit_room:
  assumes inv: "it_inv rb xs ys zs" and ty: "xMethods rb = RINGBUF_TYPE_NOSPLIT"
    and n: "n \<le> xMaxItemSize rb" and fits: "prvCheckItemFitsDefault rb n = Inr True"
  shows "let t = rbHEADER_SIZE + align4 n; a = pucAcquire rb; S = xSize rb;
             T = tspan S (pucFree rb) (xs @ ys @ zs)
         in if t \<le> S - a then T + (if S - (a + t) < rbHEADER_SIZE then S - a else t) \<le> S
            else T + (S - a) + t \<le> S \<and> t + rbHEADER_SIZE \<le> S"
proof -
  note b = it_inv_basic [OF inv]
  let ?t = "rbHEADER_SIZE + align4 n"
  have v: "xSize rb mod 4 = 0" "pucAcquire rb mod 4 = 0" "pucAcquire rb + 8 \<le> xSize rb"
    "pucFree rb + 8 \<le> xSize rb"
    using b(4,5) by (simp_all add: vpos_def rbHEADER_SIZE_def)
  have H: "xMaxItemSize rb + 8 = align4 (xSize rb div 2)" and nsp: "\<not> flag (uxRingbufferFlags rb) rbALLOW_SPLIT_FLAG"
    using b(3) ty by (simp_all add: item_cfg_def rbHEADER_SIZE_def)
  have "(xMaxItemSize rb + 8) mod 4 = 0" using H by simp
  then have "xMaxItemSize rb mod 4 = 0" by presburger
  then have t: "?t \<le> align4 (xSize rb div 2)"
    using n H align4_le_iff [of "xMaxItemSize rb" n] by (simp add: rbHEADER_SIZE_def)
  have half: "2 * align4 (xSize rb div 2) \<le> xSize rb + 4" by (rule align4_half [OF v(1)])
  have far: "?t \<le> pucAcquire rb" if "\<not> ?t \<le> xSize rb - pucAcquire rb"
  proof -
    have "xSize rb < pucAcquire rb + align4 (xSize rb div 2)" using that t by simp
    then have "xSize rb + 4 \<le> pucAcquire rb + align4 (xSize rb div 2)"
      using v by (intro mult4_gap mod4_add) simp_all
    then show ?thesis using half t by linarith
  qed
  show ?thesis
    using inv
  proof (cases rule: acq_cases)
    case empty
    with v far show ?thesis by (auto simp: Let_def rbHEADER_SIZE_def)
  next
    case full
    with fits show ?thesis by (simp add: fits_eq [OF inv n] Let_def)
  next
    case after
    then have "?t \<le> xSize rb - pucAcquire rb \<or> ?t \<le> pucFree rb"
      using fits nsp by (simp add: fits_eq [OF inv n] Let_def split: if_splits)
    with after v show ?thesis by (auto simp: Let_def rbHEADER_SIZE_def)
  next
    case before
    then have "?t \<le> pucFree rb - pucAcquire rb"
      using fits by (simp add: fits_eq [OF inv n] Let_def)
    with before v show ?thesis by (auto simp: Let_def rbHEADER_SIZE_def)
  qed
qed

lemma item_sizes:
  assumes inv: "it_inv rb xs ys zs" and n: "n \<le> xMaxItemSize rb"
  shows "rbALIGN_SIZE n = align4 n" "n < 2 ^ 31" "align4 n + rbHEADER_SIZE < 2 ^ 32"
proof -
  note b = it_inv_basic [OF inv]
  have cfg: "xMaxItemSize rb + rbHEADER_SIZE \<le> xSize rb"
    using b(3) align4_le_iff [of "xSize rb" "xSize rb div 2"] b(4) by (auto simp: item_cfg_def vpos_def)
  show "rbALIGN_SIZE n = align4 n" using n cfg b(2) by (intro rbALIGN_SIZE_eq) simp
  show "n < 2 ^ 31" using n cfg b(2) by simp
  show "align4 n + rbHEADER_SIZE < 2 ^ 32"
    using n cfg b(2) align4_bounds(2) [of n] by (simp add: rbHEADER_SIZE_def)
qed

lemma blk_at_new_item:
  assumes "p + (rbHEADER_SIZE + align4 n) \<le> S" and "length m = S" and "n < 2 ^ 31"
    and "m' = mem_write p (hdr_bytes \<lparr>xItemLen = n, uxItemFlags = 0\<rparr>) m"
  shows "blk_at m' S p (Item 0 (mem_read (p + rbHEADER_SIZE) n m'))"
    and "length (mem_read (p + rbHEADER_SIZE) n m') = n"
  using assms align4_bounds(1) [of n] by (simp_all add: blk_at_def)

lemma bnext_item:
  assumes "p + (rbHEADER_SIZE + align4 (length ds)) \<le> S" and "p < S"
  shows "bnext S p (Item fl ds) =
    (let q = p + (rbHEADER_SIZE + align4 (length ds)) in if S - q < rbHEADER_SIZE then 0 else q)"
  using assms by (auto simp: bnext_def Let_def radv_def rbHEADER_SIZE_def)

lemma bnext_dummy: "p < S \<Longrightarrow> bnext S p (Dummy fl) = 0"
  by (simp add: bnext_def radv_def)

lemma free_agree:
  assumes inv: "it_inv rb xs ys zs"
    and "tspan (xSize rb) (pucFree rb) (xs @ ys @ zs) + k \<le> xSize rb"
    and "mem_agree (- rrun (xSize rb) (pucAcquire rb) k) (pucStorage rb) m'"
  shows "mem_agree (rrun (xSize rb) (pucFree rb) (tspan (xSize rb) (pucFree rb) (xs @ ys @ zs)))
           (pucStorage rb) m'"
proof -
  have "pucFree rb < xSize rb" using it_inv_basic [OF inv] by simp
  from rrun_disjoint [OF this assms(2)] it_inv_basic(8) [OF inv] assms(3) show ?thesis
    by (auto intro: mem_agree_subset)
qed

text \<open>The room for an item at the end of the storage.\<close>

lemma acquire_end:
  assumes inv: "it_inv rb xs ys zs" and n: "n \<le> xMaxItemSize rb"
    and t: "rbHEADER_SIZE + align4 n \<le> xSize rb - pucAcquire rb"
    and room: "tspan (xSize rb) (pucFree rb) (xs @ ys @ zs) +
                 (if xSize rb - (pucAcquire rb + (rbHEADER_SIZE + align4 n)) < rbHEADER_SIZE
                  then xSize rb - pucAcquire rb else rbHEADER_SIZE + align4 n) \<le> xSize rb"
  shows "\<exists>rb' ds. prvAcquireItemNoSplit rb n = Inr (rb', pucAcquire rb + rbHEADER_SIZE) \<and>
           length ds = n \<and> it_inv rb' xs ys (zs @ [Item 0 ds]) \<and>
           xSize rb' = xSize rb \<and> pucFree rb' = pucFree rb \<and> xMethods rb' = xMethods rb"
proof -
  let ?S = "xSize rb" and ?a = "pucAcquire rb"
  note b = it_inv_basic [OF inv] and sz = item_sizes [OF inv n]
  have a: "?a < ?S" "?a + (rbHEADER_SIZE + align4 n) \<le> ?S" "?a mod 4 = 0" "?a + rbHEADER_SIZE \<le> ?S"
    using b(5) t by (auto simp: vpos_def)
  define m' where "m' = mem_write ?a (hdr_bytes \<lparr>xItemLen = n, uxItemFlags = 0\<rparr>) (pucStorage rb)"
  define ds where "ds = mem_read (?a + rbHEADER_SIZE) n m'"
  define a' where "a' = bnext ?S ?a (Item 0 ds)"
  have blk: "blk_at m' ?S ?a (Item 0 ds)" and ds: "length ds = n"
    using blk_at_new_item [OF a(2) b(1) sz(2) m'_def] by (simp_all add: ds_def)
  have a': "a' = (if ?S - (?a + (rbHEADER_SIZE + align4 n)) < rbHEADER_SIZE then 0
                  else ?a + (rbHEADER_SIZE + align4 n))"
    using bnext_item [of ?a ds ?S 0] a ds by (simp add: a'_def Let_def)
  have sp: "tspan ?S ?a [Item 0 ds] = (if ?S - (?a + (rbHEADER_SIZE + align4 n)) < rbHEADER_SIZE
       then ?S - ?a else rbHEADER_SIZE + align4 n)"
    using ds by (simp add: Let_def)
  have le: "tspan ?S (pucFree rb) (xs @ ys @ zs) + tspan ?S ?a [Item 0 ds] \<le> ?S"
    using room unfolding sp .
  have "mem_agree (- {?a..<?a + bspan ?S ?a (Item 0 ds)}) (pucStorage rb) m'"
    using a b(1) bspan_bounds(1) [of ?a "Item 0 ds" ?S] ds by (auto simp: m'_def mem_agree_def nth_mem_write)
  then have "mem_agree (- rrun ?S ?a (tspan ?S ?a [Item 0 ds])) (pucStorage rb) m'"
    using blk_run [OF blk] by simp
  from it_inv_extend [OF inv _ _ _ _ free_agree [OF inv le this] le, of a'] blk n ds
  have "it_inv (rb\<lparr>pucStorage := m', pucAcquire := a',
       uxRingbufferFlags := (if a' = pucFree rb then uxRingbufferFlags rb OR rbBUFFER_FULL_FLAG
                             else uxRingbufferFlags rb)\<rparr>) xs ys (zs @ [Item 0 ds])"
    by (simp add: a'_def)
  moreover have "prvAcquireItemNoSplit rb n = Inr (rb\<lparr>pucStorage := m', pucAcquire := a',
       uxRingbufferFlags := (if a' = pucFree rb then uxRingbufferFlags rb OR rbBUFFER_FULL_FLAG
                             else uxRingbufferFlags rb)\<rparr>, ?a + rbHEADER_SIZE)"
    using a b(1,2) sz t unfolding a'
    by (auto simp: prvAcquireItemNoSplit_def put_hdr_Inr m'_def Let_def add.commute add.left_commute)
  ultimately show ?thesis using ds by force
qed

text \<open>The room for an item at the start of the storage, with a dummy block at the end.\<close>

lemma acquire_wrap:
  assumes inv: "it_inv rb xs ys zs" and n: "n \<le> xMaxItemSize rb"
    and t: "\<not> rbHEADER_SIZE + align4 n \<le> xSize rb - pucAcquire rb"
    and room: "tspan (xSize rb) (pucFree rb) (xs @ ys @ zs) + (xSize rb - pucAcquire rb) +
                 (rbHEADER_SIZE + align4 n) \<le> xSize rb"
    and S: "rbHEADER_SIZE + align4 n + rbHEADER_SIZE \<le> xSize rb"
  shows "\<exists>rb' ds. prvAcquireItemNoSplit rb n = Inr (rb', rbHEADER_SIZE) \<and>
           length ds = n \<and> it_inv rb' xs ys (zs @ [Dummy rbITEM_DUMMY_DATA_FLAG, Item 0 ds]) \<and>
           xSize rb' = xSize rb \<and> pucFree rb' = pucFree rb \<and> xMethods rb' = xMethods rb"
proof -
  let ?S = "xSize rb" and ?a = "pucAcquire rb" and ?d = "Dummy rbITEM_DUMMY_DATA_FLAG"
  note b = it_inv_basic [OF inv] and sz = item_sizes [OF inv n]
  have a: "?a < ?S" "?a mod 4 = 0" "?a + rbHEADER_SIZE \<le> ?S"
    using b(5) by (auto simp: vpos_def)
  have ta: "rbHEADER_SIZE + align4 n \<le> ?a" using room a by linarith
  define m1 where "m1 = mem_write ?a (hdr_bytes (blk_hdr ?d)) (pucStorage rb)"
  define m' where "m' = mem_write 0 (hdr_bytes \<lparr>xItemLen = n, uxItemFlags = 0\<rparr>) m1"
  define ds where "ds = mem_read (0 + rbHEADER_SIZE) n m'"
  define a' where "a' = rbHEADER_SIZE + align4 n"
  let ?new = "[?d, Item 0 ds]"
  have m1: "length m1 = ?S" using a b(1) by (simp add: m1_def)
  have blk: "blk_at m' ?S 0 (Item 0 ds)" and ds: "length ds = n"
    using blk_at_new_item [of 0 n ?S, OF _ m1 sz(2) m'_def] S by (simp_all add: ds_def)
  have "blk_at m1 ?S ?a ?d" using a b(1) by (simp add: m1_def blk_at_def)
  moreover have "mem_agree {?a..<?a + bspan ?S ?a ?d} m1 m'"
    using ta m1 S by (auto simp: m'_def mem_agree_def nth_mem_write)
  ultimately have d: "blk_at m' ?S ?a ?d" using m1 by (rule blk_at_agree)
  have sp: "bspan ?S 0 (Item 0 ds) = rbHEADER_SIZE + align4 n" using S ds by (auto simp: Let_def)
  have a'S: "bnext ?S 0 (Item 0 ds) = a'" using S sp by (simp add: bnext_def radv_def a'_def rbHEADER_SIZE_def)
  have le: "tspan ?S (pucFree rb) (xs @ ys @ zs) + tspan ?S ?a ?new \<le> ?S"
    using room sp bnext_dummy [OF a(1)] by simp
  have "mem_agree (- rrun ?S ?a (tspan ?S ?a ?new)) (pucStorage rb) m'"
  proof -
    have "rrun ?S ?a (tspan ?S ?a ?new) = {?a..<?S} \<union> {0..<rbHEADER_SIZE + align4 n}"
    proof -
      have "tspan ?S ?a ?new = (?S - ?a) + (rbHEADER_SIZE + align4 n)"
        using sp bnext_dummy [OF a(1), of rbITEM_DUMMY_DATA_FLAG] by simp
      moreover have "radv ?S ?a (?S - ?a) = 0" using a by (simp add: radv_def)
      moreover have "rrun ?S ?a (?S - ?a) = {?a..<?S}" using a by (simp add: rrun_linear)
      moreover have "rrun ?S 0 (rbHEADER_SIZE + align4 n) = {0..<rbHEADER_SIZE + align4 n}"
        using S rrun_linear [of 0 "rbHEADER_SIZE + align4 n" ?S] by simp
      ultimately show ?thesis using rrun_add [of ?S ?a "?S - ?a" "rbHEADER_SIZE + align4 n"] by simp
    qed
    then show ?thesis using a b(1) m1 S by (auto simp: m'_def m1_def mem_agree_def nth_mem_write)
  qed
  from it_inv_extend [OF inv _ _ _ _ free_agree [OF inv le this] le, of a'] blk d n ds a'S
  have "it_inv (rb\<lparr>pucStorage := m', pucAcquire := a',
       uxRingbufferFlags := (if a' = pucFree rb then uxRingbufferFlags rb OR rbBUFFER_FULL_FLAG
                             else uxRingbufferFlags rb)\<rparr>) xs ys (zs @ ?new)"
    by (simp add: bnext_dummy [OF a(1)])
  moreover have "prvAcquireItemNoSplit rb n = Inr (rb\<lparr>pucStorage := m', pucAcquire := a',
       uxRingbufferFlags := (if a' = pucFree rb then uxRingbufferFlags rb OR rbBUFFER_FULL_FLAG
                             else uxRingbufferFlags rb)\<rparr>, rbHEADER_SIZE)"
    using a b(1,2) sz t S m1 le_diff_conv2 [of ?a ?S rbHEADER_SIZE] unfolding a'_def
    by (auto simp: prvAcquireItemNoSplit_def put_hdr_Inr m'_def m1_def Let_def add.commute)
  ultimately show ?thesis using ds by force
qed

text \<open>
  Acquiring succeeds whenever the fit check does: the item's block is the last of the chain, and the
  returned address is the one after its header.
\<close>

lemma acquire_ok:
  assumes inv: "it_inv rb xs ys zs" and ty: "xMethods rb = RINGBUF_TYPE_NOSPLIT"
    and n: "n \<le> xMaxItemSize rb" and fits: "prvCheckItemFitsDefault rb n = Inr True"
  shows "\<exists>rb' us ds q0. prvAcquireItemNoSplit rb n = Inr (rb', q0 + rbHEADER_SIZE) \<and>
           length ds = n \<and> n_items us = 0 \<and> it_inv rb' xs ys (zs @ us @ [Item 0 ds]) \<and>
           q0 = radv (xSize rb) (pucFree rb) (tspan (xSize rb) (pucFree rb) (xs @ ys @ zs @ us)) \<and>
           xSize rb' = xSize rb \<and> pucFree rb' = pucFree rb \<and> xMethods rb' = xMethods rb"
proof (cases "rbHEADER_SIZE + align4 n \<le> xSize rb - pucAcquire rb")
  case True
  then obtain rb' ds where "prvAcquireItemNoSplit rb n = Inr (rb', pucAcquire rb + rbHEADER_SIZE)"
    "length ds = n" "it_inv rb' xs ys (zs @ [] @ [Item 0 ds])"
    "xSize rb' = xSize rb" "pucFree rb' = pucFree rb" "xMethods rb' = xMethods rb"
    using acquire_end [OF inv n True] nosplit_room [OF assms] by (auto simp: Let_def)
  then show ?thesis
    using it_inv_basic(8) [OF inv]
    by (intro exI [of _ rb'] exI [of _ "[]"] exI [of _ ds] exI [of _ "pucAcquire rb"]) simp
next
  case False
  then obtain rb' ds where r: "prvAcquireItemNoSplit rb n = Inr (rb', 0 + rbHEADER_SIZE)"
    "length ds = n" "it_inv rb' xs ys (zs @ [Dummy rbITEM_DUMMY_DATA_FLAG] @ [Item 0 ds])"
    "xSize rb' = xSize rb" "pucFree rb' = pucFree rb" "xMethods rb' = xMethods rb"
    using acquire_wrap [OF inv n False] nosplit_room [OF assms] by (auto simp: Let_def)
  have "pucFree rb < xSize rb" "pucAcquire rb < xSize rb" using it_inv_basic [OF inv] by simp_all
  then have "radv (xSize rb) (pucFree rb) (tspan (xSize rb) (pucFree rb)
       (xs @ ys @ zs @ [Dummy rbITEM_DUMMY_DATA_FLAG])) = 0"
    using it_inv_basic(8) [OF inv] bnext_dummy [of "pucAcquire rb" "xSize rb"]
      tspan_append [of "pucFree rb" "xSize rb" "xs @ ys @ zs"]
    by (simp add: bnext_def flip: radv_radv)
  with r show ?thesis
    by (intro exI [of _ rb'] exI [of _ "[Dummy rbITEM_DUMMY_DATA_FLAG]"] exI [of _ ds] exI [of _ 0]) simp
qed

section \<open>Copying and completing\<close>

lemma blk_at_data:
  assumes "blk_at m S p (Item fl ds)" and "length m = S" and "length ds' = length ds"
    and "m' = mem_write (p + rbHEADER_SIZE) ds' m"
  shows "blk_at m' S p (Item fl ds')"
    and "mem_agree (- {p..<p + bspan S p (Item fl ds)}) m m'"
proof -
  have sz: "p + rbHEADER_SIZE + align4 (length ds) \<le> S" using assms(1) by (simp add: blk_at_def)
  have le: "length ds \<le> align4 (length ds)" by (rule align4_bounds)
  have "mem_agree {p..<p + rbHEADER_SIZE} m m'"
    unfolding assms(4) using sz le assms(2,3) by (intro mem_agree_write) auto
  then have "get_hdr p m' = get_hdr p m" using get_hdr_agree by metis
  then show "blk_at m' S p (Item fl ds')"
    using assms sz le by (simp add: blk_at_def)
  have "rbHEADER_SIZE + align4 (length ds) \<le> bspan S p (Item fl ds)"
    using bspan_bounds(1) [of p "Item fl ds" S] sz by simp
  then show "mem_agree (- {p..<p + bspan S p (Item fl ds)}) m m'"
    unfolding assms(4) using sz le assms(2,3) by (intro mem_agree_write) auto
qed

lemma blk_at_flags:
  assumes "blk_at m S p (Item fl ds)" and "length m = S" and "S < 2 ^ 31"
    and "\<not> flag fl' rbITEM_DUMMY_DATA_FLAG"
    and "m' = mem_write p (hdr_bytes \<lparr>xItemLen = length ds, uxItemFlags = fl'\<rparr>) m"
  shows "blk_at m' S p (Item fl' ds)"
    and "mem_agree (- {p..<p + bspan S p (Item fl ds)}) m m'"
proof -
  have sz: "p + rbHEADER_SIZE + align4 (length ds) \<le> S" using assms(1) by (simp add: blk_at_def)
  have le: "length ds \<le> align4 (length ds)" by (rule align4_bounds)
  have "mem_read (p + rbHEADER_SIZE) (length ds) m' = mem_read (p + rbHEADER_SIZE) (length ds) m"
    unfolding assms(5) using sz le assms(2) by (intro mem_read_write_disjoint) auto
  then show "blk_at m' S p (Item fl' ds)"
    using assms sz le by (simp add: blk_at_def)
  have "rbHEADER_SIZE \<le> bspan S p (Item fl ds)"
    using bspan_bounds(1) [of p "Item fl ds" S] sz by simp
  then show "mem_agree (- {p..<p + bspan S p (Item fl ds)}) m m'"
    unfolding assms(5) using sz assms(2) by (intro mem_agree_write) auto
qed

lemma zs_blk:
  assumes inv: "it_inv rb xs ys (us @ b # vs)"
    and q0: "q0 = radv (xSize rb) (pucFree rb) (tspan (xSize rb) (pucFree rb) (xs @ ys @ us))"
  shows "blk_at (pucStorage rb) (xSize rb) q0 b"
proof -
  have "chain (pucStorage rb) (xSize rb) (pucFree rb) ((xs @ ys @ us) @ b # vs) (pucAcquire rb)"
    using inv by (simp add: it_inv_def del: chain_append)
  then show ?thesis using chain_blk [OF _ _ q0] it_inv_basic(4) [OF inv] by simp
qed

lemma store_ok:
  assumes inv: "it_inv rb xs ys (us @ Item fl ds # vs)"
    and q0: "q0 = radv (xSize rb) (pucFree rb) (tspan (xSize rb) (pucFree rb) (xs @ ys @ us))"
    and len: "length ds' = length ds"
  shows "\<exists>m'. mem_store (q0 + rbHEADER_SIZE) ds' (pucStorage rb) = Inr m' \<and>
              it_inv (rb\<lparr>pucStorage := m'\<rparr>) xs ys (us @ Item fl ds' # vs)"
proof -
  let ?m' = "mem_write (q0 + rbHEADER_SIZE) ds' (pucStorage rb)"
  note b = it_inv_basic [OF inv] and blk = zs_blk [OF inv q0]
  have "length ds \<le> xMaxItemSize rb" "\<not> flag fl rbITEM_FREE_FLAG"
    using inv by (auto simp: it_inv_def)
  then have "it_inv (rb\<lparr>pucStorage := ?m', xItemsWaiting := xItemsWaiting rb\<rparr>) xs ys (us @ Item fl ds' # vs)"
    using it_inv_replace [OF inv q0 blk_at_data(1) [OF blk b(1) len refl]] len
      blk_at_data(2) [OF blk b(1) len refl] by simp
  moreover have "mem_store (q0 + rbHEADER_SIZE) ds' (pucStorage rb) = Inr ?m'"
    using blk b(1) len align4_bounds(1) [of "length ds"] by (simp add: mem_store_def blk_at_def)
  ultimately show ?thesis by (cases rb) auto
qed

lemma n_items_mark [simp]: "n_items (map (mark F) bs) = n_items bs"
  by (simp add: n_items_def filter_map o_def)

lemma n_written_skipped: "n_written (takeWhile (skips rbITEM_WRITTEN_FLAG) bs) =
    n_items (takeWhile (skips rbITEM_WRITTEN_FLAG) bs)"
  unfolding n_written_def n_items_def
  by (intro arg_cong [where f = length] filter_cong refl) (auto dest!: set_takeWhileD simp: skips_def)

lemma skip_written_ok:
  assumes inv: "it_inv rb xs ys zs" and lt: "tspan (xSize rb) (pucWrite rb) zs < xSize rb"
    and n: "length zs < n"
  shows "\<exists>m' w'. prvSkipWritten n rb = Inr (rb\<lparr>pucStorage := m', pucWrite := w'\<rparr>) \<and>
           it_inv (rb\<lparr>pucStorage := m', pucWrite := w'\<rparr>) xs
             (ys @ map (mark rbITEM_WRITTEN_FLAG) (takeWhile (skips rbITEM_WRITTEN_FLAG) zs))
             (dropWhile (skips rbITEM_WRITTEN_FLAG) zs)"
proof -
  let ?S = "xSize rb" and ?f = "pucFree rb" and ?m = "pucStorage rb" and ?w = "pucWrite rb"
  let ?F = rbITEM_WRITTEN_FLAG
  let ?ts = "takeWhile (skips ?F) zs" and ?rs = "dropWhile (skips ?F) zs"
  let ?w' = "radv ?S ?w (tspan ?S ?w ?ts)"
  note b = it_inv_basic [OF inv]
  have f: "?f < ?S" and w: "?w < ?S" using b by simp_all
  have weq: "?w = radv ?S ?f (tspan ?S ?f (xs @ ys))" using inv by (simp add: it_inv_def)
  have W: "chain ?m ?S ?f ((xs @ ys) @ ?ts @ ?rs) (pucAcquire rb)"
    using inv by (simp add: it_inv_def del: chain_append)
  have le: "tspan ?S ?f ((xs @ ys) @ ?ts @ ?rs) \<le> ?S" using inv by (simp add: it_inv_def)
  have zs: "chain ?m ?S ?w zs (pucAcquire rb)"
    using W chain_end [of ?m ?S ?f "xs @ ys"] f weq chain_append [of ?m ?S ?f "xs @ ys" zs] by auto
  from skip_loop_chain [OF zs b(7) b(1,2) lt n, of ?F] obtain m' where
    l: "skip_loop n ?F ?S ?w (pucAcquire rb) ?m = Inr (?w', m')"
    and ag: "mem_agree (- rrun ?S ?w (tspan ?S ?w ?ts)) ?m m'"
    and ts: "chain m' ?S ?w (map (mark ?F) ?ts) ?w'"
    by (auto simp: Let_def)
  have ch: "chain m' ?S ?f ((xs @ ys) @ map (mark ?F) ?ts @ ?rs) (pucAcquire rb)"
    by (rule chain_replace [OF W f b(1) le weq ts ag])
  have T: "tspan ?S ?f ((xs @ ys) @ map (mark ?F) ?ts @ ?rs) = tspan ?S ?f ((xs @ ys) @ ?ts @ ?rs)"
    by (rule tspan_cong [OF f]) simp
  have dk: "dummies_ok ((ys @ map (mark ?F) ?ts) @ ?rs) \<longleftrightarrow> dummies_ok (ys @ ?ts @ ?rs)"
    by (rule dummies_ok_iff_map) (simp del: takeWhile_dropWhile_id)
  have lm: "length m' = ?S" using ag b(1) by (simp add: mem_agree_def)
  have w': "?w' = radv ?S ?f (tspan ?S ?f (xs @ ys @ map (mark ?F) ?ts))"
    using tspan_append [OF f, of "xs @ ys" "map (mark ?F) ?ts"] weq by simp
  have mk: "xItemLen (blk_hdr (mark ?F c)) = xItemLen (blk_hdr c)"
    "flag (bfl (mark ?F c)) rbITEM_FREE_FLAG \<longleftrightarrow> flag (bfl c) rbITEM_FREE_FLAG" for c
    by (cases c; simp)+
  have cnt: "n_written zs = n_items ?ts + n_written ?rs"
    using n_written_append [of ?ts ?rs] n_written_skipped by simp
  have "it_inv (rb\<lparr>pucStorage := m', pucWrite := ?w'\<rparr>) xs (ys @ map (mark ?F) ?ts) ?rs"
    using inv ch T dk lm w' cnt
    by (auto simp: it_inv_def item_cfg_def mk simp del: chain_append dest: set_takeWhileD set_dropWhileD)
  then show ?thesis using l by (auto simp: prvSkipWritten_loop)
qed

lemma skip_written_full:
  assumes inv: "it_inv rb xs ys zs" and "\<not> tspan (xSize rb) (pucWrite rb) zs < xSize rb" and n: "0 < n"
  shows "pucWrite rb = pucAcquire rb" and "prvSkipWritten n rb = Inr rb"
proof -
  note b = it_inv_basic [OF inv]
  have f: "pucFree rb < xSize rb" using b by simp
  have w: "pucWrite rb = radv (xSize rb) (pucFree rb) (tspan (xSize rb) (pucFree rb) (xs @ ys))"
    using inv by (simp add: it_inv_def)
  let ?Txy = "tspan (xSize rb) (pucFree rb) (xs @ ys)" and ?Tz = "tspan (xSize rb) (pucWrite rb) zs"
  have T: "tspan (xSize rb) (pucFree rb) (xs @ ys @ zs) = ?Txy + ?Tz"
    using tspan_append [OF f, of "xs @ ys" zs] w by simp
  have "tspan (xSize rb) (pucFree rb) (xs @ ys @ zs) \<le> xSize rb" using inv by (simp only: it_inv_def)
  then have "?Txy + ?Tz \<le> xSize rb" using T by linarith
  then have "?Txy = 0" "?Tz = xSize rb" using assms(2) by auto
  then show eq: "pucWrite rb = pucAcquire rb" using w b(8) T f by simp
  show "prvSkipWritten n rb = Inr rb"
    using skip_loop_at_stop [OF b(7) b(1) n] eq by (simp add: prvSkipWritten_loop)
qed

definition written :: "u32 \<Rightarrow> u32" where
  "written fl = (fl AND NOT rbITEM_SPLIT_FLAG) OR rbITEM_WRITTEN_FLAG"

lemma done_mark:
  assumes inv: "it_inv rb xs ys (us @ Item fl ds # vs)"
    and q0: "q0 = radv (xSize rb) (pucFree rb) (tspan (xSize rb) (pucFree rb) (xs @ ys @ us))"
    and fl: "\<not> flag fl rbITEM_WRITTEN_FLAG"
  shows "\<exists>m'. it_inv (rb\<lparr>pucStorage := m', xItemsWaiting := xItemsWaiting rb + 1\<rparr>) xs ys
                (us @ Item (written fl) ds # vs) \<and>
              prvSendItemDoneNoSplit rb (q0 + rbHEADER_SIZE) =
                prvSkipWritten (xSize rb + 2)
                  (rb\<lparr>pucStorage := m', xItemsWaiting := xItemsWaiting rb + 1\<rparr>)"
proof -
  let ?m' = "mem_write q0 (hdr_bytes \<lparr>xItemLen = length ds, uxItemFlags = written fl\<rparr>) (pucStorage rb)"
  note b = it_inv_basic [OF inv] and blk = zs_blk [OF inv q0]
  have k: "length ds \<le> xMaxItemSize rb" "\<not> flag fl rbITEM_FREE_FLAG" "\<not> flag fl rbITEM_DUMMY_DATA_FLAG"
    "q0 + rbHEADER_SIZE \<le> xSize rb"
    using inv blk by (auto simp: it_inv_def blk_at_def)
  have wfl: "\<not> flag (written fl) rbITEM_DUMMY_DATA_FLAG" "\<not> flag (written fl) rbITEM_FREE_FLAG"
    "flag (written fl) rbITEM_WRITTEN_FLAG"
    using k by (simp_all add: written_def)
  have "it_inv (rb\<lparr>pucStorage := ?m', xItemsWaiting := xItemsWaiting rb + 1\<rparr>) xs ys
          (us @ Item (written fl) ds # vs)"
    using it_inv_replace [OF inv q0 blk_at_flags(1) [OF blk b(1,2) wfl(1) refl]] k wfl fl
      blk_at_flags(2) [OF blk b(1,2) wfl(1) refl] by simp
  moreover have "vpos (xSize rb) q0"
  proof -
    have "chain (pucStorage rb) (xSize rb) (pucFree rb) ((xs @ ys @ us) @ Item fl ds # vs) (pucAcquire rb)"
      using inv by (simp add: it_inv_def del: chain_append)
    then obtain r where r: "chain (pucStorage rb) (xSize rb) (pucFree rb) (xs @ ys @ us) r"
      unfolding chain_append by blast
    then show ?thesis using chain_vpos [OF r b(4)] chain_end [OF r] b(4) q0 by simp
  qed
  then have "(q0 + rbHEADER_SIZE) mod 4 = 0"
    unfolding vpos_def rbHEADER_SIZE_def by (intro mod4_add) simp_all
  ultimately show ?thesis
    using k blk b(1) fl
    by (intro exI [of _ ?m'])
      (simp add: prvSendItemDoneNoSplit_def get_item_hdr_def blk_at_def put_hdr_Inr written_def)
qed

lemma zs_fuel:
  assumes "it_inv rb xs ys zs"
  shows "length zs < xSize rb + 2"
proof -
  have "chain (pucStorage rb) (xSize rb) (pucFree rb) (xs @ ys @ zs) (pucAcquire rb)"
    "tspan (xSize rb) (pucFree rb) (xs @ ys @ zs) \<le> xSize rb"
    using assms by (simp_all only: it_inv_def)
  then show ?thesis using tspan_ge_length by fastforce
qed

text \<open>
  Completing an acquired item never fails. Items become available in the order they were acquired:
  the finished prefix of the acquired items moves to the items that wait.
\<close>

lemma done_ok:
  assumes inv: "it_inv rb xs ys (us @ Item fl ds # vs)"
    and q0: "q0 = radv (xSize rb) (pucFree rb) (tspan (xSize rb) (pucFree rb) (xs @ ys @ us))"
    and fl: "\<not> flag fl rbITEM_WRITTEN_FLAG"
    and zs: "zs = us @ Item (written fl) ds # vs"
  shows "\<exists>rb'. prvSendItemDoneNoSplit rb (q0 + rbHEADER_SIZE) = Inr rb' \<and>
     (if tspan (xSize rb) (pucWrite rb) zs < xSize rb
      then it_inv rb' xs
             (ys @ map (mark rbITEM_WRITTEN_FLAG) (takeWhile (skips rbITEM_WRITTEN_FLAG) zs))
             (dropWhile (skips rbITEM_WRITTEN_FLAG) zs)
      else it_inv rb' xs ys zs \<and> pucWrite rb' = pucAcquire rb') \<and>
     xSize rb' = xSize rb \<and> pucFree rb' = pucFree rb \<and> xMethods rb' = xMethods rb"
proof -
  obtain m' where m': "it_inv (rb\<lparr>pucStorage := m', xItemsWaiting := xItemsWaiting rb + 1\<rparr>) xs ys zs"
    "prvSendItemDoneNoSplit rb (q0 + rbHEADER_SIZE) = prvSkipWritten (xSize rb + 2)
       (rb\<lparr>pucStorage := m', xItemsWaiting := xItemsWaiting rb + 1\<rparr>)"
    using done_mark [OF inv q0 fl] zs by blast
  show ?thesis
  proof (cases "tspan (xSize rb) (pucWrite rb) zs < xSize rb")
    case True
    then show ?thesis using skip_written_ok [OF m'(1), of "xSize rb + 2"] zs_fuel [OF m'(1)] m'(2) by auto
  next
    case False
    then show ?thesis using skip_written_full [OF m'(1), of "xSize rb + 2"] m' by auto
  qed
qed

section \<open>Sending to a no-split buffer\<close>

definition payloads :: "blk list \<Rightarrow> byte list list" where
  "payloads bs = map bdat (filter is_item bs)"

definition unsplit :: "blk list \<Rightarrow> bool" where
  "unsplit bs \<longleftrightarrow> (\<forall>b \<in> set bs. is_item b \<longrightarrow> \<not> flag (bfl b) rbITEM_SPLIT_FLAG)"

lemma payloads_append [simp]: "payloads (xs @ ys) = payloads xs @ payloads ys"
  by (simp add: payloads_def)

lemma payloads_simps [simp]:
  "payloads [] = []" "payloads (Item fl ds # bs) = ds # payloads bs" "payloads (Dummy fl # bs) = payloads bs"
  by (simp_all add: payloads_def)

lemma payloads_mark [simp]: "payloads (map (mark F) bs) = payloads bs"
proof (induction bs)
  case (Cons b bs)
  then show ?case by (cases b) simp_all
qed simp

lemma unsplit_append [simp]: "unsplit (xs @ ys) \<longleftrightarrow> unsplit xs \<and> unsplit ys"
  by (auto simp: unsplit_def)

lemma unsplit_simps [simp]:
  "unsplit []" "unsplit (Item fl ds # bs) \<longleftrightarrow> \<not> flag fl rbITEM_SPLIT_FLAG \<and> unsplit bs"
  "unsplit (Dummy fl # bs) \<longleftrightarrow> unsplit bs"
  by (auto simp: unsplit_def)

lemma unsplit_mark [simp]: "unsplit (map (mark F) bs) = unsplit bs"
proof (induction bs)
  case (Cons b bs)
  then show ?case by (cases b) simp_all
qed simp

lemma no_items:
  assumes "n_items us = 0"
  shows "payloads us = []" "unsplit us" "n_written us = 0" "\<forall>b \<in> set us. skips F b"
  using assms by (auto simp: n_items_def payloads_def unsplit_def n_written_def skips_def filter_empty_conv)

lemma copy_nosplit_ok:
  assumes inv: "it_inv rb xs ys []" and ty: "xMethods rb = RINGBUF_TYPE_NOSPLIT"
    and n: "length item \<le> xMaxItemSize rb"
    and fits: "prvCheckItemFitsDefault rb (length item) = Inr True"
  shows "\<exists>rb' new. prvCopyItemNoSplit rb item = Inr rb' \<and> it_inv rb' xs (ys @ new) [] \<and>
           payloads new = [item] \<and> unsplit new \<and>
           xSize rb' = xSize rb \<and> pucFree rb' = pucFree rb \<and> xMethods rb' = xMethods rb"
proof -
  let ?F = rbITEM_WRITTEN_FLAG
  obtain rb1 us ds q0 where a: "prvAcquireItemNoSplit rb (length item) = Inr (rb1, q0 + rbHEADER_SIZE)"
    "length ds = length item" "n_items us = 0" "it_inv rb1 xs ys (us @ [Item 0 ds])"
    "q0 = radv (xSize rb1) (pucFree rb1) (tspan (xSize rb1) (pucFree rb1) (xs @ ys @ us))"
    "xSize rb1 = xSize rb" "pucFree rb1 = pucFree rb" "xMethods rb1 = xMethods rb"
    using acquire_ok [OF assms] by auto
  obtain m where m: "mem_store (q0 + rbHEADER_SIZE) item (pucStorage rb1) = Inr m"
    "it_inv (rb1\<lparr>pucStorage := m\<rparr>) xs ys (us @ [Item 0 item])"
    using store_ok [OF a(4,5)] a(2) by metis
  let ?rb2 = "rb1\<lparr>pucStorage := m\<rparr>" and ?zs = "us @ [Item (written 0) item]"
  obtain rb' where r: "prvSendItemDoneNoSplit ?rb2 (q0 + rbHEADER_SIZE) = Inr rb'"
    "if tspan (xSize ?rb2) (pucWrite ?rb2) ?zs < xSize ?rb2
     then it_inv rb' xs (ys @ map (mark ?F) (takeWhile (skips ?F) ?zs)) (dropWhile (skips ?F) ?zs)
     else it_inv rb' xs ys ?zs \<and> pucWrite rb' = pucAcquire rb'"
    "xSize rb' = xSize rb" "pucFree rb' = pucFree rb" "xMethods rb' = xMethods rb"
    using done_ok [OF m(2) _ _ refl, of q0] a(5-8) by auto
  have w: "flag (written 0) ?F" "\<not> flag (written 0) rbITEM_SPLIT_FLAG" by (simp_all add: written_def)
  have all: "\<forall>b \<in> set ?zs. skips ?F b" using no_items(4) [OF a(3)] w by (auto simp: skips_def)
  then have ts: "takeWhile (skips ?F) ?zs = ?zs" "dropWhile (skips ?F) ?zs = []"
    using takeWhile_eq_all_conv [of "skips ?F" ?zs] dropWhile_eq_Nil_conv [of "skips ?F" ?zs] by blast+
  have "it_inv rb' xs (ys @ map (mark ?F) ?zs) [] \<or> it_inv rb' xs (ys @ ?zs) []"
  proof (cases "tspan (xSize ?rb2) (pucWrite ?rb2) ?zs < xSize ?rb2")
    case True
    then show ?thesis using r(2) unfolding ts by simp
  next
    case False
    then have "it_inv rb' xs ys ?zs" "pucWrite rb' = pucAcquire rb'" using r(2) by simp_all
    then show ?thesis using it_inv_join [of rb' xs ys ?zs] no_items(3) [OF a(3)] a(3) w by simp
  qed
  then obtain new where new: "it_inv rb' xs (ys @ new) []" "new = map (mark ?F) ?zs \<or> new = ?zs" by blast
  then have "payloads new = [item]" "unsplit new" using no_items [OF a(3)] w by auto
  moreover have "prvCopyItemNoSplit rb item = Inr rb'"
    using a(1) m(1) r(1) by (simp add: prvCopyItemNoSplit_def)
  ultimately show ?thesis using new(1) r(3-5) by blast
qed

end
