(* ===== verification/Ringbuf_Recv.thy ===== *)
theory Ringbuf_Recv
  imports Ringbuf_Send
begin

text \<open>
  Retrieving and returning items of no-split and allow-split buffers. Retrieving moves the oldest
  waiting item to the retrieved ones; returning frees it, and reclaims the freed prefix.
\<close>

section \<open>Retrieving\<close>

lemma ys_blk:
  assumes inv: "it_inv rb xs (us @ b # ys) zs"
    and q0: "q0 = radv (xSize rb) (pucFree rb) (tspan (xSize rb) (pucFree rb) (xs @ us))"
  shows "blk_at (pucStorage rb) (xSize rb) q0 b"
proof -
  have "chain (pucStorage rb) (xSize rb) (pucFree rb) ((xs @ us) @ b # (ys @ zs)) (pucAcquire rb)"
    using inv by (simp add: it_inv_def del: chain_append)
  from chain_blk [OF this _ q0] show ?thesis using it_inv_basic(4) [OF inv] by simp
qed

lemma read_full:
  assumes inv: "it_inv rb xs ys zs" and ne: "ys \<noteq> []"
  shows "pucRead rb \<noteq> pucWrite rb \<or> flag (uxRingbufferFlags rb) rbBUFFER_FULL_FLAG"
proof -
  let ?S = "xSize rb" and ?f = "pucFree rb"
  note b = it_inv_basic [OF inv]
  have f: "?f < ?S" and r: "pucRead rb < ?S" using b by simp_all
  have req: "pucRead rb = radv ?S ?f (tspan ?S ?f xs)"
    and weq: "pucWrite rb = radv ?S ?f (tspan ?S ?f (xs @ ys))" using inv by (simp_all add: it_inv_def)
  have "chain (pucStorage rb) ?S ?f (xs @ ys @ zs) (pucAcquire rb)" using inv by (simp only: it_inv_def)
  then obtain q w where q: "chain (pucStorage rb) ?S ?f xs q" "chain (pucStorage rb) ?S q ys w" by auto
  have "q = pucRead rb" using chain_end [OF q(1) f] req by simp
  then have pos: "0 < tspan ?S (pucRead rb) ys" using tspan_pos [OF q(2) ne] by simp
  have T: "tspan ?S ?f (xs @ ys @ zs) =
      tspan ?S ?f xs + (tspan ?S (pucRead rb) ys + tspan ?S (pucWrite rb) zs)"
    using tspan_append [OF f, of xs "ys @ zs"] tspan_append [OF r, of ys zs] req weq
      tspan_append [OF f, of xs ys] by simp
  have le: "tspan ?S ?f (xs @ ys @ zs) \<le> ?S" and
    fl: "flag (uxRingbufferFlags rb) rbBUFFER_FULL_FLAG \<longleftrightarrow> tspan ?S ?f (xs @ ys @ zs) = ?S"
    using inv by (simp_all only: it_inv_def)
  have "pucWrite rb = radv ?S (pucRead rb) (tspan ?S (pucRead rb) ys)"
    using tspan_append [OF f, of xs ys] req weq by simp
  then have "pucRead rb = pucWrite rb \<longleftrightarrow> tspan ?S (pucRead rb) ys = ?S"
    using radv_eq_self [OF r, of "tspan ?S (pucRead rb) ys"] le T pos by auto
  then show ?thesis using fl le T by auto
qed

lemma avail_iff:
  assumes inv: "it_inv rb xs ys []"
  shows "prvCheckItemAvail rb \<longleftrightarrow> n_items ys \<noteq> 0"
proof -
  have "\<not> flag (uxRingbufferFlags rb) rbBYTE_BUFFER_FLAG" "xItemsWaiting rb = int (n_items ys)"
    using inv by (simp_all add: it_inv_def item_cfg_def)
  moreover have "ys \<noteq> []" if "n_items ys \<noteq> 0" using that by auto
  ultimately show ?thesis
    using read_full [OF inv] by (auto simp: prvCheckItemAvail_def)
qed

lemma it_inv_take:
  assumes inv: "it_inv rb xs (us @ Item fl ds # ys) zs" and us: "n_items us = 0"
    and r: "r = bnext (xSize rb) (radv (xSize rb) (pucFree rb) (tspan (xSize rb) (pucFree rb) (xs @ us)))
              (Item fl ds)"
  shows "it_inv (rb\<lparr>xItemsWaiting := xItemsWaiting rb - 1, pucRead := r\<rparr>) (xs @ us @ [Item fl ds]) ys zs"
proof -
  have f: "pucFree rb < xSize rb" using it_inv_basic(4) [OF inv] by simp
  have r': "r = radv (xSize rb) (pucFree rb) (tspan (xSize rb) (pucFree rb) (xs @ us @ [Item fl ds]))"
    using tspan_append [OF f, of "xs @ us" "[Item fl ds]"] r by (simp add: bnext_def)
  have dk: "dummies_ok ((us @ [Item fl ds]) @ (ys @ zs))" "dummies_ok xs"
    using inv by (simp_all add: it_inv_def)
  have "dummies_ok (us @ [Item fl ds])"
    using dk(1) us by (induction us rule: dummies_ok.induct) (auto simp: hd_append)
  then have "dummies_ok (xs @ us @ [Item fl ds])" "dummies_ok (ys @ zs)"
    using dk dummies_ok_append [of xs "us @ [Item fl ds]"] dummies_ok_drop by blast+
  with inv us r' show ?thesis
    by (auto simp: it_inv_def item_cfg_def simp del: chain_append)
qed

lemma hd_dummy:
  assumes "dummies_ok (us @ Item fl ds # bs)" and "n_items us = 0"
  shows "us = [] \<or> (\<exists>fd. us = [Dummy fd])"
proof (cases us)
  case (Cons d us')
  then obtain fd where d: "d = Dummy fd" using assms(2) by (cases d) auto
  have "us' = []"
  proof (rule ccontr)
    assume "us' \<noteq> []"
    then obtain d' us'' where u: "us' = d' # us''" by (cases us') auto
    then obtain fd' where "d' = Dummy fd'" using assms(2) Cons d by (cases d') auto
    with assms(1) Cons d u show False by simp
  qed
  with Cons d show ?thesis by simp
qed simp

text \<open>
  Retrieving never fails while an item waits. It returns the address and the length of the oldest
  waiting item, whose bytes are at that address, and leaves the storage alone.
\<close>

lemma get_ok:
  assumes inv: "it_inv rb xs (us @ Item fl ds # ys) zs" and us: "n_items us = 0"
    and q0: "q0 = radv (xSize rb) (pucFree rb) (tspan (xSize rb) (pucFree rb) (xs @ us))"
  shows "prvGetItemDefault rb =
           Inr (rb\<lparr>xItemsWaiting := xItemsWaiting rb - 1, pucRead := bnext (xSize rb) q0 (Item fl ds)\<rparr>,
                q0 + rbHEADER_SIZE, length ds, flag fl rbITEM_SPLIT_FLAG)"
proof -
  let ?S = "xSize rb" and ?f = "pucFree rb" and ?r = "pucRead rb"
  note b = it_inv_basic [OF inv] and blk = ys_blk [OF inv q0]
  have f: "?f < ?S" using b by simp
  have k: "length ds \<le> xMaxItemSize rb" "xItemsWaiting rb > 0" "?r = radv ?S ?f (tspan ?S ?f xs)"
    using inv by (auto simp: it_inv_def)
  have full: "?r \<noteq> pucWrite rb \<or> flag (uxRingbufferFlags rb) rbBUFFER_FULL_FLAG"
    using read_full [OF inv] by simp
  have q0S: "q0 < ?S" using f q0 by simp
  have sz: "q0 + (rbHEADER_SIZE + align4 (length ds)) \<le> ?S" using blk by (simp add: blk_at_def)
  then have pos: "if length ds = 0 then q0 + rbHEADER_SIZE \<le> ?S else q0 + rbHEADER_SIZE < ?S"
    using align4_bounds(1) [of "length ds"] by (cases ds) auto
  note al = item_sizes(1) [OF inv k(1)] item_sizes(3) [OF inv k(1)]
  have nx: "bnext ?S q0 (Item fl ds) = (let q = q0 + uadd rbHEADER_SIZE (rbALIGN_SIZE (length ds))
                                         in if usub ?S q < rbHEADER_SIZE then 0 else q)"
    using bnext_item [OF sz q0S, of fl] al sz b(2) by (simp add: Let_def add.commute)
  have h: "get_hdr q0 (pucStorage rb) = Inr \<lparr>xItemLen = length ds, uxItemFlags = fl\<rparr>"
    "\<not> flag fl rbITEM_DUMMY_DATA_FLAG"
    using blk by (simp_all add: blk_at_def)
  have r: "?r mod 4 = 0" "?r < ?S" using b(6) by (simp_all add: vpos_def rbHEADER_SIZE_def)
  have "dummies_ok (us @ Item fl ds # ys @ zs)" using inv by (simp add: it_inv_def)
  from hd_dummy [OF this us] show ?thesis
  proof (elim disjE exE)
    assume "us = []"
    then have "q0 = ?r" using q0 k(3) by simp
    with h k(1,2) full pos r show ?thesis
      unfolding nx by (cases "length ds = 0") (simp_all add: prvGetItemDefault_def Let_def)
  next
    fix fd
    assume us': "us = [Dummy fd]"
    have d: "blk_at (pucStorage rb) ?S ?r (Dummy fd)"
      using ys_blk [of rb xs "[]" "Dummy fd" "Item fl ds # ys" zs ?r] inv us' k(3) by simp
    have "q0 = 0"
      using q0 us' k(3) bnext_dummy [of ?r ?S fd] r(2) by (simp add: radv_tspan_snoc [OF f])
    moreover have "get_hdr ?r (pucStorage rb) = Inr \<lparr>xItemLen = 0, uxItemFlags = fd\<rparr>"
      "flag fd rbITEM_DUMMY_DATA_FLAG"
      using d by (simp_all add: blk_at_def)
    ultimately show ?thesis
      using h k(1,2) full pos r unfolding nx by (cases "length ds = 0") (simp_all add: prvGetItemDefault_def Let_def)
  qed
qed

section \<open>Returning\<close>

definition freed :: "u32 \<Rightarrow> u32" where
  "freed fl = (fl AND NOT rbITEM_SPLIT_FLAG) OR rbITEM_FREE_FLAG"

lemma xs_blk:
  assumes inv: "it_inv rb (us @ b # vs) ys zs"
    and q0: "q0 = radv (xSize rb) (pucFree rb) (tspan (xSize rb) (pucFree rb) us)"
  shows "blk_at (pucStorage rb) (xSize rb) q0 b" and "vpos (xSize rb) q0"
proof -
  have ch: "chain (pucStorage rb) (xSize rb) (pucFree rb) (us @ b # (vs @ ys @ zs)) (pucAcquire rb)"
    using inv by (simp add: it_inv_def del: chain_append)
  from chain_blk [OF this _ q0] show "blk_at (pucStorage rb) (xSize rb) q0 b"
    using it_inv_basic(4) [OF inv] by simp
  from ch obtain r where r: "chain (pucStorage rb) (xSize rb) (pucFree rb) us r"
    unfolding chain_append by blast
  show "vpos (xSize rb) q0"
    using chain_vpos [OF r] chain_end [OF r] q0 it_inv_basic(4) [OF inv] by simp
qed

lemma it_inv_replace_held:
  assumes inv: "it_inv rb (us @ b # vs) ys zs"
    and q0: "q0 = radv (xSize rb) (pucFree rb) (tspan (xSize rb) (pucFree rb) us)"
    and b': "blk_at m' (xSize rb) q0 b'" "bspan (xSize rb) q0 b' = bspan (xSize rb) q0 b"
    and k: "is_item b' = is_item b" "xItemLen (blk_hdr b') \<le> xMaxItemSize rb"
    and ag: "mem_agree (- {q0..<q0 + bspan (xSize rb) q0 b}) (pucStorage rb) m'"
  shows "it_inv (rb\<lparr>pucStorage := m'\<rparr>) (us @ b' # vs) ys zs"
proof -
  let ?S = "xSize rb" and ?f = "pucFree rb" and ?m = "pucStorage rb"
  note basic = it_inv_basic [OF inv]
  have f: "?f < ?S" using basic by simp
  have W: "chain ?m ?S ?f (us @ b # (vs @ ys @ zs)) (pucAcquire rb)"
    using inv by (simp add: it_inv_def del: chain_append)
  have le: "tspan ?S ?f (us @ b # (vs @ ys @ zs)) \<le> ?S" using inv by (simp add: it_inv_def)
  have ch: "chain m' ?S ?f (us @ b' # (vs @ ys @ zs)) (pucAcquire rb)"
    by (rule chain_replace_blk [OF W f basic(1) le q0 b' ag])
  have T: "tspan ?S ?f (us @ b' # ws) = tspan ?S ?f (us @ b # ws)" for ws
    using tspan_cong [OF f, of us "[b']" "[b]" ws] b'(2) q0 by simp
  have dk: "dummies_ok (us @ b' # vs) \<longleftrightarrow> dummies_ok (us @ b # vs)"
    by (rule dummies_ok_iff_map) (simp add: k)
  have lm: "length m' = ?S" using ag basic(1) by (simp add: mem_agree_def)
  show ?thesis
    unfolding it_inv_def
    using inv ch T dk k lm by (auto simp: it_inv_def item_cfg_def simp del: chain_append)
qed

lemma xs_fuel: "it_inv rb xs ys zs \<Longrightarrow> length xs < xSize rb + 2"
proof -
  assume inv: "it_inv rb xs ys zs"
  have "chain (pucStorage rb) (xSize rb) (pucFree rb) (xs @ ys @ zs) (pucAcquire rb)"
    "tspan (xSize rb) (pucFree rb) (xs @ ys @ zs) \<le> xSize rb"
    using inv by (simp_all only: it_inv_def)
  then show ?thesis using tspan_ge_length by fastforce
qed

lemma held_span:
  assumes inv: "it_inv rb xs ys zs"
  shows "tspan (xSize rb) (pucFree rb) (xs @ ys @ zs) =
           tspan (xSize rb) (pucFree rb) xs + tspan (xSize rb) (pucRead rb) (ys @ zs)"
    and "chain (pucStorage rb) (xSize rb) (pucFree rb) xs (pucRead rb)"
    and "chain (pucStorage rb) (xSize rb) (pucRead rb) (ys @ zs) (pucAcquire rb)"
proof -
  have f: "pucFree rb < xSize rb" using it_inv_basic(4) [OF inv] by simp
  have r: "pucRead rb = radv (xSize rb) (pucFree rb) (tspan (xSize rb) (pucFree rb) xs)"
    using inv by (simp add: it_inv_def)
  show "tspan (xSize rb) (pucFree rb) (xs @ ys @ zs) =
      tspan (xSize rb) (pucFree rb) xs + tspan (xSize rb) (pucRead rb) (ys @ zs)"
    using tspan_append [OF f, of xs "ys @ zs"] r by simp
  have "chain (pucStorage rb) (xSize rb) (pucFree rb) (xs @ ys @ zs) (pucAcquire rb)"
    using inv by (simp only: it_inv_def)
  then obtain q where q: "chain (pucStorage rb) (xSize rb) (pucFree rb) xs q"
    "chain (pucStorage rb) (xSize rb) q (ys @ zs) (pucAcquire rb)"
    using chain_append [of _ _ _ xs "ys @ zs"] by blast
  moreover have "q = pucRead rb" using chain_end [OF q(1) f] r by simp
  ultimately show "chain (pucStorage rb) (xSize rb) (pucFree rb) xs (pucRead rb)"
    "chain (pucStorage rb) (xSize rb) (pucRead rb) (ys @ zs) (pucAcquire rb)" by simp_all
qed

lemma reset_fields [simp]:
  "xSize (prvResetFullFlag rb) = xSize rb" "xMaxItemSize (prvResetFullFlag rb) = xMaxItemSize rb"
  "xMethods (prvResetFullFlag rb) = xMethods rb" "pucAcquire (prvResetFullFlag rb) = pucAcquire rb"
  "pucWrite (prvResetFullFlag rb) = pucWrite rb" "pucRead (prvResetFullFlag rb) = pucRead rb"
  "pucFree (prvResetFullFlag rb) = pucFree rb" "pucStorage (prvResetFullFlag rb) = pucStorage rb"
  "xItemsWaiting (prvResetFullFlag rb) = xItemsWaiting rb"
  "item_cfg (prvResetFullFlag rb) = item_cfg rb"
  by (simp_all add: prvResetFullFlag_def item_cfg_def)

lemma item_cfg_moved [simp]: "item_cfg (rb\<lparr>pucStorage := m, pucFree := f\<rparr>) = item_cfg rb"
  by (simp add: item_cfg_def)

text \<open>
  The loop and the reset of the full flag when the retrieved items do not cover the whole storage:
  the freed prefix is reclaimed.
\<close>

lemma skip_freed_ok:
  assumes inv: "it_inv rb xs ys zs" and lt: "tspan (xSize rb) (pucFree rb) xs < xSize rb"
    and n: "length xs < n" and ne: "xs \<noteq> []"
    and ts: "ts = takeWhile (skips rbITEM_FREE_FLAG) xs"
    and f': "f' = radv (xSize rb) (pucFree rb) (tspan (xSize rb) (pucFree rb) ts)"
  shows "\<exists>m'. prvSkipFreed n rb = Inr (rb\<lparr>pucStorage := m', pucFree := f'\<rparr>) \<and>
           it_inv (prvResetFullFlag (rb\<lparr>pucStorage := m', pucFree := f'\<rparr>))
             (dropWhile (skips rbITEM_FREE_FLAG) xs) ys zs"
proof -
  let ?S = "xSize rb" and ?f = "pucFree rb" and ?m = "pucStorage rb" and ?F = rbITEM_FREE_FLAG
  let ?rs = "dropWhile (skips ?F) xs"
  note b = it_inv_basic [OF inv]
  have f: "?f < ?S" using b(4) by simp
  have f'S: "f' < ?S" using f f' by simp
  have xs: "ts @ ?rs @ ws = xs @ ws" for ws unfolding ts append.assoc [symmetric] by simp
  from skip_loop_chain [OF held_span(2) [OF inv] b(4) b(1,2) lt n, of ?F] obtain m' where
    l: "skip_loop n ?F ?S ?f (pucRead rb) ?m = Inr (f', m')"
    and ag: "mem_agree (- rrun ?S ?f (tspan ?S ?f ts)) ?m m'"
    and tsm: "chain m' ?S ?f (map (mark ?F) ts) f'"
    by (auto simp: Let_def ts f')
  have W: "chain ?m ?S ?f ([] @ ts @ (?rs @ ys @ zs)) (pucAcquire rb)"
    unfolding append_Nil xs using inv by (simp only: it_inv_def)
  have le: "tspan ?S ?f ([] @ ts @ (?rs @ ys @ zs)) \<le> ?S"
    unfolding append_Nil xs using inv by (simp only: it_inv_def)
  have "chain m' ?S ?f ([] @ map (mark ?F) ts @ (?rs @ ys @ zs)) (pucAcquire rb)"
    by (rule chain_replace [OF W f b(1) le]) (use f tsm ag f' in auto)
  then obtain q where q: "chain m' ?S ?f (map (mark ?F) ts) q" "chain m' ?S q (?rs @ ys @ zs) (pucAcquire rb)"
    using chain_append [of _ _ _ "map (mark ?F) ts"] by auto
  have "q = f'" using chain_end [OF q(1) f] f' by simp
  then have ch: "chain m' ?S f' (?rs @ ys @ zs) (pucAcquire rb)" using q by simp
  have T: "tspan ?S ?f (xs @ ws) = tspan ?S ?f ts + tspan ?S f' (?rs @ ws)" for ws
    using tspan_append [OF f, of ts "?rs @ ws"] f' unfolding xs by simp
  have rr: "pucRead rb = radv ?S f' (tspan ?S f' ?rs)"
    "pucWrite rb = radv ?S f' (tspan ?S f' (?rs @ ys))"
    using inv T [of "[]"] T [of ys] f' by (simp_all add: it_inv_def)
  have lm: "length m' = ?S" using ag b(1) by (simp add: mem_agree_def)
  have v': "vpos ?S f'"
    using chain_vpos [OF tsm] b(4) by simp
  let ?T = "tspan ?S ?f (xs @ ys @ zs)" and ?T' = "tspan ?S f' (?rs @ ys @ zs)"
  have TT: "?T = tspan ?S ?f ts + ?T'" "?T \<le> ?S" "flag (uxRingbufferFlags rb) rbBUFFER_FULL_FLAG \<longleftrightarrow> ?T = ?S"
    using T inv by (simp_all add: it_inv_def)
  have xpos: "0 < tspan ?S ?f xs" using tspan_pos [OF held_span(2) [OF inv] ne] .
  have fr: "?f \<noteq> pucRead rb" using chain_end [OF held_span(2) [OF inv] f] radv_eq_self [OF f, of "tspan ?S ?f xs"] lt xpos by auto
  have full: "flag (uxRingbufferFlags (prvResetFullFlag (rb\<lparr>pucStorage := m', pucFree := f'\<rparr>)))
                rbBUFFER_FULL_FLAG \<longleftrightarrow> ?T' = ?S"
  proof (cases "tspan ?S ?f ts = 0")
    case True
    then have "f' = ?f" using f f' by simp
    then show ?thesis
      using True TT fr f b(8) by (auto simp: prvResetFullFlag_def)
  next
    case False
    have "tspan ?S ?f ts < ?S" using T [of "[]"] lt by simp
    then have "f' \<noteq> ?f" using False f' radv_eq_self [OF f, of "tspan ?S ?f ts"] by simp
    then show ?thesis
      using False TT f b(8) by (auto simp: prvResetFullFlag_def)
  qed
  have dk: "dummies_ok ?rs" using inv dummies_ok_dropWhile by (simp add: it_inv_def)
  have "it_inv (prvResetFullFlag (rb\<lparr>pucStorage := m', pucFree := f'\<rparr>)) ?rs ys zs"
    unfolding it_inv_def full
    using inv ch rr lm v' TT dk by (simp add: it_inv_def del: chain_append) (auto dest: set_dropWhileD)
  then show ?thesis using l by (auto simp: prvSkipFreed_loop)
qed

text \<open>
  When the retrieved items cover the whole storage, the loop does not start and the full flag is
  reset at once: right when no other item is still out.
\<close>

lemma skip_freed_full:
  assumes inv: "it_inv rb xs ys zs" and ge: "\<not> tspan (xSize rb) (pucFree rb) xs < xSize rb"
    and n: "0 < n"
  shows "prvSkipFreed n rb = Inr rb" and "it_inv (prvResetFullFlag rb) [] ys zs"
    and "ys = []" and "zs = []"
proof -
  note b = it_inv_basic [OF inv] and h = held_span [OF inv]
  have f: "pucFree rb < xSize rb" using b(4) by simp
  have T: "tspan (xSize rb) (pucFree rb) (xs @ ys @ zs) \<le> xSize rb"
    "flag (uxRingbufferFlags rb) rbBUFFER_FULL_FLAG \<longleftrightarrow>
       tspan (xSize rb) (pucFree rb) (xs @ ys @ zs) = xSize rb"
    using inv by (simp_all only: it_inv_def)
  have z: "tspan (xSize rb) (pucRead rb) (ys @ zs) = 0" "tspan (xSize rb) (pucFree rb) xs = xSize rb"
    using T(1) h(1) ge by auto
  then have yz: "ys @ zs = []" using tspan_pos [OF h(3)] by (cases "ys @ zs") auto
  then show "ys = []" "zs = []" by simp_all
  have eq: "pucRead rb = pucFree rb" "pucAcquire rb = pucFree rb" "pucWrite rb = pucFree rb"
    "flag (uxRingbufferFlags rb) rbBUFFER_FULL_FLAG" "xItemsWaiting rb = 0"
    using inv z b(8) f T(2) yz by (auto simp: it_inv_def)
  show "prvSkipFreed n rb = Inr rb"
    using skip_loop_at_stop [OF b(4) b(1) n] eq(1) by (simp add: prvSkipFreed_loop)
  have "\<not> flag (uxRingbufferFlags (prvResetFullFlag rb)) rbBUFFER_FULL_FLAG"
    by (simp add: prvResetFullFlag_def eq)
  then show "it_inv (prvResetFullFlag rb) [] ys zs"
    using b(1-4) eq yz gr_implies_not0 [OF f] by (simp add: it_inv_def)
qed

lemma return_mark:
  assumes inv: "it_inv rb (us @ Item fl ds # vs) ys zs"
    and q0: "q0 = radv (xSize rb) (pucFree rb) (tspan (xSize rb) (pucFree rb) us)"
    and fl: "\<not> flag fl rbITEM_FREE_FLAG"
  shows "\<exists>m'. it_inv (rb\<lparr>pucStorage := m'\<rparr>) (us @ Item (freed fl) ds # vs) ys zs \<and>
              prvReturnItemDefault rb (q0 + rbHEADER_SIZE) =
                bindR (prvSkipFreed (xSize rb + 2) (rb\<lparr>pucStorage := m'\<rparr>)) (\<lambda>rb. Inr (prvResetFullFlag rb))"
proof -
  let ?m' = "mem_write q0 (hdr_bytes \<lparr>xItemLen = length ds, uxItemFlags = freed fl\<rparr>) (pucStorage rb)"
  note b = it_inv_basic [OF inv] and blk = xs_blk [OF inv q0]
  have k: "length ds \<le> xMaxItemSize rb" "\<not> flag fl rbITEM_DUMMY_DATA_FLAG" "q0 + rbHEADER_SIZE \<le> xSize rb"
    using inv blk(1) by (auto simp: it_inv_def blk_at_def)
  have ffl: "\<not> flag (freed fl) rbITEM_DUMMY_DATA_FLAG" using k by (simp add: freed_def)
  have "it_inv (rb\<lparr>pucStorage := ?m'\<rparr>) (us @ Item (freed fl) ds # vs) ys zs"
    using it_inv_replace_held [OF inv q0 blk_at_flags(1) [OF blk(1) b(1,2) ffl refl]] k
      blk_at_flags(2) [OF blk(1) b(1,2) ffl refl] by simp
  moreover have "(q0 + rbHEADER_SIZE) mod 4 = 0"
    using blk(2) unfolding vpos_def rbHEADER_SIZE_def by (intro mod4_add) simp_all
  ultimately show ?thesis
    using k blk(1) b(1) fl
    by (intro exI [of _ ?m'])
      (simp add: prvReturnItemDefault_def get_item_hdr_def blk_at_def put_hdr_Inr freed_def)
qed

text \<open>
  Returning a retrieved item never fails: it frees the item and reclaims the freed prefix, provided
  that other items are out only when the retrieved ones do not cover the whole storage.
\<close>

lemma return_ok:
  assumes inv: "it_inv rb (us @ Item fl ds # vs) ys zs"
    and q0: "q0 = radv (xSize rb) (pucFree rb) (tspan (xSize rb) (pucFree rb) us)"
    and fl: "\<not> flag fl rbITEM_FREE_FLAG"
    and last: "tspan (xSize rb) (pucFree rb) (us @ Item fl ds # vs) < xSize rb \<or>
               (\<forall>b \<in> set (us @ vs). skips rbITEM_FREE_FLAG b)"
    and xs: "xs = us @ Item (freed fl) ds # vs"
  shows "\<exists>rb'. prvReturnItemDefault rb (q0 + rbHEADER_SIZE) = Inr rb' \<and>
     it_inv rb' (dropWhile (skips rbITEM_FREE_FLAG) xs) ys zs \<and>
     (dropWhile (skips rbITEM_FREE_FLAG) xs = [] \<or>
      pucFree rb' = radv (xSize rb) (pucFree rb)
        (tspan (xSize rb) (pucFree rb) (takeWhile (skips rbITEM_FREE_FLAG) xs))) \<and>
     xSize rb' = xSize rb \<and> xMethods rb' = xMethods rb \<and> pucRead rb' = pucRead rb"
proof -
  let ?F = rbITEM_FREE_FLAG
  have f: "pucFree rb < xSize rb" using it_inv_basic(4) [OF inv] by simp
  obtain m' where m': "it_inv (rb\<lparr>pucStorage := m'\<rparr>) xs ys zs"
    "prvReturnItemDefault rb (q0 + rbHEADER_SIZE) =
       bindR (prvSkipFreed (xSize rb + 2) (rb\<lparr>pucStorage := m'\<rparr>)) (\<lambda>rb. Inr (prvResetFullFlag rb))"
    using return_mark [OF inv q0 fl] xs by blast
  have T: "tspan (xSize rb) (pucFree rb) xs = tspan (xSize rb) (pucFree rb) (us @ Item fl ds # vs)"
    using tspan_cong [OF f, of us "[Item (freed fl) ds]" "[Item fl ds]" vs] xs by simp
  show ?thesis
  proof (cases "tspan (xSize rb) (pucFree rb) xs < xSize rb")
    case True
    then show ?thesis
      using skip_freed_ok [OF m'(1) _ _ _ refl refl, of "xSize rb + 2"] xs_fuel [OF m'(1)] m'(2) xs by auto
  next
    case False
    then have "\<forall>b \<in> set xs. skips ?F b" using last T xs by (auto simp: skips_def freed_def)
    then have e: "dropWhile (skips ?F) xs = []" by simp
    show ?thesis
      unfolding e using skip_freed_full [OF m'(1), of "xSize rb + 2"] False m'(2) by simp
  qed
qed

end
