(* ===== verification/Ringbuf_Split.thy ===== *)
theory Ringbuf_Split
  imports Ringbuf_Recv
begin

text \<open>
  Sending to allow-split buffers: an item that does not fit before the end of the storage is stored
  in two parts, the first one marked as split.
\<close>

lemma split_room:
  assumes inv: "it_inv rb xs ys zs" and ty: "xMethods rb = RINGBUF_TYPE_ALLOWSPLIT"
    and n: "n \<le> xMaxItemSize rb" and fits: "prvCheckItemFitsDefault rb n = Inr True"
  shows "let t = rbHEADER_SIZE + align4 n; a = pucAcquire rb; S = xSize rb;
             T = tspan S (pucFree rb) (xs @ ys @ zs)
         in if t \<le> S - a then T + (if S - (a + t) < rbHEADER_SIZE then S - a else t) \<le> S
            else T + t + rbHEADER_SIZE \<le> S"
proof -
  note b = it_inv_basic [OF inv]
  let ?t = "rbHEADER_SIZE + align4 n"
  have v: "xSize rb mod 4 = 0" "pucAcquire rb + 8 \<le> xSize rb" "pucFree rb + 8 \<le> xSize rb"
    using b(4,5) by (simp_all add: vpos_def rbHEADER_SIZE_def)
  have M: "xMaxItemSize rb + 16 = xSize rb" and sp: "flag (uxRingbufferFlags rb) rbALLOW_SPLIT_FLAG"
    using b(3) ty by (simp_all add: item_cfg_def rbHEADER_SIZE_def)
  have "(xMaxItemSize rb + 16) mod 4 = 0" using M v by simp
  then have "xMaxItemSize rb mod 4 = 0" by presburger
  then have t: "?t + 8 \<le> xSize rb"
    using n M align4_le_iff [of "xMaxItemSize rb" n] by (simp add: rbHEADER_SIZE_def)
  show ?thesis
    using inv
  proof (cases rule: acq_cases)
    case empty
    with v t show ?thesis by (auto simp: Let_def rbHEADER_SIZE_def)
  next
    case full
    with fits show ?thesis by (simp add: fits_eq [OF inv n] Let_def)
  next
    case after
    then have "?t \<le> xSize rb - pucAcquire rb \<or>
        ?t + rbHEADER_SIZE \<le> xSize rb - (pucAcquire rb - pucFree rb)"
      using fits sp by (simp add: fits_eq [OF inv n] Let_def split: if_splits)
    with after v show ?thesis by (auto simp: Let_def rbHEADER_SIZE_def)
  next
    case before
    then have "?t \<le> pucFree rb - pucAcquire rb"
      using fits by (simp add: fits_eq [OF inv n] Let_def)
    with before v show ?thesis by (auto simp: Let_def rbHEADER_SIZE_def)
  qed
qed

lemma blk_at_fresh:
  assumes sz: "p + (rbHEADER_SIZE + align4 (length ds)) \<le> S" and m: "length m = S" and S: "S < 2 ^ 31"
    and fl: "\<not> flag fl rbITEM_DUMMY_DATA_FLAG"
    and m': "m' = mem_write (p + rbHEADER_SIZE) ds
               (mem_write p (hdr_bytes \<lparr>xItemLen = length ds, uxItemFlags = fl\<rparr>) m)"
  shows "blk_at m' S p (Item fl ds)" and "mem_agree (- {p..<p + bspan S p (Item fl ds)}) m m'"
proof -
  let ?m1 = "mem_write p (hdr_bytes \<lparr>xItemLen = length ds, uxItemFlags = fl\<rparr>) m"
  let ?ds = "mem_read (p + rbHEADER_SIZE) (length ds) ?m1"
  have le: "length ds \<le> align4 (length ds)" by (rule align4_bounds)
  have m1: "length ?m1 = S" using sz m by simp
  have len: "length ?ds = length ds" using sz le m1 by simp
  have b1: "blk_at ?m1 S p (Item fl ?ds)"
    using sz le m m1 S fl len by (simp add: blk_at_def)
  show "blk_at m' S p (Item fl ds)"
    by (rule blk_at_data(1) [OF b1 m1 len [symmetric] m'])
  have "rbHEADER_SIZE + align4 (length ds) \<le> bspan S p (Item fl ds)"
    using bspan_bounds(1) [of p "Item fl ds" S] sz by simp
  then show "mem_agree (- {p..<p + bspan S p (Item fl ds)}) m m'"
    unfolding m' using sz le m m1
    by (intro mem_agree_trans [OF mem_agree_write mem_agree_write]) auto
qed

lemma align4_add: "align4 (4 * j + r) = 4 * j + align4 r"
  by (simp add: align4_def add.assoc)

lemma align4_diff:
  assumes "k mod 4 = 0" and "k \<le> n"
  shows "align4 (n - k) = align4 n - k"
proof -
  obtain j where "k = 4 * j" using assms(1) by (auto simp: mod_eq_0_iff_dvd)
  moreover obtain r where "n = k + r" using assms(2) le_Suc_ex by blast
  ultimately show ?thesis by (simp add: align4_add)
qed

section \<open>Copying with a split\<close>

text \<open>An item that fits at the end of the storage.\<close>

lemma copy_split_end:
  assumes inv: "it_inv rb xs ys []" and n: "length item \<le> xMaxItemSize rb"
    and t: "rbHEADER_SIZE + align4 (length item) \<le> xSize rb - pucAcquire rb"
    and room: "tspan (xSize rb) (pucFree rb) (xs @ ys @ []) +
                 (if xSize rb - (pucAcquire rb + (rbHEADER_SIZE + align4 (length item))) < rbHEADER_SIZE
                  then xSize rb - pucAcquire rb else rbHEADER_SIZE + align4 (length item)) \<le> xSize rb"
  shows "\<exists>rb'. prvCopyItemAllowSplit rb item = Inr rb' \<and> it_inv rb' xs (ys @ [Item 0 item]) [] \<and>
           xSize rb' = xSize rb \<and> pucFree rb' = pucFree rb \<and> xMethods rb' = xMethods rb"
proof -
  let ?S = "xSize rb" and ?a = "pucAcquire rb" and ?b = "Item 0 item"
  note b = it_inv_basic [OF inv] and sz = item_sizes [OF inv n]
  have a: "?a < ?S" "?a + (rbHEADER_SIZE + align4 (length item)) \<le> ?S" "?a mod 4 = 0"
    "?a + rbHEADER_SIZE \<le> ?S" "rbHEADER_SIZE \<le> ?S - ?a"
    using b(5) t by (auto simp: vpos_def)
  define m1 where "m1 = mem_write ?a (hdr_bytes \<lparr>xItemLen = length item, uxItemFlags = 0\<rparr>) (pucStorage rb)"
  define m' where "m' = mem_write (?a + rbHEADER_SIZE) item m1"
  define a' where "a' = bnext ?S ?a ?b"
  have blk: "blk_at m' ?S ?a ?b" and ag: "mem_agree (- {?a..<?a + bspan ?S ?a ?b}) (pucStorage rb) m'"
    using blk_at_fresh [OF a(2) b(1,2), of 0 m'] by (simp_all add: m'_def m1_def)
  have a': "a' = (if ?S - (?a + (rbHEADER_SIZE + align4 (length item))) < rbHEADER_SIZE then 0
                  else ?a + (rbHEADER_SIZE + align4 (length item)))"
    using bnext_item [of ?a item ?S 0] a by (simp add: a'_def Let_def)
  have le: "tspan ?S (pucFree rb) (xs @ ys @ []) + tspan ?S ?a [?b] \<le> ?S"
    using room by (simp add: Let_def split del: if_split)
  have "mem_agree (- rrun ?S ?a (tspan ?S ?a [?b])) (pucStorage rb) m'"
    using ag blk_run [OF blk] by simp
  from it_inv_extend [OF inv _ _ _ _ free_agree [OF inv le this] le, of a'] blk n
  have "it_inv (rb\<lparr>pucStorage := m', pucAcquire := a',
       uxRingbufferFlags := (if a' = pucFree rb then uxRingbufferFlags rb OR rbBUFFER_FULL_FLAG
                             else uxRingbufferFlags rb)\<rparr>) xs ys [?b]" (is "it_inv ?rb1 _ _ _")
    by (simp add: a'_def)
  from it_inv_commit [OF this]
  have "it_inv (?rb1\<lparr>pucWrite := a', xItemsWaiting := xItemsWaiting rb + 1\<rparr>) xs (ys @ [?b]) []" by simp
  moreover have "prvCopyItemAllowSplit rb item =
      Inr (?rb1\<lparr>pucWrite := a', xItemsWaiting := xItemsWaiting rb + 1\<rparr>)"
    using a b(1,2) sz t align4_bounds(1) [of "length item"] unfolding a'
    by (simp add: prvCopyItemAllowSplit_def put_hdr_Inr mem_store_def m'_def m1_def Let_def add.assoc
        add.commute add.left_commute)
  ultimately show ?thesis by force
qed

text \<open>
  The first block of an item that does not fit at the end: the bytes that fit, or a dummy when only
  a header does.
\<close>

definition first_part :: "nat \<Rightarrow> byte list \<Rightarrow> blk" where
  "first_part k item = (if k > 0 then Item (0 OR rbITEM_SPLIT_FLAG) (take k item)
                        else Dummy (0 OR rbITEM_DUMMY_DATA_FLAG))"

lemma first_part_at:
  assumes a: "a + rbHEADER_SIZE + k = S" and k: "k mod 4 = 0" "k \<le> length item"
    and m: "length m = S" and S: "S < 2 ^ 31"
    and m': "m' = mem_write (a + rbHEADER_SIZE) (take k item)
               (mem_write a (hdr_bytes (blk_hdr (first_part k item))) m)"
  shows "blk_at m' S a (first_part k item)" and "mem_agree (- {a..<S}) m m'"
    and "bspan S a (first_part k item) = S - a"
proof -
  have ak: "align4 k = k" using k by (simp add: align4_aligned)
  show "blk_at m' S a (first_part k item)"
  proof (cases "k = 0")
    case True
    then show ?thesis using a m m' by (simp add: first_part_def blk_at_def)
  next
    case False
    then show ?thesis
      using blk_at_fresh(1) [of a "take k item" S m rbITEM_SPLIT_FLAG m'] a k m S m' ak
      by (simp add: first_part_def min_def)
  qed
  show "mem_agree (- {a..<S}) m m'"
    unfolding m' using a k m by (auto simp: mem_agree_def nth_mem_write)
  show "bspan S a (first_part k item) = S - a"
    using a k ak by (auto simp: first_part_def Let_def min_def rbHEADER_SIZE_def)
qed

lemma first_part_eq:
  assumes "pucAcquire rb + rbHEADER_SIZE + k = xSize rb" and "k \<le> length item"
    and "length (pucStorage rb) = xSize rb" and "xSize rb < 2 ^ 31" and "k \<le> al" and "al < 2 ^ 32"
    and "m' = mem_write (pucAcquire rb + rbHEADER_SIZE) (take k item)
           (mem_write (pucAcquire rb) (hdr_bytes (blk_hdr (first_part k item))) (pucStorage rb))"
  shows "prvCopyFirstPart rb item al (rbHEADER_SIZE + k) =
    Inr (rb\<lparr>pucStorage := m', pucAcquire := 0,
            xItemsWaiting := xItemsWaiting rb + int (n_items [first_part k item])\<rparr>,
         drop k item, al - k)"
  using assms
  by (cases "k = 0") (auto simp: prvCopyFirstPart_def first_part_def put_hdr_Inr mem_store_def min_def)

lemma copy_split_wrap:
  assumes inv: "it_inv rb xs ys []" and n: "length item \<le> xMaxItemSize rb"
    and t: "\<not> rbHEADER_SIZE + align4 (length item) \<le> xSize rb - pucAcquire rb"
    and room: "tspan (xSize rb) (pucFree rb) (xs @ ys @ []) + (rbHEADER_SIZE + align4 (length item)) +
                 rbHEADER_SIZE \<le> xSize rb"
    and k: "k = xSize rb - pucAcquire rb - rbHEADER_SIZE"
  shows "\<exists>rb'. prvCopyItemAllowSplit rb item = Inr rb' \<and>
           it_inv rb' xs (ys @ [first_part k item, Item 0 (drop k item)]) [] \<and>
           0 < pucAcquire rb \<and> bnext (xSize rb) (pucAcquire rb) (first_part k item) = 0 \<and>
           xSize rb' = xSize rb \<and> pucFree rb' = pucFree rb \<and> xMethods rb' = xMethods rb"
proof -
  let ?S = "xSize rb" and ?a = "pucAcquire rb" and ?p = "first_part k item" and ?b = "Item 0 (drop k item)"
  let ?al = "align4 (length item)" and ?m = "pucStorage rb"
  note b = it_inv_basic [OF inv] and sz = item_sizes [OF inv n]
  have a: "?a < ?S" "?a mod 4 = 0" "?a + rbHEADER_SIZE \<le> ?S" "?S mod 4 = 0"
    using b(5) by (auto simp: vpos_def)
  have ak: "?a + rbHEADER_SIZE + k = ?S" using a k by simp
  have "k mod 4 = 0" using ak a unfolding rbHEADER_SIZE_def by presburger
  moreover have "k < ?al" using t ak a by simp
  ultimately have kl: "k mod 4 = 0" "k < length item" "k + 4 \<le> ?al" and al2: "align4 (length item - k) = ?al - k"
    using align4_le_iff [of k "length item"] mult4_gap [of ?al k] align4_diff [of k "length item"] by auto
  have t2: "rbHEADER_SIZE + (?al - k) \<le> ?a" using room ak kl by linarith
  define m2 where "m2 = mem_write (?a + rbHEADER_SIZE) (take k item) (mem_write ?a (hdr_bytes (blk_hdr ?p)) ?m)"
  define m' where "m' = mem_write (0 + rbHEADER_SIZE) (drop k item)
     (mem_write 0 (hdr_bytes \<lparr>xItemLen = length (drop k item), uxItemFlags = 0\<rparr>) m2)"
  note fp = first_part_at [OF ak kl(1) less_imp_le [OF kl(2)] b(1,2) m2_def]
  have lm2: "length m2 = ?S" using fp(2) b(1) by (simp add: mem_agree_def)
  have s2: "0 + (rbHEADER_SIZE + align4 (length (drop k item))) \<le> ?S" using t2 a al2 by simp
  have sp2: "bspan ?S 0 ?b = rbHEADER_SIZE + (?al - k)" using t2 a al2 by (auto simp: Let_def)
  have blk: "blk_at m' ?S 0 ?b" and ag2: "mem_agree (- {0..<rbHEADER_SIZE + (?al - k)}) m2 m'"
    using blk_at_fresh [OF s2 lm2 b(2), of 0 m'] sp2 by (simp_all add: m'_def)
  have "mem_agree {?a..<?a + bspan ?S ?a ?p} m2 m'"
    using ag2 by (rule mem_agree_subset) (use t2 in auto)
  then have p: "blk_at m' ?S ?a ?p" using blk_at_agree [OF fp(1) _ lm2] by blast
  have nx: "bnext ?S ?a ?p = 0" using fp(3) a by (simp add: bnext_def radv_def)
  have sp: "tspan ?S ?a [?p, ?b] = (?S - ?a) + (rbHEADER_SIZE + (?al - k))"
    using fp(3) nx sp2 by simp
  have le: "tspan ?S (pucFree rb) (xs @ ys @ []) + tspan ?S ?a [?p, ?b] \<le> ?S"
    unfolding sp using room ak kl by simp
  have "rrun ?S ?a (tspan ?S ?a [?p, ?b]) = {?a..<?S} \<union> {0..<rbHEADER_SIZE + (?al - k)}"
    unfolding sp rrun_add [of ?S ?a "?S - ?a"] using a t2 rrun_linear [of ?a "?S - ?a" ?S]
      rrun_linear [of 0 "rbHEADER_SIZE + (?al - k)" ?S] by (simp add: radv_def)
  then have "mem_agree (- rrun ?S ?a (tspan ?S ?a [?p, ?b])) ?m m'"
    using mem_agree_trans [OF mem_agree_subset [OF fp(2)] mem_agree_subset [OF ag2]] by simp
  note fr = free_agree [OF inv le this]
  let ?a' = "rbHEADER_SIZE + (?al - k)"
  have a': "bnext ?S 0 ?b = ?a'" using sp2 t2 a by (simp add: bnext_def radv_def)
  have pp: "n_written [?p] = 0" "dummies_ok [?p, ?b]" "xItemLen (blk_hdr ?p) \<le> xMaxItemSize rb"
    "\<not> flag (bfl ?p) rbITEM_FREE_FLAG" "n_items [?p, ?b] = n_items [?p] + 1"
    using n by (auto simp: first_part_def)
  have "n_written [?p, ?b] = 0" using pp(1) n_written_append [of "[?p]" "[?b]"] by simp
  then have inv1: "it_inv (rb\<lparr>pucStorage := m', pucAcquire := ?a',
       uxRingbufferFlags := (if ?a' = pucFree rb then uxRingbufferFlags rb OR rbBUFFER_FULL_FLAG
                             else uxRingbufferFlags rb)\<rparr>) xs ys [?p, ?b]" (is "it_inv ?rb1 _ _ _")
    using it_inv_extend [OF inv _ pp(2) _ _ fr le, of ?a'] p blk nx a' pp n by simp
  from it_inv_commit [OF inv1 \<open>n_written [?p, ?b] = 0\<close>]
  have "it_inv (?rb1\<lparr>pucWrite := ?a', xItemsWaiting := xItemsWaiting rb + int (n_items [?p]) + 1\<rparr>)
      xs (ys @ [?p, ?b]) []" using pp(5) by (simp add: ac_simps split del: if_split)
  moreover have "prvCopyItemAllowSplit rb item =
      Inr (?rb1\<lparr>pucWrite := ?a', xItemsWaiting := xItemsWaiting rb + int (n_items [?p]) + 1\<rparr>)"
  proof -
    have "usub ?S ?a = rbHEADER_SIZE + k" "rbHEADER_SIZE + k < uadd ?al rbHEADER_SIZE"
      "\<not> ?S - ?a' < rbHEADER_SIZE" "usub ?S ?a' = ?S - ?a'"
      using a ak b(2) sz kl t2 by (auto simp: rbHEADER_SIZE_def)
    moreover have "rbHEADER_SIZE + length item - k \<le> ?S"
      using s2 kl(2) align4_bounds(1) [of "length (drop k item)"] unfolding length_drop by linarith
    ultimately show ?thesis
      using first_part_eq [OF ak less_imp_le [OF kl(2)] b(1,2) _ _ m2_def, of ?al] a b(1,2) sz kl lm2 s2
      by (simp add: prvCopyItemAllowSplit_def put_hdr_Inr mem_store_def m'_def Let_def)
  qed
  moreover have "0 < ?a" using t2 by (simp add: rbHEADER_SIZE_def)
  ultimately show ?thesis using nx by force
qed

section \<open>Split items as one\<close>

text \<open>The items a list of blocks holds, with the two parts of a split item put together.\<close>

fun joined :: "blk list \<Rightarrow> byte list list" where
  "joined [] = []"
| "joined (Dummy fl # bs) = joined bs"
| "joined (Item fl ds # bs) =
     (if flag fl rbITEM_SPLIT_FLAG
      then case joined bs of [] \<Rightarrow> [ds] | d # r \<Rightarrow> (ds @ d) # r
      else ds # joined bs)"

text \<open>The first part of a split item is directly followed by its second part.\<close>

fun parts_ok :: "blk list \<Rightarrow> bool" where
  "parts_ok [] = True"
| "parts_ok (Dummy fl # bs) = parts_ok bs"
| "parts_ok (Item fl ds # bs) =
     (if flag fl rbITEM_SPLIT_FLAG
      then bs \<noteq> [] \<and> is_item (hd bs) \<and> \<not> flag (bfl (hd bs)) rbITEM_SPLIT_FLAG \<and> parts_ok bs
      else parts_ok bs)"

lemma joined_nonempty: "bs \<noteq> [] \<Longrightarrow> is_item (hd bs) \<Longrightarrow> joined bs \<noteq> []"
  by (cases bs rule: joined.cases) (auto split: list.splits)

lemma joined_append: "parts_ok xs \<Longrightarrow> joined (xs @ ys) = joined xs @ joined ys"
  by (induction xs rule: parts_ok.induct) (use joined_nonempty in \<open>auto split: list.splits if_splits\<close>)

lemma parts_ok_append: "parts_ok xs \<Longrightarrow> parts_ok ys \<Longrightarrow> parts_ok (xs @ ys)"
  by (induction xs rule: parts_ok.induct) (auto simp: hd_append split: if_splits)

lemma parts_ok_drop: "parts_ok (xs @ ys) \<Longrightarrow> parts_ok ys"
  by (induction xs rule: parts_ok.induct) (auto split: if_splits)

text \<open>The first part of a split item ends where the storage ends, and does not start where it starts.\<close>

fun split_pos :: "nat \<Rightarrow> nat \<Rightarrow> blk list \<Rightarrow> bool" where
  "split_pos S p [] = True"
| "split_pos S p (b # bs) =
     ((is_item b \<and> flag (bfl b) rbITEM_SPLIT_FLAG \<longrightarrow> 0 < p \<and> bnext S p b = 0) \<and>
      split_pos S (bnext S p b) bs)"

lemma split_pos_append:
  "p < S \<Longrightarrow> split_pos S p (xs @ ys) \<longleftrightarrow> split_pos S p xs \<and> split_pos S (radv S p (tspan S p xs)) ys"
  by (induction xs arbitrary: p) (auto simp: bnext_def)

text \<open>An item that the fit check accepts is stored whole or in two parts.\<close>

lemma copy_split_ok:
  assumes inv: "it_inv rb xs ys []" and ty: "xMethods rb = RINGBUF_TYPE_ALLOWSPLIT"
    and n: "length item \<le> xMaxItemSize rb"
    and fits: "prvCheckItemFitsDefault rb (length item) = Inr True"
  shows "\<exists>rb' new. prvCopyItemAllowSplit rb item = Inr rb' \<and> it_inv rb' xs (ys @ new) [] \<and>
           joined new = [item] \<and> parts_ok new \<and> split_pos (xSize rb) (pucAcquire rb) new \<and>
           xSize rb' = xSize rb \<and> pucFree rb' = pucFree rb \<and> xMethods rb' = xMethods rb"
proof (cases "rbHEADER_SIZE + align4 (length item) \<le> xSize rb - pucAcquire rb")
  case True
  then show ?thesis
    using copy_split_end [OF inv n True] split_room [OF assms]
    by (auto simp: Let_def intro!: exI [of _ "[Item 0 item]"])
next
  case False
  define k where "k = xSize rb - pucAcquire rb - rbHEADER_SIZE"
  let ?new = "[first_part k item, Item 0 (drop k item)]"
  obtain rb' where "prvCopyItemAllowSplit rb item = Inr rb'" "it_inv rb' xs (ys @ ?new) []"
    "xSize rb' = xSize rb" "pucFree rb' = pucFree rb" "xMethods rb' = xMethods rb"
    using copy_split_wrap [OF inv n False _ k_def] split_room [OF assms] False by (auto simp: Let_def)
  moreover have "joined ?new = [item]" "parts_ok ?new" by (simp_all add: first_part_def)
  moreover have "0 < pucAcquire rb" "bnext (xSize rb) (pucAcquire rb) (first_part k item) = 0"
    using copy_split_wrap [OF inv n False _ k_def] split_room [OF assms] False by (auto simp: Let_def)
  then have "split_pos (xSize rb) (pucAcquire rb) ?new" by simp
  ultimately show ?thesis by blast
qed

end
