(* ===== verification/Ringbuf_Api.thy ===== *)
theory Ringbuf_Api
  imports Ringbuf
begin

text \<open>
  The public functions of \<^verbatim>\<open>ringbuf.c\<close>. A handle is never \<^verbatim>\<open>NULL\<close>, so the assertions on handles are
  left out; \<^verbatim>\<open>pdTRUE\<close> and \<^verbatim>\<open>pdFALSE\<close> are \<^typ>\<open>bool\<close>, and a returned \<^verbatim>\<open>NULL\<close> is \<open>None\<close>. Critical sections make
  every attempt atomic, so only what runs between attempts interleaves.

  A blocking call runs over a list of rounds, one per call of \<^verbatim>\<open>xSemaphoreTake\<close>: what other tasks do to
  the buffer while the call blocks, and the tick count the call reads afterwards. The semaphore is
  obtained when it is available after the round, otherwise the call times out. A call that is still
  blocked after all rounds is \<open>Out_of_fuel\<close>.
\<close>

definition portMAX_DELAY :: nat where
  "portMAX_DELAY = 0xffffffff"

type_synonym round = "(Ringbuffer_t \<Rightarrow> Ringbuffer_t) \<times> nat"

definition takeTransSem :: "Ringbuffer_t \<Rightarrow> Ringbuffer_t option" where
  "takeTransSem rb = (if xTransSem rb then Some (rb\<lparr>xTransSem := False\<rparr>) else None)"

definition takeRecvSem :: "Ringbuffer_t \<Rightarrow> Ringbuffer_t option" where
  "takeRecvSem rb = (if xRecvSem rb then Some (rb\<lparr>xRecvSem := False\<rparr>) else None)"

definition giveTransSem :: "Ringbuffer_t \<Rightarrow> Ringbuffer_t" where
  "giveTransSem rb = rb\<lparr>xTransSem := True\<rparr>"

definition giveRecvSem :: "Ringbuffer_t \<Rightarrow> Ringbuffer_t" where
  "giveRecvSem rb = rb\<lparr>xRecvSem := True\<rparr>"

text \<open>
  The loop that \<^verbatim>\<open>prvReceiveGeneric\<close>, \<^verbatim>\<open>xRingbufferSendAcquire\<close> and \<^verbatim>\<open>xRingbufferSend\<close> share, over the
  semaphore it takes and the attempt it makes inside the critical section.
\<close>

fun wait_loop ::
    "(Ringbuffer_t \<Rightarrow> Ringbuffer_t option) \<Rightarrow> (Ringbuffer_t \<Rightarrow> (Ringbuffer_t \<times> 'a option) res) \<Rightarrow>
     nat \<Rightarrow> nat \<Rightarrow> nat \<Rightarrow> round list \<Rightarrow> Ringbuffer_t \<Rightarrow> (Ringbuffer_t \<times> 'a option) res" where
  "wait_loop xSemaphoreTake attempt xTicksToWait xTicksEnd xTicksRemaining rs rb =
     (if xTicksRemaining \<le> xTicksToWait
      then case rs of
             [] \<Rightarrow> Inl Out_of_fuel
           | (env, tick) # rs \<Rightarrow>
               (case xSemaphoreTake (env rb) of
                  None \<Rightarrow> Inr (env rb, None)
                | Some rb \<Rightarrow>
                    bindR (attempt rb)
                      (\<lambda>(rb, r). case r of
                         Some x \<Rightarrow> Inr (rb, Some x)
                       | None \<Rightarrow>
                           wait_loop xSemaphoreTake attempt xTicksToWait xTicksEnd
                             (if xTicksToWait \<noteq> portMAX_DELAY then usub xTicksEnd tick
                              else xTicksRemaining) rs rb))
      else Inr (rb, None))"

declare wait_loop.simps [simp del]

section \<open>Receiving\<close>

text \<open>
  One attempt to retrieve: the first item and, for allow-split buffers asked for both parts, the
  second part of a split item.
\<close>

definition prvReceiveAttempt ::
    "bool \<Rightarrow> nat \<Rightarrow> Ringbuffer_t \<Rightarrow> (Ringbuffer_t \<times> ((nat \<times> nat) \<times> (nat \<times> nat) option) option) res" where
  "prvReceiveAttempt two xMaxSize rb =
     (if prvCheckItemAvail rb
      then bindR (pvGetItem rb (if flag (uxRingbufferFlags rb) rbBYTE_BUFFER_FLAG then xMaxSize else 0))
        (\<lambda>(rb, pvItem1, xItemSize1, xIsSplit).
           if flag (uxRingbufferFlags rb) rbALLOW_SPLIT_FLAG \<and> two \<and> xIsSplit
           then bindR (pvGetItem rb 0)
             (\<lambda>(rb, pvItem2, xItemSize2, xIsSplit).
                assertR (pvItem2 < pvItem1)
                 (assertR (\<not> xIsSplit)
                   (Inr (rb, Some ((pvItem1, xItemSize1), Some (pvItem2, xItemSize2))))))
           else Inr (rb, Some ((pvItem1, xItemSize1), None)))
      else Inr (rb, None))"

text \<open>After a successful attempt the receive semaphore is given back while items wait.\<close>

definition prvReceiveFinish ::
    "Ringbuffer_t \<times> ((nat \<times> nat) \<times> (nat \<times> nat) option) option \<Rightarrow>
     Ringbuffer_t \<times> ((nat \<times> nat) \<times> (nat \<times> nat) option) option" where
  "prvReceiveFinish = (\<lambda>(rb, r).
     (if r \<noteq> None \<and> xItemsWaiting rb > 0 then giveRecvSem rb else rb, r))"

definition prvReceiveGeneric ::
    "bool \<Rightarrow> nat \<Rightarrow> nat \<Rightarrow> nat \<Rightarrow> round list \<Rightarrow> Ringbuffer_t \<Rightarrow>
     (Ringbuffer_t \<times> ((nat \<times> nat) \<times> (nat \<times> nat) option) option) res" where
  "prvReceiveGeneric two xMaxSize now xTicksToWait rs rb =
     bindR (wait_loop takeRecvSem (prvReceiveAttempt two xMaxSize) xTicksToWait
              ((now + xTicksToWait) mod 2 ^ 32) xTicksToWait rs rb)
       (\<lambda>r. Inr (prvReceiveFinish r))"

definition prvReceiveGenericFromISR ::
    "bool \<Rightarrow> nat \<Rightarrow> Ringbuffer_t \<Rightarrow> (Ringbuffer_t \<times> ((nat \<times> nat) \<times> (nat \<times> nat) option) option) res" where
  "prvReceiveGenericFromISR two xMaxSize rb =
     bindR (prvReceiveAttempt two xMaxSize rb) (\<lambda>r. Inr (prvReceiveFinish r))"

definition first_item ::
    "Ringbuffer_t \<times> ((nat \<times> nat) \<times> (nat \<times> nat) option) option \<Rightarrow> Ringbuffer_t \<times> (nat \<times> nat) option" where
  "first_item = (\<lambda>(rb, r). (rb, map_option fst r))"

definition xRingbufferReceive ::
    "nat \<Rightarrow> nat \<Rightarrow> round list \<Rightarrow> Ringbuffer_t \<Rightarrow> (Ringbuffer_t \<times> (nat \<times> nat) option) res" where
  "xRingbufferReceive now xTicksToWait rs rb =
     bindR (prvReceiveGeneric False 0 now xTicksToWait rs rb) (\<lambda>r. Inr (first_item r))"

definition xRingbufferReceiveFromISR ::
    "Ringbuffer_t \<Rightarrow> (Ringbuffer_t \<times> (nat \<times> nat) option) res" where
  "xRingbufferReceiveFromISR rb =
     bindR (prvReceiveGenericFromISR False 0 rb) (\<lambda>r. Inr (first_item r))"

definition xRingbufferReceiveSplit ::
    "nat \<Rightarrow> nat \<Rightarrow> round list \<Rightarrow> Ringbuffer_t \<Rightarrow>
     (Ringbuffer_t \<times> ((nat \<times> nat) \<times> (nat \<times> nat) option) option) res" where
  "xRingbufferReceiveSplit now xTicksToWait rs rb =
     assertR (flag (uxRingbufferFlags rb) rbALLOW_SPLIT_FLAG)
       (prvReceiveGeneric True 0 now xTicksToWait rs rb)"

definition xRingbufferReceiveSplitFromISR ::
    "Ringbuffer_t \<Rightarrow> (Ringbuffer_t \<times> ((nat \<times> nat) \<times> (nat \<times> nat) option) option) res" where
  "xRingbufferReceiveSplitFromISR rb =
     assertR (flag (uxRingbufferFlags rb) rbALLOW_SPLIT_FLAG) (prvReceiveGenericFromISR True 0 rb)"

definition xRingbufferReceiveUpTo ::
    "nat \<Rightarrow> nat \<Rightarrow> nat \<Rightarrow> round list \<Rightarrow> Ringbuffer_t \<Rightarrow> (Ringbuffer_t \<times> (nat \<times> nat) option) res" where
  "xRingbufferReceiveUpTo xMaxSize now xTicksToWait rs rb =
     assertR (flag (uxRingbufferFlags rb) rbBYTE_BUFFER_FLAG)
       (if xMaxSize = 0 then Inr (rb, None)
        else bindR (prvReceiveGeneric False xMaxSize now xTicksToWait rs rb) (\<lambda>r. Inr (first_item r)))"

definition xRingbufferReceiveUpToFromISR ::
    "nat \<Rightarrow> Ringbuffer_t \<Rightarrow> (Ringbuffer_t \<times> (nat \<times> nat) option) res" where
  "xRingbufferReceiveUpToFromISR xMaxSize rb =
     assertR (flag (uxRingbufferFlags rb) rbBYTE_BUFFER_FLAG)
       (if xMaxSize = 0 then Inr (rb, None)
        else bindR (prvReceiveGenericFromISR False xMaxSize rb) (\<lambda>r. Inr (first_item r)))"

section \<open>Sending\<close>

text \<open>
  The result of an attempt says, besides that it succeeded, whether free space is left: then the
  transmit semaphore is given back.
\<close>

definition prvSendAttempt :: "byte list \<Rightarrow> Ringbuffer_t \<Rightarrow> (Ringbuffer_t \<times> bool option) res" where
  "prvSendAttempt item rb =
     bindR (xCheckItemFits rb (length item))
       (\<lambda>fits. if fits
               then bindR (vCopyItem rb item)
                      (\<lambda>rb. bindR (prvGetFreeSize rb) (\<lambda>n. Inr (rb, Some (n > 0))))
               else Inr (rb, None))"

definition prvSendFinish :: "Ringbuffer_t \<times> bool option \<Rightarrow> Ringbuffer_t \<times> bool" where
  "prvSendFinish = (\<lambda>(rb, r).
     case r of
       None \<Rightarrow> (rb, False)
     | Some xReturnSemaphore \<Rightarrow>
         (giveRecvSem (if xReturnSemaphore then giveTransSem rb else rb), True))"

definition xRingbufferSend ::
    "byte list \<Rightarrow> nat \<Rightarrow> nat \<Rightarrow> round list \<Rightarrow> Ringbuffer_t \<Rightarrow> (Ringbuffer_t \<times> bool) res" where
  "xRingbufferSend item now xTicksToWait rs rb =
     (if length item > xMaxItemSize rb then Inr (rb, False)
      else if flag (uxRingbufferFlags rb) rbBYTE_BUFFER_FLAG \<and> length item = 0 then Inr (rb, True)
      else bindR (wait_loop takeTransSem (prvSendAttempt item) xTicksToWait
                    ((now + xTicksToWait) mod 2 ^ 32) xTicksToWait rs rb)
             (\<lambda>r. Inr (prvSendFinish r)))"

definition xRingbufferSendFromISR :: "byte list \<Rightarrow> Ringbuffer_t \<Rightarrow> (Ringbuffer_t \<times> bool) res" where
  "xRingbufferSendFromISR item rb =
     (if length item > xMaxItemSize rb then Inr (rb, False)
      else if flag (uxRingbufferFlags rb) rbBYTE_BUFFER_FLAG \<and> length item = 0 then Inr (rb, True)
      else bindR (prvSendAttempt item rb) (\<lambda>r. Inr (prvSendFinish r)))"

definition prvAcquireAttempt :: "nat \<Rightarrow> Ringbuffer_t \<Rightarrow> (Ringbuffer_t \<times> (nat \<times> bool) option) res" where
  "prvAcquireAttempt xItemSize rb =
     bindR (xCheckItemFits rb xItemSize)
       (\<lambda>fits. if fits
               then bindR (prvAcquireItemNoSplit rb xItemSize)
                      (\<lambda>(rb, pvItem). bindR (prvGetFreeSize rb) (\<lambda>n. Inr (rb, Some (pvItem, n > 0))))
               else Inr (rb, None))"

definition xRingbufferSendAcquire ::
    "nat \<Rightarrow> nat \<Rightarrow> nat \<Rightarrow> round list \<Rightarrow> Ringbuffer_t \<Rightarrow> (Ringbuffer_t \<times> nat option \<times> bool) res" where
  "xRingbufferSendAcquire xItemSize now xTicksToWait rs rb =
     assertR (\<not> flag (uxRingbufferFlags rb) (rbBYTE_BUFFER_FLAG OR rbALLOW_SPLIT_FLAG))
       (if xItemSize > xMaxItemSize rb then Inr (rb, None, False)
        else if flag (uxRingbufferFlags rb) rbBYTE_BUFFER_FLAG \<and> xItemSize = 0 then Inr (rb, None, True)
        else bindR (wait_loop takeTransSem (prvAcquireAttempt xItemSize) xTicksToWait
                      ((now + xTicksToWait) mod 2 ^ 32) xTicksToWait rs rb)
               (\<lambda>(rb, r). case r of
                  None \<Rightarrow> Inr (rb, None, False)
                | Some (pvItem, xReturnSemaphore) \<Rightarrow>
                    Inr (if xReturnSemaphore then giveTransSem rb else rb, Some pvItem, True)))"

definition xRingbufferSendComplete :: "nat \<Rightarrow> Ringbuffer_t \<Rightarrow> (Ringbuffer_t \<times> bool) res" where
  "xRingbufferSendComplete pvItem rb =
     assertR (\<not> flag (uxRingbufferFlags rb) (rbBYTE_BUFFER_FLAG OR rbALLOW_SPLIT_FLAG))
       (bindR (prvSendItemDoneNoSplit rb pvItem) (\<lambda>rb. Inr (giveRecvSem rb, True)))"

section \<open>Returning and asking\<close>

definition vRingbufferReturnItem :: "nat \<Rightarrow> Ringbuffer_t \<Rightarrow> Ringbuffer_t res" where
  "vRingbufferReturnItem pvItem rb = bindR (vReturnItem rb pvItem) (\<lambda>rb. Inr (giveTransSem rb))"

definition vRingbufferReturnItemFromISR :: "nat \<Rightarrow> Ringbuffer_t \<Rightarrow> Ringbuffer_t res" where
  "vRingbufferReturnItemFromISR pvItem rb = bindR (vReturnItem rb pvItem) (\<lambda>rb. Inr (giveTransSem rb))"

definition xRingbufferGetMaxItemSize :: "Ringbuffer_t \<Rightarrow> nat" where
  "xRingbufferGetMaxItemSize rb = xMaxItemSize rb"

definition xRingbufferGetCurFreeSize :: "Ringbuffer_t \<Rightarrow> nat" where
  "xRingbufferGetCurFreeSize rb = xGetCurMaxSize rb"

text \<open>\<^verbatim>\<open>vRingbufferGetInfo\<close> with all five result pointers given.\<close>

definition vRingbufferGetInfo :: "Ringbuffer_t \<Rightarrow> nat \<times> nat \<times> nat \<times> nat \<times> nat" where
  "vRingbufferGetInfo rb =
     (pucFree rb, pucRead rb, pucWrite rb, pucAcquire rb, nat (xItemsWaiting rb mod 2 ^ 32))"

end
