(* ===== verification/Fifo.thy ===== *)
theory Fifo
  imports Idf_Base
begin

text \<open>
  The contract of a first-in first-out channel whose receiver borrows what it receives: sending
  appends or is refused, receiving takes from the front, and what was received stays in place until
  it is returned. What a client can rely on over any sequence of calls is proved once, from the
  contract.
\<close>

datatype ('i, 'p) fifo_op = Send 'i | Recv | Ret 'p

text \<open>
  A run of calls. It collects the elements of accepted sends and of successful receives; a return is
  made only when the client may make it.
\<close>

fun fifo_run ::
    "('i \<Rightarrow> 's \<Rightarrow> ('s \<times> bool) res) \<Rightarrow> ('s \<Rightarrow> ('s \<times> 'r option) res) \<Rightarrow> ('p \<Rightarrow> 's \<Rightarrow> 's res) \<Rightarrow>
     ('i \<Rightarrow> 'e list) \<Rightarrow> ('s \<Rightarrow> 'r \<Rightarrow> 'e list) \<Rightarrow> ('h \<Rightarrow> 's \<Rightarrow> 'r \<Rightarrow> 'h) \<Rightarrow> ('h \<Rightarrow> 'p \<Rightarrow> 'h) \<Rightarrow>
     ('s \<Rightarrow> 'h \<Rightarrow> 'p \<Rightarrow> bool) \<Rightarrow> ('i, 'p) fifo_op list \<Rightarrow> 's \<times> 'h \<times> 'e list \<times> 'e list \<Rightarrow>
     ('s \<times> 'h \<times> 'e list \<times> 'e list) res" where
  "fifo_run send recv ret enc out took gave may [] st = Inr st"
| "fifo_run send recv ret enc out took gave may (Send i # ops) (s, h, snt, rcv) =
     bindR (send i s) (\<lambda>(s', ok).
       fifo_run send recv ret enc out took gave may ops (s', h, if ok then snt @ enc i else snt, rcv))"
| "fifo_run send recv ret enc out took gave may (Recv # ops) (s, h, snt, rcv) =
     bindR (recv s) (\<lambda>(s', r).
       case r of
         None \<Rightarrow> fifo_run send recv ret enc out took gave may ops (s', h, snt, rcv)
       | Some x \<Rightarrow>
           fifo_run send recv ret enc out took gave may ops (s', took h s' x, snt, rcv @ out s' x))"
| "fifo_run send recv ret enc out took gave may (Ret p # ops) (s, h, snt, rcv) =
     (if may s h p
      then bindR (ret p s) (\<lambda>s'.
             fifo_run send recv ret enc out took gave may ops (s', gave h p, snt, rcv))
      else fifo_run send recv ret enc out took gave may ops (s, h, snt, rcv))"

locale fifo_channel =
  fixes rep :: "'s \<Rightarrow> 'h \<Rightarrow> 'e list \<Rightarrow> bool"
    and send :: "'i \<Rightarrow> 's \<Rightarrow> ('s \<times> bool) res"
    and recv :: "'s \<Rightarrow> ('s \<times> 'r option) res"
    and ret :: "'p \<Rightarrow> 's \<Rightarrow> 's res"
    and enc :: "'i \<Rightarrow> 'e list"
    and out :: "'s \<Rightarrow> 'r \<Rightarrow> 'e list"
    and took :: "'h \<Rightarrow> 's \<Rightarrow> 'r \<Rightarrow> 'h"
    and gave :: "'h \<Rightarrow> 'p \<Rightarrow> 'h"
    and may :: "'s \<Rightarrow> 'h \<Rightarrow> 'p \<Rightarrow> bool"
  assumes send_law: "rep s h q \<Longrightarrow>
      \<exists>s' ok. send i s = Inr (s', ok) \<and> rep s' h (if ok then q @ enc i else q)"
    and recv_law: "rep s h q \<Longrightarrow>
      \<exists>s' r. recv s = Inr (s', r) \<and>
             (case r of None \<Rightarrow> rep s' h q
              | Some x \<Rightarrow> \<exists>q'. q = out s' x @ q' \<and> rep s' (took h s' x) q')"
    and ret_law: "rep s h q \<Longrightarrow> may s h p \<Longrightarrow> \<exists>s'. ret p s = Inr s' \<and> rep s' (gave h p) q"
begin

text \<open>
  No call faults, and what was received, followed by what still waits, is what was accepted, in
  order.
\<close>

lemma run_fifo:
  assumes "rep s h q" and "snt = rcv @ q"
  shows "\<exists>s' h' snt' rcv' q'.
    fifo_run send recv ret enc out took gave may ops (s, h, snt, rcv) = Inr (s', h', snt', rcv') \<and>
    rep s' h' q' \<and> snt' = rcv' @ q'"
  using assms
proof (induction ops arbitrary: s h snt rcv q)
  case (Cons op ops)
  show ?case
  proof (cases op)
    case (Send i)
    obtain s' ok where s': "send i s = Inr (s', ok)" "rep s' h (if ok then q @ enc i else q)"
      using send_law [OF Cons.prems(1)] by blast
    from Cons.IH [OF s'(2), of "if ok then snt @ enc i else snt" rcv] s'(1) Send Cons.prems(2)
    show ?thesis by (cases ok) simp_all
  next
    case Recv
    obtain s' r where s': "recv s = Inr (s', r)"
      "case r of None \<Rightarrow> rep s' h q | Some x \<Rightarrow> \<exists>q'. q = out s' x @ q' \<and> rep s' (took h s' x) q'"
      using recv_law [OF Cons.prems(1)] by blast
    show ?thesis
    proof (cases r)
      case None
      then show ?thesis using s' Recv Cons.IH [of s' h q] Cons.prems(2) by simp
    next
      case (Some x)
      then obtain q' where "q = out s' x @ q'" "rep s' (took h s' x) q'" using s'(2) by auto
      then show ?thesis
        using s'(1) Some Recv Cons.IH [of s' "took h s' x" q' _ "rcv @ out s' x"] Cons.prems(2) by simp
    qed
  next
    case (Ret p)
    show ?thesis
    proof (cases "may s h p")
      case True
      then obtain s' where "ret p s = Inr s'" "rep s' (gave h p) q"
        using ret_law [OF Cons.prems(1)] by blast
      then show ?thesis using True Ret Cons.IH [of s' "gave h p" q] Cons.prems(2) by simp
    qed (use Ret Cons in simp)
  qed
qed auto

end

end
