(* ===== verification/Ringbuf_Items_Fifo.thy ===== *)
theory Ringbuf_Items_Fifo
  imports Ringbuf_Split Ringbuf_Api Fifo
begin

text \<open>
  No-split and allow-split buffers are first-in first-out channels of items. The items a receiver
  holds are the list of their addresses, bytes and whether they were returned; the bytes of an item
  stay where they are until it is returned.
\<close>

type_synonym held = "(nat \<times> byte list \<times> bool) list"

fun held_of :: "nat \<Rightarrow> nat \<Rightarrow> blk list \<Rightarrow> held" where
  "held_of S p [] = []"
| "held_of S p (Item fl ds # bs) =
     (p + rbHEADER_SIZE, ds, flag fl rbITEM_FREE_FLAG) # held_of S (bnext S p (Item fl ds)) bs"
| "held_of S p (Dummy fl # bs) = held_of S (bnext S p (Dummy fl)) bs"

definition item_out :: "Ringbuffer_t \<Rightarrow> nat \<times> nat \<Rightarrow> byte list list" where
  "item_out rb = (\<lambda>(p, n). [mem_read p n (pucStorage rb)])"

definition item_took :: "held \<Rightarrow> Ringbuffer_t \<Rightarrow> nat \<times> nat \<Rightarrow> held" where
  "item_took h rb = (\<lambda>(p, n). h @ [(p, mem_read p n (pucStorage rb), False)])"

text \<open>Returning marks the item, and the marked items at the front are reclaimed.\<close>

definition item_gave :: "held \<Rightarrow> nat \<Rightarrow> held" where
  "item_gave h p = dropWhile (\<lambda>(q, ds, fr). fr) (map (\<lambda>(q, ds, fr). (q, ds, fr \<or> q = p)) h)"

text \<open>
  A client may return an item it holds. When the items it holds cover the whole storage, it must have
  returned all others before.
\<close>

definition item_may :: "Ringbuffer_t \<Rightarrow> held \<Rightarrow> nat \<Rightarrow> bool" where
  "item_may rb h p \<longleftrightarrow>
     (\<exists>(q, ds, fr) \<in> set h. q = p \<and> \<not> fr) \<and>
     (pucFree rb = pucRead rb \<longrightarrow> (\<forall>(q, ds, fr) \<in> set h. q = p \<or> fr))"

section \<open>The items held\<close>

lemma held_of_append:
  "p < S \<Longrightarrow> held_of S p (xs @ ys) = held_of S p xs @ held_of S (radv S p (tspan S p xs)) ys"
proof (induction xs arbitrary: p)
  case (Cons b bs)
  then show ?case by (cases b) (auto simp: bnext_def)
qed simp

lemma held_of_snoc:
  assumes "p < S" and "n_items us = 0"
  shows "held_of S p (xs @ us @ [Item fl ds]) =
    held_of S p xs @ [(radv S p (tspan S p (xs @ us)) + rbHEADER_SIZE, ds, flag fl rbITEM_FREE_FLAG)]"
proof -
  have "held_of S q us = []" for q using assms(2)
  proof (induction us arbitrary: q)
    case (Cons b bs)
    then show ?case by (cases b) simp_all
  qed simp
  then show ?thesis
    using assms(1) held_of_append [of p S "xs @ us" "[Item fl ds]"] held_of_append [of p S xs us] by simp
qed

lemma held_of_in:
  "(q, ds, fr) \<in> set (held_of S p xs) \<Longrightarrow> p < S \<Longrightarrow>
   \<exists>us fl vs. xs = us @ Item fl ds # vs \<and> q = radv S p (tspan S p us) + rbHEADER_SIZE \<and>
              fr = flag fl rbITEM_FREE_FLAG"
proof (induction xs arbitrary: p)
  case (Cons b bs)
  show ?case
  proof (cases "(q, ds, fr) \<in> set (held_of S (bnext S p b) bs)")
    case True
    then obtain us fl vs where u: "bs = us @ Item fl ds # vs"
      "q = radv S (bnext S p b) (tspan S (bnext S p b) us) + rbHEADER_SIZE" "fr = flag fl rbITEM_FREE_FLAG"
      using Cons by force
    then show ?thesis
      by (intro exI [of _ "b # us"] exI [of _ fl] exI [of _ vs]) (simp add: bnext_def)
  next
    case False
    then show ?thesis
      using Cons.prems by (cases b) (auto intro!: exI [of _ "[]"])
  qed
qed simp

lemma held_of_ptr:
  assumes "(q, ds, fr) \<in> set (held_of S p xs)" and "p < S" and "chain m S p xs r"
  shows "\<exists>i < tspan S p xs. q = radv S p i + rbHEADER_SIZE"
proof -
  obtain us fl vs where u: "xs = us @ Item fl ds # vs" "q = radv S p (tspan S p us) + rbHEADER_SIZE"
    using held_of_in [OF assms(1,2)] by blast
  have "chain m S p (us @ Item fl ds # vs) r" using assms(3) u by simp
  then obtain w where w: "chain m S p us w" "blk_at m S w (Item fl ds)" by auto
  have "w = radv S p (tspan S p us)" using chain_end [OF w(1) assms(2)] .
  then have "0 < bspan S (radv S p (tspan S p us)) (Item fl ds)"
    using w(2) by (intro bspan_pos) (simp add: blk_at_def)
  then have "tspan S p us < tspan S p xs"
    using tspan_append [OF assms(2), of us "Item fl ds # vs"] u by (simp del: bspan.simps)
  with u show ?thesis by blast
qed

lemma held_of_distinct:
  "chain m S p xs r \<Longrightarrow> p < S \<Longrightarrow> tspan S p xs \<le> S \<Longrightarrow> distinct (map fst (held_of S p xs))"
proof (induction xs arbitrary: p)
  case (Cons b bs)
  have IH: "distinct (map fst (held_of S (bnext S p b) bs))" using Cons by simp
  show ?case
  proof (cases b)
    case (Item fl ds)
    have sp: "0 < bspan S p b" using Cons.prems by (simp add: blk_at_def bspan_pos)
    have "p + rbHEADER_SIZE \<noteq> q" if mem: "(q, d, fr) \<in> set (held_of S (bnext S p b) bs)" for q d fr
    proof -
      obtain i where i: "i < tspan S (bnext S p b) bs" "q = radv S (bnext S p b) i + rbHEADER_SIZE"
        using held_of_ptr [OF mem] Cons.prems by auto
      then have "bspan S p b + i < S" "q = radv S p (bspan S p b + i) + rbHEADER_SIZE"
        using Cons.prems by (simp_all add: bnext_def)
      then show ?thesis using radv_eq_self [OF Cons.prems(2), of "bspan S p b + i"] sp by auto
    qed
    then show ?thesis using IH Item by (force simp del: bspan.simps)
  qed (use IH in simp)
qed simp

lemma held_of_reclaim:
  "p < S \<Longrightarrow>
   held_of S (radv S p (tspan S p (takeWhile (skips rbITEM_FREE_FLAG) xs))) (dropWhile (skips rbITEM_FREE_FLAG) xs)
   = dropWhile (\<lambda>(q, ds, fr). fr) (held_of S p xs)"
proof (induction xs arbitrary: p)
  case (Cons b bs)
  then show ?case
    using Cons.IH [of "bnext S p b"]
    by (cases b) (auto simp: skips_def bnext_def simp del: bspan.simps)
qed simp

lemma held_of_mark:
  assumes ch: "chain m S p (us @ Item fl ds # vs) r" and p: "p < S"
    and le: "tspan S p (us @ Item fl ds # vs) \<le> S" and q: "q = radv S p (tspan S p us) + rbHEADER_SIZE"
  shows "held_of S p (us @ Item (freed fl) ds # vs) =
    map (\<lambda>(q', ds, fr). (q', ds, fr \<or> q' = q)) (held_of S p (us @ Item fl ds # vs))"
proof -
  let ?A = "held_of S p us" and ?p' = "bnext S (radv S p (tspan S p us)) (Item fl ds)"
  let ?B = "held_of S ?p' vs"
  have e: "held_of S p (us @ Item g ds # vs) = ?A @ (q, ds, flag g rbITEM_FREE_FLAG) # ?B" for g
    using held_of_append [OF p, of us "Item g ds # vs"] q by (simp add: bnext_def)
  have "distinct (map fst (held_of S p (us @ Item fl ds # vs)))"
    using held_of_distinct [OF ch p le] .
  then have "q \<notin> fst ` set ?A" "q \<notin> fst ` set ?B" unfolding e by auto
  then have "map (\<lambda>(q', ds, fr). (q', ds, fr \<or> q' = q)) ?A = ?A"
    "map (\<lambda>(q', ds, fr). (q', ds, fr \<or> q' = q)) ?B = ?B"
    by (auto simp: map_idI image_def split_beta intro!: map_idI)
  then show ?thesis unfolding e by (simp add: freed_def)
qed

text \<open>The storage still has the bytes of every item that is held.\<close>

lemma held_in_place:
  assumes inv: "it_inv rb xs ys zs" and "(q, ds, fr) \<in> set (held_of (xSize rb) (pucFree rb) xs)"
  shows "q + length ds \<le> length (pucStorage rb) \<and> mem_read q (length ds) (pucStorage rb) = ds"
proof -
  have "pucFree rb < xSize rb" using it_inv_basic(4) [OF inv] by simp
  then obtain us fl vs where u: "xs = us @ Item fl ds # vs"
    "q = radv (xSize rb) (pucFree rb) (tspan (xSize rb) (pucFree rb) us) + rbHEADER_SIZE"
    using held_of_in [OF assms(2)] by blast
  then have "blk_at (pucStorage rb) (xSize rb)
      (radv (xSize rb) (pucFree rb) (tspan (xSize rb) (pucFree rb) us)) (Item fl ds)"
    using xs_blk(1) [of rb us "Item fl ds" vs ys zs] inv by simp
  then show ?thesis
    using u align4_bounds(1) [of "length ds"] it_inv_basic(1) [OF inv] by (auto simp: blk_at_def)
qed

lemma held_of_unfreed:
  "b \<in> set bs \<Longrightarrow> \<not> skips rbITEM_FREE_FLAG b \<Longrightarrow> \<exists>q d. (q, d, False) \<in> set (held_of S p bs)"
proof (induction bs arbitrary: p)
  case (Cons c cs)
  show ?case
  proof (cases "b \<in> set cs")
    case True
    then show ?thesis using Cons.IH [of "bnext S p c"] Cons.prems by (cases c) auto
  next
    case False
    then have "b = c" using Cons.prems by simp
    then show ?thesis using Cons.prems by (cases c) (auto simp: skips_def)
  qed
qed simp

lemma others_freed:
  assumes ch: "chain m S p (us @ Item fl ds # vs) r" and p: "p < S"
    and le: "tspan S p (us @ Item fl ds # vs) \<le> S" and q: "q = radv S p (tspan S p us) + rbHEADER_SIZE"
    and all: "\<forall>(q', d, fr) \<in> set (held_of S p (us @ Item fl ds # vs)). q' = q \<or> fr"
  shows "\<forall>b \<in> set (us @ vs). skips rbITEM_FREE_FLAG b"
proof (rule ccontr)
  let ?A = "held_of S p us" and ?B = "held_of S (bnext S (radv S p (tspan S p us)) (Item fl ds)) vs"
  have e: "held_of S p (us @ Item fl ds # vs) = ?A @ (q, ds, flag fl rbITEM_FREE_FLAG) # ?B"
    using held_of_append [OF p, of us "Item fl ds # vs"] q by simp
  assume "\<not> (\<forall>b \<in> set (us @ vs). skips rbITEM_FREE_FLAG b)"
  then obtain q' d where m: "(q', d, False) \<in> set ?A \<or> (q', d, False) \<in> set ?B"
    using held_of_unfreed by (metis Un_iff set_append)
  then have "q' = q" using all unfolding e by auto
  moreover have "q \<notin> fst ` set ?A" "q \<notin> fst ` set ?B"
    using held_of_distinct [OF ch p le] unfolding e by auto
  ultimately show False using m by force
qed

lemma item_return:
  assumes inv: "it_inv rb xs ys []" and may: "item_may rb (held_of (xSize rb) (pucFree rb) xs) p"
  shows "\<exists>rb' xs'. prvReturnItemDefault rb p = Inr rb' \<and> it_inv rb' xs' ys [] \<and>
    held_of (xSize rb') (pucFree rb') xs' = item_gave (held_of (xSize rb) (pucFree rb) xs) p \<and>
    xSize rb' = xSize rb \<and> xMethods rb' = xMethods rb \<and> pucRead rb' = pucRead rb"
proof -
  let ?S = "xSize rb" and ?f = "pucFree rb" and ?F = rbITEM_FREE_FLAG
  have f: "?f < ?S" using it_inv_basic(4) [OF inv] by simp
  obtain ds where "(p, ds, False) \<in> set (held_of ?S ?f xs)" using may by (auto simp: item_may_def)
  then obtain us fl vs where u: "xs = us @ Item fl ds # vs"
    "p = radv ?S ?f (tspan ?S ?f us) + rbHEADER_SIZE" "\<not> flag fl ?F"
    using held_of_in f by blast
  let ?xs = "us @ Item (freed fl) ds # vs"
  have le: "tspan ?S ?f xs \<le> ?S" using inv held_span(1) [OF inv] by (simp add: it_inv_def)
  have last: "tspan ?S ?f (us @ Item fl ds # vs) < ?S \<or> (\<forall>b \<in> set (us @ vs). skips ?F b)"
  proof (cases "tspan ?S ?f xs < ?S")
    case False
    then have "?f = pucRead rb" using le inv f by (auto simp: it_inv_def)
    then have "\<forall>(q, d, fr) \<in> set (held_of ?S ?f xs). q = p \<or> fr" using may by (simp add: item_may_def)
    then show ?thesis
      using others_freed [OF held_span(2) [OF inv, unfolded u(1)] f _ u(2)] le u(1) by simp
  qed (use u in simp)
  obtain rb' where r: "prvReturnItemDefault rb p = Inr rb'" "it_inv rb' (dropWhile (skips ?F) ?xs) ys []"
    "dropWhile (skips ?F) ?xs = [] \<or> pucFree rb' = radv ?S ?f (tspan ?S ?f (takeWhile (skips ?F) ?xs))"
    "xSize rb' = ?S" "xMethods rb' = xMethods rb" "pucRead rb' = pucRead rb"
    using return_ok [of rb us fl ds vs ys "[]", OF _ refl u(3) last refl] inv u by auto
  have "held_of ?S (pucFree rb') (dropWhile (skips ?F) ?xs) =
      dropWhile (\<lambda>(q, ds, fr). fr) (held_of ?S ?f ?xs)"
    using r(3) held_of_reclaim [OF f, of ?xs] by (metis held_of.simps(1))
  also have "\<dots> = item_gave (held_of ?S ?f xs) p"
    using held_of_mark [of "pucStorage rb" ?S ?f us fl ds vs "pucRead rb" p] held_span(2) [OF inv] f le u
    by (simp add: item_gave_def)
  finally show ?thesis using r by metis
qed

section \<open>Sending and receiving through the API\<close>

lemma it_inv_sem [simp]:
  "it_inv (giveRecvSem rb) xs ys zs = it_inv rb xs ys zs"
  "it_inv (giveTransSem rb) xs ys zs = it_inv rb xs ys zs"
  by (simp_all add: giveRecvSem_def giveTransSem_def it_inv_def item_cfg_def)

lemma sem_fields [simp]:
  "xSize (giveRecvSem rb) = xSize rb" "xMethods (giveRecvSem rb) = xMethods rb"
  "pucFree (giveRecvSem rb) = pucFree rb" "pucRead (giveRecvSem rb) = pucRead rb"
  "pucStorage (giveRecvSem rb) = pucStorage rb"
  "xSize (giveTransSem rb) = xSize rb" "xMethods (giveTransSem rb) = xMethods rb"
  "pucFree (giveTransSem rb) = pucFree rb" "pucRead (giveTransSem rb) = pucRead rb"
  "pucStorage (giveTransSem rb) = pucStorage rb"
  by (simp_all add: giveRecvSem_def giveTransSem_def)

lemma item_getfree:
  assumes inv: "it_inv rb xs ys zs"
  shows "prvGetFreeSize rb = Inr (xSize rb - tspan (xSize rb) (pucFree rb) (xs @ ys @ zs))"
proof -
  have S: "pucFree rb < xSize rb" "pucAcquire rb < xSize rb" "xSize rb < 2 ^ 31"
    using it_inv_basic [OF inv] by simp_all
  show ?thesis
    using inv
  proof (cases rule: acq_cases)
    case after
    have "nat (int (pucFree rb) - int (pucAcquire rb) + int (xSize rb)) = xSize rb + pucFree rb - pucAcquire rb"
      using after S by simp
    moreover have "xSize rb + pucFree rb - pucAcquire rb \<le> xSize rb" using after by simp
    ultimately show ?thesis using after S by (simp add: prvGetFreeSize_def Let_def nat_mod_distrib)
  next
    case before
    have "nat (int (pucFree rb) - int (pucAcquire rb)) = pucFree rb - pucAcquire rb"
      "pucFree rb - pucAcquire rb \<le> xSize rb"
      using before S by simp_all
    then show ?thesis using before S by (simp add: prvGetFreeSize_def Let_def nat_mod_distrib)
  qed (use S in \<open>simp_all add: prvGetFreeSize_def Let_def nat_mod_distrib\<close>)
qed

text \<open>
  A send from an interrupt copies the item when it fits, and changes nothing when it does not or when
  it is larger than any item can be.
\<close>

lemma item_send:
  assumes inv: "it_inv rb xs ys []"
    and copy: "\<lbrakk>length item \<le> xMaxItemSize rb; prvCheckItemFitsDefault rb (length item) = Inr True\<rbrakk>
      \<Longrightarrow> \<exists>rb' new. vCopyItem rb item = Inr rb' \<and> it_inv rb' xs (ys @ new) [] \<and> P new \<and>
            xSize rb' = xSize rb \<and> pucFree rb' = pucFree rb \<and> xMethods rb' = xMethods rb"
  shows "\<exists>rb' ok. xRingbufferSendFromISR item rb = Inr (rb', ok) \<and>
    xSize rb' = xSize rb \<and> pucFree rb' = pucFree rb \<and> xMethods rb' = xMethods rb \<and>
    (if ok then \<exists>new. it_inv rb' xs (ys @ new) [] \<and> P new
     else rb' = rb)"
proof -
  have c: "\<not> flag (uxRingbufferFlags rb) rbBYTE_BUFFER_FLAG"
    "xCheckItemFits rb n = prvCheckItemFitsDefault rb n" for n
    using inv by (auto simp: it_inv_def item_cfg_def xCheckItemFits_def)
  show ?thesis
  proof (cases "length item \<le> xMaxItemSize rb \<and> prvCheckItemFitsDefault rb (length item) = Inr True")
    case True
    then obtain rb' new where r: "vCopyItem rb item = Inr rb'" "it_inv rb' xs (ys @ new) []" "P new"
      "xSize rb' = xSize rb" "pucFree rb' = pucFree rb" "xMethods rb' = xMethods rb"
      using copy by blast
    then show ?thesis
      using True c item_getfree [OF r(2)]
      by (auto simp: xRingbufferSendFromISR_def prvSendAttempt_def prvSendFinish_def)
  next
    case False
    then have "prvCheckItemFitsDefault rb (length item) = Inr False \<or> length item > xMaxItemSize rb"
      using fits_eq [OF inv, of "length item"] by (auto simp: Let_def)
    then have "xRingbufferSendFromISR item rb = Inr (rb, False)"
      using c by (auto simp: xRingbufferSendFromISR_def prvSendAttempt_def prvSendFinish_def)
    then show ?thesis by (intro exI [of _ rb] exI [of _ False]) simp
  qed
qed

lemma first_item_split:
  "n_items ys \<noteq> 0 \<Longrightarrow> \<exists>us fl ds ys'. ys = us @ Item fl ds # ys' \<and> n_items us = 0"
proof (induction ys)
  case (Cons b bs)
  show ?case
  proof (cases b)
    case (Item fl ds)
    then show ?thesis by (intro exI [of _ "[]"]) auto
  next
    case (Dummy fl)
    then obtain us g ds ys' where "bs = us @ Item g ds # ys'" "n_items us = 0" using Cons by auto
    then show ?thesis using Dummy by (intro exI [of _ "Dummy fl # us"]) auto
  qed
qed simp

text \<open>What one retrieval gives: the first waiting item, at its place in the storage.\<close>

lemma item_get:
  assumes inv: "it_inv rb xs ys []" and ne: "n_items ys \<noteq> 0"
  shows "\<exists>us fl ds ys' rb' q0. ys = us @ Item fl ds # ys' \<and> n_items us = 0 \<and>
    q0 = radv (xSize rb) (pucFree rb) (tspan (xSize rb) (pucFree rb) (xs @ us)) \<and>
    pvGetItem rb 0 = Inr (rb', q0 + rbHEADER_SIZE, length ds, flag fl rbITEM_SPLIT_FLAG) \<and>
    it_inv rb' (xs @ us @ [Item fl ds]) ys' [] \<and>
    held_of (xSize rb) (pucFree rb) (xs @ us @ [Item fl ds]) =
      held_of (xSize rb) (pucFree rb) xs @ [(q0 + rbHEADER_SIZE, ds, False)] \<and>
    mem_read (q0 + rbHEADER_SIZE) (length ds) (pucStorage rb) = ds \<and>
    rb' = rb\<lparr>xItemsWaiting := xItemsWaiting rb - 1, pucRead := bnext (xSize rb) q0 (Item fl ds)\<rparr>"
proof -
  obtain us fl ds ys' where y: "ys = us @ Item fl ds # ys'" "n_items us = 0"
    using first_item_split [OF ne] by blast
  define q0 where "q0 = radv (xSize rb) (pucFree rb) (tspan (xSize rb) (pucFree rb) (xs @ us))"
  let ?rb' = "rb\<lparr>xItemsWaiting := xItemsWaiting rb - 1, pucRead := bnext (xSize rb) q0 (Item fl ds)\<rparr>"
  note inv' = inv [unfolded y(1)]
  have f: "pucFree rb < xSize rb" using it_inv_basic(4) [OF inv] by simp
  have fr: "\<not> flag fl rbITEM_FREE_FLAG" using inv' by (simp add: it_inv_def)
  have "blk_at (pucStorage rb) (xSize rb) q0 (Item fl ds)" using ys_blk [OF inv' q0_def] .
  then have "mem_read (q0 + rbHEADER_SIZE) (length ds) (pucStorage rb) = ds" by (simp add: blk_at_def)
  moreover have "pvGetItem rb 0 = Inr (?rb', q0 + rbHEADER_SIZE, length ds, flag fl rbITEM_SPLIT_FLAG)"
    using get_ok [OF inv' y(2) q0_def] inv by (auto simp: pvGetItem_def it_inv_def item_cfg_def)
  moreover have "it_inv ?rb' (xs @ us @ [Item fl ds]) ys' []"
    using it_inv_take [OF inv' y(2)] q0_def by simp
  moreover have "held_of (xSize rb) (pucFree rb) (xs @ us @ [Item fl ds]) =
      held_of (xSize rb) (pucFree rb) xs @ [(q0 + rbHEADER_SIZE, ds, False)]"
    using held_of_snoc [OF f y(2)] fr q0_def by simp
  ultimately show ?thesis using y q0_def by blast
qed

section \<open>No-split buffers\<close>

definition ns_rep :: "Ringbuffer_t \<Rightarrow> held \<Rightarrow> byte list list \<Rightarrow> bool" where
  "ns_rep rb h q \<longleftrightarrow>
     (\<exists>xs ys. it_inv rb xs ys [] \<and> xMethods rb = RINGBUF_TYPE_NOSPLIT \<and> unsplit ys \<and>
              h = held_of (xSize rb) (pucFree rb) xs \<and> q = payloads ys)"

lemma ns_send_law:
  assumes "ns_rep rb h q"
  shows "\<exists>rb' ok. xRingbufferSendFromISR item rb = Inr (rb', ok) \<and> ns_rep rb' h (if ok then q @ [item] else q)"
proof -
  obtain xs ys where r: "it_inv rb xs ys []" "xMethods rb = RINGBUF_TYPE_NOSPLIT" "unsplit ys"
    "h = held_of (xSize rb) (pucFree rb) xs" "q = payloads ys"
    using assms by (auto simp: ns_rep_def)
  obtain rb' ok where s: "xRingbufferSendFromISR item rb = Inr (rb', ok)"
    "xSize rb' = xSize rb" "pucFree rb' = pucFree rb" "xMethods rb' = xMethods rb"
    "if ok then \<exists>new. it_inv rb' xs (ys @ new) [] \<and> payloads new = [item] \<and> unsplit new else rb' = rb"
    using item_send [OF r(1), of item "\<lambda>new. payloads new = [item] \<and> unsplit new"]
      copy_nosplit_ok [OF r(1,2), of item] r(2) by (auto simp: vCopyItem_def)
  show ?thesis
  proof (cases ok)
    case True
    then obtain new where "it_inv rb' xs (ys @ new) []" "payloads new = [item]" "unsplit new"
      using s(5) by auto
    then have "ns_rep rb' h (q @ [item])"
      unfolding ns_rep_def using r s by (intro exI [of _ xs] exI [of _ "ys @ new"]) simp
    then show ?thesis using True s(1) by auto
  next
    case False
    then show ?thesis using s assms by auto
  qed
qed

lemma payloads_empty: "payloads ys = [] \<longleftrightarrow> n_items ys = 0"
  by (simp add: payloads_def n_items_def)

lemma ns_attempt:
  assumes "ns_rep rb h q"
  shows "(q = [] \<longrightarrow> prvReceiveAttempt False mx rb = Inr (rb, None)) \<and>
    (q \<noteq> [] \<longrightarrow> (\<exists>rb' p. prvReceiveAttempt False mx rb = Inr (rb', Some ((p, length (hd q)), None)) \<and>
       mem_read p (length (hd q)) (pucStorage rb') = hd q \<and> ns_rep rb' (h @ [(p, hd q, False)]) (tl q)))"
proof -
  obtain xs ys where r: "it_inv rb xs ys []" "xMethods rb = RINGBUF_TYPE_NOSPLIT" "unsplit ys"
    "h = held_of (xSize rb) (pucFree rb) xs" "q = payloads ys"
    using assms by (auto simp: ns_rep_def)
  have fl: "\<not> flag (uxRingbufferFlags rb) rbBYTE_BUFFER_FLAG" using r(1) by (simp add: it_inv_def item_cfg_def)
  show ?thesis
  proof (cases "n_items ys = 0")
    case True
    then show ?thesis
      using avail_iff [OF r(1)] r(5) payloads_empty [of ys] by (simp add: prvReceiveAttempt_def)
  next
    case False
    from item_get [OF r(1) False] obtain us fl ds ys' rb' q0 where g: "ys = us @ Item fl ds # ys'"
      "n_items us = 0" "pvGetItem rb 0 = Inr (rb', q0 + rbHEADER_SIZE, length ds, flag fl rbITEM_SPLIT_FLAG)"
      "it_inv rb' (xs @ us @ [Item fl ds]) ys' []"
      "held_of (xSize rb) (pucFree rb) (xs @ us @ [Item fl ds]) = h @ [(q0 + rbHEADER_SIZE, ds, False)]"
      "mem_read (q0 + rbHEADER_SIZE) (length ds) (pucStorage rb) = ds"
      "rb' = rb\<lparr>xItemsWaiting := xItemsWaiting rb - 1, pucRead := bnext (xSize rb) q0 (Item fl ds)\<rparr>"
      unfolding r(4) by blast
    have q: "q = ds # payloads ys'" "unsplit ys'" "\<not> flag fl rbITEM_SPLIT_FLAG"
      using r(3,5) g(1) no_items(1) [OF g(2)] by auto
    have "ns_rep rb' (h @ [(q0 + rbHEADER_SIZE, ds, False)]) (payloads ys')"
      unfolding ns_rep_def using g r(2) q by (intro exI [of _ "xs @ us @ [Item fl ds]"] exI [of _ ys']) simp
    moreover have "prvReceiveAttempt False mx rb = Inr (rb', Some ((q0 + rbHEADER_SIZE, length ds), None))"
      using g(3) avail_iff [OF r(1)] False fl by (simp add: prvReceiveAttempt_def)
    ultimately show ?thesis using q g by simp
  qed
qed

lemma ns_rep_sem [simp]:
  "ns_rep (giveRecvSem rb) h q = ns_rep rb h q" "ns_rep (giveTransSem rb) h q = ns_rep rb h q"
  by (simp_all add: ns_rep_def)

lemma ns_recv_law:
  assumes rep: "ns_rep rb h q"
  shows "\<exists>rb' r. xRingbufferReceiveFromISR rb = Inr (rb', r) \<and>
    (case r of None \<Rightarrow> ns_rep rb' h q
     | Some x \<Rightarrow> \<exists>q'. q = item_out rb' x @ q' \<and> ns_rep rb' (item_took h rb' x) q')"
proof (cases "q = []")
  case True
  then show ?thesis
    using ns_attempt [OF rep, of 0] rep
    by (simp add: xRingbufferReceiveFromISR_def prvReceiveGenericFromISR_def prvReceiveFinish_def
        first_item_def)
next
  case False
  then obtain rb1 p where a: "prvReceiveAttempt False 0 rb = Inr (rb1, Some ((p, length (hd q)), None))"
    "mem_read p (length (hd q)) (pucStorage rb1) = hd q" "ns_rep rb1 (h @ [(p, hd q, False)]) (tl q)"
    using ns_attempt [OF rep, of 0] by blast
  define rb' where "rb' = (if xItemsWaiting rb1 > 0 then giveRecvSem rb1 else rb1)"
  have "xRingbufferReceiveFromISR rb = Inr (rb', Some (p, length (hd q)))"
    using a(1) by (simp add: xRingbufferReceiveFromISR_def prvReceiveGenericFromISR_def prvReceiveFinish_def
        first_item_def rb'_def)
  moreover have "q = item_out rb' (p, length (hd q)) @ tl q"
    "ns_rep rb' (item_took h rb' (p, length (hd q))) (tl q)"
    using a(2,3) False by (simp_all add: item_out_def item_took_def rb'_def)
  ultimately show ?thesis by (intro exI [of _ rb'] exI [of _ "Some (p, length (hd q))"]) auto
qed

lemma ns_ret_law:
  assumes "ns_rep rb h q" and "item_may rb h p"
  shows "\<exists>rb'. vRingbufferReturnItemFromISR p rb = Inr rb' \<and> ns_rep rb' (item_gave h p) q"
proof -
  obtain xs ys where r: "it_inv rb xs ys []" "xMethods rb = RINGBUF_TYPE_NOSPLIT" "unsplit ys"
    "h = held_of (xSize rb) (pucFree rb) xs" "q = payloads ys"
    using assms by (auto simp: ns_rep_def)
  obtain rb' xs' where s: "prvReturnItemDefault rb p = Inr rb'" "it_inv rb' xs' ys []"
    "held_of (xSize rb') (pucFree rb') xs' = item_gave h p" "xMethods rb' = xMethods rb"
    using item_return [OF r(1)] assms(2) r(4) by blast
  have "ns_rep rb' (item_gave h p) q"
    unfolding ns_rep_def using r s by (intro exI [of _ xs'] exI [of _ ys]) simp
  then show ?thesis using s r by (simp add: vRingbufferReturnItemFromISR_def vReturnItem_def)
qed

interpretation ns: fifo_channel ns_rep xRingbufferSendFromISR xRingbufferReceiveFromISR
    vRingbufferReturnItemFromISR "\<lambda>item. [item]" item_out item_took item_gave item_may
  by unfold_locales (rule ns_send_law, assumption, rule ns_recv_law, assumption, rule ns_ret_law)

lemma it_inv_init:
  assumes "n mod 4 = 0" and "12 \<le> n" and "n < 2 ^ 31" and "length storage = n"
  shows "ty = RINGBUF_TYPE_NOSPLIT \<Longrightarrow> it_inv (prvInitializeNewRingbuffer n ty storage) [] [] []"
    and "ty = RINGBUF_TYPE_ALLOWSPLIT \<Longrightarrow> 16 \<le> n \<Longrightarrow>
         it_inv (prvInitializeNewRingbuffer n ty storage) [] [] []"
proof -
  have al: "rbALIGN_SIZE (n div 2) = align4 (n div 2)" using assms by (intro rbALIGN_SIZE_eq) simp
  have "n div 2 \<le> align4 (n div 2)" "align4 (n div 2) \<le> n div 2 + 3" "align4 (n div 2) mod 4 = 0"
    by (simp_all add: align4_bounds)
  then have b: "8 \<le> align4 (n div 2)" using assms by presburger
  have "align4 (n div 2) < 2 ^ 32" using align4_bounds(2) [of "n div 2"] assms(3) by simp
  note b = b this
  show "ty = RINGBUF_TYPE_NOSPLIT \<Longrightarrow> it_inv (prvInitializeNewRingbuffer n ty storage) [] [] []"
    using assms al b by (simp add: it_inv_def prvInitializeNewRingbuffer_def item_cfg_def vpos_def rbHEADER_SIZE_def)
  show "ty = RINGBUF_TYPE_ALLOWSPLIT \<Longrightarrow> 16 \<le> n \<Longrightarrow>
      it_inv (prvInitializeNewRingbuffer n ty storage) [] [] []"
    using assms by (simp add: it_inv_def prvInitializeNewRingbuffer_def item_cfg_def vpos_def rbHEADER_SIZE_def)
qed

definition ns_run ::
    "(byte list, nat) fifo_op list \<Rightarrow> Ringbuffer_t \<times> held \<times> byte list list \<times> byte list list \<Rightarrow>
     (Ringbuffer_t \<times> held \<times> byte list list \<times> byte list list) res" where
  "ns_run = fifo_run xRingbufferSendFromISR xRingbufferReceiveFromISR vRingbufferReturnItemFromISR
     (\<lambda>item. [item]) item_out item_took item_gave item_may"

text \<open>
  C2. A no-split buffer created by \<^verbatim>\<open>xRingbufferCreate\<close> with at least 12 bytes is a first-in first-out
  channel of items over any sequence of sends, receives and returns in any order the client may make
  them: no call fails an assertion, leaves the storage or runs forever, and the items received,
  followed by the \<open>xItemsWaiting\<close> items that still wait, are exactly the items accepted, in order and
  byte for byte. Every item that is out is still in the storage, unchanged, at its address.
\<close>

theorem nosplit_buffer_fifo:
  assumes "alloc (align4 n) = Some storage" and "length storage = align4 n" and "12 \<le> n" and "n + 3 < 2 ^ 31"
  shows "\<exists>rb0 rb h snt rcv q.
    xRingbufferCreate alloc n RINGBUF_TYPE_NOSPLIT = Inr (Some rb0) \<and>
    ns_run ops (rb0, [], [], []) = Inr (rb, h, snt, rcv) \<and>
    snt = rcv @ q \<and> int (length q) = xItemsWaiting rb \<and>
    (\<forall>(p, ds, returned) \<in> set h.
       p + length ds \<le> length (pucStorage rb) \<and> mem_read p (length ds) (pucStorage rb) = ds)"
proof -
  let ?n = "align4 n" and ?rb0 = "prvInitializeNewRingbuffer (align4 n) RINGBUF_TYPE_NOSPLIT storage"
  have al: "rbALIGN_SIZE n = ?n" using assms by (intro rbALIGN_SIZE_eq) simp
  have b: "12 \<le> ?n" "?n < 2 ^ 31" using align4_bounds [of n] assms by linarith+
  have c: "xRingbufferCreate alloc n RINGBUF_TYPE_NOSPLIT = Inr (Some ?rb0)"
    using assms al by (simp add: xRingbufferCreate_def)
  have "ns_rep ?rb0 [] []"
    unfolding ns_rep_def using it_inv_init(1) [OF _ b assms(2) refl]
    by (intro exI [of _ "[]"]) (simp add: prvInitializeNewRingbuffer_def)
  from ns.run_fifo [OF this, of "[]" "[]" ops]
  obtain rb h snt rcv q where r: "ns_run ops (?rb0, [], [], []) = Inr (rb, h, snt, rcv)"
    "ns_rep rb h q" "snt = rcv @ q" by (auto simp: ns_run_def)
  from r(2) obtain xs ys where i: "it_inv rb xs ys []" "h = held_of (xSize rb) (pucFree rb) xs" "q = payloads ys"
    by (auto simp: ns_rep_def)
  have "int (length q) = xItemsWaiting rb" using i by (simp add: it_inv_def payloads_def n_items_def)
  moreover have "\<forall>(p, ds, returned) \<in> set h.
       p + length ds \<le> length (pucStorage rb) \<and> mem_read p (length ds) (pucStorage rb) = ds"
    using held_in_place [OF i(1)] i(2) by blast
  ultimately show ?thesis using c r by blast
qed

theorem nosplit_buffer_fifo_witness:
  "\<exists>rb0 rb h snt rcv q.
    xRingbufferCreate (\<lambda>n. Some (replicate n 0)) 32 RINGBUF_TYPE_NOSPLIT = Inr (Some rb0) \<and>
    ns_run [Send [1, 2, 3], Send [4], Recv, Recv, Send [5, 6], Ret 20, Ret 8, Send [7, 8], Recv]
      (rb0, [], [], []) = Inr (rb, h, snt, rcv) \<and> snt = rcv @ q"
  using nosplit_buffer_fifo [of "\<lambda>n. Some (replicate n 0)" 32 "replicate (align4 32) 0"
      "[Send [1, 2, 3], Send [4], Recv, Recv, Send [5, 6], Ret 20, Ret 8, Send [7, 8], Recv]"] by auto

section \<open>Allow-split buffers\<close>

definition parts_out :: "Ringbuffer_t \<Rightarrow> (nat \<times> nat) \<times> (nat \<times> nat) option \<Rightarrow> byte list list" where
  "parts_out rb = (\<lambda>((p, n), tail).
     [mem_read p n (pucStorage rb) @
      (case tail of None \<Rightarrow> [] | Some (p', n') \<Rightarrow> mem_read p' n' (pucStorage rb))])"

definition parts_took :: "held \<Rightarrow> Ringbuffer_t \<Rightarrow> (nat \<times> nat) \<times> (nat \<times> nat) option \<Rightarrow> held" where
  "parts_took h rb = (\<lambda>((p, n), tail).
     h @ [(p, mem_read p n (pucStorage rb), False)] @
     (case tail of None \<Rightarrow> [] | Some (p', n') \<Rightarrow> [(p', mem_read p' n' (pucStorage rb), False)]))"

definition as_rep :: "Ringbuffer_t \<Rightarrow> held \<Rightarrow> byte list list \<Rightarrow> bool" where
  "as_rep rb h q \<longleftrightarrow>
     (\<exists>xs ys. it_inv rb xs ys [] \<and> xMethods rb = RINGBUF_TYPE_ALLOWSPLIT \<and>
              parts_ok ys \<and> split_pos (xSize rb) (pucRead rb) ys \<and>
              h = held_of (xSize rb) (pucFree rb) xs \<and> q = joined ys)"

lemma as_send_law:
  assumes "as_rep rb h q"
  shows "\<exists>rb' ok. xRingbufferSendFromISR item rb = Inr (rb', ok) \<and> as_rep rb' h (if ok then q @ [item] else q)"
proof -
  obtain xs ys where r: "it_inv rb xs ys []" "xMethods rb = RINGBUF_TYPE_ALLOWSPLIT" "parts_ok ys"
    "split_pos (xSize rb) (pucRead rb) ys" "h = held_of (xSize rb) (pucFree rb) xs" "q = joined ys"
    using assms by (auto simp: as_rep_def)
  let ?P = "\<lambda>new. joined new = [item] \<and> parts_ok new \<and> split_pos (xSize rb) (pucAcquire rb) new"
  obtain rb' ok where s: "xRingbufferSendFromISR item rb = Inr (rb', ok)"
    "xSize rb' = xSize rb" "pucFree rb' = pucFree rb" "xMethods rb' = xMethods rb"
    "if ok then \<exists>new. it_inv rb' xs (ys @ new) [] \<and> ?P new else rb' = rb"
    using item_send [OF r(1), of item ?P] copy_split_ok [OF r(1,2), of item] r(2)
    by (auto simp: vCopyItem_def)
  show ?thesis
  proof (cases ok)
    case True
    then obtain new where n: "it_inv rb' xs (ys @ new) []" "?P new" using s(5) by auto
    have read: "pucRead rb' = pucRead rb" using n(1) r(1) s by (simp add: it_inv_def)
    have "pucRead rb < xSize rb" using it_inv_basic(6) [OF r(1)] by simp
    moreover have "radv (xSize rb) (pucRead rb) (tspan (xSize rb) (pucRead rb) ys) = pucAcquire rb"
      using held_span(3) [OF r(1)] chain_end [of _ _ "pucRead rb" ys "pucAcquire rb"] calculation by auto
    ultimately have "split_pos (xSize rb) (pucRead rb) (ys @ new)"
      using r(4) n(2) by (simp add: split_pos_append)
    then have "as_rep rb' h (q @ [item])"
      unfolding as_rep_def using r s n read
      by (intro exI [of _ xs] exI [of _ "ys @ new"]) (simp add: joined_append parts_ok_append)
    then show ?thesis using True s(1) by auto
  next
    case False
    then show ?thesis using s assms by auto
  qed
qed

lemma joined_skip: "n_items us = 0 \<Longrightarrow> joined (us @ bs) = joined bs"
proof (induction us)
  case (Cons b us)
  then show ?case by (cases b) simp_all
qed simp

lemma joined_empty: "joined ys = [] \<longleftrightarrow> n_items ys = 0"
  by (induction ys rule: joined.induct) (auto split: list.splits)

lemma item_second:
  assumes eq: "us @ Item fl ds # r = Item g d # bs" and "n_items us = 0"
  shows "us = []" "fl = g" "ds = d" "r = bs"
proof -
  show "us = []"
  proof (rule ccontr)
    assume "us \<noteq> []"
    then obtain us' where "us = Item g d # us'" using eq by (cases us) auto
    with assms(2) show False by simp
  qed
  then show "fl = g" "ds = d" "r = bs" using eq by simp_all
qed

text \<open>Retrieving one part, with what is left of the split items.\<close>

lemma as_get:
  assumes inv: "it_inv rb xs ys []" and ty: "xMethods rb = RINGBUF_TYPE_ALLOWSPLIT" and ok: "parts_ok ys"
    and sp: "split_pos (xSize rb) (pucRead rb) ys" and ne: "n_items ys \<noteq> 0"
  shows "\<exists>us fl ds ys' rb' p. ys = us @ Item fl ds # ys' \<and> n_items us = 0 \<and>
    pvGetItem rb 0 = Inr (rb', p, length ds, flag fl rbITEM_SPLIT_FLAG) \<and>
    it_inv rb' (xs @ us @ [Item fl ds]) ys' [] \<and> parts_ok ys' \<and>
    split_pos (xSize rb') (pucRead rb') ys' \<and> pucStorage rb' = pucStorage rb \<and>
    xMethods rb' = xMethods rb \<and> uxRingbufferFlags rb' = uxRingbufferFlags rb \<and>
    held_of (xSize rb') (pucFree rb') (xs @ us @ [Item fl ds]) =
      held_of (xSize rb) (pucFree rb) xs @ [(p, ds, False)] \<and>
    mem_read p (length ds) (pucStorage rb) = ds \<and>
    p = radv (xSize rb) (pucRead rb) (tspan (xSize rb) (pucRead rb) us) + rbHEADER_SIZE \<and>
    (flag fl rbITEM_SPLIT_FLAG \<longrightarrow> rbHEADER_SIZE < p \<and> pucRead rb' = 0)"
proof -
  obtain us fl ds ys' rb' q0 where g: "ys = us @ Item fl ds # ys'" "n_items us = 0"
    "q0 = radv (xSize rb) (pucFree rb) (tspan (xSize rb) (pucFree rb) (xs @ us))"
    "pvGetItem rb 0 = Inr (rb', q0 + rbHEADER_SIZE, length ds, flag fl rbITEM_SPLIT_FLAG)"
    "it_inv rb' (xs @ us @ [Item fl ds]) ys' []"
    "held_of (xSize rb) (pucFree rb) (xs @ us @ [Item fl ds]) =
      held_of (xSize rb) (pucFree rb) xs @ [(q0 + rbHEADER_SIZE, ds, False)]"
    "mem_read (q0 + rbHEADER_SIZE) (length ds) (pucStorage rb) = ds"
    "rb' = rb\<lparr>xItemsWaiting := xItemsWaiting rb - 1, pucRead := bnext (xSize rb) q0 (Item fl ds)\<rparr>"
    using item_get [OF inv ne] by blast
  have f: "pucFree rb < xSize rb" "pucRead rb < xSize rb" using it_inv_basic(4,6) [OF inv] by simp_all
  have q0: "q0 = radv (xSize rb) (pucRead rb) (tspan (xSize rb) (pucRead rb) us)"
    using g(3) tspan_append [OF f(1), of xs us] inv by (simp add: it_inv_def)
  have "parts_ok ys'" using ok g(1) parts_ok_drop [of "us @ [Item fl ds]" ys'] by simp
  moreover have "split_pos (xSize rb) q0 (Item fl ds # ys')"
    using sp g(1) split_pos_append [OF f(2), of us "Item fl ds # ys'"] q0 by simp
  then have "split_pos (xSize rb) (bnext (xSize rb) q0 (Item fl ds)) ys'"
    "flag fl rbITEM_SPLIT_FLAG \<longrightarrow> 0 < q0 \<and> bnext (xSize rb) q0 (Item fl ds) = 0"
    by simp_all
  ultimately show ?thesis
    using g q0 by (intro exI [of _ us] exI [of _ fl] exI [of _ ds] exI [of _ ys'] exI [of _ rb']
        exI [of _ "q0 + rbHEADER_SIZE"]) simp
qed

lemma as_attempt:
  assumes rep: "as_rep rb h q" and ne: "q \<noteq> []"
  shows "\<exists>rb' x. prvReceiveAttempt True mx rb = Inr (rb', Some x) \<and>
    parts_out rb' x = [hd q] \<and> as_rep rb' (parts_took h rb' x) (tl q)"
proof -
  obtain xs ys where r: "it_inv rb xs ys []" "xMethods rb = RINGBUF_TYPE_ALLOWSPLIT" "parts_ok ys"
    "split_pos (xSize rb) (pucRead rb) ys" "h = held_of (xSize rb) (pucFree rb) xs" "q = joined ys"
    using rep by (auto simp: as_rep_def)
  have fl: "\<not> flag (uxRingbufferFlags rb) rbBYTE_BUFFER_FLAG" "flag (uxRingbufferFlags rb) rbALLOW_SPLIT_FLAG"
    using r(1,2) by (simp_all add: it_inv_def item_cfg_def)
  have n: "n_items ys \<noteq> 0" using ne r(6) joined_empty by simp
  have av: "prvCheckItemAvail rb" using avail_iff [OF r(1)] n by simp
  from as_get [OF r(1-4) n] obtain us fl1 ds ys1 rb1 p where g: "ys = us @ Item fl1 ds # ys1" "n_items us = 0"
    "pvGetItem rb 0 = Inr (rb1, p, length ds, flag fl1 rbITEM_SPLIT_FLAG)"
    "it_inv rb1 (xs @ us @ [Item fl1 ds]) ys1 []" "parts_ok ys1"
    "split_pos (xSize rb1) (pucRead rb1) ys1" "pucStorage rb1 = pucStorage rb"
    "xMethods rb1 = RINGBUF_TYPE_ALLOWSPLIT" "uxRingbufferFlags rb1 = uxRingbufferFlags rb"
    "held_of (xSize rb1) (pucFree rb1) (xs @ us @ [Item fl1 ds]) = h @ [(p, ds, False)]"
    "mem_read p (length ds) (pucStorage rb) = ds"
    "flag fl1 rbITEM_SPLIT_FLAG \<longrightarrow> rbHEADER_SIZE < p \<and> pucRead rb1 = 0"
    unfolding r(2,5) by blast
  have q: "q = joined (Item fl1 ds # ys1)" using r(6) g(1,2) joined_skip by simp
  show ?thesis
  proof (cases "flag fl1 rbITEM_SPLIT_FLAG")
    case False
    have "as_rep rb1 (h @ [(p, ds, False)]) (joined ys1)"
      unfolding as_rep_def using g by (intro exI [of _ "xs @ us @ [Item fl1 ds]"] exI [of _ ys1]) simp
    then show ?thesis
      using False g q av fl
      by (intro exI [of _ rb1] exI [of _ "((p, length ds), None)"])
        (simp add: prvReceiveAttempt_def parts_out_def parts_took_def)
  next
    case True
    then have p1: "ys1 \<noteq> [] \<and> is_item (hd ys1) \<and> \<not> flag (bfl (hd ys1)) rbITEM_SPLIT_FLAG"
      using r(3) g(1) parts_ok_drop [of us "Item fl1 ds # ys1"] by simp
    then obtain fl2 d2 bs where y1: "ys1 = Item fl2 d2 # bs" "\<not> flag fl2 rbITEM_SPLIT_FLAG"
      by (cases ys1; cases "hd ys1") auto
    have "n_items ys1 \<noteq> 0" using y1 by simp
    from as_get [OF g(4,8,5,6) this] obtain us2 fl3 d3 ys2 rb2 p2 where
      g2: "ys1 = us2 @ Item fl3 d3 # ys2" "n_items us2 = 0"
      "pvGetItem rb1 0 = Inr (rb2, p2, length d3, flag fl3 rbITEM_SPLIT_FLAG)"
      "it_inv rb2 ((xs @ us @ [Item fl1 ds]) @ us2 @ [Item fl3 d3]) ys2 []" "parts_ok ys2"
      "split_pos (xSize rb2) (pucRead rb2) ys2" "pucStorage rb2 = pucStorage rb1"
      "xMethods rb2 = xMethods rb1"
      "held_of (xSize rb2) (pucFree rb2) ((xs @ us @ [Item fl1 ds]) @ us2 @ [Item fl3 d3]) =
        (h @ [(p, ds, False)]) @ [(p2, d3, False)]"
      "mem_read p2 (length d3) (pucStorage rb1) = d3"
      "p2 = radv (xSize rb1) (pucRead rb1) (tspan (xSize rb1) (pucRead rb1) us2) + rbHEADER_SIZE"
      unfolding g(10) by blast
    note e = item_second [OF g2(1) [symmetric, unfolded y1(1)] g2(2)]
    have "p2 = rbHEADER_SIZE"
      using g2(11) e(1) g(12) True it_inv_basic(6) [OF g(4)] by simp
    then have lt: "p2 < p" using g(12) True by simp
    have "as_rep rb2 (h @ [(p, ds, False)] @ [(p2, d2, False)]) (joined bs)"
      unfolding as_rep_def using g2 g e
      by (intro exI [of _ "(xs @ us @ [Item fl1 ds]) @ us2 @ [Item fl3 d3]"] exI [of _ bs]) simp
    then show ?thesis
      using True g g2 e q av fl y1 lt
      by (intro exI [of _ rb2] exI [of _ "((p, length ds), Some (p2, length d2))"])
        (simp add: prvReceiveAttempt_def parts_out_def parts_took_def)
  qed
qed

lemma as_rep_sem [simp]:
  "as_rep (giveRecvSem rb) h q = as_rep rb h q" "as_rep (giveTransSem rb) h q = as_rep rb h q"
  by (simp_all add: as_rep_def)

lemma as_recv_law:
  assumes rep: "as_rep rb h q"
  shows "\<exists>rb' r. xRingbufferReceiveSplitFromISR rb = Inr (rb', r) \<and>
    (case r of None \<Rightarrow> as_rep rb' h q
     | Some x \<Rightarrow> \<exists>q'. q = parts_out rb' x @ q' \<and> as_rep rb' (parts_took h rb' x) q')"
proof -
  have fl: "flag (uxRingbufferFlags rb) rbALLOW_SPLIT_FLAG"
    using rep by (auto simp: as_rep_def it_inv_def item_cfg_def)
  show ?thesis
  proof (cases "q = []")
    case True
    then obtain xs ys where "it_inv rb xs ys []" "n_items ys = 0"
      using rep joined_empty unfolding as_rep_def by metis
    then have "\<not> prvCheckItemAvail rb" using avail_iff by simp
    then show ?thesis
      using rep fl by (simp add: xRingbufferReceiveSplitFromISR_def prvReceiveGenericFromISR_def
          prvReceiveAttempt_def prvReceiveFinish_def)
  next
    case False
    from as_attempt [OF rep this, of 0] obtain rb1 x where
      a: "prvReceiveAttempt True 0 rb = Inr (rb1, Some x)" "parts_out rb1 x = [hd q]"
        "as_rep rb1 (parts_took h rb1 x) (tl q)" by blast
    define rb' where "rb' = (if xItemsWaiting rb1 > 0 then giveRecvSem rb1 else rb1)"
    have s: "parts_out (giveRecvSem rb1) x = parts_out rb1 x"
      "parts_took h (giveRecvSem rb1) x = parts_took h rb1 x"
      by (auto simp: parts_out_def parts_took_def split: prod.splits option.splits)
    obtain x1 x2 x3 where "x = ((x1, x2), x3)" by (cases x) auto
    then have "xRingbufferReceiveSplitFromISR rb = Inr (rb', Some x)"
      using a(1) fl by (simp add: xRingbufferReceiveSplitFromISR_def prvReceiveGenericFromISR_def
          prvReceiveFinish_def rb'_def)
    moreover have "q = parts_out rb' x @ tl q" "as_rep rb' (parts_took h rb' x) (tl q)"
      using a(2,3) False s by (simp_all add: rb'_def)
    ultimately show ?thesis by (intro exI [of _ rb'] exI [of _ "Some x"]) auto
  qed
qed

lemma as_ret_law:
  assumes "as_rep rb h q" and "item_may rb h p"
  shows "\<exists>rb'. vRingbufferReturnItemFromISR p rb = Inr rb' \<and> as_rep rb' (item_gave h p) q"
proof -
  obtain xs ys where r: "it_inv rb xs ys []" "xMethods rb = RINGBUF_TYPE_ALLOWSPLIT" "parts_ok ys"
    "split_pos (xSize rb) (pucRead rb) ys" "h = held_of (xSize rb) (pucFree rb) xs" "q = joined ys"
    using assms by (auto simp: as_rep_def)
  obtain rb' xs' where s: "prvReturnItemDefault rb p = Inr rb'" "it_inv rb' xs' ys []"
    "held_of (xSize rb') (pucFree rb') xs' = item_gave h p" "xSize rb' = xSize rb"
    "xMethods rb' = xMethods rb" "pucRead rb' = pucRead rb"
    using item_return [OF r(1)] assms(2) r(5) by blast
  have "as_rep rb' (item_gave h p) q"
    unfolding as_rep_def using r s by (intro exI [of _ xs'] exI [of _ ys]) simp
  then show ?thesis using s r by (simp add: vRingbufferReturnItemFromISR_def vReturnItem_def)
qed

interpretation asp: fifo_channel as_rep xRingbufferSendFromISR xRingbufferReceiveSplitFromISR
    vRingbufferReturnItemFromISR "\<lambda>item. [item]" parts_out parts_took item_gave item_may
  by unfold_locales (rule as_send_law, assumption, rule as_recv_law, assumption, rule as_ret_law)

definition as_run ::
    "(byte list, nat) fifo_op list \<Rightarrow> Ringbuffer_t \<times> held \<times> byte list list \<times> byte list list \<Rightarrow>
     (Ringbuffer_t \<times> held \<times> byte list list \<times> byte list list) res" where
  "as_run = fifo_run xRingbufferSendFromISR xRingbufferReceiveSplitFromISR vRingbufferReturnItemFromISR
     (\<lambda>item. [item]) parts_out parts_took item_gave item_may"

text \<open>
  C3. An allow-split buffer created by \<^verbatim>\<open>xRingbufferCreate\<close> with at least 16 bytes is a first-in
  first-out channel of items over any sequence of sends, split receives and returns: no call fails an
  assertion, leaves the storage or runs forever, and the items received, each the head part followed
  by the tail part if there is one, are the items accepted, in order and byte for byte, up to those
  that still wait. Every part that is out is still in the storage, unchanged, at its address.
\<close>

theorem allowsplit_buffer_fifo:
  assumes "alloc (align4 n) = Some storage" and "length storage = align4 n" and "16 \<le> n" and "n + 3 < 2 ^ 31"
  shows "\<exists>rb0 rb h snt rcv q.
    xRingbufferCreate alloc n RINGBUF_TYPE_ALLOWSPLIT = Inr (Some rb0) \<and>
    as_run ops (rb0, [], [], []) = Inr (rb, h, snt, rcv) \<and>
    snt = rcv @ q \<and> (q = [] \<longleftrightarrow> xItemsWaiting rb = 0) \<and>
    (\<forall>(p, ds, returned) \<in> set h.
       p + length ds \<le> length (pucStorage rb) \<and> mem_read p (length ds) (pucStorage rb) = ds)"
proof -
  let ?n = "align4 n" and ?rb0 = "prvInitializeNewRingbuffer (align4 n) RINGBUF_TYPE_ALLOWSPLIT storage"
  have al: "rbALIGN_SIZE n = ?n" using assms by (intro rbALIGN_SIZE_eq) simp
  have b: "12 \<le> ?n" "?n < 2 ^ 31" "16 \<le> ?n" using align4_bounds [of n] assms by linarith+
  have c: "xRingbufferCreate alloc n RINGBUF_TYPE_ALLOWSPLIT = Inr (Some ?rb0)"
    using assms al by (simp add: xRingbufferCreate_def)
  have "as_rep ?rb0 [] []"
    unfolding as_rep_def using it_inv_init(2) [OF _ b(1,2) assms(2) refl b(3)]
    by (intro exI [of _ "[]"]) (simp add: prvInitializeNewRingbuffer_def)
  from asp.run_fifo [OF this, of "[]" "[]" ops]
  obtain rb h snt rcv q where r: "as_run ops (?rb0, [], [], []) = Inr (rb, h, snt, rcv)"
    "as_rep rb h q" "snt = rcv @ q" by (auto simp: as_run_def)
  from r(2) obtain xs ys where i: "it_inv rb xs ys []" "h = held_of (xSize rb) (pucFree rb) xs" "q = joined ys"
    by (auto simp: as_rep_def)
  have "q = [] \<longleftrightarrow> xItemsWaiting rb = 0" using i joined_empty by (simp add: it_inv_def)
  moreover have "\<forall>(p, ds, returned) \<in> set h.
       p + length ds \<le> length (pucStorage rb) \<and> mem_read p (length ds) (pucStorage rb) = ds"
    using held_in_place [OF i(1)] i(2) by blast
  ultimately show ?thesis using c r by blast
qed

theorem allowsplit_buffer_fifo_witness:
  "\<exists>rb0 rb h snt rcv q.
    xRingbufferCreate (\<lambda>n. Some (replicate n 0)) 32 RINGBUF_TYPE_ALLOWSPLIT = Inr (Some rb0) \<and>
    as_run [Send [1, 2, 3, 4, 5, 6], Recv, Ret 8, Send [7, 8, 9, 10, 11, 12], Recv]
      (rb0, [], [], []) = Inr (rb, h, snt, rcv) \<and> snt = rcv @ q"
  using allowsplit_buffer_fifo [of "\<lambda>n. Some (replicate n 0)" 32 "replicate (align4 32) 0"
      "[Send [1, 2, 3, 4, 5, 6], Recv, Ret 8, Send [7, 8, 9, 10, 11, 12], Recv]"] by auto

end
