(* ===== verification/Ringbuf_Bytes.thy ===== *)
theory Ringbuf_Bytes
  imports Ringbuf_Facts
begin

text \<open>
  Byte buffers. The invariant \<open>bb_inv rb k\<close> says that \<open>k\<close> bytes are retrieved and not yet returned;
  \<open>bb_list\<close> is the sequence of bytes still to be read. Sending appends to it, retrieving takes a
  prefix off it, returning gives the space back.
\<close>

definition bb_full :: "Ringbuffer_t \<Rightarrow> bool" where
  "bb_full rb \<longleftrightarrow> flag (uxRingbufferFlags rb) rbBUFFER_FULL_FLAG"

definition bb_count :: "Ringbuffer_t \<Rightarrow> nat" where
  "bb_count rb = nat (xItemsWaiting rb)"

definition bb_inv :: "Ringbuffer_t \<Rightarrow> nat \<Rightarrow> bool" where
  "bb_inv rb k \<longleftrightarrow>
     0 < xSize rb \<and> xSize rb < 2 ^ 31 \<and> length (pucStorage rb) = xSize rb \<and>
     xMethods rb = RINGBUF_TYPE_BYTEBUF \<and> flag (uxRingbufferFlags rb) rbBYTE_BUFFER_FLAG \<and>
     xMaxItemSize rb = xSize rb \<and>
     pucFree rb < xSize rb \<and> xItemsWaiting rb \<ge> 0 \<and>
     k + bb_count rb \<le> xSize rb \<and>
     pucRead rb = radv (xSize rb) (pucFree rb) k \<and>
     pucAcquire rb = radv (xSize rb) (pucFree rb) (k + bb_count rb) \<and>
     pucWrite rb = pucAcquire rb \<and>
     (bb_full rb \<longleftrightarrow> k + bb_count rb = xSize rb)"

definition bb_list :: "Ringbuffer_t \<Rightarrow> byte list" where
  "bb_list rb = rbytes (pucStorage rb) (xSize rb) (pucRead rb) (bb_count rb)"

lemma length_bb_list [simp]: "length (bb_list rb) = bb_count rb"
  by (simp add: bb_list_def)

lemma bb_inv_init:
  assumes "0 < n" and "n < 2 ^ 31" and "length storage = n"
  shows "bb_inv (prvInitializeNewRingbuffer n RINGBUF_TYPE_BYTEBUF storage) 0"
    and "bb_list (prvInitializeNewRingbuffer n RINGBUF_TYPE_BYTEBUF storage) = []"
  using assms by (simp_all add: bb_inv_def bb_list_def bb_count_def bb_full_def
      prvInitializeNewRingbuffer_def)

text \<open>The space the buffer reports is what is neither waiting nor out.\<close>

lemma bb_fits:
  assumes "bb_inv rb k"
  shows "prvCheckItemFitsByteBuffer rb n =
     Inr (k + bb_count rb < xSize rb \<and> (n + k + bb_count rb \<le> xSize rb \<or> k + bb_count rb = 0))"
proof -
  let ?o = "k + bb_count rb"
  have S: "xSize rb < 2 ^ 32" "pucFree rb < xSize rb" "?o \<le> xSize rb"
    and a: "pucAcquire rb = radv (xSize rb) (pucFree rb) ?o"
    using assms by (auto simp: bb_inv_def)
  have eq: "pucAcquire rb = pucFree rb \<longleftrightarrow> ?o = 0 \<or> ?o = xSize rb"
    using S a radv_eq_self by simp
  show ?thesis
  proof (cases "pucAcquire rb = pucFree rb")
    case True
    then show ?thesis
      using assms eq by (auto simp: prvCheckItemFitsByteBuffer_def assertR_def bb_inv_def bb_full_def)
  next
    case False
    then have "0 < ?o" "?o < xSize rb" using eq S by auto
    then show ?thesis
      using S a False
      by (auto simp: prvCheckItemFitsByteBuffer_def assertR_def radv_if split: if_splits)
  qed
qed

lemma bb_getfree:
  assumes "bb_inv rb k"
  shows "prvGetFreeSize rb = Inr (xSize rb - (k + bb_count rb))"
  using assms
  by (auto simp: prvGetFreeSize_def bb_inv_def bb_full_def Let_def assertR_def radv_if
      nat_mod_distrib split: if_splits)


section \<open>Sending\<close>

definition bb_sent :: "Ringbuffer_t \<Rightarrow> nat \<Rightarrow> byte list \<Rightarrow> Ringbuffer_t" where
  "bb_sent rb k item =
     (let acq = radv (xSize rb) (pucAcquire rb) (length item)
      in rb\<lparr>pucStorage := rwrite (xSize rb) (pucAcquire rb) item (pucStorage rb),
            xItemsWaiting := xItemsWaiting rb + int (length item),
            pucAcquire := acq,
            uxRingbufferFlags :=
              (if acq = pucFree rb then uxRingbufferFlags rb OR rbBUFFER_FULL_FLAG
               else uxRingbufferFlags rb),
            pucWrite := acq\<rparr>)"

lemma bb_copy_eq:
  assumes inv: "bb_inv rb k" and fits: "k + bb_count rb + length item \<le> xSize rb"
  shows "prvCopyItemByteBuf rb item = Inr (bb_sent rb k item)"
proof -
  have S: "xSize rb < 2 ^ 32" "length (pucStorage rb) = xSize rb" "0 < xSize rb"
    "pucAcquire rb < xSize rb"
    using inv by (auto simp: bb_inv_def)
  show ?thesis
  proof (cases "xSize rb - pucAcquire rb < length item")
    case True
    then show ?thesis
      using S fits by (auto simp: prvCopyItemByteBuf_def bb_sent_def mem_store_def rwrite_def
          Let_def assertR_def radv_if)
  next
    case False
    then show ?thesis
      using S fits by (auto simp: prvCopyItemByteBuf_def bb_sent_def mem_store_def rwrite_def
          Let_def assertR_def radv_if)
  qed
qed

lemma bb_sent_inv:
  assumes inv: "bb_inv rb k" and fits: "k + bb_count rb + length item \<le> xSize rb" and "item \<noteq> []"
  shows "bb_inv (bb_sent rb k item) k"
proof -
  have c: "bb_count (bb_sent rb k item) = bb_count rb + length item"
    using inv by (simp add: bb_sent_def bb_count_def Let_def bb_inv_def nat_add_distrib)
  have "pucAcquire (bb_sent rb k item) = pucFree rb \<longleftrightarrow> k + bb_count rb + length item = xSize rb"
    using inv fits \<open>item \<noteq> []\<close> radv_eq_self [of "pucFree rb" "xSize rb" "k + bb_count rb + length item"]
    by (auto simp: bb_sent_def Let_def bb_inv_def)
  then show ?thesis
    using inv fits c \<open>item \<noteq> []\<close>
    by (auto simp: bb_inv_def bb_sent_def Let_def bb_full_def add.assoc)
qed

lemma bb_sent_list:
  assumes inv: "bb_inv rb k" and fits: "k + bb_count rb + length item \<le> xSize rb"
  shows "bb_list (bb_sent rb k item) = bb_list rb @ item"
proof -
  let ?S = "xSize rb" and ?m = "pucStorage rb" and ?r = "pucRead rb" and ?a = "pucAcquire rb"
  let ?m' = "rwrite ?S ?a item ?m"
  have S: "0 < ?S" "length ?m = ?S" "?r < ?S" "?a < ?S"
    and a: "?a = radv ?S ?r (bb_count rb)"
    using inv by (auto simp: bb_inv_def)
  have c: "bb_count (bb_sent rb k item) = bb_count rb + length item"
    using inv by (simp add: bb_sent_def bb_count_def Let_def bb_inv_def nat_add_distrib)
  have "mem_agree (rrun ?S ?r (bb_count rb)) ?m ?m'"
    unfolding a using S fits by (intro rwrite_agree) auto
  then have "rbytes ?m' ?S ?r (bb_count rb) = bb_list rb"
    using S by (simp add: bb_list_def rbytes_agree [symmetric])
  moreover have "rbytes ?m' ?S ?a (length item) = item"
    using S fits by (intro rbytes_rwrite) auto
  ultimately show ?thesis
    unfolding bb_list_def c rbytes_add by (simp add: bb_sent_def Let_def a [symmetric] bb_list_def)
qed

section \<open>Retrieving\<close>

text \<open>How many bytes one retrieval gives: a contiguous run, at most \<open>xMaxSize\<close> unless that is 0.\<close>

definition bb_take :: "Ringbuffer_t \<Rightarrow> nat \<Rightarrow> nat" where
  "bb_take rb xMaxSize =
     (let n = min (bb_count rb) (xSize rb - pucRead rb)
      in if xMaxSize = 0 then n else min n xMaxSize)"

definition bb_got :: "Ringbuffer_t \<Rightarrow> nat \<Rightarrow> Ringbuffer_t" where
  "bb_got rb n =
     rb\<lparr>xItemsWaiting := xItemsWaiting rb - int n, pucRead := radv (xSize rb) (pucRead rb) n\<rparr>"

lemma bb_get_eq:
  assumes inv: "bb_inv rb 0" and avail: "0 < bb_count rb"
  shows "prvGetItemByteBuf rb mx = Inr (bb_got rb (bb_take rb mx), pucRead rb, bb_take rb mx)"
proof -
  let ?S = "xSize rb" and ?r = "pucRead rb" and ?w = "pucWrite rb" and ?c = "bb_count rb"
  have S: "?S < 2 ^ 32" "?r < ?S" "?c \<le> ?S" "xItemsWaiting rb > 0" "pucFree rb = ?r"
    and w: "?w = radv ?S ?r ?c" and full: "bb_full rb \<longleftrightarrow> ?c = ?S"
    using inv avail by (auto simp: bb_inv_def bb_count_def)
  have ne: "?r \<noteq> ?w \<or> bb_full rb"
    using S w full avail radv_eq_self [of ?r ?S ?c] by auto
  show ?thesis
  proof (cases "?r + ?c < ?S")
    case True
    then have "?w = ?r + ?c" "\<not> bb_full rb"
      using S w full by (auto simp: radv_if)
    then show ?thesis
      using S True ne by (auto simp: prvGetItemByteBuf_def assertR_def Let_def bb_got_def bb_take_def
          radv_if min_def bb_full_def)
  next
    case False
    then have "?w < ?r \<or> bb_full rb"
      using S w full by (auto simp: radv_if)
    then show ?thesis
      using S False ne by (auto simp: prvGetItemByteBuf_def assertR_def Let_def bb_got_def bb_take_def
          radv_if min_def bb_full_def)
  qed
qed

lemma bb_take_bounds:
  assumes "bb_inv rb k"
  shows "bb_take rb mx \<le> bb_count rb" "pucRead rb + bb_take rb mx \<le> xSize rb"
    "0 < bb_count rb \<Longrightarrow> 0 < bb_take rb mx" "0 < mx \<Longrightarrow> bb_take rb mx \<le> mx"
proof -
  have "pucRead rb < xSize rb"
    using assms by (auto simp: bb_inv_def)
  then show "bb_take rb mx \<le> bb_count rb" "pucRead rb + bb_take rb mx \<le> xSize rb"
    "0 < bb_count rb \<Longrightarrow> 0 < bb_take rb mx" "0 < mx \<Longrightarrow> bb_take rb mx \<le> mx"
    by (auto simp: bb_take_def Let_def)
qed

lemma bb_got_inv:
  assumes "bb_inv rb k" and "n \<le> bb_count rb"
  shows "bb_inv (bb_got rb n) (k + n)"
  using assms by (auto simp: bb_inv_def bb_got_def bb_count_def bb_full_def nat_diff_distrib)

lemma bb_got_list:
  assumes "bb_inv rb k" and "n \<le> bb_count rb"
  shows "bb_list (bb_got rb n) = drop n (bb_list rb)"
proof -
  have c: "bb_count rb = n + bb_count (bb_got rb n)"
    using assms by (auto simp: bb_got_def bb_count_def bb_inv_def nat_diff_distrib)
  have "bb_list rb = rbytes (pucStorage rb) (xSize rb) (pucRead rb) n @ bb_list (bb_got rb n)"
    unfolding bb_list_def c rbytes_add by (simp add: bb_got_def)
  then show ?thesis by simp
qed

lemma bb_read_prefix:
  assumes inv: "bb_inv rb k" and "n \<le> bb_count rb" and "pucRead rb + n \<le> xSize rb"
  shows "mem_read (pucRead rb) n (pucStorage rb) = take n (bb_list rb)"
proof -
  have "bb_count rb = n + (bb_count rb - n)"
    using assms by simp
  then have "take n (bb_list rb) = rbytes (pucStorage rb) (xSize rb) (pucRead rb) n"
    unfolding bb_list_def by (metis append_eq_conv_conj length_rbytes rbytes_add)
  then show ?thesis
    using inv assms(3) by (simp add: rbytes_linear bb_inv_def)
qed

section \<open>Returning\<close>

lemma bb_return_inv:
  assumes inv: "bb_inv rb k" and "0 < k" and "p < xSize rb" and ret: "prvReturnItemByteBuf rb p = Inr rb'"
  shows "bb_inv rb' 0" and "bb_list rb' = bb_list rb"
proof -
  have "0 < xSize rb" using inv by (simp add: bb_inv_def)
  then show "bb_inv rb' 0" "bb_list rb' = bb_list rb"
    using inv ret \<open>0 < k\<close> \<open>p < xSize rb\<close>
    by (auto simp: prvReturnItemByteBuf_def assertR_def Let_def bb_inv_def bb_full_def bb_count_def
        bb_list_def)
qed

end
