(* ===== verification/Ringbuf_Bytes_Fifo.thy ===== *)
theory Ringbuf_Bytes_Fifo
  imports Ringbuf_Bytes Ringbuf_Api Fifo
begin

text \<open>
  A byte buffer is a first-in first-out channel of bytes. The representation relation also says that
  the bytes a receiver holds are still in the storage where it was told to find them.
\<close>

definition bb_rep :: "Ringbuffer_t \<Rightarrow> (nat \<times> byte list) option \<Rightarrow> byte list \<Rightarrow> bool" where
  "bb_rep rb h q \<longleftrightarrow> bb_list rb = q \<and>
     (case h of
        None \<Rightarrow> bb_inv rb 0
      | Some (p, ds) \<Rightarrow>
          bb_inv rb (length ds) \<and> ds \<noteq> [] \<and> p = pucFree rb \<and> p + length ds \<le> xSize rb \<and>
          mem_read p (length ds) (pucStorage rb) = ds)"

definition bb_out :: "Ringbuffer_t \<Rightarrow> nat \<times> nat \<Rightarrow> byte list" where
  "bb_out rb = (\<lambda>(p, n). mem_read p n (pucStorage rb))"

definition bb_took ::
    "(nat \<times> byte list) option \<Rightarrow> Ringbuffer_t \<Rightarrow> nat \<times> nat \<Rightarrow> (nat \<times> byte list) option" where
  "bb_took h rb x = Some (fst x, bb_out rb x)"

definition bb_gave :: "(nat \<times> byte list) option \<Rightarrow> nat \<Rightarrow> (nat \<times> byte list) option" where
  "bb_gave h p = None"

definition bb_may :: "Ringbuffer_t \<Rightarrow> (nat \<times> byte list) option \<Rightarrow> nat \<Rightarrow> bool" where
  "bb_may rb h p \<longleftrightarrow> (case h of None \<Rightarrow> False | Some (p', ds) \<Rightarrow> p = p')"

lemma bb_sem [simp]:
  "bb_inv (giveRecvSem rb) k = bb_inv rb k" "bb_inv (giveTransSem rb) k = bb_inv rb k"
  "bb_list (giveRecvSem rb) = bb_list rb" "bb_list (giveTransSem rb) = bb_list rb"
  "bb_rep (giveRecvSem rb) h q = bb_rep rb h q" "bb_rep (giveTransSem rb) h q = bb_rep rb h q"
  by (simp_all add: giveRecvSem_def giveTransSem_def bb_inv_def bb_list_def bb_full_def bb_count_def
      bb_rep_def split: option.splits)

lemma bb_rep_inv: "bb_rep rb h q \<Longrightarrow> \<exists>k. bb_inv rb k \<and> (case h of None \<Rightarrow> k = 0 | Some (p, ds) \<Rightarrow> k = length ds)"
  by (auto simp: bb_rep_def split: option.splits)

lemma bb_sent_rep:
  assumes rep: "bb_rep rb h q" and k: "case h of None \<Rightarrow> k = 0 | Some (p, ds) \<Rightarrow> k = length ds"
    and inv: "bb_inv rb k" and fits: "k + bb_count rb + length item \<le> xSize rb" and ne: "item \<noteq> []"
  shows "bb_rep (bb_sent rb k item) h (q @ item)"
proof (cases h)
  case None
  then show ?thesis
    using rep k bb_sent_inv [OF inv fits ne] bb_sent_list [OF inv fits] by (simp add: bb_rep_def)
next
  case (Some a)
  then obtain p ds where h: "h = Some (p, ds)" by (cases a) auto
  have r: "k = length ds" "ds \<noteq> []" "p = pucFree rb" "p + length ds \<le> xSize rb"
    "mem_read p (length ds) (pucStorage rb) = ds" "bb_list rb = q"
    using rep k h by (auto simp: bb_rep_def)
  have S: "length (pucStorage rb) = xSize rb" "pucFree rb < xSize rb"
    "pucAcquire rb = radv (xSize rb) (pucFree rb) (k + bb_count rb)"
    using inv by (simp_all add: bb_inv_def)
  have "mem_agree (rrun (xSize rb) (pucFree rb) (k + bb_count rb)) (pucStorage rb)
          (rwrite (xSize rb) (pucAcquire rb) item (pucStorage rb))"
    unfolding S(3) using S(1,2) fits by (intro rwrite_agree) simp_all
  then have "mem_agree {p..<p + length ds} (pucStorage rb)
          (rwrite (xSize rb) (pucAcquire rb) item (pucStorage rb))"
    by (rule mem_agree_subset)
      (use r rrun_mono [of k "k + bb_count rb"] rrun_linear [of p "length ds" "xSize rb"] in auto)
  then have "mem_read p (length ds) (rwrite (xSize rb) (pucAcquire rb) item (pucStorage rb)) = ds"
    using r S mem_read_agree by metis
  then show ?thesis
    using r h bb_sent_inv [OF inv fits ne] bb_sent_list [OF inv fits]
    by (simp add: bb_rep_def bb_sent_def Let_def)
qed

lemma bb_send_law:
  assumes rep: "bb_rep rb h q"
  shows "\<exists>rb' ok. xRingbufferSendFromISR item rb = Inr (rb', ok) \<and> bb_rep rb' h (if ok then q @ item else q)"
proof -
  obtain k where inv: "bb_inv rb k" and k: "case h of None \<Rightarrow> k = 0 | Some (p, ds) \<Rightarrow> k = length ds"
    using bb_rep_inv [OF rep] by blast
  have c: "flag (uxRingbufferFlags rb) rbBYTE_BUFFER_FLAG" "xMaxItemSize rb = xSize rb"
    "xMethods rb = RINGBUF_TYPE_BYTEBUF" using inv by (simp_all add: bb_inv_def)
  consider "length item > xSize rb" | "item = []"
    | "length item \<le> xSize rb" "item \<noteq> []" "k + bb_count rb + length item \<le> xSize rb"
    | "length item \<le> xSize rb" "item \<noteq> []" "\<not> k + bb_count rb + length item \<le> xSize rb"
    by fastforce
  then show ?thesis
  proof cases
    case 3
    then have fits: "prvCheckItemFitsByteBuffer rb (length item) = Inr True"
      using bb_fits [OF inv] by (cases item) (auto simp: ac_simps)
    have inv': "bb_inv (bb_sent rb k item) k" using bb_sent_inv [OF inv 3(3,2)] .
    show ?thesis
      using 3 c fits bb_copy_eq [OF inv 3(3)] bb_getfree [OF inv'] bb_sent_rep [OF rep k inv 3(3,2)]
      by (auto simp: xRingbufferSendFromISR_def prvSendAttempt_def xCheckItemFits_def vCopyItem_def
          prvSendFinish_def)
  next
    case 4
    then have "prvCheckItemFitsByteBuffer rb (length item) = Inr False"
      using bb_fits [OF inv] by (auto simp: ac_simps)
    then show ?thesis
      using 4 c rep by (auto simp: xRingbufferSendFromISR_def prvSendAttempt_def xCheckItemFits_def
          prvSendFinish_def)
  qed (use rep c in \<open>auto simp: xRingbufferSendFromISR_def\<close>)
qed

lemma bb_avail:
  assumes inv: "bb_inv rb k"
  shows "prvCheckItemAvail rb \<longleftrightarrow> k = 0 \<and> 0 < bb_count rb"
proof -
  have f: "flag (uxRingbufferFlags rb) rbBYTE_BUFFER_FLAG" "pucFree rb < xSize rb"
    "k + bb_count rb \<le> xSize rb" "pucRead rb = radv (xSize rb) (pucFree rb) k"
    "pucWrite rb = radv (xSize rb) (pucFree rb) (k + bb_count rb)"
    "flag (uxRingbufferFlags rb) rbBUFFER_FULL_FLAG \<longleftrightarrow> k + bb_count rb = xSize rb"
    "xItemsWaiting rb > 0 \<longleftrightarrow> bb_count rb > 0"
    using inv by (auto simp: bb_inv_def bb_full_def bb_count_def)
  have r: "pucRead rb = pucFree rb \<longleftrightarrow> k = 0 \<or> k = xSize rb" using f radv_eq_self by simp
  have w: "pucWrite rb = pucFree rb \<longleftrightarrow> k + bb_count rb = 0 \<or> k + bb_count rb = xSize rb"
    using f radv_eq_self [OF f(2,3)] by simp
  show ?thesis
    using f r w by (auto simp: prvCheckItemAvail_def)
qed

lemma bb_attempt:
  assumes rep: "bb_rep rb h q"
  shows "prvReceiveAttempt False mx rb =
    (if h = None \<and> q \<noteq> []
     then Inr (bb_got rb (bb_take rb mx), Some ((pucRead rb, bb_take rb mx), None))
     else Inr (rb, None))"
proof -
  obtain k where inv: "bb_inv rb k" and k: "case h of None \<Rightarrow> k = 0 | Some (p, ds) \<Rightarrow> k = length ds"
    using bb_rep_inv [OF rep] by blast
  have hk: "k = 0 \<longleftrightarrow> h = None" using rep k by (auto simp: bb_rep_def split: option.splits)
  have "bb_list rb = q" using rep by (simp add: bb_rep_def)
  then have q: "0 < bb_count rb \<longleftrightarrow> q \<noteq> []"
    using length_bb_list [of rb] length_greater_0_conv [of q] by simp
  have c: "flag (uxRingbufferFlags rb) rbBYTE_BUFFER_FLAG" "xMethods rb = RINGBUF_TYPE_BYTEBUF"
    using inv by (simp_all add: bb_inv_def)
  show ?thesis
    using bb_avail [OF inv] hk q c bb_get_eq [of rb mx] inv
    by (auto simp: prvReceiveAttempt_def pvGetItem_def)
qed

lemma bb_got_rep:
  assumes rep: "bb_rep rb None q" and n: "n = bb_take rb mx" and ne: "q \<noteq> []"
  shows "bb_rep (bb_got rb n) (bb_took None (bb_got rb n) (pucRead rb, n)) (drop n q)"
    and "bb_out (bb_got rb n) (pucRead rb, n) = take n q" and "n \<le> length q" "0 < n"
proof -
  have inv: "bb_inv rb 0" and q: "bb_list rb = q" using rep by (simp_all add: bb_rep_def)
  have c: "bb_count rb = length q" using q length_bb_list [of rb] by simp
  have b: "n \<le> bb_count rb" "pucRead rb + n \<le> xSize rb" "0 < n" "pucRead rb = pucFree rb"
    using bb_take_bounds [OF inv, of mx] n ne c inv by (auto simp: bb_inv_def)
  show o: "bb_out (bb_got rb n) (pucRead rb, n) = take n q"
    using bb_read_prefix [OF inv b(1,2)] q by (simp add: bb_out_def bb_got_def)
  show "n \<le> length q" "0 < n" using b c by simp_all
  then have "length (take n q) = n" "take n q \<noteq> []" using ne by auto
  then show "bb_rep (bb_got rb n) (bb_took None (bb_got rb n) (pucRead rb, n)) (drop n q)"
    using bb_got_inv [OF inv b(1)] bb_got_list [OF inv b(1)] bb_read_prefix [OF inv b(1,2)] b q o
    by (simp add: bb_rep_def bb_took_def bb_got_def)
qed

lemma bb_recv_law:
  assumes rep: "bb_rep rb h q"
  shows "\<exists>rb' r. xRingbufferReceiveUpToFromISR mx rb = Inr (rb', r) \<and>
    (case r of None \<Rightarrow> bb_rep rb' h q
     | Some x \<Rightarrow> \<exists>q'. q = bb_out rb' x @ q' \<and> bb_rep rb' (bb_took h rb' x) q')"
proof -
  have c: "flag (uxRingbufferFlags rb) rbBYTE_BUFFER_FLAG" using bb_rep_inv [OF rep] by (auto simp: bb_inv_def)
  show ?thesis
  proof (cases "mx \<noteq> 0 \<and> h = None \<and> q \<noteq> []")
    case False
    then show ?thesis
      using c rep bb_attempt [OF rep, of mx]
      by (auto simp: xRingbufferReceiveUpToFromISR_def prvReceiveGenericFromISR_def prvReceiveFinish_def
          first_item_def)
  next
    case True
    let ?n = "bb_take rb mx"
    let ?rb = "bb_got rb ?n"
    note g = bb_got_rep [OF rep [unfolded True [THEN conjunct2, THEN conjunct1]] refl, of mx]
    have fin: "bb_out (giveRecvSem s) x = bb_out s x"
      "bb_took h' (giveRecvSem s) x = bb_took h' s x" for s h' x
      by (simp_all add: bb_out_def bb_took_def giveRecvSem_def)
    define rb' where "rb' = (if xItemsWaiting ?rb > 0 then giveRecvSem ?rb else ?rb)"
    have "xRingbufferReceiveUpToFromISR mx rb = Inr (rb', Some (pucRead rb, ?n))"
      using c True bb_attempt [OF rep, of mx]
      by (simp add: xRingbufferReceiveUpToFromISR_def prvReceiveGenericFromISR_def prvReceiveFinish_def
          first_item_def rb'_def)
    moreover have "q = bb_out rb' (pucRead rb, ?n) @ drop ?n q"
      "bb_rep rb' (bb_took h rb' (pucRead rb, ?n)) (drop ?n q)"
      using g True by (auto simp: rb'_def fin)
    ultimately show ?thesis by auto
  qed
qed

lemma bb_ret_law:
  assumes rep: "bb_rep rb h q" and may: "bb_may rb h p"
  shows "\<exists>rb'. vRingbufferReturnItemFromISR p rb = Inr rb' \<and> bb_rep rb' (bb_gave h p) q"
proof -
  obtain ds where h: "h = Some (p, ds)" using may by (auto simp: bb_may_def split: option.splits)
  have inv: "bb_inv rb (length ds)" "ds \<noteq> []" "p < xSize rb" "bb_list rb = q"
    using rep h by (auto simp: bb_rep_def bb_inv_def)
  obtain rb' where r: "prvReturnItemByteBuf rb p = Inr rb'"
    using inv by (simp add: prvReturnItemByteBuf_def Let_def)
  moreover have "xMethods rb = RINGBUF_TYPE_BYTEBUF" using inv(1) by (simp add: bb_inv_def)
  moreover have "bb_rep rb' None q"
    using bb_return_inv [OF inv(1) _ inv(3) r] inv by (simp add: bb_rep_def)
  ultimately show ?thesis
    by (simp add: vRingbufferReturnItemFromISR_def vReturnItem_def bb_gave_def)
qed

interpretation bb: fifo_channel bb_rep xRingbufferSendFromISR "xRingbufferReceiveUpToFromISR mx"
    vRingbufferReturnItemFromISR id bb_out bb_took bb_gave bb_may for mx
  by unfold_locales (simp only: id_apply bb_send_law, rule bb_recv_law, assumption,
      rule bb_ret_law)

definition bb_run ::
    "nat \<Rightarrow> (byte list, nat) fifo_op list \<Rightarrow> Ringbuffer_t \<times> (nat \<times> byte list) option \<times> byte list \<times> byte list \<Rightarrow>
     (Ringbuffer_t \<times> (nat \<times> byte list) option \<times> byte list \<times> byte list) res" where
  "bb_run mx = fifo_run xRingbufferSendFromISR (xRingbufferReceiveUpToFromISR mx)
     vRingbufferReturnItemFromISR id bb_out bb_took bb_gave bb_may"

text \<open>
  C1. A byte buffer created by \<^verbatim>\<open>xRingbufferCreate\<close> is a first-in first-out channel of bytes over any
  sequence of sends, receives of up to \<open>mx\<close> bytes and returns, from interrupts: no call fails an
  assertion or leaves the storage, and the bytes received, followed by the bytes that still wait, are
  exactly the bytes accepted, in order. The chunk the receiver holds is still in the storage,
  unchanged, where the receiver was told to find it.
\<close>

theorem byte_buffer_fifo:
  assumes "alloc n = Some storage" and "length storage = n" and "0 < n" and "n < 2 ^ 31"
  shows "\<exists>rb0 rb h snt rcv.
    xRingbufferCreate alloc n RINGBUF_TYPE_BYTEBUF = Inr (Some rb0) \<and>
    bb_run mx ops (rb0, None, [], []) = Inr (rb, h, snt, rcv) \<and>
    snt = rcv @ bb_list rb \<and>
    (case h of None \<Rightarrow> True
     | Some (p, ds) \<Rightarrow> p + length ds \<le> length (pucStorage rb) \<and>
         mem_read p (length ds) (pucStorage rb) = ds)"
proof -
  let ?rb0 = "prvInitializeNewRingbuffer n RINGBUF_TYPE_BYTEBUF storage"
  have c: "xRingbufferCreate alloc n RINGBUF_TYPE_BYTEBUF = Inr (Some ?rb0)"
    using assms by (simp add: xRingbufferCreate_def)
  have "bb_rep ?rb0 None []"
    using bb_inv_init [OF assms(3,4,2)] by (simp add: bb_rep_def)
  from bb.run_fifo [OF this, of "[]" "[]" mx ops]
  obtain rb h snt rcv q where r: "bb_run mx ops (?rb0, None, [], []) = Inr (rb, h, snt, rcv)"
    "bb_rep rb h q" "snt = rcv @ q" by (auto simp: bb_run_def)
  show ?thesis
    using c r by (auto simp: bb_rep_def bb_inv_def split: option.splits)
qed

definition bb_demo :: "(byte list, nat) fifo_op list" where
  "bb_demo = [Send [1, 2, 3], Recv, Send [4, 5], Ret 0, Send [6, 7], Send [8], Recv]"

theorem byte_buffer_fifo_witness:
  "(\<exists>rb0 rb h snt rcv.
    xRingbufferCreate (\<lambda>n. Some (replicate n 0)) 5 RINGBUF_TYPE_BYTEBUF = Inr (Some rb0) \<and>
    bb_run 2 bb_demo (rb0, None, [], []) = Inr (rb, h, snt, rcv) \<and> snt = rcv @ bb_list rb) \<and>
   (case bb_run 2 bb_demo
           (prvInitializeNewRingbuffer 5 RINGBUF_TYPE_BYTEBUF (replicate 5 0), None, [], []) of
      Inl _ \<Rightarrow> False
    | Inr (rb, h, snt, rcv) \<Rightarrow> snt = [1, 2, 3, 4, 5, 6, 7] \<and> rcv = [1, 2, 3, 4])"
  (is "?A \<and> ?B")
proof
  show ?A
    using byte_buffer_fifo [of "\<lambda>n. Some (replicate n 0)" 5 "replicate 5 0" 2 bb_demo] by auto
  show ?B by code_simp
qed

end
