(* ===== verification/Ringbuf_Props.thy ===== *)
theory Ringbuf_Props
  imports Ringbuf_Items_Fifo Ringbuf_Bytes_Fifo
begin

text \<open>
  Further properties of the ring buffer: the reported free size, acquiring and completing in two
  steps, blocking calls under interference, and the corner cases in which the code does not keep what
  its documentation promises.
\<close>

section \<open>The reported free size\<close>

lemma item_fit_iff: "k mod 4 = 0 \<Longrightarrow> rbHEADER_SIZE + align4 n \<le> k \<longleftrightarrow> n + 8 \<le> k"
proof (cases "8 \<le> k")
  case True
  assume "k mod 4 = 0"
  then have "(k - 8) mod 4 = 0" using True by presburger
  then show ?thesis using align4_le_iff [of "k - 8" n] True by (auto simp: rbHEADER_SIZE_def)
qed (auto simp: rbHEADER_SIZE_def)

lemma nosplit_cur_max:
  assumes inv: "it_inv rb xs ys zs" and ty: "xMethods rb = RINGBUF_TYPE_NOSPLIT"
    and n: "0 < n" "n \<le> xMaxItemSize rb"
  shows "prvCheckItemFitsDefault rb n = Inr (n \<le> prvGetCurMaxSizeNoSplit rb)"
proof -
  note b = it_inv_basic [OF inv]
  let ?S = "xSize rb" and ?a = "pucAcquire rb" and ?f = "pucFree rb" and ?t = "rbHEADER_SIZE + align4 n"
  have v: "?S mod 4 = 0" "?a mod 4 = 0" "?f mod 4 = 0" "?a + 8 \<le> ?S" "?f + 8 \<le> ?S" "?S < 2 ^ 32"
    using b(2,4,5) by (simp_all add: vpos_def rbHEADER_SIZE_def)
  have H: "xMaxItemSize rb + 8 = align4 (?S div 2)" and nsp: "\<not> flag (uxRingbufferFlags rb) rbALLOW_SPLIT_FLAG"
    using b(3) ty by (simp_all add: item_cfg_def rbHEADER_SIZE_def)
  note fit = item_fit_iff [of _ n]
  have cur: "prvGetCurMaxSizeNoSplit rb =
      (if flag (uxRingbufferFlags rb) rbBUFFER_FULL_FLAG then 0
       else min (xMaxItemSize rb) ((if ?a < ?f then ?f - ?a else max (?S - ?a) ?f) - 8))"
    using v by (auto simp: prvGetCurMaxSizeNoSplit_def Let_def rbHEADER_SIZE_def max_def min_def)
  have d: "(?f - ?a) mod 4 = 0" "(?S - ?a) mod 4 = 0" using v(1-3) by (simp_all add: mod4_diff)
  show ?thesis
    using inv
  proof (cases rule: acq_cases)
    case empty
    have "align4 (?S div 2) \<le> max (?S - ?a) ?a"
    proof (cases "?S div 2 \<le> ?a")
      case True
      then show ?thesis using align4_le_iff [OF v(2), of "?S div 2"] by simp
    next
      case False
      then show ?thesis using align4_le_iff [OF d(2), of "?S div 2"] v(1) by simp
    qed
    with empty n H show ?thesis by (simp add: fits_eq [OF inv n(2)] cur Let_def)
  next
    case full
    with n show ?thesis by (simp add: fits_eq [OF inv n(2)] cur Let_def)
  next
    case after
    have "?t \<le> ?S - ?a \<or> ?t \<le> ?f \<longleftrightarrow> n + 8 \<le> max (?S - ?a) ?f"
      using fit [OF d(2)] fit [OF v(3)] by (simp add: le_max_iff_disj)
    with after n nsp show ?thesis by (simp add: fits_eq [OF inv n(2)] cur Let_def) linarith
  next
    case before
    with n fit [OF d(1)] show ?thesis by (simp add: fits_eq [OF inv n(2)] cur Let_def) linarith
  qed
qed

text \<open>
  C4. In a no-split buffer, the size that \<^verbatim>\<open>xRingbufferGetCurFreeSize\<close> reports is exact: an item of at
  least one byte and at most the maximum item size can be sent now if and only if it is not larger
  than the reported size.
\<close>

theorem nosplit_free_size_exact:
  assumes "it_inv rb xs ys zs" and "xMethods rb = RINGBUF_TYPE_NOSPLIT"
    and "0 < n" and "n \<le> xMaxItemSize rb"
  shows "xCheckItemFits rb n = Inr (n \<le> xRingbufferGetCurFreeSize rb)"
  using nosplit_cur_max [OF assms] assms(2)
  by (simp add: xCheckItemFits_def xRingbufferGetCurFreeSize_def xGetCurMaxSize_def)

theorem nosplit_free_size_exact_witness:
  "xCheckItemFits (prvInitializeNewRingbuffer 32 RINGBUF_TYPE_NOSPLIT (replicate 32 0)) 5 =
     Inr (5 \<le> xRingbufferGetCurFreeSize (prvInitializeNewRingbuffer 32 RINGBUF_TYPE_NOSPLIT (replicate 32 0)))"
proof (rule nosplit_free_size_exact)
  show "it_inv (prvInitializeNewRingbuffer 32 RINGBUF_TYPE_NOSPLIT (replicate 32 0)) [] [] []"
    by (rule it_inv_init(1)) simp_all
qed (simp_all add: prvInitializeNewRingbuffer_def rbALIGN_SIZE_eq align4_def rbHEADER_SIZE_def)

lemma allowsplit_cur_max:
  assumes inv: "it_inv rb xs ys zs" and ty: "xMethods rb = RINGBUF_TYPE_ALLOWSPLIT"
    and n: "0 < n" "n \<le> xMaxItemSize rb"
  shows "8 \<le> pucFree rb \<or> pucAcquire rb = pucFree rb \<Longrightarrow>
      prvCheckItemFitsDefault rb n = Inr (n \<le> prvGetCurMaxSizeAllowSplit rb)"
    and "pucFree rb = 0 \<Longrightarrow> 0 < pucAcquire rb \<Longrightarrow>
      prvCheckItemFitsDefault rb n = Inr (n + 8 \<le> xSize rb - pucAcquire rb) \<and>
      prvGetCurMaxSizeAllowSplit rb = xSize rb - pucAcquire rb - 16"
proof -
  note b = it_inv_basic [OF inv] and fit = item_fit_iff [of _ n]
  let ?S = "xSize rb" and ?a = "pucAcquire rb" and ?f = "pucFree rb"
  have v: "?S mod 4 = 0" "?a mod 4 = 0" "?f mod 4 = 0" "?a + 8 \<le> ?S" "?f + 8 \<le> ?S" "?S < 2 ^ 32"
    using b(2,4,5) by (simp_all add: vpos_def rbHEADER_SIZE_def)
  have M: "xMaxItemSize rb + 16 = ?S" and sp: "flag (uxRingbufferFlags rb) rbALLOW_SPLIT_FLAG"
    using b(3) ty by (simp_all add: item_cfg_def rbHEADER_SIZE_def)
  have cur: "prvGetCurMaxSizeAllowSplit rb =
      (if flag (uxRingbufferFlags rb) rbBUFFER_FULL_FLAG then 0
       else min (xMaxItemSize rb)
              (if ?a = 0 \<and> ?f = 0 then ?S - 8 else if ?a < ?f then ?f - ?a - 8 else ?f + (?S - ?a) - 16))"
    using v by (auto simp: prvGetCurMaxSizeAllowSplit_def Let_def rbHEADER_SIZE_def min_def)
  have d: "(?f - ?a) mod 4 = 0" "(?S - ?a) mod 4 = 0" "(?S - (?a - ?f) - 8) mod 4 = 0"
    using v(1-3) by (simp_all add: mod4_diff mod4_add)
  have fit2: "rbHEADER_SIZE + align4 n + rbHEADER_SIZE \<le> ?S - (?a - ?f) \<longleftrightarrow> n + 16 \<le> ?S - (?a - ?f)"
    using fit [OF d(3)] v by (auto simp: rbHEADER_SIZE_def)
  show "prvCheckItemFitsDefault rb n = Inr (n \<le> prvGetCurMaxSizeAllowSplit rb)"
    if h: "8 \<le> ?f \<or> ?a = ?f"
    using inv
  proof (cases rule: acq_cases)
    case empty
    with n M v show ?thesis by (auto simp: fits_eq [OF inv n(2)] cur Let_def)
  next
    case full
    with n show ?thesis by (simp add: fits_eq [OF inv n(2)] cur Let_def)
  next
    case after
    then have "8 \<le> ?f" using h by auto
    with after n M sp fit [OF d(2)] fit2 v show ?thesis
      by (simp add: fits_eq [OF inv n(2)] cur Let_def) linarith
  next
    case before
    with n M fit [OF d(1)] show ?thesis by (simp add: fits_eq [OF inv n(2)] cur Let_def) linarith
  qed
  show "prvCheckItemFitsDefault rb n = Inr (n + 8 \<le> ?S - ?a) \<and> prvGetCurMaxSizeAllowSplit rb = ?S - ?a - 16"
    if h: "?f = 0" "0 < ?a"
    using inv
  proof (cases rule: acq_cases)
    case after
    have c: "prvGetCurMaxSizeAllowSplit rb = ?S - ?a - 16"
      using cur after h M by (auto simp: min_def)
    show ?thesis unfolding c
      using after h n sp fit [OF d(2)] fit2 v
      by (simp add: fits_eq [OF inv n(2)] Let_def) (auto simp: rbHEADER_SIZE_def)
  qed (use h in simp_all)
qed

text \<open>
  C5. In an allow-split buffer the reported free size is exact while \<^verbatim>\<open>pucFree\<close> is past the first header
  or the buffer is empty. When \<^verbatim>\<open>pucFree\<close> is at the head and the buffer is not empty, no item can be
  split, yet the code reserves a second header: it reports the free bytes less two headers, or 0 when
  fewer are free, where an item of the free bytes less one header can be sent.
\<close>

theorem allowsplit_free_size:
  assumes "it_inv rb xs ys zs" and "xMethods rb = RINGBUF_TYPE_ALLOWSPLIT"
    and "0 < n" and "n \<le> xMaxItemSize rb"
  shows "(8 \<le> pucFree rb \<or> pucAcquire rb = pucFree rb \<longrightarrow>
      xCheckItemFits rb n = Inr (n \<le> xRingbufferGetCurFreeSize rb)) \<and>
    (pucFree rb = 0 \<and> 0 < pucAcquire rb \<longrightarrow>
      xCheckItemFits rb n = Inr (n + 8 \<le> xSize rb - pucAcquire rb) \<and>
      xRingbufferGetCurFreeSize rb = xSize rb - pucAcquire rb - 16)"
  using allowsplit_cur_max [OF assms] assms(2)
  by (simp add: xCheckItemFits_def xRingbufferGetCurFreeSize_def xGetCurMaxSize_def)

definition as_demo :: Ringbuffer_t where
  "as_demo = (prvInitializeNewRingbuffer 32 RINGBUF_TYPE_ALLOWSPLIT
       (hdr_bytes \<lparr>xItemLen = 4, uxItemFlags = 0\<rparr> @ [1, 2, 3, 4] @ replicate 20 0))
     \<lparr>pucAcquire := 12, pucWrite := 12, xItemsWaiting := 1\<rparr>"

theorem allowsplit_free_size_witness:
  "xCheckItemFits as_demo 12 = Inr True \<and> xRingbufferGetCurFreeSize as_demo = 4"
proof -
  have "it_inv as_demo [] [Item 0 [1, 2, 3, 4]] []" by code_simp
  moreover have "xMethods as_demo = RINGBUF_TYPE_ALLOWSPLIT" "12 \<le> xMaxItemSize as_demo" "pucFree as_demo = 0"
    "pucAcquire as_demo = 12" "xSize as_demo = 32"
    by (simp_all add: as_demo_def prvInitializeNewRingbuffer_def rbHEADER_SIZE_def)
  ultimately show ?thesis
    using allowsplit_free_size [of as_demo "[]" "[Item 0 [1, 2, 3, 4]]" "[]" 12] by simp
qed

section \<open>Items that cover the whole storage\<close>

text \<open>
  C6. When the items a client has retrieved cover the whole storage, returning any one of them makes
  the buffer empty for the code, also while the others are still out: every item of up to the maximum
  size then fits again, at any place. The documentation allows items to be returned in any order.
\<close>

theorem return_with_full_storage_discards:
  assumes inv: "it_inv rb (us @ Item fl ds # vs) ys zs" and fl: "\<not> flag fl rbITEM_FREE_FLAG"
    and q0: "q0 = radv (xSize rb) (pucFree rb) (tspan (xSize rb) (pucFree rb) us)"
    and all: "tspan (xSize rb) (pucFree rb) (us @ Item fl ds # vs) = xSize rb"
  shows "\<exists>rb'. prvReturnItemDefault rb (q0 + rbHEADER_SIZE) = Inr rb' \<and> it_inv rb' [] [] [] \<and>
    (\<forall>n \<le> xMaxItemSize rb'. prvCheckItemFitsDefault rb' n = Inr True)"
proof -
  let ?xs = "us @ Item (freed fl) ds # vs"
  have f: "pucFree rb < xSize rb" using it_inv_basic(4) [OF inv] by simp
  obtain m' where m': "it_inv (rb\<lparr>pucStorage := m'\<rparr>) ?xs ys zs"
    "prvReturnItemDefault rb (q0 + rbHEADER_SIZE) =
       bindR (prvSkipFreed (xSize rb + 2) (rb\<lparr>pucStorage := m'\<rparr>)) (\<lambda>rb. Inr (prvResetFullFlag rb))"
    using return_mark [OF inv q0 fl] by blast
  have "tspan (xSize rb) (pucFree rb) ?xs = xSize rb"
    using tspan_cong [OF f, of us "[Item (freed fl) ds]" "[Item fl ds]" vs] all by simp
  then have r: "prvReturnItemDefault rb (q0 + rbHEADER_SIZE) = Inr (prvResetFullFlag (rb\<lparr>pucStorage := m'\<rparr>))"
    "it_inv (prvResetFullFlag (rb\<lparr>pucStorage := m'\<rparr>)) [] [] []"
    using skip_freed_full [OF m'(1), of "xSize rb + 2"] m'(2) by simp_all
  have "prvCheckItemFitsDefault rb' n = Inr True" if "it_inv rb' [] [] []" "n \<le> xMaxItemSize rb'" for rb' n
  proof -
    have "pucFree rb' < xSize rb'" using it_inv_basic(4) [OF that(1)] by simp
    then have "pucAcquire rb' = pucFree rb'" "\<not> flag (uxRingbufferFlags rb') rbBUFFER_FULL_FLAG"
      using that(1) it_inv_basic(8) [OF that(1)] by (auto simp: it_inv_def)
    then show ?thesis using fits_eq [OF that] by (simp add: Let_def)
  qed
  with r show ?thesis by blast
qed

text \<open>A buffer of 24 bytes with two items of four bytes, both retrieved.\<close>

definition full_demo :: Ringbuffer_t where
  "full_demo = (prvInitializeNewRingbuffer 24 RINGBUF_TYPE_NOSPLIT
       (hdr_bytes \<lparr>xItemLen = 4, uxItemFlags = rbITEM_WRITTEN_FLAG\<rparr> @ [1, 2, 3, 4] @
        hdr_bytes \<lparr>xItemLen = 4, uxItemFlags = rbITEM_WRITTEN_FLAG\<rparr> @ [5, 6, 7, 8]))
     \<lparr>uxRingbufferFlags := rbBUFFER_FULL_FLAG\<rparr>"

theorem return_with_full_storage_discards_witness:
  "\<exists>rb'. prvReturnItemDefault full_demo 8 = Inr rb' \<and> it_inv rb' [] [] []"
proof -
  have "it_inv full_demo [Item rbITEM_WRITTEN_FLAG [1, 2, 3, 4], Item rbITEM_WRITTEN_FLAG [5, 6, 7, 8]] [] []"
    by code_simp
  moreover have "xSize full_demo = 24" "pucFree full_demo = 0"
    by (simp_all add: full_demo_def prvInitializeNewRingbuffer_def)
  moreover have "tspan 24 0 [Item rbITEM_WRITTEN_FLAG [1, 2, 3, 4], Item rbITEM_WRITTEN_FLAG [5, 6, 7, 8]] = 24"
    by code_simp
  ultimately show ?thesis
    using return_with_full_storage_discards [of full_demo "[]" rbITEM_WRITTEN_FLAG "[1, 2, 3, 4]"
        "[Item rbITEM_WRITTEN_FLAG [5, 6, 7, 8]]" "[]" "[]" 0] by (auto simp: rbHEADER_SIZE_def)
qed

section \<open>Acquiring and completing\<close>

text \<open>
  C8. While the acquired items of a no-split buffer do not fill the whole storage,
  \<^verbatim>\<open>xRingbufferSendComplete\<close> on one of them that is not complete yet succeeds, and acquired items become available in the order
  they were acquired: the longest prefix of complete items moves to the items that wait, the others
  keep waiting for their completion, and the receive semaphore is given. When they do fill the
  storage the order is not kept: that case is C9.
\<close>

theorem send_complete_in_order:
  assumes inv: "it_inv rb xs ys (us @ Item fl ds # vs)" and ty: "xMethods rb = RINGBUF_TYPE_NOSPLIT"
    and fl: "\<not> flag fl rbITEM_WRITTEN_FLAG"
    and q0: "q0 = radv (xSize rb) (pucFree rb) (tspan (xSize rb) (pucFree rb) (xs @ ys @ us))"
    and zs: "zs = us @ Item (written fl) ds # vs"
    and room: "tspan (xSize rb) (pucWrite rb) zs < xSize rb"
  shows "\<exists>rb'. xRingbufferSendComplete (q0 + rbHEADER_SIZE) rb = Inr (rb', True) \<and>
    it_inv rb' xs
      (ys @ map (mark rbITEM_WRITTEN_FLAG) (takeWhile (skips rbITEM_WRITTEN_FLAG) zs))
      (dropWhile (skips rbITEM_WRITTEN_FLAG) zs) \<and> xRecvSem rb'"
proof -
  have c: "\<not> flag (uxRingbufferFlags rb) (rbBYTE_BUFFER_FLAG OR rbALLOW_SPLIT_FLAG)"
    using inv ty by (simp add: it_inv_def item_cfg_def flag_def bit.conj_disj_distrib or_eq_0_iff)
  from done_ok [OF inv q0 fl zs] room obtain rb' where
    "prvSendItemDoneNoSplit rb (q0 + rbHEADER_SIZE) = Inr rb'"
    "it_inv rb' xs (ys @ map (mark rbITEM_WRITTEN_FLAG) (takeWhile (skips rbITEM_WRITTEN_FLAG) zs))
       (dropWhile (skips rbITEM_WRITTEN_FLAG) zs)" by auto
  then show ?thesis
    using c by (intro exI [of _ "giveRecvSem rb'"]) (simp add: xRingbufferSendComplete_def, simp add: giveRecvSem_def)
qed

text \<open>Three items of four bytes in 48 bytes: the second is complete, the others are only acquired.\<close>

definition acq_demo :: Ringbuffer_t where
  "acq_demo = (prvInitializeNewRingbuffer 48 RINGBUF_TYPE_NOSPLIT
       (hdr_bytes \<lparr>xItemLen = 4, uxItemFlags = 0\<rparr> @ [1, 2, 3, 4] @
        hdr_bytes \<lparr>xItemLen = 4, uxItemFlags = rbITEM_WRITTEN_FLAG\<rparr> @ [5, 6, 7, 8] @
        hdr_bytes \<lparr>xItemLen = 4, uxItemFlags = 0\<rparr> @ replicate 16 0))
     \<lparr>pucAcquire := 36, xItemsWaiting := 1\<rparr>"

theorem send_complete_in_order_witness:
  "\<exists>rb'. xRingbufferSendComplete 8 acq_demo = Inr (rb', True) \<and>
    it_inv rb' [] [Item rbITEM_WRITTEN_FLAG [1, 2, 3, 4], Item rbITEM_WRITTEN_FLAG [5, 6, 7, 8]]
      [Item 0 [0, 0, 0, 0]]"
proof -
  let ?vs = "[Item rbITEM_WRITTEN_FLAG [5, 6, 7, 8], Item 0 [0, 0, 0, 0]]"
  have inv: "it_inv acq_demo [] [] ([] @ Item 0 [1, 2, 3, 4] # ?vs)" by code_simp
  have d: "xMethods acq_demo = RINGBUF_TYPE_NOSPLIT" "xSize acq_demo = 48" "pucFree acq_demo = 0"
    "pucWrite acq_demo = 0"
    by (simp_all add: acq_demo_def prvInitializeNewRingbuffer_def)
  have w: "written 0 = rbITEM_WRITTEN_FLAG" by (simp add: written_def)
  have t: "tspan 48 0 (Item rbITEM_WRITTEN_FLAG [1, 2, 3, 4] # ?vs) < 48" by code_simp
  show ?thesis
    using send_complete_in_order [OF inv d(1) _ refl refl] d w t
    by (auto simp: skips_def rbHEADER_SIZE_def)
qed

section \<open>Corner cases\<close>

text \<open>A buffer of 24 bytes with one and with two acquired items.\<close>

definition acq_full :: Ringbuffer_t where
  "acq_full = (prvInitializeNewRingbuffer 24 RINGBUF_TYPE_NOSPLIT
       (hdr_bytes \<lparr>xItemLen = 4, uxItemFlags = 0\<rparr> @ [0, 0, 0, 0] @
        hdr_bytes \<lparr>xItemLen = 4, uxItemFlags = 0\<rparr> @ [0, 0, 0, 0]))
     \<lparr>uxRingbufferFlags := rbBUFFER_FULL_FLAG, xTransSem := False\<rparr>"

definition acq_one :: Ringbuffer_t where
  "acq_one = (prvInitializeNewRingbuffer 24 RINGBUF_TYPE_NOSPLIT
       (hdr_bytes \<lparr>xItemLen = 4, uxItemFlags = 0\<rparr> @ replicate 16 0))\<lparr>pucAcquire := 12\<rparr>"

lemma acq_full_reached:
  "xRingbufferSendAcquire 4 0 0 [(id, 0)]
     (prvInitializeNewRingbuffer 24 RINGBUF_TYPE_NOSPLIT (replicate 24 0)) = Inr (acq_one, Some 8, True)"
  "xRingbufferSendAcquire 4 0 0 [(id, 0)] acq_one = Inr (acq_full, Some 20, True)"
  by code_simp+

lemma full_head_blk:
  assumes inv: "it_inv rb [] [] (Item f0 d0 # bs)"
  shows "get_hdr (pucFree rb) (pucStorage rb) = Inr \<lparr>xItemLen = length d0, uxItemFlags = f0\<rparr>"
    "\<not> flag f0 rbITEM_DUMMY_DATA_FLAG" "pucRead rb = pucFree rb" "pucWrite rb = pucFree rb"
    "pucFree rb + (rbHEADER_SIZE + align4 (length d0)) \<le> xSize rb" "length d0 \<le> xMaxItemSize rb"
    "pucFree rb < xSize rb" "pucFree rb mod 4 = 0"
  using inv by (auto simp: it_inv_def blk_at_def radv_def vpos_def)

text \<open>
  When acquired items fill the storage the full flag is set, and one completed item among them is
  enough for \<^verbatim>\<open>prvCheckItemAvail\<close>: the receive takes the first of them.
\<close>

lemma get_full_head:
  assumes inv: "it_inv rb [] [] (Item f0 d0 # bs)" and w: "0 < xItemsWaiting rb"
    and full: "tspan (xSize rb) (pucFree rb) (Item f0 d0 # bs) = xSize rb"
    and ty: "xMethods rb = RINGBUF_TYPE_NOSPLIT"
  shows "\<exists>rb'. prvReceiveAttempt False 0 rb = Inr (rb', Some ((pucFree rb + rbHEADER_SIZE, length d0), None)) \<and>
    pucStorage rb' = pucStorage rb"
proof -
  note h = full_head_blk [OF inv]
  have fl: "flag (uxRingbufferFlags rb) rbBUFFER_FULL_FLAG" using inv full by (simp add: it_inv_def)
  have pos: "if length d0 = 0 then pucFree rb + rbHEADER_SIZE \<le> xSize rb
             else pucFree rb + rbHEADER_SIZE < xSize rb"
    using h(5) align4_bounds(1) [of "length d0"] by (cases d0) auto
  from h fl w pos ty show ?thesis
    by (cases "length d0 = 0")
      (simp_all add: prvReceiveAttempt_def prvCheckItemAvail_def pvGetItem_def prvGetItemDefault_def Let_def)
qed

lemma n_written_completed: "0 < n_written (us @ Item (written fl) ds # vs)"
proof -
  have "flag (written fl) rbITEM_WRITTEN_FLAG" by (simp add: written_def)
  then show ?thesis by simp
qed

lemma tspan_flags: "tspan S p (us @ Item g ds # vs) = tspan S p (us @ Item fl ds # vs)"
  by (induction us arbitrary: p) (simp_all add: bnext_def)

text \<open>
  C9. Out-of-order completion in a full buffer. When acquired items fill the whole storage of a
  no-split buffer, the first of them is not complete, and any other one that was not complete is
  completed, then the call that completes it succeeds, and a receive right after it returns the address
  and the length of the first item, although nobody has completed it: its header still has no written
  flag.
\<close>

theorem receive_returns_incomplete_item:
  assumes inv: "it_inv rb [] [] (Item f0 d0 # us @ Item fl ds # vs)"
    and ty: "xMethods rb = RINGBUF_TYPE_NOSPLIT"
    and full: "tspan (xSize rb) (pucWrite rb) (Item f0 d0 # us @ Item fl ds # vs) = xSize rb"
    and f0: "\<not> flag f0 rbITEM_WRITTEN_FLAG" and fl: "\<not> flag fl rbITEM_WRITTEN_FLAG"
    and q0: "q0 = radv (xSize rb) (pucFree rb) (tspan (xSize rb) (pucFree rb) (Item f0 d0 # us))"
  shows "\<exists>rb1 rb2. xRingbufferSendComplete (q0 + rbHEADER_SIZE) rb = Inr (rb1, True) \<and>
    xRingbufferReceive now xTicksToWait ((id, tick) # rs) rb1 =
      Inr (rb2, Some (pucWrite rb + rbHEADER_SIZE, length d0)) \<and>
    get_hdr (pucWrite rb) (pucStorage rb2) = Inr \<lparr>xItemLen = length d0, uxItemFlags = f0\<rparr> \<and>
    \<not> flag f0 rbITEM_WRITTEN_FLAG"
proof -
  let ?zs = "(Item f0 d0 # us) @ Item (written fl) ds # vs"
  have c: "\<not> flag (uxRingbufferFlags rb) (rbBYTE_BUFFER_FLAG OR rbALLOW_SPLIT_FLAG)"
    using inv ty by (simp add: it_inv_def item_cfg_def flag_def bit.conj_disj_distrib or_eq_0_iff)
  have w: "pucWrite rb = pucFree rb" using full_head_blk(4) [OF inv] .
  have full': "tspan (xSize rb) (pucFree rb) ?zs = xSize rb"
    using full w tspan_flags [of "xSize rb" "pucFree rb" "Item f0 d0 # us" "written fl" ds vs fl] by simp
  have inv': "it_inv rb [] [] ((Item f0 d0 # us) @ Item fl ds # vs)" using inv by simp
  obtain rb' where d: "prvSendItemDoneNoSplit rb (q0 + rbHEADER_SIZE) = Inr rb'"
    "it_inv rb' [] [] ?zs" "xSize rb' = xSize rb" "pucFree rb' = pucFree rb" "xMethods rb' = xMethods rb"
    using done_ok [OF inv' _ fl refl, of q0] q0 full' w by auto
  let ?r = "rb'\<lparr>xRecvSem := False\<rparr>"
  have r: "it_inv ?r [] [] (Item f0 d0 # us @ Item (written fl) ds # vs)"
    using d(2) by (simp add: it_inv_def item_cfg_def)
  have "0 < xItemsWaiting rb'" using d(2) n_written_completed [of "Item f0 d0 # us" fl ds vs]
    by (simp add: it_inv_def)
  then obtain rb2 where rb2: "prvReceiveAttempt False 0 ?r =
      Inr (rb2, Some ((pucFree rb + rbHEADER_SIZE, length d0), None))" "pucStorage rb2 = pucStorage rb'"
    using get_full_head [OF r] full' d ty by auto
  have s: "xRingbufferSendComplete (q0 + rbHEADER_SIZE) rb = Inr (giveRecvSem rb', True)"
    using c d(1) by (simp add: xRingbufferSendComplete_def)
  let ?rb2 = "fst (prvReceiveFinish (rb2, Some ((pucFree rb + rbHEADER_SIZE, length d0), None)))"
  have "xRingbufferReceive now xTicksToWait ((id, tick) # rs) (giveRecvSem rb') =
      Inr (?rb2, Some (pucFree rb + rbHEADER_SIZE, length d0))"
    using rb2(1) by (simp add: xRingbufferReceive_def prvReceiveGeneric_def wait_loop.simps takeRecvSem_def
        giveRecvSem_def prvReceiveFinish_def first_item_def)
  moreover have "pucStorage ?rb2 = pucStorage rb'"
    using rb2(2) by (simp add: prvReceiveFinish_def giveRecvSem_def)
  moreover have "get_hdr (pucFree rb) (pucStorage rb') = Inr \<lparr>xItemLen = length d0, uxItemFlags = f0\<rparr>"
    using full_head_blk(1) [OF r] d(4) by simp
  ultimately show ?thesis using s f0 w by (intro exI [of _ "giveRecvSem rb'"] exI [of _ ?rb2]) simp
qed

text \<open>Two acquired items of four bytes in 24 bytes, of which the second is completed.\<close>

theorem receive_returns_incomplete_item_witness:
  "\<exists>rb1 rb2. xRingbufferSendComplete 20 acq_full = Inr (rb1, True) \<and>
    xRingbufferReceive 0 100 [(id, 0)] rb1 = Inr (rb2, Some (8, 4)) \<and>
    get_hdr 0 (pucStorage rb2) = Inr \<lparr>xItemLen = 4, uxItemFlags = 0\<rparr>"
proof -
  have inv: "it_inv acq_full [] [] (Item 0 [0, 0, 0, 0] # [] @ Item 0 [0, 0, 0, 0] # [])" by code_simp
  have d: "xMethods acq_full = RINGBUF_TYPE_NOSPLIT" "xSize acq_full = 24" "pucFree acq_full = 0"
    "pucWrite acq_full = 0"
    by (simp_all add: acq_full_def prvInitializeNewRingbuffer_def)
  have t: "tspan 24 0 (Item 0 [0, 0, 0, 0] # [] @ Item 0 [0, 0, 0, 0] # []) = 24"
    "radv 24 0 (tspan 24 0 [Item 0 [0, 0, 0, 0]]) = 12" by code_simp+
  have "flag 0 rbITEM_WRITTEN_FLAG = False" "length [0, 0, 0, 0 :: byte] = 4" by (simp_all add: flag_def)
  then show ?thesis
    using receive_returns_incomplete_item [OF inv d(1) _ _ _ refl, of 0 100 0 "[]"]
    unfolding d t by (simp only: simp_thms rbHEADER_SIZE_def) simp
qed

text \<open>
  C10. A no-split buffer of eight bytes can be created, but its maximum item size wraps around to
  almost 4 GiB, and sending any four bytes writes past the end of the storage.
\<close>

theorem tiny_buffer_overflows:
  assumes "alloc 8 = Some storage" and "length storage = 8" and "length item = 4"
  shows "\<exists>rb. xRingbufferCreate alloc 8 RINGBUF_TYPE_NOSPLIT = Inr (Some rb) \<and>
    xRingbufferGetMaxItemSize rb = 2 ^ 32 - 4 \<and> xRingbufferSendFromISR item rb = Inl Out_of_bounds"
proof -
  let ?rb = "prvInitializeNewRingbuffer 8 RINGBUF_TYPE_NOSPLIT storage"
  have al: "rbALIGN_SIZE 8 = 8" "rbALIGN_SIZE 4 = 4"
    using rbALIGN_SIZE_eq [of 8] rbALIGN_SIZE_eq [of 4] by (simp_all add: align4_def)
  have "usub 4 8 = 2 ^ 32 - 4" by (simp add: usub_def)
  then have mx: "xMaxItemSize ?rb = 2 ^ 32 - 4"
    by (simp add: prvInitializeNewRingbuffer_def al rbHEADER_SIZE_def)
  have "xRingbufferSendFromISR item ?rb = Inl Out_of_bounds"
    using assms mx al
    by (simp add: xRingbufferSendFromISR_def prvSendAttempt_def xCheckItemFits_def vCopyItem_def
        prvInitializeNewRingbuffer_def prvCheckItemFitsDefault_def prvCopyItemNoSplit_def
        prvAcquireItemNoSplit_def put_hdr_Inr mem_store_def rbHEADER_SIZE_def Let_def)
  then show ?thesis
    using assms al mx by (simp add: xRingbufferCreate_def xRingbufferGetMaxItemSize_def)
qed

theorem tiny_buffer_overflows_witness:
  "\<exists>rb. xRingbufferCreate (\<lambda>n. Some (replicate n 0)) 8 RINGBUF_TYPE_NOSPLIT = Inr (Some rb) \<and>
    xRingbufferSendFromISR [1, 2, 3, 4] rb = Inl Out_of_bounds"
  using tiny_buffer_overflows [of "\<lambda>n. Some (replicate n 0)" "replicate 8 0" "[1, 2, 3, 4]"] by auto

end
