(* ===== verification/Ringbuf_Blocking.thy ===== *)
theory Ringbuf_Blocking
  imports Ringbuf_Items_Fifo
begin

text \<open>
  Blocking calls. While a call blocks, other tasks may do anything to the buffer that keeps it a
  buffer; the call still never faults, and it returns once a tick count past its deadline is read.
\<close>

lemma wait_loop_safe:
  assumes "I rb" and "w \<noteq> portMAX_DELAY" and "\<exists>(env, t) \<in> set rs. w < usub e t"
    and env: "\<And>env t s. (env, t) \<in> set rs \<Longrightarrow> I s \<Longrightarrow> I (env s)"
    and tk: "\<And>s s'. I s \<Longrightarrow> tk s = Some s' \<Longrightarrow> I s'"
    and att: "\<And>s. I s \<Longrightarrow> \<exists>s' r. attempt s = Inr (s', r) \<and> (case r of None \<Rightarrow> I s' | Some x \<Rightarrow> Q s' x)"
  shows "\<exists>rb' r. wait_loop tk attempt w e rem rs rb = Inr (rb', r) \<and>
           (case r of None \<Rightarrow> I rb' | Some x \<Rightarrow> Q rb' x)"
  using assms(1,3) env
proof (induction rs arbitrary: rem rb)
  case (Cons a rs)
  obtain env t where a: "a = (env, t)" by (cases a)
  have I: "I (env rb)" using Cons.prems(3) [of env t, OF _ Cons.prems(1)] a by simp
  show ?case
  proof (cases "rem \<le> w")
    case False
    then show ?thesis using Cons.prems(1) by (simp add: wait_loop.simps)
  next
    case True
    show ?thesis
    proof (cases "tk (env rb)")
      case None
      then show ?thesis using True I a by (simp add: wait_loop.simps)
    next
      case (Some s)
      obtain s' r where s': "attempt s = Inr (s', r)" "case r of None \<Rightarrow> I s' | Some x \<Rightarrow> Q s' x"
        using att tk I Some by blast
      show ?thesis
      proof (cases r)
        case None
        then have Is: "I s'" using s'(2) by simp
        have step: "wait_loop tk attempt w e rem (a # rs) rb = wait_loop tk attempt w e (usub e t) rs s'"
          using True Some s'(1) None a assms(2) by (simp add: wait_loop.simps [of _ _ _ _ rem])
        show ?thesis
        proof (cases "w < usub e t")
          case True
          then show ?thesis unfolding step using Is by (simp add: wait_loop.simps)
        next
          case False
          then have dl: "\<exists>(env, t) \<in> set rs. w < usub e t" using Cons.prems(2) a by auto
          show ?thesis
            unfolding step by (rule Cons.IH [OF Is dl]) (use Cons.prems(3) in \<open>meson list.set_intros(2)\<close>)
        qed
      next
        case (Some x)
        then show ?thesis using True \<open>tk (env rb) = Some s\<close> s' a by (simp add: wait_loop.simps)
      qed
    qed
  qed
qed simp

lemma ns_rep_take [simp]:
  "ns_rep (rb\<lparr>xTransSem := b\<rparr>) h q = ns_rep rb h q" "ns_rep (rb\<lparr>xRecvSem := b\<rparr>) h q = ns_rep rb h q"
  by (simp_all add: ns_rep_def it_inv_def item_cfg_def)

lemma ns_send_attempt:
  assumes "ns_rep rb h q" and "length item \<le> xMaxItemSize rb"
  shows "\<exists>rb' r. prvSendAttempt item rb = Inr (rb', r) \<and>
    ns_rep rb' h (if r = None then q else q @ [item]) \<and> (r = None \<longrightarrow> rb' = rb)"
proof -
  have nb: "\<not> flag (uxRingbufferFlags rb) rbBYTE_BUFFER_FLAG"
    using assms(1) by (auto simp: ns_rep_def it_inv_def item_cfg_def)
  obtain rb' ok where s: "xRingbufferSendFromISR item rb = Inr (rb', ok)" "ns_rep rb' h (if ok then q @ [item] else q)"
    using ns_send_law [OF assms(1)] by blast
  then obtain rb1 r where a: "prvSendAttempt item rb = Inr (rb1, r)" "prvSendFinish (rb1, r) = (rb', ok)"
    using assms(2) nb by (auto simp: xRingbufferSendFromISR_def bindR_eq_Inr)
  have "rb1 = rb" if "r = None"
    using a(1) that by (auto simp: prvSendAttempt_def bindR_eq_Inr split: if_splits)
  then show ?thesis
    using a s(2) by (auto simp: prvSendFinish_def split: option.splits if_splits)
qed

text \<open>What other tasks may do to a no-split buffer while a call blocks.\<close>

definition ns_rely :: "(Ringbuffer_t \<Rightarrow> Ringbuffer_t) \<Rightarrow> bool" where
  "ns_rely env \<longleftrightarrow>
     (\<forall>rb h q. ns_rep rb h q \<longrightarrow> (\<exists>h' q'. ns_rep (env rb) h' q') \<and> xMaxItemSize (env rb) = xMaxItemSize rb)"

text \<open>
  C7. A blocking send to a no-split buffer with a finite timeout returns once a tick count past its
  deadline is read, whatever other tasks do to the buffer meanwhile. It never faults. When it reports
  success the item is the last of the items that wait; otherwise the buffer is still well formed.
\<close>

theorem blocking_send_returns:
  assumes rep: "ns_rep rb h q" and rely: "\<forall>(env, t) \<in> set rs. ns_rely env"
    and w: "w \<noteq> portMAX_DELAY" and deadline: "\<exists>(env, t) \<in> set rs. w < usub ((now + w) mod 2 ^ 32) t"
  shows "\<exists>rb' ok h' q'. xRingbufferSend item now w rs rb = Inr (rb', ok) \<and>
    ns_rep rb' h' (if ok then q' @ [item] else q')"
proof -
  have nb: "\<not> flag (uxRingbufferFlags rb) rbBYTE_BUFFER_FLAG"
    using rep by (auto simp: ns_rep_def it_inv_def item_cfg_def)
  show ?thesis
  proof (cases "length item \<le> xMaxItemSize rb")
    case False
    then have "xRingbufferSend item now w rs rb = Inr (rb, False)" by (simp add: xRingbufferSend_def)
    then show ?thesis using rep by (intro exI [of _ rb] exI [of _ False] exI [of _ h] exI [of _ q]) simp
  next
    case True
    let ?I = "\<lambda>s. (\<exists>h q. ns_rep s h q) \<and> length item \<le> xMaxItemSize s"
    let ?Q = "\<lambda>s x. \<exists>h q. ns_rep s h (q @ [item])"
    have "\<exists>rb' r. wait_loop takeTransSem (prvSendAttempt item) w ((now + w) mod 2 ^ 32) w rs rb = Inr (rb', r) \<and>
        (case r of None \<Rightarrow> ?I rb' | Some x \<Rightarrow> ?Q rb' x)"
    proof (rule wait_loop_safe [OF _ w deadline])
      show "?I rb" using rep True by blast
      show "?I (env s)" if "(env, t) \<in> set rs" "?I s" for env t s
        using rely that by (force simp: ns_rely_def)
      show "?I s'" if "?I s" "takeTransSem s = Some s'" for s s'
      proof -
        have "s' = s\<lparr>xTransSem := False\<rparr>" using that(2) by (simp add: takeTransSem_def split: if_splits)
        then show ?thesis using that(1) by simp
      qed
      show "\<exists>s' r. prvSendAttempt item s = Inr (s', r) \<and> (case r of None \<Rightarrow> ?I s' | Some x \<Rightarrow> ?Q s' x)"
        if Is: "?I s" for s
      proof -
        obtain h q where "ns_rep s h q" "length item \<le> xMaxItemSize s" using Is by blast
        from ns_send_attempt [OF this] obtain s' r where "prvSendAttempt item s = Inr (s', r)"
          "ns_rep s' h (if r = None then q else q @ [item])" "r = None \<longrightarrow> s' = s" by blast
        then show ?thesis using Is by (intro exI [of _ s'] exI [of _ r]) (cases r; auto)
      qed
    qed
    then obtain rb1 r where l: "wait_loop takeTransSem (prvSendAttempt item) w ((now + w) mod 2 ^ 32) w rs rb
        = Inr (rb1, r)" "case r of None \<Rightarrow> ?I rb1 | Some x \<Rightarrow> ?Q rb1 x" by blast
    show ?thesis
    proof (cases r)
      case None
      then obtain h' q' where "ns_rep rb1 h' q'" using l(2) by auto
      then show ?thesis using l(1) None True nb
        by (intro exI [of _ rb1] exI [of _ False] exI [of _ h'] exI [of _ q'])
          (simp add: xRingbufferSend_def prvSendFinish_def)
    next
      case (Some b)
      then obtain h' q' where "ns_rep rb1 h' (q' @ [item])" using l(2) by auto
      then show ?thesis using l(1) Some True nb
        by (intro exI [of _ "giveRecvSem (if b then giveTransSem rb1 else rb1)"] exI [of _ True]
            exI [of _ h'] exI [of _ q'])
          (simp add: xRingbufferSend_def prvSendFinish_def)
    qed
  qed
qed

theorem blocking_send_returns_witness:
  "\<exists>rb' ok h' q'.
    xRingbufferSend [1, 2] 10 5 [(id, 12), (giveTransSem, 20)]
      (prvInitializeNewRingbuffer 32 RINGBUF_TYPE_NOSPLIT (replicate 32 0)) = Inr (rb', ok) \<and>
    ns_rep rb' h' (if ok then q' @ [[1, 2]] else q')"
proof (rule blocking_send_returns)
  show "ns_rep (prvInitializeNewRingbuffer 32 RINGBUF_TYPE_NOSPLIT (replicate 32 0)) [] []"
    unfolding ns_rep_def using it_inv_init(1) [of 32 "replicate 32 0"]
    by (intro exI [of _ "[]"]) (simp add: prvInitializeNewRingbuffer_def)
  show "\<forall>(env, t) \<in> set [(id, 12), (giveTransSem, 20)]. ns_rely env"
  proof -
    have "ns_rely id" unfolding ns_rely_def by auto
    moreover have "ns_rely giveTransSem"
      unfolding ns_rely_def ns_rep_sem by (auto simp: giveTransSem_def)
    ultimately show ?thesis by simp
  qed
qed (simp_all add: portMAX_DELAY_def usub_def)

end
