(* ===== verification/Split_Argv.thy ===== *)
theory Split_Argv
  imports Idf_Base
begin

text \<open>
  The console's command line splitter, \<^verbatim>\<open>components/console/split_argv.c\<close>. It splits a line in place:
  the arguments are written over the line, each with its terminating zero, and \<^verbatim>\<open>argv\<close> gets their
  offsets. The line is a byte memory and \<^verbatim>\<open>argv\<close> an array of pointers, \<open>None\<close> for \<^verbatim>\<open>NULL\<close>; reading or
  writing outside either of them is a fault.
\<close>

section \<open>Model\<close>

datatype split_state_t = SS_SPACE | SS_ARG | SS_QUOTED_ARG | SS_ARG_ESCAPED | SS_QUOTED_ARG_ESCAPED

definition QUOTE :: byte where "QUOTE = 34"
definition ESCAPE :: byte where "ESCAPE = 92"
definition SPACE :: byte where "SPACE = 32"

record split_t =
  sp_line :: mem
  sp_argv :: "nat option list"
  sp_argc :: nat
  sp_state :: split_state_t
  sp_next_arg_start :: nat
  sp_out_ptr :: nat

text \<open>\<^verbatim>\<open>argv[argc++] = next_arg_start\<close>\<close>

definition push_arg :: "split_t \<Rightarrow> split_t res" where
  "push_arg st =
     (if sp_argc st < length (sp_argv st)
      then Inr (st\<lparr>sp_argv := (sp_argv st)[sp_argc st := Some (sp_next_arg_start st)],
                   sp_argc := sp_argc st + 1\<rparr>)
      else Inl Out_of_bounds)"

definition END_ARG :: "split_t \<Rightarrow> (split_t \<times> byte option) res" where
  "END_ARG st = bindR (push_arg st) (\<lambda>st. Inr (st\<lparr>sp_state := SS_SPACE\<rparr>, Some 0))"

text \<open>The switch over the state: the new state and the character to output, if any.\<close>

definition split_switch :: "byte \<Rightarrow> split_t \<Rightarrow> (split_t \<times> byte option) res" where
  "split_switch char_in st =
     (case sp_state st of
        SS_SPACE \<Rightarrow>
          if char_in = SPACE then Inr (st, None)
          else if char_in = QUOTE
          then Inr (st\<lparr>sp_next_arg_start := sp_out_ptr st, sp_state := SS_QUOTED_ARG\<rparr>, None)
          else if char_in = ESCAPE
          then Inr (st\<lparr>sp_next_arg_start := sp_out_ptr st, sp_state := SS_ARG_ESCAPED\<rparr>, None)
          else Inr (st\<lparr>sp_next_arg_start := sp_out_ptr st, sp_state := SS_ARG\<rparr>, Some char_in)
      | SS_QUOTED_ARG \<Rightarrow>
          if char_in = QUOTE then END_ARG st
          else if char_in = ESCAPE then Inr (st\<lparr>sp_state := SS_QUOTED_ARG_ESCAPED\<rparr>, None)
          else Inr (st, Some char_in)
      | SS_ARG_ESCAPED \<Rightarrow>
          Inr (st\<lparr>sp_state := SS_ARG\<rparr>,
               if char_in = ESCAPE \<or> char_in = QUOTE \<or> char_in = SPACE then Some char_in else None)
      | SS_QUOTED_ARG_ESCAPED \<Rightarrow>
          Inr (st\<lparr>sp_state := SS_QUOTED_ARG\<rparr>,
               if char_in = ESCAPE \<or> char_in = QUOTE \<or> char_in = SPACE then Some char_in else None)
      | SS_ARG \<Rightarrow>
          if char_in = SPACE then END_ARG st
          else if char_in = ESCAPE then Inr (st\<lparr>sp_state := SS_ARG_ESCAPED\<rparr>, None)
          else Inr (st, Some char_in))"

definition put_out :: "byte \<Rightarrow> split_t \<Rightarrow> split_t res" where
  "put_out c st =
     (if sp_out_ptr st < length (sp_line st)
      then Inr (st\<lparr>sp_line := (sp_line st)[sp_out_ptr st := c]\<rparr>) else Inl Out_of_bounds)"

definition split_char :: "byte \<Rightarrow> split_t \<Rightarrow> split_t res" where
  "split_char char_in st =
     bindR (split_switch char_in st)
       (\<lambda>(st, char_out). case char_out of
          None \<Rightarrow> Inr st
        | Some c \<Rightarrow> bindR (put_out c st) (\<lambda>st. Inr (st\<lparr>sp_out_ptr := sp_out_ptr st + 1\<rparr>)))"

text \<open>The loop; the first argument is the number of bytes of the buffer from \<^verbatim>\<open>in_ptr\<close> on.\<close>

fun split_loop :: "nat \<Rightarrow> nat \<Rightarrow> nat \<Rightarrow> split_t \<Rightarrow> split_t res" where
  "split_loop left argv_size in_ptr st =
     (if sp_argc st < usub argv_size 1
      then case left of
             0 \<Rightarrow> Inl Out_of_bounds
           | Suc left \<Rightarrow>
               if sp_line st ! in_ptr = 0 then Inr st
               else bindR (split_char (sp_line st ! in_ptr) st) (split_loop left argv_size (in_ptr + 1))
      else Inr st)"

declare split_loop.simps [simp del]

definition esp_console_split_argv ::
    "mem \<Rightarrow> nat option list \<Rightarrow> nat \<Rightarrow> (nat \<times> mem \<times> nat option list) res" where
  "esp_console_split_argv line argv argv_size =
     bindR (split_loop (length line) argv_size 0
              \<lparr>sp_line = line, sp_argv = argv, sp_argc = 0, sp_state = SS_SPACE,
               sp_next_arg_start = 0, sp_out_ptr = 0\<rparr>)
       (\<lambda>st. bindR (put_out 0 st)
         (\<lambda>st. bindR (if sp_state st \<noteq> SS_SPACE \<and> sp_argc st < usub argv_size 1
                      then push_arg st else Inr st)
           (\<lambda>st. if sp_argc st < length (sp_argv st)
                 then Inr (sp_argc st, sp_line st, (sp_argv st)[sp_argc st := None])
                 else Inl Out_of_bounds)))"

section \<open>Specification\<close>

text \<open>The string that starts at an offset.\<close>

definition c_str :: "mem \<Rightarrow> nat \<Rightarrow> byte list" where
  "c_str m p = takeWhile (\<lambda>c. c \<noteq> 0) (drop p m)"

text \<open>
  The arguments of a line, without memory: \<open>tokens s cur cs\<close> reads \<open>cs\<close> in state \<open>s\<close>, with the current
  argument \<open>cur\<close> read so far.
\<close>

fun tokens :: "split_state_t \<Rightarrow> byte list \<Rightarrow> byte list \<Rightarrow> byte list list" where
  "tokens SS_SPACE cur [] = []"
| "tokens s cur [] = [cur]"
| "tokens SS_SPACE cur (c # cs) =
     (if c = SPACE then tokens SS_SPACE [] cs
      else if c = QUOTE then tokens SS_QUOTED_ARG [] cs
      else if c = ESCAPE then tokens SS_ARG_ESCAPED [] cs
      else tokens SS_ARG [c] cs)"
| "tokens SS_QUOTED_ARG cur (c # cs) =
     (if c = QUOTE then cur # tokens SS_SPACE [] cs
      else if c = ESCAPE then tokens SS_QUOTED_ARG_ESCAPED cur cs
      else tokens SS_QUOTED_ARG (cur @ [c]) cs)"
| "tokens SS_ARG cur (c # cs) =
     (if c = SPACE then cur # tokens SS_SPACE [] cs
      else if c = ESCAPE then tokens SS_ARG_ESCAPED cur cs
      else tokens SS_ARG (cur @ [c]) cs)"
| "tokens SS_ARG_ESCAPED cur (c # cs) =
     tokens SS_ARG (if c \<in> {ESCAPE, QUOTE, SPACE} then cur @ [c] else cur) cs"
| "tokens SS_QUOTED_ARG_ESCAPED cur (c # cs) =
     tokens SS_QUOTED_ARG (if c \<in> {ESCAPE, QUOTE, SPACE} then cur @ [c] else cur) cs"

definition split_args :: "byte list \<Rightarrow> byte list list" where
  "split_args cs = tokens SS_SPACE [] cs"

section \<open>The line while it is split\<close>

text \<open>The memory of the finished arguments and the offsets where they start.\<close>

definition packed :: "byte list list \<Rightarrow> byte list" where
  "packed args = concat (map (\<lambda>a. a @ [0]) args)"

definition offsets :: "byte list list \<Rightarrow> nat list" where
  "offsets args = map (\<lambda>i. length (packed (take i args))) [0..<length args]"

lemma packed_snoc [simp]: "packed (args @ [a]) = packed args @ a @ [0]"
  by (simp add: packed_def)

lemma packed_Nil [simp]: "packed [] = []"
  by (simp add: packed_def)

lemma offsets_snoc [simp]: "offsets (args @ [a]) = offsets args @ [length (packed args)]"
  by (simp add: offsets_def)

lemma offsets_Nil [simp]: "offsets [] = []"
  by (simp add: offsets_def)

lemma length_offsets [simp]: "length (offsets args) = length args"
  by (simp add: offsets_def)

definition zero_free :: "byte list \<Rightarrow> bool" where
  "zero_free cs \<longleftrightarrow> (0 :: byte) \<notin> set cs"

lemma zero_free_simps [simp]:
  "zero_free []" "zero_free (a @ b) \<longleftrightarrow> zero_free a \<and> zero_free b"
  "zero_free (c # b) \<longleftrightarrow> c \<noteq> 0 \<and> zero_free b"
  by (auto simp: zero_free_def)

text \<open>
  The invariant at input offset \<open>i\<close>: the finished arguments \<open>args\<close> and the current one \<open>cur\<close> fill the
  line up to the output pointer, which is not past the input pointer; the input from \<open>i\<close> on is intact.
\<close>

definition sp_inv :: "mem \<Rightarrow> nat option list \<Rightarrow> nat \<Rightarrow> byte list list \<Rightarrow> byte list \<Rightarrow> split_t \<Rightarrow> bool" where
  "sp_inv m0 argv0 i args cur st \<longleftrightarrow>
     length (sp_line st) = length m0 \<and> i < length m0 \<and>
     sp_out_ptr st = length (packed args @ cur) \<and> sp_out_ptr st \<le> i \<and>
     take (sp_out_ptr st) (sp_line st) = packed args @ cur \<and>
     drop i (sp_line st) = drop i m0 \<and>
     sp_argc st = length args \<and> length args < length argv0 \<and>
     sp_argv st = map Some (offsets args) @ drop (length args) argv0 \<and>
     (if sp_state st = SS_SPACE then cur = [] else sp_next_arg_start st = length (packed args)) \<and>
     (\<forall>a \<in> set (cur # args). zero_free a)"

lemma take_put:
  assumes "p < length m"
  shows "take (Suc p) (m[p := c]) = take p m @ [c]"
  using assms by (simp add: take_Suc_conv_app_nth)

lemma argv_put:
  assumes "length xs < length argv0"
  shows "(map Some (offsets xs) @ drop (length xs) argv0)[length xs := v] =
         map Some (offsets xs) @ v # drop (Suc (length xs)) argv0"
  using assms by (simp add: list_update_append Cons_nth_drop_Suc [symmetric])

lemma drop_Suc_cong: "drop i a = drop i b \<Longrightarrow> drop (Suc i) a = drop (Suc i) b"
  by (simp add: drop_Suc drop_tl)

text \<open>Reading a character without output, writing a character, and ending the argument with a zero.\<close>

lemma sp_inv_skip:
  assumes "sp_inv m0 argv0 i args cur st" "Suc i < length m0"
    "if s = SS_SPACE then cur = [] else n = length (packed args)"
  shows "sp_inv m0 argv0 (Suc i) args cur (st\<lparr>sp_next_arg_start := n, sp_state := s\<rparr>)"
  using assms unfolding sp_inv_def by (auto intro: drop_Suc_cong split: if_splits)

lemma sp_inv_put:
  assumes "sp_inv m0 argv0 i args cur st" "Suc i < length m0" "c \<noteq> 0" "s \<noteq> SS_SPACE"
  shows "sp_inv m0 argv0 (Suc i) args (cur @ [c])
    (st\<lparr>sp_next_arg_start := length (packed args), sp_state := s,
        sp_line := (sp_line st)[sp_out_ptr st := c], sp_out_ptr := Suc (sp_out_ptr st)\<rparr>)"
  using assms unfolding sp_inv_def by (auto simp: take_put intro: drop_Suc_cong)

lemma sp_inv_end:
  assumes "sp_inv m0 argv0 i args cur st" "Suc i < length m0" "sp_state st \<noteq> SS_SPACE"
    "Suc (length args) < length argv0"
  shows "sp_inv m0 argv0 (Suc i) (args @ [cur]) []
    (st\<lparr>sp_argv := (sp_argv st)[sp_argc st := Some (sp_next_arg_start st)], sp_argc := Suc (sp_argc st),
        sp_state := SS_SPACE,
        sp_line := (sp_line st)[sp_out_ptr st := 0], sp_out_ptr := Suc (sp_out_ptr st)\<rparr>)"
  using assms unfolding sp_inv_def by (auto simp: take_put argv_put intro: drop_Suc_cong)

lemma sp_inv_same:
  "sp_inv m0 argv0 i args cur st \<Longrightarrow> sp_state st = SS_SPACE \<Longrightarrow> cur = []"
  "sp_inv m0 argv0 i args cur st \<Longrightarrow> sp_state st \<noteq> SS_SPACE \<Longrightarrow> sp_next_arg_start st = length (packed args)"
  by (auto simp: sp_inv_def)

text \<open>
  What a character does in a state: no output, its output, or the end of the argument. Both the loop
  body and \<^term>\<open>tokens\<close> follow it.
\<close>

datatype split_effect = Skip split_state_t | Put split_state_t | End_Arg

definition effect :: "split_state_t \<Rightarrow> byte \<Rightarrow> split_effect" where
  "effect s c =
     (case s of
        SS_SPACE \<Rightarrow> if c = SPACE then Skip SS_SPACE else if c = QUOTE then Skip SS_QUOTED_ARG
                    else if c = ESCAPE then Skip SS_ARG_ESCAPED else Put SS_ARG
      | SS_QUOTED_ARG \<Rightarrow> if c = QUOTE then End_Arg else if c = ESCAPE then Skip SS_QUOTED_ARG_ESCAPED
                         else Put SS_QUOTED_ARG
      | SS_ARG_ESCAPED \<Rightarrow> if c \<in> {ESCAPE, QUOTE, SPACE} then Put SS_ARG else Skip SS_ARG
      | SS_QUOTED_ARG_ESCAPED \<Rightarrow> if c \<in> {ESCAPE, QUOTE, SPACE} then Put SS_QUOTED_ARG else Skip SS_QUOTED_ARG
      | SS_ARG \<Rightarrow> if c = SPACE then End_Arg else if c = ESCAPE then Skip SS_ARG_ESCAPED else Put SS_ARG)"

lemma effect_state:
  "effect s c = Skip s' \<Longrightarrow> s' = SS_SPACE \<Longrightarrow> s = SS_SPACE"
  "effect s c = Put s' \<Longrightarrow> s' \<noteq> SS_SPACE"
  "effect s c = End_Arg \<Longrightarrow> s \<noteq> SS_SPACE"
  by (auto simp: effect_def split: split_state_t.splits if_splits)

lemma tokens_effect:
  assumes "s = SS_SPACE \<longrightarrow> cur = []"
  shows "tokens s cur (c # cs) = (case effect s c of Skip s' \<Rightarrow> tokens s' cur cs
    | Put s' \<Rightarrow> tokens s' (cur @ [c]) cs | End_Arg \<Rightarrow> cur # tokens SS_SPACE [] cs)"
  using assms by (cases s) (auto simp: effect_def)

lemma split_char_effect:
  assumes "sp_out_ptr st < length (sp_line st)" "sp_argc st < length (sp_argv st)"
    "n = (if sp_state st = SS_SPACE then sp_out_ptr st else sp_next_arg_start st)"
  shows "split_char c st = (case effect (sp_state st) c of
      Skip s \<Rightarrow> Inr (st\<lparr>sp_next_arg_start := if s = SS_SPACE then sp_next_arg_start st else n, sp_state := s\<rparr>)
    | Put s \<Rightarrow> Inr (st\<lparr>sp_next_arg_start := n, sp_state := s,
                 sp_line := (sp_line st)[sp_out_ptr st := c], sp_out_ptr := Suc (sp_out_ptr st)\<rparr>)
    | End_Arg \<Rightarrow> Inr (st\<lparr>sp_argv := (sp_argv st)[sp_argc st := Some (sp_next_arg_start st)],
                 sp_argc := Suc (sp_argc st), sp_state := SS_SPACE,
                 sp_line := (sp_line st)[sp_out_ptr st := 0], sp_out_ptr := Suc (sp_out_ptr st)\<rparr>))"
  using assms
  by (cases "sp_state st")
    (auto simp: effect_def split_char_def split_switch_def END_ARG_def push_arg_def put_out_def bindR_def)

lemma split_char_tokens:
  assumes inv: "sp_inv m0 argv0 i args cur st" and i: "Suc i < length m0" and c: "c \<noteq> 0"
    and n: "Suc (length args) < length argv0"
  obtains st' args' cur' where "split_char c st = Inr st'" "sp_inv m0 argv0 (Suc i) args' cur' st'"
    "args @ tokens (sp_state st) cur (c # cs) = args' @ tokens (sp_state st') cur' cs"
proof -
  let ?n = "length (packed args)"
  have out: "sp_out_ptr st < length (sp_line st)" "sp_argc st < length (sp_argv st)"
    and nx: "?n = (if sp_state st = SS_SPACE then sp_out_ptr st else sp_next_arg_start st)"
    and cur: "sp_state st = SS_SPACE \<longrightarrow> cur = []"
    using inv n by (auto simp: sp_inv_def split: if_splits)
  note tok = tokens_effect [OF cur, of c cs] and chr = split_char_effect [OF out nx, of c]
  show thesis
  proof (cases "effect (sp_state st) c")
    case (Skip s)
    with cur effect_state(1) [OF Skip] show ?thesis
      by (intro that [OF _ sp_inv_skip [OF inv i]]) (auto simp: chr tok)
  next
    case (Put s)
    with effect_state(2) [OF Put] show ?thesis
      by (intro that [OF _ sp_inv_put [OF inv i c]]) (auto simp: chr tok)
  next
    case End_Arg
    with effect_state(3) [OF End_Arg] show ?thesis
      by (intro that [OF _ sp_inv_end [OF inv i _ n]]) (auto simp: chr tok)
  qed
qed

section \<open>Properties\<close>

text \<open>The loop reads the line to its end or until \<^verbatim>\<open>argv\<close> is full but for its last entry.\<close>

lemma split_loop_tokens:
  assumes "sp_inv (cs0 @ 0 # r) argv0 i args cur st" "zero_free cs" "drop i cs0 = cs" "i \<le> length cs0"
    "length argv0 < 2 ^ 32"
  shows "\<exists>j \<le> length cs0. \<exists>st' args' cur'. split_loop (Suc (length cs + length r)) (length argv0) i st = Inr st' \<and>
    sp_inv (cs0 @ 0 # r) argv0 j args' cur' st' \<and>
    take (length argv0 - 1) (args @ tokens (sp_state st) cur cs) =
      (if sp_state st' \<noteq> SS_SPACE \<and> length args' < length argv0 - 1 then args' @ [cur'] else args')"
  using assms
proof (induction cs arbitrary: i args cur st)
  case Nil
  then have "i = length cs0" by simp
  with Nil have "sp_line st ! i = 0"
    by (metis (no_types, lifting) append_eq_conv_conj hd_drop_conv_nth list.sel(1) sp_inv_def)
  moreover have "tokens (sp_state st) cur [] = (if sp_state st = SS_SPACE then [] else [cur])"
    by (cases "sp_state st") auto
  moreover have "length args < length argv0" "sp_argc st = length args"
    using Nil.prems(1) by (simp_all add: sp_inv_def)
  moreover have "split_loop (Suc (length ([] :: byte list) + length r)) (length argv0) i st = Inr st"
    by (subst split_loop.simps) (simp add: calculation(1))
  ultimately show ?case using Nil.prems(1,4)
    by (intro exI [of _ i] conjI exI [of _ st] exI [of _ args] exI [of _ cur]) (simp_all, arith)
next
  case (Cons c cs)
  show ?case
  proof (cases "Suc (length args) < length argv0")
    case False
    moreover have "length args < length argv0" "sp_argc st = length args"
      using Cons.prems(1) by (simp_all add: sp_inv_def)
    moreover from this have "usub (length argv0) 1 = length argv0 - 1"
      using Cons.prems(5) by (intro usub_le) simp_all
    ultimately have "\<not> sp_argc st < usub (length argv0) 1" by linarith
    then have "split_loop (Suc (length (c # cs) + length r)) (length argv0) i st = Inr st"
      by (subst split_loop.simps) simp
    with \<open>length args < length argv0\<close> False Cons.prems(1,4) show ?thesis
      by (intro exI [of _ i] conjI exI [of _ st] exI [of _ args] exI [of _ cur]) (simp_all, arith)
  next
    case True
    from Cons.prems(3) have i: "i < length cs0" "cs0 ! i = c" "drop (Suc i) cs0 = cs"
      by (metis drop_all linorder_not_less list.distinct(1), simp_all add: drop_Suc drop_tl flip: hd_drop_conv_nth)
        (metis drop_all linorder_not_less list.distinct(1) nth_via_drop)
    then have c: "sp_line st ! i = c" "c \<noteq> 0"
      using Cons.prems(1,2) unfolding sp_inv_def
      by (auto simp: nth_append dest: arg_cong [where f = hd] simp flip: hd_drop_conv_nth)
    from i(1) have "Suc i < length (cs0 @ 0 # r)" by simp
    then obtain st' args' cur' where st': "split_char c st = Inr st'"
        "sp_inv (cs0 @ 0 # r) argv0 (Suc i) args' cur' st'"
        "args @ tokens (sp_state st) cur (c # cs) = args' @ tokens (sp_state st') cur' cs"
      by (rule split_char_tokens [OF Cons.prems(1) _ c(2) True, of cs])
    have "split_loop (Suc (length (c # cs) + length r)) (length argv0) i st =
          split_loop (Suc (length cs + length r)) (length argv0) (Suc i) st'"
      using True c st'(1) Cons.prems(1,5) by (subst split_loop.simps) (auto simp: sp_inv_def bindR_def)
    with Cons.IH [OF st'(2) _ i(3) _ Cons.prems(5)] Cons.prems(2) i(1) show ?thesis
      by (simp only: st'(3) zero_free_simps Suc_leI)
  qed
qed

text \<open>The string at each recorded offset is its argument.\<close>

lemma c_str_offset:
  assumes "i < length args" "\<forall>a \<in> set args. zero_free a"
  shows "c_str (packed args @ r) (offsets args ! i) = args ! i"
proof -
  have "packed args = packed (take i args) @ (args ! i) @ 0 # packed (drop (Suc i) args)"
    using assms(1) by (subst id_take_nth_drop [of i args]) (simp_all add: packed_def)
  moreover have "zero_free (args ! i)" using assms by simp
  ultimately show ?thesis
    using assms(1) by (simp add: c_str_def offsets_def takeWhile_append zero_free_def)
qed

text \<open>
  The result as the caller reads it: the strings that the first \<^verbatim>\<open>argc\<close> pointers point to.
\<close>

definition argv_strings :: "nat \<times> mem \<times> nat option list \<Rightarrow> byte list option list" where
  "argv_strings res = (case res of (argc, line, argv) \<Rightarrow> map (map_option (c_str line)) (take argc argv))"

lemma argv_strings_packed:
  assumes "\<forall>a \<in> set args. zero_free a" "take (length args) argv = map Some (offsets args)"
    "m = packed args @ r"
  shows "argv_strings (length args, m, argv) = map Some args"
  using assms by (auto simp: argv_strings_def c_str_offset intro!: nth_equalityI)

lemma sp_inv_start:
  assumes "argv \<noteq> []"
  shows "sp_inv (cs @ 0 # r) argv 0 [] []
    \<lparr>sp_line = cs @ 0 # r, sp_argv = argv, sp_argc = 0, sp_state = SS_SPACE,
     sp_next_arg_start = 0, sp_out_ptr = 0\<rparr>"
  using assms by (simp add: sp_inv_def)

text \<open>The end of the function: the last argument is terminated and recorded.\<close>

lemma split_finish:
  assumes inv: "sp_inv (cs @ 0 # r) argv0 j args cur st" and j: "j \<le> length cs" and n: "length argv0 < 2 ^ 32"
    and out: "out = (if sp_state st \<noteq> SS_SPACE \<and> length args < length argv0 - 1 then args @ [cur] else args)"
  shows "\<exists>line argv. bindR (put_out 0 st)
         (\<lambda>st. bindR (if sp_state st \<noteq> SS_SPACE \<and> sp_argc st < usub (length argv0) 1
                      then push_arg st else Inr st)
           (\<lambda>st. if sp_argc st < length (sp_argv st)
                 then Inr (sp_argc st, sp_line st, (sp_argv st)[sp_argc st := None])
                 else Inl Out_of_bounds)) = Inr (length out, line, argv) \<and>
      argv_strings (length out, line, argv) = map Some out \<and> length out < length argv0 \<and>
      argv = map Some (offsets out) @ None # drop (Suc (length out)) argv0 \<and>
      length line = length (cs @ 0 # r) \<and> drop (Suc (length cs)) line = r"
proof -
  let ?line = "(sp_line st)[sp_out_ptr st := 0]"
  let ?argv = "map Some (offsets out) @ None # drop (Suc (length out)) argv0"
  have o: "sp_out_ptr st < length (sp_line st)" "length out < length argv0" "sp_out_ptr st \<le> length cs"
    using inv j out by (auto simp: sp_inv_def)
  have "drop (length cs) (sp_line st) = drop (length cs) (cs @ 0 # r)"
    using inv j unfolding sp_inv_def by (metis drop_drop le_add_diff_inverse2)
  from drop_Suc_cong [OF this] have r: "drop (Suc (length cs)) ?line = r" using o(3) by simp
  have "?line = (packed args @ cur @ [0]) @ drop (Suc (sp_out_ptr st)) (sp_line st)"
    using inv o(1) by (auto simp: sp_inv_def upd_conv_take_nth_drop)
  then have "\<exists>q. ?line = packed out @ q" unfolding out by simp
  then obtain q where "?line = packed out @ q" ..
  moreover have "\<forall>a \<in> set out. zero_free a" using inv out by (auto simp: sp_inv_def)
  ultimately have "argv_strings (length out, ?line, ?argv) = map Some out"
    by (intro argv_strings_packed) simp_all
  moreover have "length ?line = length (cs @ 0 # r)" using inv by (simp add: sp_inv_def)
  moreover
  have st: "sp_argc st = length args" "sp_argv st = map Some (offsets args) @ drop (length args) argv0"
    "length args < length argv0" "sp_state st \<noteq> SS_SPACE \<Longrightarrow> sp_next_arg_start st = length (packed args)"
    using inv by (simp_all add: sp_inv_def)
  have "x < usub (length argv0) (Suc 0) \<longleftrightarrow> Suc x < length argv0" for x
    using st(3) n by (subst usub_le) auto
  note fin = st o(1) this put_out_def push_arg_def argv_put less_diff_conv
  have "bindR (put_out 0 st)
         (\<lambda>st. bindR (if sp_state st \<noteq> SS_SPACE \<and> sp_argc st < usub (length argv0) 1
                      then push_arg st else Inr st)
           (\<lambda>st. if sp_argc st < length (sp_argv st)
                 then Inr (sp_argc st, sp_line st, (sp_argv st)[sp_argc st := None])
                 else Inl Out_of_bounds)) = Inr (length out, ?line, ?argv)"
    using argv_put [of "args @ [cur]" argv0 None]
    by (cases "sp_state st \<noteq> SS_SPACE \<and> Suc (length args) < length argv0") (auto simp: fin out)
  ultimately show ?thesis using o(2) r by blast
qed

lemma split_argv_finds:
  assumes "zero_free cs" "argv \<noteq> []" "length argv < 2 ^ 32"
  defines "out \<equiv> take (length argv - 1) (split_args cs)"
  shows "\<exists>line' argv'. esp_console_split_argv (cs @ 0 # r) argv (length argv) = Inr (length out, line', argv') \<and>
    argv_strings (length out, line', argv') = map Some out \<and>
    argv' ! length out = None \<and> drop (Suc (length out)) argv' = drop (Suc (length out)) argv \<and>
    length argv' = length argv \<and> drop (Suc (length cs)) line' = r"
proof -
  from split_loop_tokens [OF sp_inv_start [OF assms(2)] assms(1), of cs r] assms(3)
  obtain j st args cur where st: "j \<le> length cs"
      "split_loop (length (cs @ 0 # r)) (length argv) 0
         \<lparr>sp_line = cs @ 0 # r, sp_argv = argv, sp_argc = 0, sp_state = SS_SPACE,
          sp_next_arg_start = 0, sp_out_ptr = 0\<rparr> = Inr st"
      "sp_inv (cs @ 0 # r) argv j args cur st"
      "out = (if sp_state st \<noteq> SS_SPACE \<and> length args < length argv - 1 then args @ [cur] else args)"
    by (auto simp: out_def split_args_def)
  from split_finish [OF st(3,1) assms(3) st(4)] show ?thesis
    unfolding esp_console_split_argv_def st(2) bindR_def
    by (auto simp: nth_append)
qed

text \<open>
  C11. Splitting a line is total and stays inside its buffers: for a line \<open>cs\<close> and an \<^verbatim>\<open>argv\<close> of at least
  one entry the call returns without a fault. The first \<^verbatim>\<open>argc\<close> pointers point to the arguments of the
  reference tokenizer, as many as fit beside the final \<^verbatim>\<open>NULL\<close>; the entry after them is \<^verbatim>\<open>NULL\<close>, the later
  ones and the memory behind the line are as before.
\<close>
theorem split_argv_correct:
  assumes "zero_free cs" "argv \<noteq> []" "length argv < 2 ^ 32"
  defines "out \<equiv> take (length argv - 1) (split_args cs)"
  shows "\<exists>line' argv'. esp_console_split_argv (cs @ 0 # r) argv (length argv) = Inr (length out, line', argv') \<and>
    argv_strings (length out, line', argv') = map Some out \<and>
    argv' ! length out = None \<and> drop (Suc (length out)) argv' = drop (Suc (length out)) argv \<and>
    length argv' = length argv \<and> drop (Suc (length cs)) line' = r"
  using split_argv_finds [OF assms(1-3)] unfolding out_def by simp

theorem split_argv_correct_witness:
  "zero_free [97, 32, 34, 98, 32, 99, 34] \<and> split_args [97, 32, 34, 98, 32, 99, 34] = [[97], [98, 32, 99]] \<and>
   (\<exists>line argv. esp_console_split_argv ([97, 32, 34, 98, 32, 99, 34] @ 0 # [7]) [None, None, None, None] 4 =
      Inr (2, line, argv) \<and> argv_strings (2, line, argv) = [Some [97], Some [98, 32, 99]] \<and> argv ! 2 = None \<and>
      drop 8 line = [7])"
  using split_argv_correct [of "[97, 32, 34, 98, 32, 99, 34]" "[None, None, None, None]" "[7]"]
  by (simp add: split_args_def SPACE_def QUOTE_def ESCAPE_def) (auto simp: eval_nat_numeral)

text \<open>A command line that carries given arguments: each is quoted, with its quotes and backslashes escaped.\<close>

definition quote_arg :: "byte list \<Rightarrow> byte list" where
  "quote_arg a = QUOTE # concat (map (\<lambda>c. if c = QUOTE \<or> c = ESCAPE then [ESCAPE, c] else [c]) a) @ [QUOTE]"

definition command_line :: "byte list list \<Rightarrow> byte list" where
  "command_line args = concat (map (\<lambda>a. quote_arg a @ [SPACE]) args)"

lemma tokens_quoted:
  "tokens SS_QUOTED_ARG cur (concat (map (\<lambda>c. if c = QUOTE \<or> c = ESCAPE then [ESCAPE, c] else [c]) a) @ QUOTE # cs) =
   (cur @ a) # tokens SS_SPACE [] cs"
  by (induction a arbitrary: cur) (auto simp: QUOTE_def ESCAPE_def)

lemma split_args_command_line: "split_args (command_line args) = args"
  unfolding split_args_def command_line_def
  by (induction args) (simp_all add: quote_arg_def tokens_quoted SPACE_def [symmetric], simp_all add: SPACE_def QUOTE_def)

lemma zero_free_command_line: "\<forall>a \<in> set args. zero_free a \<Longrightarrow> zero_free (command_line args)"
  by (auto simp: zero_free_def command_line_def quote_arg_def QUOTE_def ESCAPE_def SPACE_def split: if_splits)

text \<open>
  C12. Every list of arguments can be passed on a command line: printing the arguments with quotes and
  splitting the line gives them back, for any bytes but zero, empty arguments included.
\<close>
theorem split_argv_roundtrip:
  assumes "\<forall>a \<in> set args. zero_free a" "length args < length argv" "length argv < 2 ^ 32"
  shows "\<exists>line' argv'. esp_console_split_argv (command_line args @ [0]) argv (length argv) =
      Inr (length args, line', argv') \<and> argv_strings (length args, line', argv') = map Some args"
proof -
  have "take (length argv - 1) (split_args (command_line args)) = args"
    using assms(2) by (simp add: split_args_command_line)
  moreover have "argv \<noteq> []" using assms(2) by auto
  ultimately show ?thesis
    using split_argv_finds [OF zero_free_command_line [OF assms(1)] _ assms(3), of "[]"] by auto
qed

theorem split_argv_roundtrip_witness:
  "command_line [[34, 32], []] = [34, 92, 34, 32, 34, 32, 34, 34, 32] \<and>
   (\<exists>line argv. esp_console_split_argv (command_line [[34, 32], []] @ [0]) [None, None, None] 3 =
      Inr (2, line, argv) \<and> argv_strings (2, line, argv) = [Some [34, 32], Some []])"
  using split_argv_roundtrip [of "[[34, 32], []]" "[None, None, None]"]
  by (simp add: command_line_def quote_arg_def SPACE_def QUOTE_def ESCAPE_def) (auto simp: eval_nat_numeral)

end
