(* ===== verification/Console.thy ===== *)
theory Console
  imports Split_Argv
begin

text \<open>
  The console's command registry and interpreter, \<^verbatim>\<open>components/console/commands.c\<close>. The static variables
  are a record; the singly linked list of commands is a list in list order. Hint texts are allocated
  on the heap, so a hint is an address of a store of strings: freeing or reading an address that
  holds nothing is a fault. Handlers are named by a number and called through a parameter. Whether an
  allocation succeeds is a parameter of each operation; \<^verbatim>\<open>asprintf\<close> is taken to succeed, as the source
  does not look at its result.
\<close>

section \<open>Model\<close>

record cmd_item_t =
  it_command :: "byte list"
  it_help :: "byte list option"
  it_hint :: "nat option"
  it_func :: nat
  it_argtable :: "nat option"

record esp_console_cmd_t =
  cm_command :: "byte list option"
  cm_help :: "byte list option"
  cm_hint :: "byte list option"
  cm_func :: nat
  cm_argtable :: "nat option"

record esp_console_config_t =
  max_cmdline_length :: nat
  max_cmdline_args :: nat
  hint_color :: int
  hint_bold :: int

record console_t =
  s_cmd_list :: "cmd_item_t list"
  s_config :: esp_console_config_t
  s_tmp_line_buf :: "mem option"
  s_heap :: "nat \<Rightarrow> byte list option"
  s_brk :: nat

definition ANSI_COLOR_DEFAULT :: int where "ANSI_COLOR_DEFAULT = 39"

text \<open>The state before \<^verbatim>\<open>main\<close>.\<close>

definition console_boot :: console_t where
  "console_boot = \<lparr>s_cmd_list = [],
     s_config = \<lparr>max_cmdline_length = 0, max_cmdline_args = 0, hint_color = 0, hint_bold = 0\<rparr>,
     s_tmp_line_buf = None, s_heap = Map.empty, s_brk = 0\<rparr>"

definition heap_alloc :: "byte list \<Rightarrow> console_t \<Rightarrow> console_t \<times> nat" where
  "heap_alloc s st = (st\<lparr>s_heap := (s_heap st)(s_brk st \<mapsto> s), s_brk := s_brk st + 1\<rparr>, s_brk st)"

definition heap_free :: "nat option \<Rightarrow> console_t \<Rightarrow> console_t res" where
  "heap_free p st = (case p of
       None \<Rightarrow> Inr st
     | Some a \<Rightarrow> if s_heap st a = None then Inl Bad_pointer
                 else Inr (st\<lparr>s_heap := (s_heap st)(a := None)\<rparr>))"

definition esp_console_init ::
    "bool \<Rightarrow> esp_console_config_t option \<Rightarrow> console_t \<Rightarrow> console_t \<times> esp_err" where
  "esp_console_init mem_ok config st = (case config of
       None \<Rightarrow> (st, ESP_ERR_INVALID_ARG)
     | Some cfg \<Rightarrow>
         if s_tmp_line_buf st \<noteq> None then (st, ESP_ERR_INVALID_STATE)
         else let cfg' = if hint_color cfg = 0 then cfg\<lparr>hint_color := ANSI_COLOR_DEFAULT\<rparr> else cfg;
                  st = st\<lparr>s_config := cfg'\<rparr>
              in if mem_ok
                 then (st\<lparr>s_tmp_line_buf := Some (replicate (max_cmdline_length cfg) 0)\<rparr>, ESP_OK)
                 else (st, ESP_ERR_NO_MEM))"

fun deinit_loop :: "cmd_item_t list \<Rightarrow> console_t \<Rightarrow> console_t res" where
  "deinit_loop [] st = Inr st"
| "deinit_loop (it # its) st =
     bindR (heap_free (it_hint it) (st\<lparr>s_cmd_list := remove1 it (s_cmd_list st)\<rparr>)) (deinit_loop its)"

definition esp_console_deinit :: "console_t \<Rightarrow> (console_t \<times> esp_err) res" where
  "esp_console_deinit st =
     (if s_tmp_line_buf st = None then Inr (st, ESP_ERR_INVALID_STATE)
      else bindR (deinit_loop (s_cmd_list st) (st\<lparr>s_tmp_line_buf := None\<rparr>)) (\<lambda>st. Inr (st, ESP_OK)))"

definition find_command_by_name :: "byte list \<Rightarrow> console_t \<Rightarrow> cmd_item_t option" where
  "find_command_by_name name st =
     find (\<lambda>it. length (it_command it) = length name \<and> name = it_command it) (s_cmd_list st)"

text \<open>
  The hint of a command: a given hint with a space in front, or the text that the argument table
  library prints for the table (a parameter); with neither, the item keeps the hint it has.
\<close>

definition set_hint ::
    "(nat \<Rightarrow> byte list) \<Rightarrow> bool \<Rightarrow> esp_console_cmd_t \<Rightarrow> cmd_item_t \<Rightarrow> console_t \<Rightarrow> console_t \<times> cmd_item_t" where
  "set_hint arg_print_syntax stream_ok cmd item st = (case cm_hint cmd of
       Some h \<Rightarrow> (case heap_alloc (SPACE # h) st of (st, p) \<Rightarrow> (st, item\<lparr>it_hint := Some p\<rparr>))
     | None \<Rightarrow> (case cm_argtable cmd of
         Some t \<Rightarrow> if stream_ok
                   then case heap_alloc (arg_print_syntax t) st of (st, p) \<Rightarrow> (st, item\<lparr>it_hint := Some p\<rparr>)
                   else (st, item\<lparr>it_hint := None\<rparr>)
       | None \<Rightarrow> (st, item)))"

text \<open>The item to fill: a new one, or the registered one taken out of the list with its hint freed.\<close>

definition take_item :: "bool \<Rightarrow> byte list \<Rightarrow> console_t \<Rightarrow> (console_t \<times> cmd_item_t option) res" where
  "take_item mem_ok name st = (case find_command_by_name name st of
       None \<Rightarrow> Inr (st, if mem_ok
                        then Some \<lparr>it_command = [], it_help = None, it_hint = None, it_func = 0, it_argtable = None\<rparr>
                        else None)
     | Some item \<Rightarrow>
         bindR (heap_free (it_hint item) (st\<lparr>s_cmd_list := remove1 item (s_cmd_list st)\<rparr>))
           (\<lambda>st. Inr (st, Some item)))"

definition esp_console_cmd_register ::
    "(nat \<Rightarrow> byte list) \<Rightarrow> bool \<Rightarrow> bool \<Rightarrow> esp_console_cmd_t option \<Rightarrow> console_t \<Rightarrow> (console_t \<times> esp_err) res" where
  "esp_console_cmd_register arg_print_syntax mem_ok stream_ok cmd st = (case cmd of
       None \<Rightarrow> Inr (st, ESP_ERR_INVALID_ARG)
     | Some cmd \<Rightarrow> (case cm_command cmd of
         None \<Rightarrow> Inr (st, ESP_ERR_INVALID_ARG)
       | Some name \<Rightarrow>
           if SPACE \<in> set name then Inr (st, ESP_ERR_INVALID_ARG)
           else bindR (take_item mem_ok name st)
             (\<lambda>(st, item). case item of
                None \<Rightarrow> Inr (st, ESP_ERR_NO_MEM)
              | Some item \<Rightarrow>
                  (case set_hint arg_print_syntax stream_ok cmd
                          (item\<lparr>it_command := name, it_help := cm_help cmd\<rparr>) st of
                     (st, item) \<Rightarrow>
                       Inr (st\<lparr>s_cmd_list := s_cmd_list st @
                              [item\<lparr>it_argtable := cm_argtable cmd, it_func := cm_func cmd\<rparr>]\<rparr>, ESP_OK)))))"

definition esp_console_get_completion :: "byte list \<Rightarrow> console_t \<Rightarrow> byte list list" where
  "esp_console_get_completion buf st =
     (if length buf = 0 then []
      else map it_command (filter (\<lambda>it. take (length buf) (it_command it) = buf) (s_cmd_list st)))"

definition esp_console_get_hint :: "byte list \<Rightarrow> console_t \<Rightarrow> (nat option \<times> int \<times> int) option" where
  "esp_console_get_hint buf st =
     (case find (\<lambda>it. length (it_command it) = length buf \<and> take (length buf) (it_command it) = buf) (s_cmd_list st) of
        Some it \<Rightarrow> Some (it_hint it, hint_color (s_config st), hint_bold (s_config st))
      | None \<Rightarrow> None)"

text \<open>\<^verbatim>\<open>strlcpy\<close> into a buffer of at least \<open>n\<close> bytes.\<close>

definition strlcpy :: "mem \<Rightarrow> byte list \<Rightarrow> nat \<Rightarrow> mem" where
  "strlcpy dst src n = (if n = 0 then dst else mem_write 0 (take (n - 1) src @ [0]) dst)"

text \<open>
  Running a line. The result is the state, the returned code and, when a handler was called, its
  number and the strings it was given, with the value it returned.
\<close>

definition esp_console_run ::
    "(nat \<Rightarrow> byte list option list \<Rightarrow> int) \<Rightarrow> bool \<Rightarrow> byte list \<Rightarrow> console_t \<Rightarrow>
     (console_t \<times> esp_err \<times> (nat \<times> byte list option list \<times> int) option) res" where
  "esp_console_run handler mem_ok cmdline st = (case s_tmp_line_buf st of
       None \<Rightarrow> Inr (st, ESP_ERR_INVALID_STATE, None)
     | Some buf \<Rightarrow>
         if \<not> mem_ok then Inr (st, ESP_ERR_NO_MEM, None)
         else let argv = replicate (max_cmdline_args (s_config st)) None;
                  buf = strlcpy buf cmdline (max_cmdline_length (s_config st))
           in bindR (esp_console_split_argv buf argv (max_cmdline_args (s_config st)))
             (\<lambda>(argc, buf, argv).
                let st = st\<lparr>s_tmp_line_buf := Some buf\<rparr>
                in if argc = 0 then Inr (st, ESP_ERR_INVALID_ARG, None)
                   else case argv ! 0 of
                     None \<Rightarrow> Inl Bad_pointer
                   | Some p \<Rightarrow> (case find_command_by_name (c_str buf p) st of
                       None \<Rightarrow> Inr (st, ESP_ERR_NOT_FOUND, None)
                     | Some cmd \<Rightarrow>
                         let args = argv_strings (argc, buf, argv)
                         in Inr (st, ESP_OK, Some (it_func cmd, args, handler (it_func cmd) args)))))"

text \<open>The handler that the source registers for \<^verbatim>\<open>help\<close>, by the number \<open>f\<close>.\<close>

definition esp_console_register_help_command ::
    "(nat \<Rightarrow> byte list) \<Rightarrow> bool \<Rightarrow> nat \<Rightarrow> console_t \<Rightarrow> (console_t \<times> esp_err) res" where
  "esp_console_register_help_command arg_print_syntax mem_ok f =
     esp_console_cmd_register arg_print_syntax mem_ok True
       (Some \<lparr>cm_command = Some [104, 101, 108, 112],
              cm_help = Some (map (word_of_nat \<circ> of_char) ''Print the list of registered commands''),
              cm_hint = None, cm_func = f, cm_argtable = None\<rparr>)"

section \<open>The registry\<close>

text \<open>
  The invariant: names are distinct and contain no space; every hint is allocated, below the next
  address, and belongs to one item only.
\<close>

definition hint_ptrs :: "cmd_item_t list \<Rightarrow> nat list" where
  "hint_ptrs its = concat (map (\<lambda>it. case it_hint it of None \<Rightarrow> [] | Some p \<Rightarrow> [p]) its)"

definition con_inv :: "console_t \<Rightarrow> bool" where
  "con_inv st \<longleftrightarrow>
     distinct (map it_command (s_cmd_list st)) \<and>
     (\<forall>it \<in> set (s_cmd_list st). SPACE \<notin> set (it_command it)) \<and>
     distinct (hint_ptrs (s_cmd_list st)) \<and>
     (\<forall>p \<in> set (hint_ptrs (s_cmd_list st)). s_heap st p \<noteq> None) \<and>
     (\<forall>p. s_heap st p \<noteq> None \<longrightarrow> p < s_brk st)"

lemma hint_ptrs_simps [simp]:
  "hint_ptrs [] = []"
  "hint_ptrs (it # its) = (case it_hint it of None \<Rightarrow> [] | Some p \<Rightarrow> [p]) @ hint_ptrs its"
  "hint_ptrs (xs @ ys) = hint_ptrs xs @ hint_ptrs ys"
  by (simp_all add: hint_ptrs_def)

lemma find_command_eq: "find_command_by_name name st = find (\<lambda>it. it_command it = name) (s_cmd_list st)"
  unfolding find_command_by_name_def by (rule arg_cong [where f = "\<lambda>p. find p _"]) auto

lemma get_hint_eq:
  "esp_console_get_hint buf st = map_option (\<lambda>it. (it_hint it, hint_color (s_config st), hint_bold (s_config st)))
     (find_command_by_name buf st)"
proof -
  have eq: "find (\<lambda>it. length (it_command it) = length buf \<and> take (length buf) (it_command it) = buf) xs =
        find (\<lambda>it. it_command it = buf) xs" for xs by (rule arg_cong [where f = "\<lambda>p. find p xs"]) auto
  show ?thesis
    unfolding esp_console_get_hint_def find_command_eq eq by (cases "find (\<lambda>it. it_command it = buf) (s_cmd_list st)") simp_all
qed

lemma find_split:
  assumes "find P xs = Some x"
  obtains ys zs where "xs = ys @ x # zs" "\<forall>y \<in> set ys. \<not> P y" "P x"
  using assms by (auto simp: find_Some_iff) (metis id_take_nth_drop in_set_conv_nth length_take min_less_iff_conj nth_take)

lemma find_SomeD: "find P xs = Some x \<Longrightarrow> x \<in> set xs \<and> P x"
  by (induction xs) (auto split: if_splits)

lemma find_NoneD: "find P xs = None \<Longrightarrow> \<forall>x \<in> set xs. \<not> P x"
  by (induction xs) (auto split: if_splits)

text \<open>The text of a command's hint.\<close>

definition hint_of :: "byte list \<Rightarrow> console_t \<Rightarrow> byte list option" where
  "hint_of name st = Option.bind (find_command_by_name name st) (\<lambda>it. Option.bind (it_hint it) (s_heap st))"

lemma filter_name:
  assumes "distinct (map it_command (xs @ it # ys))"
  shows "filter (\<lambda>i. it_command i \<noteq> it_command it) (xs @ it # ys) = xs @ ys"
proof -
  have "it_command it \<notin> it_command ` set xs" "it_command it \<notin> it_command ` set ys" using assms by auto
  then have "filter (\<lambda>i. it_command i \<noteq> it_command it) xs = xs" "filter (\<lambda>i. it_command i \<noteq> it_command it) ys = ys"
    by (auto simp: filter_id_conv image_iff)
  then show ?thesis by simp
qed

lemma find_filter_name:
  "n \<noteq> name \<Longrightarrow> find (\<lambda>it. it_command it = n) (filter (\<lambda>it. it_command it \<noteq> name) xs) = find (\<lambda>it. it_command it = n) xs"
  by (induction xs) auto

lemma con_invD_free:
  assumes inv: "con_inv st" and st: "s_cmd_list st = xs @ it # ys"
    and free: "heap_free (it_hint it) (st\<lparr>s_cmd_list := xs @ ys\<rparr>) = Inr st'"
  shows "con_inv st'" "s_cmd_list st' = xs @ ys"
  using assms by (cases "it_hint it"; simp add: con_inv_def heap_free_def split: if_splits; auto)+

lemma heap_free_ok:
  assumes "con_inv st" "it \<in> set (s_cmd_list st)"
  shows "\<exists>st'. heap_free (it_hint it) (st\<lparr>s_cmd_list := xs\<rparr>) = Inr st' \<and> s_brk st' = s_brk st \<and>
    s_config st' = s_config st \<and> s_tmp_line_buf st' = s_tmp_line_buf st \<and> s_cmd_list st' = xs \<and>
    (\<forall>p. it_hint it \<noteq> Some p \<longrightarrow> s_heap st' p = s_heap st p)"
proof -
  have "it_hint it = Some p \<Longrightarrow> p \<in> set (hint_ptrs (s_cmd_list st))" for p
    using assms(2) by (force simp: hint_ptrs_def)
  with assms(1) have "it_hint it = Some p \<Longrightarrow> s_heap st p \<noteq> None" for p by (simp add: con_inv_def)
  then show ?thesis by (cases "it_hint it") (auto simp: heap_free_def)
qed

lemma other_hint:
  assumes "con_inv st" "s_cmd_list st = xs @ it # ys" "i \<in> set (xs @ ys)" "it_hint i = Some p"
  shows "it_hint it \<noteq> Some p"
  using assms by (auto simp: con_inv_def dest!: split_list)

lemma take_item_ok:
  assumes inv: "con_inv st" and ok: "mem_ok \<or> find_command_by_name name st \<noteq> None"
  obtains st' item where "take_item mem_ok name st = Inr (st', Some item)" "con_inv st'"
    "s_cmd_list st' = filter (\<lambda>it. it_command it \<noteq> name) (s_cmd_list st)"
    "s_config st' = s_config st" "s_tmp_line_buf st' = s_tmp_line_buf st"
    "\<And>n. n \<noteq> name \<Longrightarrow> hint_of n st' = hint_of n st"
    "find_command_by_name name st = None \<Longrightarrow> it_hint item = None"
proof (cases "find_command_by_name name st")
  case None
  then have "filter (\<lambda>it. it_command it \<noteq> name) (s_cmd_list st) = s_cmd_list st"
    by (auto simp: find_command_eq filter_id_conv dest: find_NoneD)
  with None ok inv show ?thesis 
    by (intro that [of st "\<lparr>it_command = [], it_help = None, it_hint = None, it_func = 0, it_argtable = None\<rparr>"])
      (simp_all add: take_item_def)
next
  case (Some it)
  then obtain xs ys where l: "s_cmd_list st = xs @ it # ys" "\<forall>y \<in> set xs. it_command y \<noteq> name"
      and name: "name = it_command it"
    unfolding find_command_eq by (auto elim: find_split)
  then have r: "remove1 it (s_cmd_list st) = xs @ ys" by (auto simp: remove1_append)
  obtain st' where st': "heap_free (it_hint it) (st\<lparr>s_cmd_list := xs @ ys\<rparr>) = Inr st'"
      "s_config st' = s_config st" "s_tmp_line_buf st' = s_tmp_line_buf st"
      "s_cmd_list st' = xs @ ys" "\<forall>p. it_hint it \<noteq> Some p \<longrightarrow> s_heap st' p = s_heap st p"
    using heap_free_ok [OF inv, of it "xs @ ys"] l(1) by auto
  have f: "filter (\<lambda>it. it_command it \<noteq> name) (s_cmd_list st) = xs @ ys"
    using inv unfolding l(1) name con_inv_def by (intro filter_name) (simp add: l(1))
  have "hint_of n st' = hint_of n st" if "n \<noteq> name" for n
  proof -
    have "find_command_by_name n st' = find_command_by_name n st"
      using find_filter_name [OF that, of "s_cmd_list st"] by (simp add: find_command_eq f st'(4))
    moreover have "s_heap st' p = s_heap st p" if "find_command_by_name n st' = Some i" "it_hint i = Some p" for i p
      using other_hint [OF inv l(1) _ that(2)] that(1) st'(4,5)
      by (auto simp: find_command_eq dest!: find_SomeD)
    ultimately show ?thesis
      by (cases "find_command_by_name n st"; cases "it_hint (the (find_command_by_name n st))")
        (simp_all add: hint_of_def)
  qed
  with Some st' f con_invD_free [OF inv l(1) st'(1)] show ?thesis
    by (intro that [of st' it]) (simp_all add: take_item_def r)
qed

text \<open>Filling the item and appending it.\<close>

lemma con_inv_fresh: "con_inv st \<Longrightarrow> s_heap st (s_brk st) = None"
  by (metis con_inv_def less_irrefl option.exhaust)

lemma con_inv_append_hint:
  assumes inv: "con_inv st" and name: "SPACE \<notin> set (it_command it)" "it_command it \<notin> it_command ` set (s_cmd_list st)"
    and hint: "it_hint it = Some (s_brk st)"
  shows "con_inv (st\<lparr>s_heap := (s_heap st)(s_brk st \<mapsto> h), s_brk := s_brk st + 1, s_cmd_list := s_cmd_list st @ [it]\<rparr>)"
proof -
  have "s_brk st \<notin> set (hint_ptrs (s_cmd_list st))"
    using con_inv_fresh [OF inv] inv by (auto simp: con_inv_def)
  with assms show ?thesis unfolding con_inv_def by (simp add: less_Suc_eq)
qed

lemma con_inv_append_bare:
  assumes "con_inv st" "SPACE \<notin> set (it_command it)" "it_command it \<notin> it_command ` set (s_cmd_list st)"
    "it_hint it = None"
  shows "con_inv (st\<lparr>s_cmd_list := s_cmd_list st @ [it]\<rparr>)"
  using assms unfolding con_inv_def by simp

lemma set_hint_ok:
  assumes inv: "con_inv st" and name: "SPACE \<notin> set (it_command it)" "it_command it \<notin> it_command ` set (s_cmd_list st)"
    and hint: "cm_hint cmd = None \<and> cm_argtable cmd = None \<Longrightarrow> it_hint it = None"
  obtains st' it' where "set_hint syn sok cmd it st = (st', it')"
    "con_inv (st'\<lparr>s_cmd_list := s_cmd_list st' @ [it'\<lparr>it_argtable := a, it_func := f\<rparr>]\<rparr>)"
    "s_cmd_list st' = s_cmd_list st"
    "it_command it' = it_command it" "it_help it' = it_help it"
    "\<forall>p. s_heap st p \<noteq> None \<longrightarrow> s_heap st' p = s_heap st p"
    "\<forall>h. cm_hint cmd = Some h \<longrightarrow> Option.bind (it_hint it') (s_heap st') = Some (SPACE # h)"
proof (cases "it_hint (snd (set_hint syn sok cmd it st)) = None")
  case True
  then have "fst (set_hint syn sok cmd it st) = st" "it_command (snd (set_hint syn sok cmd it st)) = it_command it"
      "it_help (snd (set_hint syn sok cmd it st)) = it_help it" "cm_hint cmd = None"
    by (auto simp: set_hint_def heap_alloc_def split: option.splits if_splits)
  with True inv name show ?thesis
    by (intro that [of "fst (set_hint syn sok cmd it st)" "snd (set_hint syn sok cmd it st)"])
      (simp_all add: con_inv_append_bare prod_eq_iff)
next
  case False
  with hint obtain h where h: "set_hint syn sok cmd it st =
      (st\<lparr>s_heap := (s_heap st)(s_brk st \<mapsto> h), s_brk := s_brk st + 1\<rparr>, it\<lparr>it_hint := Some (s_brk st)\<rparr>)"
      "\<And>t. cm_hint cmd = Some t \<Longrightarrow> h = SPACE # t"
    by (auto simp: set_hint_def heap_alloc_def split: option.splits if_splits)
  show ?thesis
    using h inv name con_inv_fresh [OF inv]
      con_inv_append_hint [OF inv, of "it\<lparr>it_hint := Some (s_brk st), it_argtable := a, it_func := f\<rparr>" h]
    by (intro that [OF h(1)]) auto
qed

lemma find_append_name:
  "find (\<lambda>it. it_command it = n) (xs @ [it]) =
     (case find (\<lambda>it. it_command it = n) xs of Some i \<Rightarrow> Some i
      | None \<Rightarrow> if it_command it = n then Some it else None)"
  by (induction xs) auto

lemma hint_heap:
  assumes "con_inv st" "it \<in> set (s_cmd_list st)" "it_hint it = Some p"
  shows "s_heap st p \<noteq> None"
proof -
  have "p \<in> set (hint_ptrs (s_cmd_list st))" using assms(2,3) by (force simp: hint_ptrs_def)
  with assms(1) show ?thesis by (simp add: con_inv_def)
qed

text \<open>
  C13. Registering a command. In a well-formed console a command whose name has no space, with memory
  for it, and which is new or brings a hint or an argument table, is registered without a fault. It
  becomes the last command and the only one of its name, found with its handler, help and hint; every
  other command keeps its handler and its hint, and the console stays well formed.
\<close>
theorem cmd_register_ok:
  assumes inv: "con_inv st" and name: "cm_command cmd = Some name" "SPACE \<notin> set name"
    and mem: "mem_ok \<or> find_command_by_name name st \<noteq> None"
    and hint: "cm_hint cmd = None \<Longrightarrow> cm_argtable cmd = None \<Longrightarrow> find_command_by_name name st = None"
  shows "\<exists>st' it. esp_console_cmd_register syn mem_ok sok (Some cmd) st = Inr (st', ESP_OK) \<and> con_inv st' \<and>
    map it_command (s_cmd_list st') = filter (\<lambda>n. n \<noteq> name) (map it_command (s_cmd_list st)) @ [name] \<and>
    find_command_by_name name st' = Some it \<and> it_func it = cm_func cmd \<and> it_help it = cm_help cmd \<and>
    (\<forall>h. cm_hint cmd = Some h \<longrightarrow> hint_of name st' = Some (SPACE # h)) \<and>
    (\<forall>n. n \<noteq> name \<longrightarrow> find_command_by_name n st' = find_command_by_name n st \<and> hint_of n st' = hint_of n st)"
proof -
  obtain st1 item where t: "take_item mem_ok name st = Inr (st1, Some item)" "con_inv st1"
      "s_cmd_list st1 = filter (\<lambda>it. it_command it \<noteq> name) (s_cmd_list st)"
      "\<And>n. n \<noteq> name \<Longrightarrow> hint_of n st1 = hint_of n st"
      "find_command_by_name name st = None \<Longrightarrow> it_hint item = None"
    using take_item_ok [OF inv mem] by metis
  let ?it = "item\<lparr>it_command := name, it_help := cm_help cmd\<rparr>"
  have "SPACE \<notin> set (it_command ?it)" "it_command ?it \<notin> it_command ` set (s_cmd_list st1)"
      "cm_hint cmd = None \<and> cm_argtable cmd = None \<Longrightarrow> it_hint ?it = None"
    using name t(3,5) hint by auto
  then obtain st2 it where s: "set_hint syn sok cmd ?it st1 = (st2, it)"
    "con_inv (st2\<lparr>s_cmd_list := s_cmd_list st2 @ [it\<lparr>it_argtable := cm_argtable cmd, it_func := cm_func cmd\<rparr>]\<rparr>)"
    "s_cmd_list st2 = s_cmd_list st1" "it_command it = it_command ?it" "it_help it = it_help ?it"
    "\<forall>p. s_heap st1 p \<noteq> None \<longrightarrow> s_heap st2 p = s_heap st1 p"
    "\<forall>h. cm_hint cmd = Some h \<longrightarrow> Option.bind (it_hint it) (s_heap st2) = Some (SPACE # h)"
    by (rule set_hint_ok [OF t(2), where syn = syn and sok = sok and a = "cm_argtable cmd" and f = "cm_func cmd"])
  let ?new = "it\<lparr>it_argtable := cm_argtable cmd, it_func := cm_func cmd\<rparr>"
  let ?st = "st2\<lparr>s_cmd_list := s_cmd_list st2 @ [?new]\<rparr>"
  have none: "find (\<lambda>it. it_command it = name) (s_cmd_list st1) = None" unfolding t(3) by (simp add: find_None_iff)
  then have new: "find_command_by_name name ?st = Some ?new"
    using s(3,4) by (simp add: find_command_eq find_append_name)
  have other: "find_command_by_name n ?st = find_command_by_name n st1" "find_command_by_name n st1 = find_command_by_name n st"
    if "n \<noteq> name" for n
    using that s(3,4) find_filter_name [OF that, of "s_cmd_list st"]
    by (auto simp: find_command_eq find_append_name t(3) split: option.splits)
  have "hint_of n ?st = hint_of n st1" if "n \<noteq> name" for n
  proof -
    have "s_heap st2 p = s_heap st1 p" if "find_command_by_name n st1 = Some i" "it_hint i = Some p" for i p
      using that hint_heap [OF t(2), of i p] s(6) by (auto simp: find_command_eq dest!: find_SomeD)
    with other(1) [OF that] show ?thesis
      by (cases "find_command_by_name n st1"; cases "it_hint (the (find_command_by_name n st1))")
        (simp_all add: hint_of_def)
  qed
  with other t(4) have others: "n \<noteq> name \<Longrightarrow> find_command_by_name n ?st = find_command_by_name n st \<and>
      hint_of n ?st = hint_of n st" for n by simp
  have names: "map it_command (s_cmd_list ?st) = filter (\<lambda>n. n \<noteq> name) (map it_command (s_cmd_list st)) @ [name]"
    using s(3,4) t(3) by (simp add: filter_map comp_def)
  have hnt: "cm_hint cmd = Some h \<Longrightarrow> hint_of name ?st = Some (SPACE # h)" for h
    using s(7) new by (simp add: hint_of_def)
  have reg: "esp_console_cmd_register syn mem_ok sok (Some cmd) st = Inr (?st, ESP_OK)"
    using name t(1) s(1) by (simp add: esp_console_cmd_register_def)
  show ?thesis
    using reg s(2,5) names new hnt others by (intro exI [of _ ?st] exI [of _ ?new]) simp
qed

definition demo_cmd :: "byte list option \<Rightarrow> nat \<Rightarrow> esp_console_cmd_t" where
  "demo_cmd h f = \<lparr>cm_command = Some [97], cm_help = None, cm_hint = h, cm_func = f, cm_argtable = None\<rparr>"

lemma con_inv_boot: "con_inv console_boot"
  by (simp add: con_inv_def console_boot_def)

theorem cmd_register_ok_witness:
  "con_inv console_boot \<and> (\<exists>st' it. esp_console_cmd_register (\<lambda>_. []) True True (Some (demo_cmd (Some [98]) 7)) console_boot =
      Inr (st', ESP_OK) \<and> con_inv st' \<and> find_command_by_name [97] st' = Some it \<and> it_func it = 7 \<and>
      hint_of [97] st' = Some [32, 98])"
  using con_inv_boot
    cmd_register_ok [OF con_inv_boot, of "demo_cmd (Some [98]) 7" "[97]" True "\<lambda>_. []" True]
  by (auto simp: demo_cmd_def SPACE_def)

section \<open>A freed hint that stays in use\<close>

lemma deinit_loop_append: "deinit_loop (xs @ ys) st = bindR (deinit_loop xs st) (deinit_loop ys)"
proof (induction xs arbitrary: st)
  case (Cons it xs)
  then show ?case by (cases "heap_free (it_hint it) (st\<lparr>s_cmd_list := remove1 it (s_cmd_list st)\<rparr>)") simp_all
qed simp

lemma deinit_loop_ok:
  assumes "s_cmd_list st = xs @ ys" "distinct (hint_ptrs xs)" "\<forall>p \<in> set (hint_ptrs xs). s_heap st p \<noteq> None"
  shows "\<exists>st'. deinit_loop xs st = Inr st' \<and> s_cmd_list st' = ys \<and>
    (\<forall>p. s_heap st' p = (if p \<in> set (hint_ptrs xs) then None else s_heap st p)) \<and>
    s_tmp_line_buf st' = s_tmp_line_buf st"
  using assms
proof (induction xs arbitrary: st)
  case (Cons it xs)
  let ?st = "case it_hint it of None \<Rightarrow> st\<lparr>s_cmd_list := xs @ ys\<rparr>
    | Some p \<Rightarrow> st\<lparr>s_cmd_list := xs @ ys, s_heap := (s_heap st)(p := None)\<rparr>"
  have "heap_free (it_hint it) (st\<lparr>s_cmd_list := remove1 it (s_cmd_list st)\<rparr>) = Inr ?st"
    using Cons.prems by (auto simp: heap_free_def split: option.splits)
  moreover have "\<exists>st'. deinit_loop xs ?st = Inr st' \<and> s_cmd_list st' = ys \<and>
      (\<forall>p. s_heap st' p = (if p \<in> set (hint_ptrs xs) then None else s_heap ?st p)) \<and>
      s_tmp_line_buf st' = s_tmp_line_buf ?st"
    using Cons.prems by (intro Cons.IH) (auto split: option.splits)
  ultimately show ?case by (cases "it_hint it") auto
qed simp

text \<open>
  C14. Registering again without a hint. When a registered command has a hint and is registered again
  with neither a hint nor an argument table, the old hint is freed and the command keeps its address:
  the hint that \<^verbatim>\<open>esp_console_get_hint\<close> returns points to freed memory, and removing the console frees it
  a second time.
\<close>
theorem reregister_dangling_hint:
  assumes inv: "con_inv st" and name: "cm_command cmd = Some name" "SPACE \<notin> set name"
    and none: "cm_hint cmd = None" "cm_argtable cmd = None"
    and old: "find_command_by_name name st = Some it" "it_hint it = Some p" and buf: "s_tmp_line_buf st \<noteq> None"
  shows "\<exists>st' c b. esp_console_cmd_register syn mem_ok sok (Some cmd) st = Inr (st', ESP_OK) \<and>
    esp_console_get_hint name st' = Some (Some p, c, b) \<and> s_heap st' p = None \<and>
    esp_console_deinit st' = Inl Bad_pointer"
proof -
  obtain xs ys where l: "s_cmd_list st = xs @ it # ys" "\<forall>y \<in> set xs. it_command y \<noteq> name" "it_command it = name"
    using old(1) unfolding find_command_eq by (auto elim: find_split)
  then have r: "remove1 it (s_cmd_list st) = xs @ ys" by (auto simp: remove1_append)
  have p: "s_heap st p \<noteq> None" using hint_heap [OF inv _ old(2)] l(1) by simp
  define new where "new = it\<lparr>it_command := name, it_help := cm_help cmd, it_argtable := None, it_func := cm_func cmd\<rparr>"
  define st' where "st' = st\<lparr>s_heap := (s_heap st)(p := None), s_cmd_list := (xs @ ys) @ [new]\<rparr>"
  have reg: "esp_console_cmd_register syn mem_ok sok (Some cmd) st = Inr (st', ESP_OK)"
    using p by (simp add: esp_console_cmd_register_def name none take_item_def old r heap_free_def set_hint_def
        st'_def new_def)
  have f: "filter (\<lambda>it. it_command it \<noteq> name) (s_cmd_list st) = xs @ ys"
    using inv unfolding l(1) l(3) [symmetric] con_inv_def by (intro filter_name) (simp add: l(1))
  then have "find (\<lambda>it. it_command it = name) (xs @ ys) = None" by (auto simp: find_None_iff simp flip: f)
  then have "find_command_by_name name st' = Some new"
    by (simp add: find_command_eq st'_def find_append_name new_def del: append_assoc)
  then have hint: "esp_console_get_hint name st' = Some (Some p, hint_color (s_config st'), hint_bold (s_config st'))"
    using old(2) by (simp add: get_hint_eq new_def)
  have ptrs: "distinct (hint_ptrs (xs @ ys))" "\<forall>q \<in> set (hint_ptrs (xs @ ys)). s_heap st q \<noteq> None \<and> q \<noteq> p"
    using inv unfolding con_inv_def l(1) by (auto simp: old(2))
  obtain st1 where "deinit_loop (xs @ ys) (st'\<lparr>s_tmp_line_buf := None\<rparr>) = Inr st1" "s_heap st1 p = None"
      "s_cmd_list st1 = [new]"
    using deinit_loop_ok [of "st'\<lparr>s_tmp_line_buf := None\<rparr>" "xs @ ys" "[new]"] ptrs by (auto simp: st'_def)
  moreover have "it_hint new = Some p" using old(2) by (simp add: new_def)
  moreover have "s_cmd_list st' = (xs @ ys) @ [new]" "s_tmp_line_buf st' \<noteq> None"
    using buf by (simp_all add: st'_def)
  ultimately have "esp_console_deinit st' = Inl Bad_pointer"
    unfolding esp_console_deinit_def by (simp only: deinit_loop_append) (simp add: heap_free_def)
  with reg hint show ?thesis by (auto simp: st'_def)
qed

text \<open>A console with one command that has a hint.\<close>

definition demo_console :: console_t where
  "demo_console =
     \<lparr>s_cmd_list = [\<lparr>it_command = [97], it_help = None, it_hint = Some 0, it_func = 7, it_argtable = None\<rparr>],
      s_config = \<lparr>max_cmdline_length = 16, max_cmdline_args = 4, hint_color = 39, hint_bold = 0\<rparr>,
      s_tmp_line_buf = Some (replicate 16 0), s_heap = [0 \<mapsto> [32, 98]], s_brk = 1\<rparr>"

lemma con_inv_demo: "con_inv demo_console"
  by (simp add: con_inv_def demo_console_def SPACE_def)

theorem reregister_dangling_hint_witness:
  "\<exists>st' c b. esp_console_cmd_register (\<lambda>_. []) True True (Some (demo_cmd None 8)) demo_console = Inr (st', ESP_OK) \<and>
     esp_console_get_hint [97] st' = Some (Some 0, c, b) \<and> s_heap st' 0 = None \<and>
     esp_console_deinit st' = Inl Bad_pointer"
  by (rule reregister_dangling_hint [OF con_inv_demo, where it = "hd (s_cmd_list demo_console)"])
    (simp_all add: demo_cmd_def demo_console_def find_command_by_name_def SPACE_def)

section \<open>Running a line\<close>

lemma strlcpy_fits:
  assumes "length src < n" "length dst = n"
  shows "strlcpy dst src n = src @ 0 # drop (Suc (length src)) dst"
  using assms by (simp add: strlcpy_def mem_write_def)

lemma argv_strings_hd:
  assumes "argv_strings (argc, m, argv) = Some a # as" "0 < argc"
  obtains p where "argv ! 0 = Some p" "c_str m p = a"
  using assms by (cases argv; cases argc) (auto simp: argv_strings_def)

text \<open>
  C15. Running a line calls the command it names with the arguments it carries. When the console is
  initialised and has a command of the name, the line that quotes the name and the arguments fits the
  line buffer and \<^verbatim>\<open>argv\<close> has room for them and the final \<^verbatim>\<open>NULL\<close>, then \<^verbatim>\<open>esp_console_run\<close> calls its handler
  once, with exactly these strings, returns \<^verbatim>\<open>ESP_OK\<close> and its value, and changes only the line buffer.
\<close>
theorem console_run_calls:
  assumes buf: "s_tmp_line_buf st = Some b" "length b = max_cmdline_length (s_config st)"
    and cmd: "find_command_by_name name st = Some cmd"
    and args: "\<forall>a \<in> set (name # args). zero_free a"
    and fits: "length (command_line (name # args)) < max_cmdline_length (s_config st)"
      "length (name # args) < max_cmdline_args (s_config st)" "max_cmdline_args (s_config st) < 2 ^ 32"
  shows "\<exists>b'. esp_console_run handler True (command_line (name # args)) st =
    Inr (st\<lparr>s_tmp_line_buf := Some b'\<rparr>, ESP_OK,
         Some (it_func cmd, map Some (name # args), handler (it_func cmd) (map Some (name # args))))"
proof -
  let ?argv = "replicate (max_cmdline_args (s_config st)) None" and ?cs = "command_line (name # args)"
  have line: "strlcpy b ?cs (max_cmdline_length (s_config st)) = ?cs @ 0 # drop (Suc (length ?cs)) b"
    using fits(1) buf(2) by (rule strlcpy_fits)
  have "take (length ?argv - 1) (split_args ?cs) = name # args"
    using fits(2) by (simp add: split_args_command_line)
  moreover have "?argv \<noteq> []" using fits(2) by auto
  ultimately obtain b' argv' where s: "esp_console_split_argv (?cs @ 0 # drop (Suc (length ?cs)) b) ?argv (length ?argv) =
      Inr (length (name # args), b', argv')"
      "argv_strings (length (name # args), b', argv') = map Some (name # args)"
    using split_argv_finds [OF zero_free_command_line [OF args], of ?argv "drop (Suc (length ?cs)) b"] fits(3)
    by (metis length_replicate)
  obtain p where "argv' ! 0 = Some p" "c_str b' p = name"
    by (rule argv_strings_hd [OF s(2) [simplified list.map]]) simp_all
  moreover have "find_command_by_name name (st\<lparr>s_tmp_line_buf := x\<rparr>) = Some cmd" for x
    using cmd by (simp add: find_command_by_name_def)
  ultimately show ?thesis
    using s by (simp add: esp_console_run_def buf(1) line Let_def del: list.map(2) length_Cons) blast
qed

theorem console_run_calls_witness:
  "command_line [[97], [34]] = [34, 97, 34, 32, 34, 92, 34, 34, 32] \<and>
   (\<exists>b'. esp_console_run (\<lambda>f as. int (f + length as)) True (command_line [[97], [34]]) demo_console =
      Inr (demo_console\<lparr>s_tmp_line_buf := Some b'\<rparr>, ESP_OK, Some (7, [Some [97], Some [34]], 9)))"
proof
  show "command_line [[97], [34]] = [34, 97, 34, 32, 34, 92, 34, 34, 32]"
    by (simp add: command_line_def quote_arg_def SPACE_def QUOTE_def ESCAPE_def)
  then show "\<exists>b'. esp_console_run (\<lambda>f as. int (f + length as)) True (command_line [[97], [34]]) demo_console =
      Inr (demo_console\<lparr>s_tmp_line_buf := Some b'\<rparr>, ESP_OK, Some (7, [Some [97], Some [34]], 9))"
    using console_run_calls [of demo_console "replicate 16 0" "[97]" "hd (s_cmd_list demo_console)" "[[34]]"
        "\<lambda>f as. int (f + length as)"]
    by (simp add: demo_console_def find_command_by_name_def)
qed

end
