(* ===== verification/Esp_Timer.thy ===== *)
theory Esp_Timer
  imports Idf_Base
begin

text \<open>
  The high resolution timer, \<^verbatim>\<open>components/esp_timer/src/esp_timer.c\<close>, with the alarm registers of
  \<^verbatim>\<open>esp_timer_impl_systimer.c\<close>. Timers are objects of a
  store, addressed by handles; the two lists of armed timers are lists of handles. Using a handle
  whose timer was freed is a fault. Alarms are natural numbers with 64-bit addition, periods are cut
  to their 56 bits. Operations take the time that \<^verbatim>\<open>esp_timer_get_time\<close> returns as an argument, each
  runs as a whole, and profiling is off as in the default configuration.
\<close>

section \<open>Model\<close>

datatype esp_timer_dispatch_t = ESP_TIMER_TASK | ESP_TIMER_ISR

definition UINT64_MAX :: nat where "UINT64_MAX = 2 ^ 64 - 1"
definition INT64_MAX :: nat where "INT64_MAX = 2 ^ 63 - 1"
definition EVENT_ID_DELETE_TIMER :: nat where "EVENT_ID_DELETE_TIMER = 0xF0DE1E1E"

definition u64add :: "nat \<Rightarrow> nat \<Rightarrow> nat" where "u64add a b = (a + b) mod 2 ^ 64"
definition period56 :: "nat \<Rightarrow> nat" where "period56 p = p mod 2 ^ 56"

text \<open>The conversion of a 64-bit number to \<^verbatim>\<open>int\<close>.\<close>

definition to_int32 :: "nat \<Rightarrow> int" where
  "to_int32 n = (int n + 2 ^ 31) mod 2 ^ 32 - 2 ^ 31"

text \<open>
  A timer. The two flag bits are \<^verbatim>\<open>FL_ISR_DISPATCH_METHOD\<close> and \<^verbatim>\<open>FL_SKIP_UNHANDLED_EVENTS\<close>; the field
  \<open>tm_callback\<close> is the union of the callback's address and the event number.
\<close>

record esp_timer =
  tm_alarm :: nat
  tm_period :: nat
  tm_isr :: bool
  tm_skip :: bool
  tm_callback :: nat
  tm_arg :: nat

record timers_t =
  tm_mem :: "nat \<Rightarrow> esp_timer option"
  tm_brk :: nat
  s_timers :: "esp_timer_dispatch_t \<Rightarrow> nat list"
  s_timer_task :: bool
  timestamp_id :: "esp_timer_dispatch_t \<Rightarrow> nat"
  alarm_target :: "nat option"
  task_notified :: bool
  dispatched :: "(nat \<times> nat) list"

definition timers_boot :: timers_t where
  "timers_boot = \<lparr>tm_mem = Map.empty, tm_brk = 0, s_timers = (\<lambda>_. []), s_timer_task = False,
     timestamp_id = (\<lambda>_. UINT64_MAX), alarm_target = None, task_notified = False, dispatched = []\<rparr>"

definition dispatch_of :: "esp_timer \<Rightarrow> esp_timer_dispatch_t" where
  "dispatch_of t = (if tm_isr t then ESP_TIMER_ISR else ESP_TIMER_TASK)"

definition timer_get :: "nat \<Rightarrow> timers_t \<Rightarrow> esp_timer res" where
  "timer_get h st = (case tm_mem st h of None \<Rightarrow> Inl Bad_pointer | Some t \<Rightarrow> Inr t)"

definition timer_set :: "nat \<Rightarrow> esp_timer \<Rightarrow> timers_t \<Rightarrow> timers_t" where
  "timer_set h t st = st\<lparr>tm_mem := (tm_mem st)(h \<mapsto> t)\<rparr>"

definition set_list :: "esp_timer_dispatch_t \<Rightarrow> nat list \<Rightarrow> timers_t \<Rightarrow> timers_t" where
  "set_list d l st = st\<lparr>s_timers := (s_timers st)(d := l)\<rparr>"

subsection \<open>The alarm registers\<close>

definition esp_timer_impl_set_alarm_id :: "nat \<Rightarrow> esp_timer_dispatch_t \<Rightarrow> timers_t \<Rightarrow> timers_t" where
  "esp_timer_impl_set_alarm_id timestamp alarm_id st =
     (let st = st\<lparr>timestamp_id := (timestamp_id st)(alarm_id := timestamp)\<rparr>;
          timestamp = min (timestamp_id st ESP_TIMER_TASK) (timestamp_id st ESP_TIMER_ISR)
      in if timestamp \<noteq> UINT64_MAX then st\<lparr>alarm_target := Some timestamp\<rparr> else st)"

definition esp_timer_impl_get_min_period_us :: nat where
  "esp_timer_impl_get_min_period_us = 50"

subsection \<open>The lists of armed timers\<close>

text \<open>The loop of \<^verbatim>\<open>timer_insert\<close>: before the first timer with a later alarm, or at the end.\<close>

fun insert_loop :: "(nat \<Rightarrow> esp_timer option) \<Rightarrow> nat \<Rightarrow> nat \<Rightarrow> nat list \<Rightarrow> nat list res" where
  "insert_loop m h alarm [] = Inr [h]"
| "insert_loop m h alarm (it # its) = (case m it of
       None \<Rightarrow> Inl Bad_pointer
     | Some t \<Rightarrow> if alarm < tm_alarm t then Inr (h # it # its)
                 else bindR (insert_loop m h alarm its) (\<lambda>l. Inr (it # l)))"

definition timer_insert :: "nat \<Rightarrow> bool \<Rightarrow> timers_t \<Rightarrow> timers_t res" where
  "timer_insert h without_update_alarm st =
     bindR (timer_get h st)
       (\<lambda>t. bindR (insert_loop (tm_mem st) h (tm_alarm t) (s_timers st (dispatch_of t)))
         (\<lambda>l. let st = set_list (dispatch_of t) l st
              in Inr (if \<not> without_update_alarm \<and> hd l = h
                      then esp_timer_impl_set_alarm_id (tm_alarm t) (dispatch_of t) st else st)))"

text \<open>\<^verbatim>\<open>LIST_REMOVE\<close> unlinks the timer from the list that it is in.\<close>

definition list_remove :: "nat \<Rightarrow> timers_t \<Rightarrow> timers_t res" where
  "list_remove h st =
     (if h \<in> set (s_timers st ESP_TIMER_TASK)
      then Inr (set_list ESP_TIMER_TASK (remove1 h (s_timers st ESP_TIMER_TASK)) st)
      else if h \<in> set (s_timers st ESP_TIMER_ISR)
      then Inr (set_list ESP_TIMER_ISR (remove1 h (s_timers st ESP_TIMER_ISR)) st)
      else Inl Bad_pointer)"

definition next_timestamp :: "nat list \<Rightarrow> timers_t \<Rightarrow> nat res" where
  "next_timestamp l st = (case l of
       [] \<Rightarrow> Inr UINT64_MAX
     | f # fs \<Rightarrow> bindR (timer_get f st) (\<lambda>t. Inr (tm_alarm t)))"

definition timer_remove :: "nat \<Rightarrow> timers_t \<Rightarrow> timers_t res" where
  "timer_remove h st =
     bindR (timer_get h st)
       (\<lambda>t. let d = dispatch_of t; first_timer = s_timers st d
            in bindR (list_remove h st)
              (\<lambda>st. let st = timer_set h (t\<lparr>tm_alarm := 0, tm_period := 0\<rparr>) st
                    in if first_timer \<noteq> [] \<and> hd first_timer = h
                       then bindR (next_timestamp (s_timers st d) st)
                              (\<lambda>next. Inr (esp_timer_impl_set_alarm_id next d st))
                       else Inr st))"

definition timer_armed :: "esp_timer \<Rightarrow> bool" where
  "timer_armed t \<longleftrightarrow> tm_alarm t > 0"

subsection \<open>The interface\<close>

record esp_timer_create_args_t =
  ca_callback :: "nat option"
  ca_arg :: nat
  ca_dispatch_method :: int
  ca_skip_unhandled_events :: bool

text \<open>\<open>mem_ok\<close> tells whether \<^verbatim>\<open>heap_caps_calloc\<close> succeeds; the result has the new handle.\<close>

definition esp_timer_create ::
    "bool \<Rightarrow> esp_timer_create_args_t option \<Rightarrow> timers_t \<Rightarrow> timers_t \<times> esp_err \<times> nat option" where
  "esp_timer_create mem_ok args st =
     (if \<not> s_timer_task st then (st, ESP_ERR_INVALID_STATE, None)
      else case args of
        None \<Rightarrow> (st, ESP_ERR_INVALID_ARG, None)
      | Some a \<Rightarrow> (case ca_callback a of
          None \<Rightarrow> (st, ESP_ERR_INVALID_ARG, None)
        | Some cb \<Rightarrow>
            if ca_dispatch_method a < 0 \<or> 2 \<le> ca_dispatch_method a then (st, ESP_ERR_INVALID_ARG, None)
            else if \<not> mem_ok then (st, ESP_ERR_NO_MEM, None)
            else (timer_set (tm_brk st)
                    \<lparr>tm_alarm = 0, tm_period = 0, tm_isr = (ca_dispatch_method a \<noteq> 0),
                     tm_skip = ca_skip_unhandled_events a, tm_callback = cb, tm_arg = ca_arg a\<rparr>
                    (st\<lparr>tm_brk := tm_brk st + 1\<rparr>), ESP_OK, Some (tm_brk st))))"

text \<open>Starting: the parts after the checks set alarm and period and insert.\<close>

definition timer_arm :: "nat \<Rightarrow> nat \<Rightarrow> nat \<Rightarrow> esp_timer \<Rightarrow> timers_t \<Rightarrow> (timers_t \<times> esp_err) res" where
  "timer_arm h alarm period t st =
     bindR (timer_insert h False (timer_set h (t\<lparr>tm_alarm := alarm, tm_period := period56 period\<rparr>) st))
       (\<lambda>st. Inr (st, ESP_OK))"

definition esp_timer_restart :: "nat \<Rightarrow> nat option \<Rightarrow> nat \<Rightarrow> timers_t \<Rightarrow> (timers_t \<times> esp_err) res" where
  "esp_timer_restart now timer timeout_us st = (case timer of
       None \<Rightarrow> Inr (st, ESP_ERR_INVALID_ARG)
     | Some h \<Rightarrow> bindR (timer_get h st)
         (\<lambda>t. if \<not> s_timer_task st \<or> \<not> timer_armed t then Inr (st, ESP_ERR_INVALID_STATE)
              else bindR (timer_remove h st)
                (\<lambda>st. bindR (timer_get h st)
                  (\<lambda>t'. if tm_period t \<noteq> 0
                        then let new_period = max timeout_us esp_timer_impl_get_min_period_us
                             in timer_arm h (u64add now new_period) new_period t' st
                        else timer_arm h (u64add now timeout_us) 0 t' st))))"

definition esp_timer_start_once :: "nat \<Rightarrow> nat option \<Rightarrow> nat \<Rightarrow> timers_t \<Rightarrow> (timers_t \<times> esp_err) res" where
  "esp_timer_start_once now timer timeout_us st = (case timer of
       None \<Rightarrow> Inr (st, ESP_ERR_INVALID_ARG)
     | Some h \<Rightarrow> bindR (timer_get h st)
         (\<lambda>t. if \<not> s_timer_task st \<or> timer_armed t then Inr (st, ESP_ERR_INVALID_STATE)
              else timer_arm h (u64add now timeout_us) 0 t st))"

definition esp_timer_start_periodic :: "nat \<Rightarrow> nat option \<Rightarrow> nat \<Rightarrow> timers_t \<Rightarrow> (timers_t \<times> esp_err) res" where
  "esp_timer_start_periodic now timer period_us st = (case timer of
       None \<Rightarrow> Inr (st, ESP_ERR_INVALID_ARG)
     | Some h \<Rightarrow> bindR (timer_get h st)
         (\<lambda>t. if \<not> s_timer_task st \<or> timer_armed t then Inr (st, ESP_ERR_INVALID_STATE)
              else let period_us = max period_us esp_timer_impl_get_min_period_us
                   in timer_arm h (u64add now period_us) period_us t st))"

definition esp_timer_stop :: "nat option \<Rightarrow> timers_t \<Rightarrow> (timers_t \<times> esp_err) res" where
  "esp_timer_stop timer st = (case timer of
       None \<Rightarrow> Inr (st, ESP_ERR_INVALID_ARG)
     | Some h \<Rightarrow> bindR (timer_get h st)
         (\<lambda>t. if \<not> s_timer_task st \<or> \<not> timer_armed t then Inr (st, ESP_ERR_INVALID_STATE)
              else bindR (timer_remove h st) (\<lambda>st. Inr (st, ESP_OK))))"

definition esp_timer_delete :: "nat \<Rightarrow> nat option \<Rightarrow> timers_t \<Rightarrow> (timers_t \<times> esp_err) res" where
  "esp_timer_delete now timer st = (case timer of
       None \<Rightarrow> Inr (st, ESP_ERR_INVALID_ARG)
     | Some h \<Rightarrow> bindR (timer_get h st)
         (\<lambda>t. if timer_armed t then Inr (st, ESP_ERR_INVALID_STATE)
              else timer_arm h now 0 (t\<lparr>tm_isr := False, tm_callback := EVENT_ID_DELETE_TIMER\<rparr>) st))"

definition esp_timer_get_period :: "nat option \<Rightarrow> timers_t \<Rightarrow> (esp_err \<times> nat option) res" where
  "esp_timer_get_period timer st = (case timer of
       None \<Rightarrow> Inr (ESP_ERR_INVALID_ARG, None)
     | Some h \<Rightarrow> bindR (timer_get h st) (\<lambda>t. Inr (ESP_OK, Some (tm_period t))))"

definition esp_timer_get_expiry_time :: "nat option \<Rightarrow> timers_t \<Rightarrow> (esp_err \<times> nat option) res" where
  "esp_timer_get_expiry_time timer st = (case timer of
       None \<Rightarrow> Inr (ESP_ERR_INVALID_ARG, None)
     | Some h \<Rightarrow> bindR (timer_get h st)
         (\<lambda>t. if tm_period t > 0 then Inr (ESP_ERR_NOT_SUPPORTED, None)
              else Inr (ESP_OK, Some (tm_alarm t))))"

definition esp_timer_is_active :: "nat \<Rightarrow> timers_t \<Rightarrow> bool res" where
  "esp_timer_is_active h st = bindR (timer_get h st) (\<lambda>t. Inr (timer_armed t))"

subsection \<open>Dispatch\<close>

text \<open>
  What happens to an expired timer before its callback runs: a periodic timer is armed again, a
  timer that skips unhandled events from the present time on when it is late.
\<close>

definition rearm :: "nat \<Rightarrow> nat \<Rightarrow> esp_timer \<Rightarrow> timers_t \<Rightarrow> timers_t res" where
  "rearm now h t st =
     (if tm_period t > 0
      then let skipped = to_int32 ((now - tm_alarm t) div tm_period t);
               alarm = if tm_skip t \<and> skipped > 1 then u64add now (tm_period t)
                       else u64add (tm_alarm t) (tm_period t)
           in timer_insert h True (timer_set h (t\<lparr>tm_alarm := alarm\<rparr>) st)
      else Inr (timer_set h (t\<lparr>tm_alarm := 0\<rparr>) st))"

text \<open>
  The loop of \<^verbatim>\<open>timer_process_alarm\<close>. The callbacks are a parameter: a callback may use the interface,
  so it maps states to states. The list \<open>clock\<close> has the times that the loop reads, one for each round;
  the model records every callback with the alarm that it was for.
\<close>

fun process_loop :: "(nat \<Rightarrow> nat \<Rightarrow> timers_t \<Rightarrow> timers_t) \<Rightarrow> esp_timer_dispatch_t \<Rightarrow> nat list \<Rightarrow> bool \<Rightarrow> timers_t \<Rightarrow>
    (bool \<times> nat option \<times> timers_t) res" where
  "process_loop callback d [] processed st = Inl Out_of_fuel"
| "process_loop callback d (now # clock) processed st = (case s_timers st d of
       [] \<Rightarrow> Inr (processed, None, st)
     | it # its \<Rightarrow> bindR (timer_get it st)
         (\<lambda>t. if tm_alarm t > now then Inr (processed, Some it, st)
              else let st = set_list d its st
                   in if tm_callback t = EVENT_ID_DELETE_TIMER
                      then process_loop callback d clock True (st\<lparr>tm_mem := (tm_mem st)(it := None)\<rparr>)
                      else bindR (rearm now it t st)
                        (\<lambda>st. process_loop callback d clock True
                          (callback (tm_callback t) (tm_arg t)
                            (st\<lparr>dispatched := dispatched st @ [(it, tm_alarm t)]\<rparr>)))))"

definition timer_process_alarm :: "(nat \<Rightarrow> nat \<Rightarrow> timers_t \<Rightarrow> timers_t) \<Rightarrow> esp_timer_dispatch_t \<Rightarrow> nat list \<Rightarrow>
    timers_t \<Rightarrow> (timers_t \<times> bool) res" where
  "timer_process_alarm callback d clock st =
     bindR (process_loop callback d clock False st)
       (\<lambda>(processed, it, st). case it of
          Some h \<Rightarrow> bindR (timer_get h st)
            (\<lambda>t. Inr (if d = ESP_TIMER_TASK \<or> processed
                      then esp_timer_impl_set_alarm_id (tm_alarm t) d st else st, processed))
        | None \<Rightarrow> Inr (if processed then esp_timer_impl_set_alarm_id UINT64_MAX d st else st, processed))"

text \<open>A round of the timer task, and the interrupt handler.\<close>

definition timer_task :: "(nat \<Rightarrow> nat \<Rightarrow> timers_t \<Rightarrow> timers_t) \<Rightarrow> nat list \<Rightarrow> timers_t \<Rightarrow> timers_t res" where
  "timer_task callback clock st =
     bindR (timer_process_alarm callback ESP_TIMER_TASK clock (st\<lparr>task_notified := False\<rparr>)) (\<lambda>(st, b). Inr st)"

definition timer_alarm_handler :: "(nat \<Rightarrow> nat \<Rightarrow> timers_t \<Rightarrow> timers_t) \<Rightarrow> nat list \<Rightarrow> timers_t \<Rightarrow> timers_t res" where
  "timer_alarm_handler callback clock st =
     bindR (timer_process_alarm callback ESP_TIMER_ISR clock st)
       (\<lambda>(st, isr_timers_processed). Inr (if isr_timers_processed then st else st\<lparr>task_notified := True\<rparr>))"

subsection \<open>Start and end, and the next alarm\<close>

definition esp_timer_init :: "bool \<Rightarrow> bool \<Rightarrow> timers_t \<Rightarrow> timers_t \<times> esp_err" where
  "esp_timer_init task_ok impl_ok st =
     (if s_timer_task st then (st, ESP_ERR_INVALID_STATE)
      else if task_ok \<and> impl_ok then (st\<lparr>s_timer_task := True\<rparr>, ESP_OK)
      else (st, ESP_ERR_NO_MEM))"

definition esp_timer_deinit :: "timers_t \<Rightarrow> timers_t \<times> esp_err" where
  "esp_timer_deinit st =
     (if \<not> s_timer_task st then (st, ESP_ERR_INVALID_STATE)
      else if s_timers st ESP_TIMER_TASK \<noteq> [] \<or> s_timers st ESP_TIMER_ISR \<noteq> [] then (st, ESP_ERR_INVALID_STATE)
      else (st\<lparr>s_timer_task := False\<rparr>, ESP_OK))"

fun next_alarm_loop :: "(esp_timer \<Rightarrow> bool) \<Rightarrow> nat \<Rightarrow> nat list \<Rightarrow> timers_t \<Rightarrow> nat res" where
  "next_alarm_loop wanted next [] st = Inr next"
| "next_alarm_loop wanted next (it # its) st =
     bindR (timer_get it st)
       (\<lambda>t. if wanted t then Inr (min next (tm_alarm t)) else next_alarm_loop wanted next its st)"

definition esp_timer_get_next_alarm :: "timers_t \<Rightarrow> nat res" where
  "esp_timer_get_next_alarm st =
     bindR (next_alarm_loop (\<lambda>_. True) INT64_MAX (s_timers st ESP_TIMER_TASK) st)
       (\<lambda>next. next_alarm_loop (\<lambda>_. True) next (s_timers st ESP_TIMER_ISR) st)"

definition esp_timer_get_next_alarm_for_wake_up :: "timers_t \<Rightarrow> nat res" where
  "esp_timer_get_next_alarm_for_wake_up st =
     bindR (next_alarm_loop (\<lambda>t. \<not> tm_skip t) INT64_MAX (s_timers st ESP_TIMER_TASK) st)
       (\<lambda>next. next_alarm_loop (\<lambda>t. \<not> tm_skip t) next (s_timers st ESP_TIMER_ISR) st)"

end
