(* ===== verification/Esp_Timer_Inv.thy ===== *)
theory Esp_Timer_Inv
  imports Esp_Timer
begin

text \<open>
  The invariant of the timer lists and alarm registers, and that every operation of the interface,
  the dispatch of expired timers included, preserves it and runs without a fault.
\<close>

section \<open>The invariant\<close>

definition alarm_at :: "timers_t \<Rightarrow> nat \<Rightarrow> nat" where
  "alarm_at st h = (case tm_mem st h of Some t \<Rightarrow> tm_alarm t | None \<Rightarrow> 0)"

definition armed_in :: "timers_t \<Rightarrow> esp_timer_dispatch_t \<Rightarrow> nat \<Rightarrow> bool" where
  "armed_in st d h \<longleftrightarrow> (\<exists>t. tm_mem st h = Some t \<and> 0 < tm_alarm t \<and> tm_alarm t < 2 ^ 64 \<and> dispatch_of t = d)"

text \<open>
  The lists are sorted by alarm and hold exactly the armed timers of their dispatch method, but for
  those in \<open>X\<close>, which are in no list.
\<close>

definition lists_ok :: "nat set \<Rightarrow> timers_t \<Rightarrow> bool" where
  "lists_ok X st \<longleftrightarrow>
     (\<forall>d. distinct (s_timers st d) \<and> sorted (map (alarm_at st) (s_timers st d)) \<and>
          (\<forall>h \<in> set (s_timers st d). h \<notin> X \<and> armed_in st d h)) \<and>
     (\<forall>h t. tm_mem st h = Some t \<longrightarrow> h < tm_brk st \<and> tm_period t < 2 ^ 56 \<and>
          (h \<notin> X \<longrightarrow> 0 < tm_alarm t \<longrightarrow> h \<in> set (s_timers st (dispatch_of t))))"

text \<open>The register of a dispatch method has the alarm of the first timer; the target is the earlier one.\<close>

definition reg_ok :: "timers_t \<Rightarrow> esp_timer_dispatch_t \<Rightarrow> bool" where
  "reg_ok st d \<longleftrightarrow> timestamp_id st d = (case s_timers st d of [] \<Rightarrow> UINT64_MAX | f # _ \<Rightarrow> alarm_at st f)"

definition target_ok :: "timers_t \<Rightarrow> bool" where
  "target_ok st \<longleftrightarrow>
     (let m = min (timestamp_id st ESP_TIMER_TASK) (timestamp_id st ESP_TIMER_ISR)
      in m \<noteq> UINT64_MAX \<longrightarrow> alarm_target st = Some m)"

definition tm_inv :: "esp_timer_dispatch_t set \<Rightarrow> timers_t \<Rightarrow> bool" where
  "tm_inv D st \<longleftrightarrow> lists_ok {} st \<and> (\<forall>d. d \<notin> D \<longrightarrow> reg_ok st d) \<and> target_ok st"

lemma set_list_simps [simp]:
  "tm_mem (set_list d l st) = tm_mem st" "tm_brk (set_list d l st) = tm_brk st"
  "s_timers (set_list d l st) = (s_timers st)(d := l)" "s_timer_task (set_list d l st) = s_timer_task st"
  "timestamp_id (set_list d l st) = timestamp_id st" "alarm_target (set_list d l st) = alarm_target st"
  "dispatched (set_list d l st) = dispatched st"
  by (simp_all add: set_list_def)

lemma timer_set_simps [simp]:
  "tm_mem (timer_set h t st) = (tm_mem st)(h \<mapsto> t)" "tm_brk (timer_set h t st) = tm_brk st"
  "s_timers (timer_set h t st) = s_timers st" "s_timer_task (timer_set h t st) = s_timer_task st"
  "timestamp_id (timer_set h t st) = timestamp_id st" "alarm_target (timer_set h t st) = alarm_target st"
  "dispatched (timer_set h t st) = dispatched st"
  by (simp_all add: timer_set_def)

lemma set_alarm_simps [simp]:
  "tm_mem (esp_timer_impl_set_alarm_id ts d st) = tm_mem st"
  "tm_brk (esp_timer_impl_set_alarm_id ts d st) = tm_brk st"
  "s_timers (esp_timer_impl_set_alarm_id ts d st) = s_timers st"
  "s_timer_task (esp_timer_impl_set_alarm_id ts d st) = s_timer_task st"
  "timestamp_id (esp_timer_impl_set_alarm_id ts d st) = (timestamp_id st)(d := ts)"
  "dispatched (esp_timer_impl_set_alarm_id ts d st) = dispatched st"
  by (simp_all add: esp_timer_impl_set_alarm_id_def Let_def)

lemma set_alarm_target [simp]: "target_ok (esp_timer_impl_set_alarm_id ts d st)"
  by (simp add: target_ok_def esp_timer_impl_set_alarm_id_def Let_def)

lemma lists_ok_cong:
  assumes "tm_mem st' = tm_mem st" "tm_brk st' = tm_brk st" "s_timers st' = s_timers st"
  shows "lists_ok X st' = lists_ok X st"
proof -
  have "alarm_at st' = alarm_at st" "armed_in st' = armed_in st"
    using assms(1) by (simp_all add: fun_eq_iff alarm_at_def armed_in_def)
  with assms show ?thesis by (simp add: lists_ok_def)
qed

lemma lists_ok_set_alarm [simp]: "lists_ok X (esp_timer_impl_set_alarm_id ts d st) = lists_ok X st"
  by (rule lists_ok_cong) simp_all

lemma alarm_at_set_alarm [simp]: "alarm_at (esp_timer_impl_set_alarm_id ts d st) = alarm_at st"
  by (simp add: fun_eq_iff alarm_at_def)

lemma alarm_at_set_list [simp]: "alarm_at (set_list d l st) = alarm_at st"
  by (simp add: fun_eq_iff alarm_at_def)

lemma alarm_at_timer_set [simp]: "alarm_at (timer_set h t st) = (alarm_at st)(h := tm_alarm t)"
  by (simp add: fun_eq_iff alarm_at_def)

lemma armed_in_set_list [simp]: "armed_in (set_list d l st) = armed_in st"
  by (simp add: fun_eq_iff armed_in_def)

lemma armed_in_timer_set: "h \<noteq> g \<Longrightarrow> armed_in (timer_set h t st) d g = armed_in st d g"
  by (simp add: armed_in_def)

lemma timer_get_eq: "timer_get h st = Inr t \<longleftrightarrow> tm_mem st h = Some t"
  by (simp add: timer_get_def split: option.splits)

lemma timer_get_Inr [simp]: "tm_mem st h = Some t \<Longrightarrow> timer_get h st = Inr t"
  by (simp add: timer_get_eq)

lemma lists_okD:
  assumes "lists_ok X st"
  shows "h \<in> set (s_timers st d) \<Longrightarrow> armed_in st d h" "h \<in> set (s_timers st d) \<Longrightarrow> h \<notin> X"
    "distinct (s_timers st d)" "sorted (map (alarm_at st) (s_timers st d))"
    "tm_mem st h = Some t \<Longrightarrow> h < tm_brk st" "tm_mem st h = Some t \<Longrightarrow> tm_period t < 2 ^ 56"
    "tm_mem st h = Some t \<Longrightarrow> h \<notin> X \<Longrightarrow> 0 < tm_alarm t \<Longrightarrow> h \<in> set (s_timers st (dispatch_of t))"
  using assms unfolding lists_ok_def by blast+

lemma lists_okI:
  assumes "\<And>d. distinct (s_timers st d)" "\<And>d. sorted (map (alarm_at st) (s_timers st d))"
    "\<And>d h. h \<in> set (s_timers st d) \<Longrightarrow> h \<notin> X \<and> armed_in st d h"
    "\<And>h t. tm_mem st h = Some t \<Longrightarrow> h < tm_brk st \<and> tm_period t < 2 ^ 56"
    "\<And>h t. tm_mem st h = Some t \<Longrightarrow> h \<notin> X \<Longrightarrow> 0 < tm_alarm t \<Longrightarrow> h \<in> set (s_timers st (dispatch_of t))"
  shows "lists_ok X st"
  using assms unfolding lists_ok_def by blast

lemma armed_in_unique: "armed_in st d h \<Longrightarrow> armed_in st d' h \<Longrightarrow> d' = d"
  by (auto simp: armed_in_def)

section \<open>Changes of one timer\<close>

text \<open>Changing a timer that is in no list.\<close>

lemma lists_ok_timer_set:
  assumes "lists_ok {h} st" "tm_mem st h \<noteq> None" "tm_period t < 2 ^ 56"
  shows "lists_ok {h} (timer_set h t st)"
proof -
  have "h \<notin> set (s_timers st d)" for d using assms(1) by (auto simp: lists_ok_def)
  then have m: "map (alarm_at (timer_set h t st)) (s_timers st d) = map (alarm_at st) (s_timers st d)"
    and a: "\<forall>g \<in> set (s_timers st d). armed_in (timer_set h t st) d g = armed_in st d g" for d
    by (auto simp: armed_in_def)
  show ?thesis
    using assms unfolding lists_ok_def timer_set_simps m by (auto simp: a)
qed

lemma lists_ok_release:
  assumes "lists_ok {h} st" "\<And>t. tm_mem st h = Some t \<Longrightarrow> tm_alarm t = 0"
  shows "lists_ok {} st"
  using assms unfolding lists_ok_def by (metis all_not_in_conv less_irrefl singletonD)

lemma lists_ok_free:
  assumes "lists_ok {h} st"
  shows "lists_ok {} (st\<lparr>tm_mem := (tm_mem st)(h := None)\<rparr>)"
proof -
  let ?st = "st\<lparr>tm_mem := (tm_mem st)(h := None)\<rparr>"
  have "h \<notin> set (s_timers st d)" for d using assms by (auto simp: lists_ok_def)
  then have m: "map (alarm_at ?st) (s_timers st d) = map (alarm_at st) (s_timers st d)"
    and a: "\<forall>g \<in> set (s_timers st d). armed_in ?st d g = armed_in st d g" for d
    by (auto simp: armed_in_def alarm_at_def)
  show ?thesis
    using assms unfolding lists_ok_def by (auto simp: a m)
qed

text \<open>Taking a timer out of its list.\<close>

lemma lists_ok_take:
  assumes ok: "lists_ok {} st" and h: "h \<in> set (s_timers st d)"
  shows "list_remove h st = Inr (set_list d (remove1 h (s_timers st d)) st)"
    "lists_ok {h} (set_list d (remove1 h (s_timers st d)) st)"
proof -
  have other: "h \<notin> set (s_timers st d')" if "d' \<noteq> d" for d'
    using that h armed_in_unique lists_okD(1) [OF ok] by metis
  then show "list_remove h st = Inr (set_list d (remove1 h (s_timers st d)) st)"
    using h by (cases d) (auto simp: list_remove_def)
  have "sorted (map (alarm_at st) (remove1 h (s_timers st d)))"
    by (rule sorted_map_remove1 [OF lists_okD(4) [OF ok]])
  with ok other show "lists_ok {h} (set_list d (remove1 h (s_timers st d)) st)"
    unfolding lists_ok_def by (auto simp: set_remove1_eq)
qed

text \<open>Putting it into the list of its dispatch method.\<close>

lemma insert_loop_eq:
  assumes "\<forall>i \<in> set l. m i \<noteq> None"
  shows "insert_loop m h a l =
    (let P = \<lambda>i. tm_alarm (the (m i)) \<le> a in Inr (takeWhile P l @ h # dropWhile P l))"
  using assms by (induction l) (auto simp: Let_def not_less)

lemma set_insert_pos: "set (takeWhile P l @ h # dropWhile P l) = insert h (set l)"
  by (induction l) auto

lemma distinct_insert_pos: "distinct l \<Longrightarrow> h \<notin> set l \<Longrightarrow> distinct (takeWhile P l @ h # dropWhile P l)"
  by (induction l) (auto dest: set_takeWhileD set_dropWhileD)

lemma sorted_insert_pos:
  assumes "sorted (map f l)" "f h = a"
  shows "sorted (map f (takeWhile (\<lambda>i. f i \<le> a) l @ h # dropWhile (\<lambda>i. f i \<le> a) l))"
  using assms(1)
proof (induction l)
  case (Cons x l)
  then have IH: "sorted (map f (takeWhile (\<lambda>i. f i \<le> a) l @ h # dropWhile (\<lambda>i. f i \<le> a) l))"
    and x: "\<forall>y \<in> set l. f x \<le> f y" by simp_all
  show ?case
  proof (cases "f x \<le> a")
    case True
    with x assms(2) have "\<forall>y \<in> insert h (set l). f x \<le> f y" by simp
    then have "\<forall>y \<in> set (takeWhile (\<lambda>i. f i \<le> a) l @ h # dropWhile (\<lambda>i. f i \<le> a) l). f x \<le> f y"
      by (simp only: set_insert_pos simp_thms)
    with True IH show ?thesis by auto
  next
    case False
    with Cons.prems assms(2) have "\<forall>y \<in> set (x # l). f h \<le> f y" using x by auto
    with False Cons.prems show ?thesis by simp
  qed
qed simp

text \<open>The list after an insertion.\<close>

definition inserted :: "timers_t \<Rightarrow> nat \<Rightarrow> nat list \<Rightarrow> nat list" where
  "inserted st h l = takeWhile (\<lambda>i. alarm_at st i \<le> alarm_at st h) l @ h # dropWhile (\<lambda>i. alarm_at st i \<le> alarm_at st h) l"

lemma insert_loop_inserted:
  assumes "lists_ok X st" "tm_mem st h = Some t"
  shows "insert_loop (tm_mem st) h (tm_alarm t) (s_timers st d) = Inr (inserted st h (s_timers st d))"
proof -
  have v: "\<forall>i \<in> set (s_timers st d). tm_mem st i \<noteq> None"
    using lists_okD(1) [OF assms(1)] by (auto simp: armed_in_def)
  then have "\<forall>i \<in> set (s_timers st d). tm_alarm (the (tm_mem st i)) = alarm_at st i"
    by (auto simp: alarm_at_def)
  then show ?thesis
    using assms(2) by (simp add: insert_loop_eq [OF v] inserted_def alarm_at_def Let_def
        cong: takeWhile_cong dropWhile_cong)
qed

lemma lists_ok_put:
  assumes ok: "lists_ok {h} st" and t: "tm_mem st h = Some t" "0 < tm_alarm t" "tm_alarm t < 2 ^ 64"
  shows "lists_ok {} (set_list (dispatch_of t) (inserted st h (s_timers st (dispatch_of t))) st)"
proof -
  let ?d = "dispatch_of t" and ?l = "inserted st h (s_timers st (dispatch_of t))"
  have h: "h \<notin> set (s_timers st d)" for d using lists_okD(2) [OF ok] by blast
  have l: "set ?l = insert h (set (s_timers st ?d))" unfolding inserted_def by (rule set_insert_pos)
  show ?thesis
  proof (rule lists_okI)
    fix d
    show "distinct (s_timers (set_list ?d ?l st) d)"
      using lists_okD(3) [OF ok] distinct_insert_pos [OF lists_okD(3) [OF ok] h] by (simp add: inserted_def)
    show "sorted (map (alarm_at (set_list ?d ?l st)) (s_timers (set_list ?d ?l st) d))"
      using lists_okD(4) [OF ok] sorted_insert_pos [OF lists_okD(4) [OF ok] refl] by (simp add: inserted_def)
  next
    fix d g assume "g \<in> set (s_timers (set_list ?d ?l st) d)"
    then show "g \<notin> {} \<and> armed_in (set_list ?d ?l st) d g"
      using lists_okD(1) [OF ok, of g d] l t by (auto simp: armed_in_def split: if_splits)
  next
    fix g u assume g: "tm_mem (set_list ?d ?l st) g = Some u"
    then show "g < tm_brk (set_list ?d ?l st) \<and> tm_period u < 2 ^ 56"
      using lists_okD(5,6) [OF ok, of g u] by simp
    assume "0 < tm_alarm u"
    with g have "if g = h then u = t else g \<in> set (s_timers st (dispatch_of u))"
      using t(1) lists_okD(7) [OF ok, of g u] by (cases "g = h") simp_all
    then show "g \<in> set (s_timers (set_list ?d ?l st) (dispatch_of u))"
      by (cases "dispatch_of u = ?d") (simp_all add: l split: if_splits)
  qed
qed

section \<open>The operations on a list\<close>

lemma reg_ok_cong:
  assumes "timestamp_id st' d = timestamp_id st d" "s_timers st' d = s_timers st d"
    "s_timers st d \<noteq> [] \<Longrightarrow> alarm_at st' (hd (s_timers st d)) = alarm_at st (hd (s_timers st d))"
  shows "reg_ok st' d = reg_ok st d"
  using assms by (auto simp: reg_ok_def split: list.splits)

lemma inserted_not_Nil [simp]: "inserted st h l \<noteq> []"
  by (simp add: inserted_def)

lemma hd_inserted: "hd (inserted st h l) \<noteq> h \<Longrightarrow> l \<noteq> [] \<and> hd (inserted st h l) = hd l"
  by (cases l) (auto simp: inserted_def split: if_splits)

text \<open>
  Arming a timer that is in no list, as all starting operations do: the list has it at its place, the
  register follows when it is the first.
\<close>

lemma target_ok_cong:
  "timestamp_id st' = timestamp_id st \<Longrightarrow> alarm_target st' = alarm_target st \<Longrightarrow> target_ok st' = target_ok st"
  by (simp add: target_ok_def)

lemma timer_insert_ok:
  assumes ok: "lists_ok {h} st" and t: "tm_mem st h = Some t" "0 < tm_alarm t" "tm_alarm t < 2 ^ 64"
  defines "l \<equiv> inserted st h (s_timers st (dispatch_of t))"
  obtains st' where "timer_insert h upd st = Inr st'" "lists_ok {} st'" "tm_mem st' = tm_mem st"
    "s_timers st' = (s_timers st)(dispatch_of t := l)" "s_timer_task st' = s_timer_task st"
    "dispatched st' = dispatched st" "tm_brk st' = tm_brk st"
    "upd \<Longrightarrow> timestamp_id st' = timestamp_id st \<and> alarm_target st' = alarm_target st"
    "\<And>D. \<not> upd \<Longrightarrow> (\<forall>d. d \<notin> D \<longrightarrow> reg_ok st d) \<Longrightarrow> target_ok st \<Longrightarrow> tm_inv D st'"
proof -
  let ?d = "dispatch_of t"
  let ?st = "set_list ?d l st"
  let ?st' = "if \<not> upd \<and> hd l = h then esp_timer_impl_set_alarm_id (tm_alarm t) ?d ?st else ?st"
  have ins: "timer_insert h upd st = Inr ?st'"
    using insert_loop_inserted [OF ok t(1), of ?d] t(1) by (simp add: timer_insert_def l_def)
  have put: "lists_ok {} ?st" unfolding l_def by (rule lists_ok_put [OF ok t])
  have inv: "tm_inv D ?st'" if "\<not> upd" "\<forall>d. d \<notin> D \<longrightarrow> reg_ok st d" "target_ok st" for D
  proof (cases "hd l = h")
    case True
    with t(1) have "reg_ok ?st' ?d" using that(1) by (cases l) (auto simp: reg_ok_def alarm_at_def l_def)
    moreover have "reg_ok ?st' d = reg_ok st d" if "d \<noteq> ?d" for d
      using that by (intro reg_ok_cong) auto
    ultimately have "d \<notin> D \<Longrightarrow> reg_ok ?st' d" for d using that(2) by (cases "d = ?d") auto
    then show ?thesis using True put that by (simp add: tm_inv_def)
  next
    case False
    then have l: "s_timers st ?d \<noteq> []" "hd l = hd (s_timers st ?d)"
      using hd_inserted unfolding l_def by metis+
    then have "reg_ok ?st d = reg_ok st d" for d
      by (cases "d = ?d") (auto simp: reg_ok_def l_def split: list.splits)
    with False put that show ?thesis by (auto simp: tm_inv_def target_ok_def)
  qed
  show thesis
    by (rule that [OF ins]) (use put inv in \<open>auto split: if_splits\<close>)
qed

lemma timer_remove_ok:
  assumes ok: "lists_ok {} st" and t: "tm_mem st h = Some t" "0 < tm_alarm t"
  obtains st' where "timer_remove h st = Inr st'" "lists_ok {h} st'"
    "tm_mem st' = (tm_mem st)(h \<mapsto> t\<lparr>tm_alarm := 0, tm_period := 0\<rparr>)"
    "s_timers st' = (s_timers st)(dispatch_of t := remove1 h (s_timers st (dispatch_of t)))"
    "s_timer_task st' = s_timer_task st" "tm_brk st' = tm_brk st" "dispatched st' = dispatched st"
    "\<And>D. (\<forall>d. d \<notin> D \<longrightarrow> reg_ok st d) \<Longrightarrow> target_ok st \<Longrightarrow> (\<forall>d. d \<notin> D \<longrightarrow> reg_ok st' d) \<and> target_ok st'"
proof -
  let ?d = "dispatch_of t"
  let ?l = "remove1 h (s_timers st ?d)"
  let ?t = "t\<lparr>tm_alarm := 0, tm_period := 0\<rparr>"
  let ?st = "timer_set h ?t (set_list ?d ?l st)"
  let ?first = "s_timers st ?d \<noteq> [] \<and> hd (s_timers st ?d) = h"
  let ?next = "case ?l of [] \<Rightarrow> UINT64_MAX | f # _ \<Rightarrow> alarm_at st f"
  let ?st' = "if ?first then esp_timer_impl_set_alarm_id ?next ?d ?st else ?st"
  have h: "h \<in> set (s_timers st ?d)" using lists_okD(7) [OF ok t(1)] t(2) by simp
  note take = lists_ok_take [OF ok h]
  have h': "h \<notin> set ?l" "\<And>d. h \<notin> set (s_timers (set_list ?d ?l st) d)"
    using lists_okD(2) [OF take(2)] lists_okD(3) [OF ok] by (simp add: set_remove1_eq, blast)
  have put: "lists_ok {h} ?st"
    using lists_ok_timer_set [OF take(2), of ?t] t(1) by simp
  have "next_timestamp ?l ?st = Inr ?next"
  proof (cases ?l)
    case (Cons f fs)
    then have f: "f \<in> set ?l" by simp
    with h'(1) have "f \<in> set (s_timers st ?d)" "f \<noteq> h" by (metis notin_set_remove1, metis f)
    then obtain u where "tm_mem st f = Some u" using lists_okD(1) [OF ok] by (auto simp: armed_in_def)
    with \<open>f \<noteq> h\<close> Cons show ?thesis by (simp add: next_timestamp_def alarm_at_def)
  qed (simp add: next_timestamp_def)
  then have rem: "timer_remove h st = Inr ?st'"
    using take(1) t(1) by (simp add: timer_remove_def Let_def)
  have regs: "(\<forall>d. d \<notin> D \<longrightarrow> reg_ok ?st' d) \<and> target_ok ?st'"
    if "\<forall>d. d \<notin> D \<longrightarrow> reg_ok st d" "target_ok st" for D
  proof -
    have "reg_ok ?st' d = reg_ok st d" if "d \<noteq> ?d" for d
      using that h'(2) [of d] by (intro reg_ok_cong) (auto simp del: hd_in_set dest: hd_in_set)
    moreover have "reg_ok ?st' ?d" if "reg_ok st ?d"
    proof (cases ?first)
      case True
      with h'(1) show ?thesis by (auto simp: reg_ok_def split: list.splits)
    next
      case False
      with h that h'(1) show ?thesis by (cases "s_timers st ?d") (auto simp: reg_ok_def)
    qed
    ultimately have "d \<notin> D \<Longrightarrow> reg_ok ?st' d" for d using that(1) by (cases "d = ?d") auto
    with that(2) show ?thesis by (auto simp: target_ok_def [of ?st] target_ok_def [of st])
  qed
  show thesis
    by (rule that [OF rem]) (use put regs in simp_all)
qed

section \<open>The interface\<close>

lemma lists_ok_hold:
  assumes "lists_ok {} st" "tm_mem st h = Some t" "tm_alarm t = 0"
  shows "lists_ok {h} st"
proof -
  have "h \<notin> set (s_timers st d)" for d using lists_okD(1) [OF assms(1), of h d] assms(2,3) by (auto simp: armed_in_def)
  note h = this
  show ?thesis
    by (rule lists_okI) (use h lists_okD [OF assms(1)] in blast)+
qed

lemma reg_ok_timer_set:
  assumes "lists_ok {h} st"
  shows "reg_ok (timer_set h t st) d = reg_ok st d"
proof -
  have "h \<notin> set (s_timers st d)" using lists_okD(2) [OF assms] by blast
  then show ?thesis by (intro reg_ok_cong) (auto dest: hd_in_set)
qed

lemma timer_arm_ok:
  fixes t :: esp_timer and p :: nat
  assumes ok: "lists_ok {h} st" and regs: "\<forall>d. d \<notin> D \<longrightarrow> reg_ok st d" "target_ok st"
    and h: "tm_mem st h \<noteq> None" and a: "0 < alarm" "alarm < 2 ^ 64"
  defines "t' \<equiv> t\<lparr>tm_alarm := alarm, tm_period := period56 p\<rparr>"
  obtains st' where "timer_arm h alarm p t st = Inr (st', ESP_OK)" "tm_inv D st'"
    "tm_mem st' = (tm_mem st)(h \<mapsto> t')" "s_timer_task st' = s_timer_task st"
proof -
  let ?st = "timer_set h t' st"
  have l: "lists_ok {h} ?st" using ok h by (rule lists_ok_timer_set) (simp add: t'_def period56_def)
  have "tm_mem ?st h = Some t'" "0 < tm_alarm t'" "tm_alarm t' < 2 ^ 64" using a by (simp_all add: t'_def)
  then obtain st' where "timer_insert h False ?st = Inr st'" "tm_mem st' = tm_mem ?st"
      "s_timer_task st' = s_timer_task ?st"
      and inv: "\<And>D. (\<forall>d. d \<notin> D \<longrightarrow> reg_ok ?st d) \<Longrightarrow> target_ok ?st \<Longrightarrow> tm_inv D st'"
    using timer_insert_ok [OF l, where upd = False] by (metis (no_types, lifting))
  moreover have "tm_inv D st'"
    using regs by (intro inv) (simp_all add: reg_ok_timer_set [OF ok] target_ok_def)
  ultimately show thesis by (intro that [of st']) (simp_all add: timer_arm_def t'_def)
qed

lemma tm_invD:
  assumes "tm_inv D st"
  shows "lists_ok {} st" "\<forall>d. d \<notin> D \<longrightarrow> reg_ok st d" "target_ok st"
  using assms by (simp_all add: tm_inv_def)

text \<open>Whether an operation leaves the invariant and what it does to the other fields.\<close>

definition keeps :: "esp_timer_dispatch_t set \<Rightarrow> (timers_t \<times> esp_err) res \<Rightarrow> bool" where
  "keeps D r = (case r of Inl e \<Rightarrow> False | Inr (st, e) \<Rightarrow> tm_inv D st)"

lemma start_once_keeps:
  assumes inv: "tm_inv D st" and h: "\<forall>h. timer = Some h \<longrightarrow> tm_mem st h \<noteq> None"
    and a: "0 < now + timeout" "now + timeout < 2 ^ 64"
  shows "keeps D (esp_timer_start_once now timer timeout st)"
proof (cases timer)
  case (Some h)
  with h obtain t where t: "tm_mem st h = Some t" by auto
  show ?thesis
  proof (cases "s_timer_task st \<and> \<not> timer_armed t")
    case True
    with t have "lists_ok {h} st" using lists_ok_hold [OF tm_invD(1) [OF inv]] by (simp add: timer_armed_def)
    then obtain st' where "timer_arm h (u64add now timeout) 0 t st = Inr (st', ESP_OK)" "tm_inv D st'"
      using timer_arm_ok [OF _ tm_invD(2,3) [OF inv]] t a by (metis mod_less option.distinct(1) u64add_def)
    with True Some t show ?thesis by (simp add: keeps_def esp_timer_start_once_def)
  qed (use Some t inv in \<open>auto simp: keeps_def esp_timer_start_once_def\<close>)
qed (use inv in \<open>simp add: keeps_def esp_timer_start_once_def\<close>)

lemma start_periodic_keeps:
  assumes inv: "tm_inv D st" and h: "\<forall>h. timer = Some h \<longrightarrow> tm_mem st h \<noteq> None"
    and a: "now + max period esp_timer_impl_get_min_period_us < 2 ^ 64"
  shows "keeps D (esp_timer_start_periodic now timer period st)"
proof (cases timer)
  case (Some h)
  with h obtain t where t: "tm_mem st h = Some t" by auto
  let ?p = "max period esp_timer_impl_get_min_period_us"
  have p: "0 < u64add now ?p" "u64add now ?p < 2 ^ 64"
    using a by (simp_all add: u64add_def esp_timer_impl_get_min_period_us_def less_max_iff_disj)
  show ?thesis
  proof (cases "s_timer_task st \<and> \<not> timer_armed t")
    case True
    with t have "lists_ok {h} st" using lists_ok_hold [OF tm_invD(1) [OF inv]] by (simp add: timer_armed_def)
    then obtain st' where "timer_arm h (u64add now ?p) ?p t st = Inr (st', ESP_OK)" "tm_inv D st'"
      using timer_arm_ok [OF _ tm_invD(2,3) [OF inv] _ p] t by (metis option.distinct(1))
    with True Some t show ?thesis by (simp add: keeps_def esp_timer_start_periodic_def Let_def)
  qed (use Some t inv in \<open>auto simp: keeps_def esp_timer_start_periodic_def\<close>)
qed (use inv in \<open>simp add: keeps_def esp_timer_start_periodic_def\<close>)

lemma stop_keeps:
  assumes inv: "tm_inv D st" and h: "\<forall>h. timer = Some h \<longrightarrow> tm_mem st h \<noteq> None"
  shows "keeps D (esp_timer_stop timer st)"
proof (cases timer)
  case (Some h)
  with h obtain t where t: "tm_mem st h = Some t" by auto
  show ?thesis
  proof (cases "s_timer_task st \<and> timer_armed t")
    case True
    obtain st' where s: "timer_remove h st = Inr st'" "lists_ok {h} st'"
      "tm_mem st' = (tm_mem st)(h \<mapsto> t\<lparr>tm_alarm := 0, tm_period := 0\<rparr>)"
      "(\<forall>d. d \<notin> D \<longrightarrow> reg_ok st' d) \<and> target_ok st'"
      using timer_remove_ok [OF tm_invD(1) [OF inv] t] True tm_invD(2,3) [OF inv] unfolding timer_armed_def
      by (metis (no_types, lifting))
    then have "lists_ok {} st'" by (intro lists_ok_release [OF s(2)]) auto
    with True Some t s show ?thesis by (simp add: keeps_def esp_timer_stop_def tm_inv_def)
  qed (use Some t inv in \<open>auto simp: keeps_def esp_timer_stop_def\<close>)
qed (use inv in \<open>simp add: keeps_def esp_timer_stop_def\<close>)

lemma delete_keeps:
  assumes inv: "tm_inv D st" and h: "\<forall>h. timer = Some h \<longrightarrow> tm_mem st h \<noteq> None" and a: "0 < now" "now < 2 ^ 64"
  shows "keeps D (esp_timer_delete now timer st)"
proof (cases timer)
  case (Some h)
  with h obtain t where t: "tm_mem st h = Some t" by auto
  let ?t = "t\<lparr>tm_isr := False, tm_callback := EVENT_ID_DELETE_TIMER\<rparr>"
  show ?thesis
  proof (cases "timer_armed t")
    case False
    with t have "lists_ok {h} st" using lists_ok_hold [OF tm_invD(1) [OF inv]] by (simp add: timer_armed_def)
    then obtain st' where "timer_arm h now 0 ?t st = Inr (st', ESP_OK)" "tm_inv D st'"
      using timer_arm_ok [OF _ tm_invD(2,3) [OF inv] _ a] t by (metis option.distinct(1))
    with False Some t show ?thesis by (simp add: keeps_def esp_timer_delete_def)
  qed (use Some t inv in \<open>auto simp: keeps_def esp_timer_delete_def\<close>)
qed (use inv in \<open>simp add: keeps_def esp_timer_delete_def\<close>)

text \<open>Restarting an armed timer is stopping it and starting it again.\<close>

lemma timer_remove_then:
  assumes ok: "lists_ok {} st" and t: "tm_mem st h = Some t" "0 < tm_alarm t"
  obtains st' where "timer_remove h st = Inr st'" "tm_mem st' h = Some (t\<lparr>tm_alarm := 0, tm_period := 0\<rparr>)"
    "s_timer_task st' = s_timer_task st"
  using timer_remove_ok [OF ok t] by (metis fun_upd_same)

lemma restart_eq:
  assumes ok: "lists_ok {} st" and t: "tm_mem st h = Some t" "0 < tm_alarm t" and init: "s_timer_task st"
  shows "esp_timer_restart now (Some h) timeout st =
    bindR (esp_timer_stop (Some h) st)
      (\<lambda>(st, e). if tm_period t = 0 then esp_timer_start_once now (Some h) timeout st
                 else esp_timer_start_periodic now (Some h) timeout st)"
proof -
  obtain st' where "timer_remove h st = Inr st'" "tm_mem st' h = Some (t\<lparr>tm_alarm := 0, tm_period := 0\<rparr>)"
      "s_timer_task st' = s_timer_task st"
    using timer_remove_then [OF ok t] .
  with t init show ?thesis
    by (simp add: esp_timer_restart_def esp_timer_stop_def esp_timer_start_once_def esp_timer_start_periodic_def
        timer_armed_def)
qed

lemma restart_keeps:
  assumes inv: "tm_inv D st" and h: "\<forall>h. timer = Some h \<longrightarrow> tm_mem st h \<noteq> None"
    and a: "0 < now + timeout" "now + max timeout esp_timer_impl_get_min_period_us < 2 ^ 64"
  shows "keeps D (esp_timer_restart now timer timeout st)"
proof (cases timer)
  case (Some h)
  with h obtain t where t: "tm_mem st h = Some t" by auto
  show ?thesis
  proof (cases "s_timer_task st \<and> timer_armed t")
    case True
    then have r: "0 < tm_alarm t" "s_timer_task st" by (simp_all add: timer_armed_def)
    obtain st' where st': "timer_remove h st = Inr st'" "tm_mem st' h \<noteq> None"
      using timer_remove_then [OF tm_invD(1) [OF inv] t r(1)] by (metis option.distinct(1))
    then have stop: "esp_timer_stop timer st = Inr (st', ESP_OK)"
      using True Some t by (simp add: esp_timer_stop_def)
    then have "tm_inv D st'" using stop_keeps [OF inv h] by (simp add: keeps_def)
    moreover have "now + timeout < 2 ^ 64" using a(2) by (simp add: max_def split: if_splits)
    ultimately have "keeps D (esp_timer_start_once now timer timeout st')"
      "keeps D (esp_timer_start_periodic now timer timeout st')"
      using start_once_keeps [of D st' timer now timeout] start_periodic_keeps [of D st' timer now timeout]
        st'(2) Some a by auto
    then show ?thesis
      using restart_eq [OF tm_invD(1) [OF inv] t r, of now timeout] stop Some by simp
  qed (use Some t inv in \<open>auto simp: keeps_def esp_timer_restart_def\<close>)
qed (use inv in \<open>simp add: keeps_def esp_timer_restart_def\<close>)

lemma create_inv:
  assumes inv: "tm_inv D st"
  shows "tm_inv D (fst (esp_timer_create mem_ok args st))"
proof -
  let ?h = "tm_brk st"
  let ?st = "\<lambda>t. timer_set ?h t (st\<lparr>tm_brk := tm_brk st + 1\<rparr>)"
  note ok = tm_invD(1) [OF inv]
  have new: "?h \<notin> set (s_timers st d)" for d
    using lists_okD(1) [OF ok, of ?h d] lists_okD(5) [OF ok, of ?h] by (auto simp: armed_in_def)
  have "tm_inv D (?st t)" if t: "tm_alarm t = 0" "tm_period t = 0" for t
  proof -
    have "armed_in (?st t) d g = armed_in st d g" "alarm_at (?st t) g = alarm_at st g" if "g \<in> set (s_timers st d)" for d g
      using that new [of d] by (auto simp: armed_in_def alarm_at_def)
    note eq = this
    have "lists_ok {} (?st t)"
    proof (rule lists_okI)
      fix d
      show "distinct (s_timers (?st t) d)" using lists_okD(3) [OF ok] by simp
      have "map (alarm_at (?st t)) (s_timers (?st t) d) = map (alarm_at st) (s_timers st d)"
        by (intro map_cong eq(2)) simp_all
      then show "sorted (map (alarm_at (?st t)) (s_timers (?st t) d))" using lists_okD(4) [OF ok, of d] by (simp only:)
    next
      fix d g assume "g \<in> set (s_timers (?st t) d)"
      then show "g \<notin> {} \<and> armed_in (?st t) d g" using eq(1) lists_okD(1) [OF ok] by simp
    next
      fix g u assume g: "tm_mem (?st t) g = Some u"
      then show "g < tm_brk (?st t) \<and> tm_period u < 2 ^ 56"
        using lists_okD(5,6) [OF ok, of g u] t by (auto split: if_splits)
      assume "0 < tm_alarm u"
      with g t show "g \<in> set (s_timers (?st t) (dispatch_of u))"
        using lists_okD(7) [OF ok, of g u] by (auto split: if_splits)
    qed
    moreover have "reg_ok (?st t) d = reg_ok st d" for d
      by (rule reg_ok_cong, simp, simp) (rule eq(2) [OF hd_in_set])
    ultimately show ?thesis using inv by (simp add: tm_inv_def target_ok_def)
  qed
  with inv show ?thesis by (auto simp: esp_timer_create_def split: option.splits)
qed

section \<open>Dispatch\<close>

text \<open>The first timer of a list, taken out of it.\<close>

lemma take_first:
  assumes inv: "tm_inv {d} st" and l: "s_timers st d = it # its"
  obtains t where "tm_mem st it = Some t" "dispatch_of t = d" "0 < tm_alarm t"
    "lists_ok {it} (set_list d its st)" "tm_period t < 2 ^ 56"
proof -
  note ok = tm_invD(1) [OF inv]
  obtain t where t: "tm_mem st it = Some t" "dispatch_of t = d" "0 < tm_alarm t"
    using lists_okD(1) [OF ok, of it d] l by (auto simp: armed_in_def)
  with lists_ok_take(2) [OF ok, of it d] l lists_okD(6) [OF ok t(1)] show thesis
    by (intro that) simp_all
qed

definition rearmed :: "nat \<Rightarrow> esp_timer \<Rightarrow> esp_timer" where
  "rearmed now t = t\<lparr>tm_alarm :=
     (if tm_period t > 0
      then if tm_skip t \<and> to_int32 ((now - tm_alarm t) div tm_period t) > 1 then u64add now (tm_period t)
           else u64add (tm_alarm t) (tm_period t)
      else 0)\<rparr>"

lemma rearm_ok:
  assumes inv: "tm_inv {d} st" and l: "s_timers st d = it # its" and t: "tm_mem st it = Some t"
    and now: "tm_alarm t \<le> now" "now < 2 ^ 63"
  obtains st' where "rearm now it t (set_list d its st) = Inr st'" "tm_inv {d} st'"
    "dispatched st' = dispatched st" "tm_mem st' = (tm_mem st)(it \<mapsto> rearmed now t)"
    "set (s_timers st' d) = (if tm_period t > 0 then insert it (set its) else set its)"
proof -
  from take_first [OF inv l] t have u: "dispatch_of t = d" "0 < tm_alarm t" "lists_ok {it} (set_list d its st)"
      "tm_period t < 2 ^ 56" by (metis option.inject)+
  let ?st = "set_list d its st"
  have regs: "reg_ok st' d' = reg_ok st d'" if "d' \<noteq> d" "s_timers st' d' = s_timers st d'"
      "timestamp_id st' = timestamp_id st" "\<forall>g. g \<noteq> it \<longrightarrow> tm_mem st' g = tm_mem st g" for st' d'
  proof (rule reg_ok_cong)
    assume "s_timers st d' \<noteq> []"
    then have "armed_in st d' (hd (s_timers st d'))"
      by (intro lists_okD(1) [OF tm_invD(1) [OF inv]]) simp
    then have "hd (s_timers st d') \<noteq> it" using t u(1) that(1) by (auto simp: armed_in_def)
    with that(4) show "alarm_at st' (hd (s_timers st d')) = alarm_at st (hd (s_timers st d'))"
      by (simp add: alarm_at_def)
  qed (use that in simp_all)
  show thesis
  proof (cases "tm_period t > 0")
    case True
    define alarm where "alarm = (if tm_skip t \<and> to_int32 ((now - tm_alarm t) div tm_period t) > 1
      then u64add now (tm_period t) else u64add (tm_alarm t) (tm_period t))"
    let ?t = "t\<lparr>tm_alarm := alarm\<rparr>"
    have a: "0 < alarm" "alarm < 2 ^ 64"
      using True u(2,4) now by (auto simp: alarm_def u64add_def)
    have ok: "lists_ok {it} (timer_set it ?t ?st)"
      using u(3) t u(4) by (intro lists_ok_timer_set) simp_all
    obtain st' where st': "timer_insert it True (timer_set it ?t ?st) = Inr st'" "lists_ok {} st'"
        "tm_mem st' = tm_mem (timer_set it ?t ?st)"
        "s_timers st' = (s_timers (timer_set it ?t ?st))(dispatch_of ?t :=
           inserted (timer_set it ?t ?st) it (s_timers (timer_set it ?t ?st) (dispatch_of ?t)))"
        "timestamp_id st' = timestamp_id (timer_set it ?t ?st) \<and> alarm_target st' = alarm_target (timer_set it ?t ?st)"
        "dispatched st' = dispatched st"
      using timer_insert_ok [OF ok, of ?t True] a by (simp add: dispatch_of_def) (metis (no_types, lifting))
    have "dispatch_of ?t = d" using u(1) by (simp add: dispatch_of_def)
    with st' have "tm_inv {d} st'"
      using inv regs [of _ st'] by (auto simp: tm_inv_def target_ok_def)
    moreover have "set (s_timers st' d) = insert it (set its)"
      using st'(4) \<open>dispatch_of ?t = d\<close> by (simp add: inserted_def set_insert_pos [unfolded set_append, simplified])
    ultimately show ?thesis
      using True st' by (intro that [of st']) (simp_all add: rearm_def rearmed_def alarm_def Let_def)
  next
    case False
    let ?st' = "timer_set it (t\<lparr>tm_alarm := 0\<rparr>) ?st"
    have "lists_ok {it} ?st'" using u(3) t u(4) by (intro lists_ok_timer_set) simp_all
    then have "lists_ok {} ?st'" by (rule lists_ok_release) auto
    then have "tm_inv {d} ?st'" using inv regs [of _ ?st'] by (auto simp: tm_inv_def target_ok_def)
    with False show ?thesis by (intro that [of ?st']) (simp_all add: rearm_def rearmed_def)
  qed
qed

text \<open>Callbacks that keep the invariant, also while the register of the list in work is behind.\<close>

definition callback_ok :: "(nat \<Rightarrow> nat \<Rightarrow> timers_t \<Rightarrow> timers_t) \<Rightarrow> bool" where
  "callback_ok callback \<longleftrightarrow> (\<forall>D f a st. tm_inv D st \<longrightarrow> tm_inv D (callback f a st))"

lemma tm_inv_log [simp]: "tm_inv D (st\<lparr>dispatched := x\<rparr>) = tm_inv D st"
proof -
  have "lists_ok {} (st\<lparr>dispatched := x\<rparr>) = lists_ok {} st" by (rule lists_ok_cong) simp_all
  moreover have "reg_ok (st\<lparr>dispatched := x\<rparr>) d = reg_ok st d" for d
    by (rule reg_ok_cong) (simp_all add: alarm_at_def)
  ultimately show ?thesis by (simp add: tm_inv_def target_ok_def)
qed

lemma tm_inv_notified [simp]: "tm_inv D (st\<lparr>task_notified := x\<rparr>) = tm_inv D st"
proof -
  have "lists_ok {} (st\<lparr>task_notified := x\<rparr>) = lists_ok {} st" by (rule lists_ok_cong) simp_all
  moreover have "reg_ok (st\<lparr>task_notified := x\<rparr>) d = reg_ok st d" for d
    by (rule reg_ok_cong) (simp_all add: alarm_at_def)
  ultimately show ?thesis by (simp add: tm_inv_def target_ok_def)
qed

lemma free_first:
  assumes inv: "tm_inv {d} st" and l: "s_timers st d = it # its"
  shows "tm_inv {d} ((set_list d its st)\<lparr>tm_mem := (tm_mem st)(it := None)\<rparr>)"
proof -
  let ?st = "(set_list d its st)\<lparr>tm_mem := (tm_mem st)(it := None)\<rparr>"
  obtain t where t: "tm_mem st it = Some t" "dispatch_of t = d" "lists_ok {it} (set_list d its st)"
    using take_first [OF inv l] by metis
  then have "lists_ok {} ?st" using lists_ok_free [OF t(3)] by simp
  moreover have "reg_ok ?st d' = reg_ok st d'" if "d' \<noteq> d" for d'
  proof (rule reg_ok_cong)
    assume "s_timers st d' \<noteq> []"
    then have "armed_in st d' (hd (s_timers st d'))"
      by (intro lists_okD(1) [OF tm_invD(1) [OF inv]]) simp
    then have "hd (s_timers st d') \<noteq> it" using t that by (auto simp: armed_in_def)
    then show "alarm_at ?st (hd (s_timers st d')) = alarm_at st (hd (s_timers st d'))"
      by (simp add: alarm_at_def)
  qed (use that in simp_all)
  ultimately show ?thesis using inv by (simp add: tm_inv_def target_ok_def)
qed

text \<open>The loop ends at the first timer that is not due, or runs out of clock readings.\<close>

lemma process_loop_ok:
  assumes cb: "callback_ok callback" and inv: "tm_inv {d} st" and clock: "\<forall>c \<in> set clock. c < 2 ^ 63"
  shows "process_loop callback d clock p st = Inl Out_of_fuel \<or>
    (\<exists>p' it st'. process_loop callback d clock p st = Inr (p', it, st') \<and> tm_inv {d} st' \<and>
      it = (case s_timers st' d of [] \<Rightarrow> None | h # _ \<Rightarrow> Some h) \<and> (p \<longrightarrow> p') \<and> (\<not> p' \<longrightarrow> st' = st))"
  using inv clock
proof (induction clock arbitrary: p st)
  case (Cons now clock)
  show ?case
  proof (cases "s_timers st d")
    case Nil
    then show ?thesis using Cons.prems(1) by simp
  next
    case l: (Cons it its)
    obtain t where t: "tm_mem st it = Some t" using take_first [OF Cons.prems(1) l] by metis
    show ?thesis
    proof (cases "tm_alarm t > now")
      case True
      then show ?thesis using l t Cons.prems(1) by simp
    next
      case due: False
      show ?thesis
      proof (cases "tm_callback t = EVENT_ID_DELETE_TIMER")
        case True
        from free_first [OF Cons.prems(1) l] Cons.prems(2) show ?thesis
          using Cons.IH [of _ True] due l t True by fastforce
      next
        case False
        from due Cons.prems(2) obtain st1 where st1: "rearm now it t (set_list d its st) = Inr st1" "tm_inv {d} st1"
          using rearm_ok [OF Cons.prems(1) l t] by (metis list.set_intros(1) not_less)
        let ?st2 = "callback (tm_callback t) (tm_arg t) (st1\<lparr>dispatched := dispatched st1 @ [(it, tm_alarm t)]\<rparr>)"
        have "tm_inv {d} ?st2" using cb st1(2) unfolding callback_ok_def by simp
        then show ?thesis using Cons.IH [of ?st2 True] Cons.prems(2) due l t False st1(1) by fastforce
      qed
    qed
  qed
qed simp

lemma process_alarm_ok:
  assumes cb: "callback_ok callback" and inv: "tm_inv D st" and clock: "\<forall>c \<in> set clock. c < 2 ^ 63"
    and D: "D \<subseteq> {d}"
  shows "timer_process_alarm callback d clock st = Inl Out_of_fuel \<or>
    (\<exists>p st'. timer_process_alarm callback d clock st = Inr (st', p) \<and> tm_inv (if p \<or> d = ESP_TIMER_TASK \<and> s_timers st' d \<noteq> [] then {} else D) st')"
proof -
  have "tm_inv {d} st" using inv D by (auto simp: tm_inv_def)
  from process_loop_ok [OF cb this clock, of False] consider
    "process_loop callback d clock False st = Inl Out_of_fuel"
    | p it st' where "process_loop callback d clock False st = Inr (p, it, st')" "tm_inv {d} st'"
      "it = (case s_timers st' d of [] \<Rightarrow> None | h # _ \<Rightarrow> Some h)" "\<not> p \<longrightarrow> st' = st"
    by blast
  then show ?thesis
  proof cases
    case 1
    then show ?thesis by (simp add: timer_process_alarm_def)
  next
    case 2
    have set: "tm_inv {} (esp_timer_impl_set_alarm_id ts d st')"
      if "ts = (case s_timers st' d of [] \<Rightarrow> UINT64_MAX | h # _ \<Rightarrow> alarm_at st' h)" for ts
    proof -
      have "reg_ok (esp_timer_impl_set_alarm_id ts d st') d'" for d'
        using 2(2) that by (cases "d' = d") (auto simp: tm_inv_def reg_ok_def split: list.splits)
      then show ?thesis using 2(2) by (simp add: tm_inv_def)
    qed
    show ?thesis
    proof (cases "s_timers st' d")
      case Nil
      then show ?thesis using 2 set [of UINT64_MAX] inv by (auto simp: timer_process_alarm_def)
    next
      case (Cons h l)
      obtain t where t: "tm_mem st' h = Some t" using take_first [OF 2(2) Cons] by metis
      then have "alarm_at st' h = tm_alarm t" by (simp add: alarm_at_def)
      then show ?thesis using 2 set [of "tm_alarm t"] inv Cons t by (auto simp: timer_process_alarm_def)
    qed
  qed
qed

end
