(* ===== verification/Esp_Timer_Props.thy ===== *)
theory Esp_Timer_Props
  imports Esp_Timer_Inv
begin

text \<open>
  Properties of the timer: safety of every sequence of operations, the earliest alarm, restarting,
  complete and ordered dispatch of what is due, and the alarm interrupt.
\<close>

section \<open>Sequences of operations\<close>

datatype timer_op =
    Create bool "esp_timer_create_args_t option"
  | Start_once nat "nat option" nat
  | Start_periodic nat "nat option" nat
  | Restart nat "nat option" nat
  | Stop "nat option"
  | Delete nat "nat option"
  | Task_round "nat list"
  | Alarm_interrupt "nat list"

definition timer_exec :: "(nat \<Rightarrow> nat \<Rightarrow> timers_t \<Rightarrow> timers_t) \<Rightarrow> timer_op \<Rightarrow> timers_t \<Rightarrow> timers_t res" where
  "timer_exec callback op st = (case op of
       Create mem_ok args \<Rightarrow> Inr (fst (esp_timer_create mem_ok args st))
     | Start_once now h us \<Rightarrow> bindR (esp_timer_start_once now h us st) (\<lambda>r. Inr (fst r))
     | Start_periodic now h us \<Rightarrow> bindR (esp_timer_start_periodic now h us st) (\<lambda>r. Inr (fst r))
     | Restart now h us \<Rightarrow> bindR (esp_timer_restart now h us st) (\<lambda>r. Inr (fst r))
     | Stop h \<Rightarrow> bindR (esp_timer_stop h st) (\<lambda>r. Inr (fst r))
     | Delete now h \<Rightarrow> bindR (esp_timer_delete now h st) (\<lambda>r. Inr (fst r))
     | Task_round clock \<Rightarrow> timer_task callback clock st
     | Alarm_interrupt clock \<Rightarrow> timer_alarm_handler callback clock st)"

text \<open>
  What a client must respect: handles of timers that exist, the time after start, and sums of time
  and timeout below the end of the 63-bit range.
\<close>

definition handle_ok :: "nat option \<Rightarrow> timers_t \<Rightarrow> bool" where
  "handle_ok timer st \<longleftrightarrow> (\<forall>h. timer = Some h \<longrightarrow> tm_mem st h \<noteq> None)"

definition op_ok :: "timer_op \<Rightarrow> timers_t \<Rightarrow> bool" where
  "op_ok op st = (case op of
       Create _ _ \<Rightarrow> True
     | Start_once now h us \<Rightarrow> handle_ok h st \<and> 0 < now \<and> now + us < 2 ^ 63
     | Start_periodic now h us \<Rightarrow> handle_ok h st \<and> 0 < now \<and> now + max us 50 < 2 ^ 63
     | Restart now h us \<Rightarrow> handle_ok h st \<and> 0 < now \<and> now + max us 50 < 2 ^ 63
     | Stop h \<Rightarrow> handle_ok h st
     | Delete now h \<Rightarrow> handle_ok h st \<and> 0 < now \<and> now < 2 ^ 63
     | Task_round clock \<Rightarrow> \<forall>c \<in> set clock. c < 2 ^ 63
     | Alarm_interrupt clock \<Rightarrow> \<forall>c \<in> set clock. c < 2 ^ 63)"

definition timers_started :: timers_t where
  "timers_started = fst (esp_timer_init True True timers_boot)"

inductive timers_reach :: "(nat \<Rightarrow> nat \<Rightarrow> timers_t \<Rightarrow> timers_t) \<Rightarrow> timers_t \<Rightarrow> bool" for callback where
  started: "timers_reach callback timers_started"
| step: "timers_reach callback st \<Longrightarrow> op_ok op st \<Longrightarrow> timer_exec callback op st = Inr st' \<Longrightarrow> timers_reach callback st'"

definition waits_for_clock :: "timer_op \<Rightarrow> bool" where
  "waits_for_clock op = (case op of Task_round _ \<Rightarrow> True | Alarm_interrupt _ \<Rightarrow> True | _ \<Rightarrow> False)"

lemma keeps_exec:
  assumes "keeps {} r"
  shows "\<exists>st'. bindR r (\<lambda>r. Inr (fst r)) = Inr st' \<and> tm_inv {} st'"
  using assms by (cases r) (auto simp: keeps_def)

lemma timer_exec_ok:
  assumes cb: "callback_ok callback" and inv: "tm_inv {} st" and op: "op_ok op st"
  shows "(\<exists>st'. timer_exec callback op st = Inr st' \<and> tm_inv {} st') \<or>
    (timer_exec callback op st = Inl Out_of_fuel \<and> waits_for_clock op)"
proof (cases op)
  case (Create mem_ok args)
  then show ?thesis using create_inv [OF inv] by (simp add: timer_exec_def)
next
  case (Start_once now h us)
  with op show ?thesis using keeps_exec [OF start_once_keeps [OF inv, of h now us]]
    by (simp add: timer_exec_def op_ok_def handle_ok_def)
next
  case (Start_periodic now h us)
  with op show ?thesis using keeps_exec [OF start_periodic_keeps [OF inv, of h now us]]
    by (simp add: timer_exec_def op_ok_def handle_ok_def esp_timer_impl_get_min_period_us_def)
next
  case (Restart now h us)
  with op show ?thesis using keeps_exec [OF restart_keeps [OF inv, of h now us]]
    by (simp add: timer_exec_def op_ok_def handle_ok_def esp_timer_impl_get_min_period_us_def)
next
  case (Stop h)
  with op show ?thesis using keeps_exec [OF stop_keeps [OF inv, of h]]
    by (simp add: timer_exec_def op_ok_def handle_ok_def)
next
  case (Delete now h)
  with op show ?thesis using keeps_exec [OF delete_keeps [OF inv, of h now]]
    by (simp add: timer_exec_def op_ok_def handle_ok_def)
next
  case (Task_round clock)
  have "tm_inv {} (st\<lparr>task_notified := False\<rparr>)" using inv by simp
  from process_alarm_ok [OF cb this, of clock ESP_TIMER_TASK] Task_round op show ?thesis
    by (auto simp: timer_exec_def op_ok_def timer_task_def waits_for_clock_def split: if_splits)
next
  case (Alarm_interrupt clock)
  from process_alarm_ok [OF cb inv, of clock ESP_TIMER_ISR] Alarm_interrupt op show ?thesis
    by (auto simp: timer_exec_def op_ok_def timer_alarm_handler_def waits_for_clock_def split: if_splits)
qed

lemma tm_inv_started: "tm_inv {} timers_started"
  by (simp add: timers_started_def esp_timer_init_def timers_boot_def tm_inv_def lists_ok_def reg_ok_def target_ok_def)

lemma timers_reach_inv:
  assumes "callback_ok callback" "timers_reach callback st"
  shows "tm_inv {} st"
  using assms(2)
proof (induction rule: timers_reach.induct)
  case (step st op st')
  with timer_exec_ok [OF assms(1) step.IH step.hyps(2)] show ?case by simp
qed (rule tm_inv_started)

text \<open>
  C16. Timers are safe. From the start, after any sequence of operations and dispatches that respects
  the rules for handles and times, with callbacks that do so too, both lists hold exactly the armed
  timers of their method in the order of their alarms, and the alarm registers have the first alarms;
  and every further operation returns without using a freed timer, but for dispatch that waits for
  more clock readings.
\<close>
theorem timers_safe:
  assumes "callback_ok callback" "timers_reach callback st"
  shows "tm_inv {} st \<and> (\<forall>op. op_ok op st \<longrightarrow>
    (\<exists>st'. timer_exec callback op st = Inr st') \<or>
    (timer_exec callback op st = Inl Out_of_fuel \<and> waits_for_clock op))"
  using timers_reach_inv [OF assms] timer_exec_ok [OF assms(1)] by blast

text \<open>A callback that stops the timer that its argument names, and a state with an armed timer.\<close>

definition stopping :: "nat \<Rightarrow> nat \<Rightarrow> timers_t \<Rightarrow> timers_t" where
  "stopping f a st = (case esp_timer_stop (Some a) st of Inl _ \<Rightarrow> st | Inr (st', _) \<Rightarrow> st')"

lemma stopping_ok: "callback_ok stopping"
proof -
  have "tm_inv D (stopping f a st)" if "tm_inv D st" for D f a st
  proof (cases "tm_mem st a = None")
    case True
    with that show ?thesis by (simp add: stopping_def esp_timer_stop_def timer_get_def)
  next
    case False
    with stop_keeps [OF that, of "Some a"] show ?thesis
      by (auto simp: stopping_def keeps_def split: sum.splits)
  qed
  then show ?thesis by (simp add: callback_ok_def)
qed

definition demo_timer :: esp_timer where
  "demo_timer = \<lparr>tm_alarm = 0, tm_period = 0, tm_isr = False, tm_skip = False, tm_callback = 5, tm_arg = 0\<rparr>"

definition demo_timers :: timers_t where
  "demo_timers = timers_started\<lparr>tm_mem := [0 \<mapsto> demo_timer\<lparr>tm_alarm := 110\<rparr>], tm_brk := 1,
     s_timers := (\<lambda>_. [])(ESP_TIMER_TASK := [0]),
     timestamp_id := (\<lambda>_. UINT64_MAX)(ESP_TIMER_TASK := 110), alarm_target := Some 110\<rparr>"

lemma demo_timers_reach: "timers_reach callback demo_timers"
proof -
  let ?st = "timers_started\<lparr>tm_mem := [0 \<mapsto> demo_timer], tm_brk := 1\<rparr>"
  have "timers_reach callback ?st"
    by (rule timers_reach.step [OF timers_reach.started,
          where op = "Create True (Some \<lparr>ca_callback = Some 5, ca_arg = 0, ca_dispatch_method = 0,
                        ca_skip_unhandled_events = False\<rparr>)"])
      (simp_all add: op_ok_def timer_exec_def timers_started_def esp_timer_init_def timers_boot_def
        esp_timer_create_def timer_set_def demo_timer_def)
  then show ?thesis
    by (rule timers_reach.step [where op = "Start_once 10 (Some 0) 100"])
      (simp_all add: op_ok_def handle_ok_def timer_exec_def timers_started_def esp_timer_init_def timers_boot_def
        esp_timer_start_once_def timer_get_def timer_armed_def timer_arm_def timer_set_def timer_insert_def
        set_list_def esp_timer_impl_set_alarm_id_def u64add_def period56_def UINT64_MAX_def dispatch_of_def
        demo_timer_def demo_timers_def)
qed

theorem timers_safe_witness:
  "callback_ok stopping \<and> timers_reach stopping demo_timers \<and> op_ok (Delete 200 (Some 0)) demo_timers \<and>
   (\<exists>st'. timer_exec stopping (Delete 200 (Some 0)) demo_timers = Inr st')"
proof -
  have "op_ok (Delete 200 (Some 0)) demo_timers"
    by (simp add: op_ok_def handle_ok_def demo_timers_def)
  with stopping_ok demo_timers_reach [of stopping] timers_safe [OF stopping_ok demo_timers_reach] show ?thesis
    by (fastforce simp: waits_for_clock_def)
qed

section \<open>The earliest alarm\<close>

definition armed_alarms :: "(esp_timer \<Rightarrow> bool) \<Rightarrow> timers_t \<Rightarrow> nat set" where
  "armed_alarms wanted st = {tm_alarm t | h t. tm_mem st h = Some t \<and> 0 < tm_alarm t \<and> wanted t}"

definition listed_alarms :: "(esp_timer \<Rightarrow> bool) \<Rightarrow> timers_t \<Rightarrow> nat list \<Rightarrow> nat set" where
  "listed_alarms wanted st l = alarm_at st ` set (filter (\<lambda>h. wanted (the (tm_mem st h))) l)"

lemma finite_listed [simp]: "finite (listed_alarms wanted st l)"
  by (simp add: listed_alarms_def)

lemma next_alarm_loop_eq:
  assumes "\<forall>h \<in> set l. tm_mem st h \<noteq> None" "sorted (map (alarm_at st) l)"
  shows "next_alarm_loop wanted a l st = Inr (Min (insert a (listed_alarms wanted st l)))"
  using assms
proof (induction l)
  case (Cons h l)
  from Cons.prems obtain t where t: "tm_mem st h = Some t" by auto
  then have a: "alarm_at st h = tm_alarm t" by (simp add: alarm_at_def)
  show ?case
  proof (cases "wanted t")
    case True
    have "\<forall>x \<in> listed_alarms wanted st l. tm_alarm t \<le> x"
      using Cons.prems(2) a by (auto simp: listed_alarms_def)
    then have "Min (insert (tm_alarm t) (listed_alarms wanted st l)) = tm_alarm t" by (intro Min_eqI) auto
    moreover have "listed_alarms wanted st (h # l) = insert (tm_alarm t) (listed_alarms wanted st l)"
      using t a True by (simp add: listed_alarms_def)
    ultimately have "Min (insert a (listed_alarms wanted st (h # l))) = min a (tm_alarm t)"
      by (subst Min_insert) auto
    with True t show ?thesis by simp
  next
    case False
    with t Cons show ?thesis by (simp add: listed_alarms_def)
  qed
qed (simp add: listed_alarms_def)

lemma armed_alarms_lists:
  assumes "lists_ok {} st"
  shows "armed_alarms wanted st =
    listed_alarms wanted st (s_timers st ESP_TIMER_TASK) \<union> listed_alarms wanted st (s_timers st ESP_TIMER_ISR)"
proof (intro set_eqI iffI)
  fix a assume "a \<in> armed_alarms wanted st"
  then obtain h t where t: "tm_mem st h = Some t" "0 < tm_alarm t" "wanted t" "a = tm_alarm t"
    by (auto simp: armed_alarms_def)
  then have "a \<in> listed_alarms wanted st (s_timers st (dispatch_of t))"
    using lists_okD(7) [OF assms t(1) _ t(2)] by (auto simp: listed_alarms_def alarm_at_def intro!: image_eqI [of _ _ h])
  then show "a \<in> listed_alarms wanted st (s_timers st ESP_TIMER_TASK) \<union> listed_alarms wanted st (s_timers st ESP_TIMER_ISR)"
    by (cases "dispatch_of t") auto
next
  fix a assume "a \<in> listed_alarms wanted st (s_timers st ESP_TIMER_TASK) \<union> listed_alarms wanted st (s_timers st ESP_TIMER_ISR)"
  then obtain d h where h: "h \<in> set (s_timers st d)" "wanted (the (tm_mem st h))" "a = alarm_at st h"
    by (auto simp: listed_alarms_def)
  obtain t where "tm_mem st h = Some t" "0 < tm_alarm t"
    using lists_okD(1) [OF assms h(1)] by (auto simp: armed_in_def)
  with h show "a \<in> armed_alarms wanted st"
    by (auto simp: armed_alarms_def alarm_at_def intro!: exI [of _ h])
qed

lemma next_alarm_min:
  assumes "lists_ok {} st"
  shows "bindR (next_alarm_loop wanted a (s_timers st ESP_TIMER_TASK) st)
       (\<lambda>next. next_alarm_loop wanted next (s_timers st ESP_TIMER_ISR) st) =
    Inr (Min (insert a (armed_alarms wanted st)))"
proof -
  have "\<forall>h \<in> set (s_timers st d). tm_mem st h \<noteq> None" for d
    using lists_okD(1) [OF assms] by (auto simp: armed_in_def)
  note eq = next_alarm_loop_eq [OF this lists_okD(4) [OF assms]]
  have "Min (insert (Min (insert a A)) B) = Min (insert a (A \<union> B))" if "finite A" "finite B" for A B :: "nat set"
    using that by (cases "B = {}") (simp_all add: Min_Un flip: Un_insert_left)
  then show ?thesis by (simp add: eq armed_alarms_lists [OF assms])
qed

text \<open>
  C17. The earliest alarm. After any sequence of operations, \<^verbatim>\<open>esp_timer_get_next_alarm\<close> returns the
  earliest alarm of all armed timers of both methods, the wake-up variant the earliest of those that
  do not skip events, each at most \<^verbatim>\<open>INT64_MAX\<close>; and when a timer is armed the hardware alarm is set to
  the earliest alarm.
\<close>
theorem next_alarm_earliest:
  assumes "callback_ok callback" "timers_reach callback st"
  shows "esp_timer_get_next_alarm st = Inr (Min (insert INT64_MAX (armed_alarms (\<lambda>_. True) st))) \<and>
    esp_timer_get_next_alarm_for_wake_up st = Inr (Min (insert INT64_MAX (armed_alarms (\<lambda>t. \<not> tm_skip t) st))) \<and>
    (\<forall>a. armed_alarms (\<lambda>_. True) st \<noteq> {} \<and> a = Min (armed_alarms (\<lambda>_. True) st) \<and> a < UINT64_MAX \<longrightarrow> alarm_target st = Some a)"
proof -
  note inv = timers_reach_inv [OF assms]
  note ok = tm_invD(1) [OF inv]
  have reg: "timestamp_id st d = Min (insert UINT64_MAX (listed_alarms (\<lambda>_. True) st (s_timers st d)))" for d
  proof (cases "s_timers st d")
    case Nil
    then show ?thesis using tm_invD(2) [OF inv] by (simp add: reg_ok_def listed_alarms_def)
  next
    case (Cons h l)
    have "armed_in st d h" using lists_okD(1) [OF ok, of h d] Cons by simp
    then have "alarm_at st h \<le> UINT64_MAX" by (auto simp: armed_in_def alarm_at_def UINT64_MAX_def)
    moreover have "\<forall>x \<in> set l. alarm_at st h \<le> alarm_at st x" using lists_okD(4) [OF ok, of d] Cons by simp
    ultimately have "Min (insert UINT64_MAX (listed_alarms (\<lambda>_. True) st (h # l))) = alarm_at st h"
      by (intro Min_eqI) (auto simp: listed_alarms_def)
    then show ?thesis using tm_invD(2) [OF inv] Cons by (simp add: reg_ok_def)
  qed
  have m: "min (timestamp_id st ESP_TIMER_TASK) (timestamp_id st ESP_TIMER_ISR) =
      Min (insert UINT64_MAX (armed_alarms (\<lambda>_. True) st))"
    unfolding reg armed_alarms_lists [OF ok] by (subst Min_Un [symmetric]) (auto simp: Un_insert_right)
  have "alarm_target st = Some a"
    if "armed_alarms (\<lambda>_. True) st \<noteq> {}" "a = Min (armed_alarms (\<lambda>_. True) st)" "a < UINT64_MAX" for a
  proof -
    have "finite (armed_alarms (\<lambda>_. True) st)" by (simp add: armed_alarms_lists [OF ok])
    then have "Min (insert UINT64_MAX (armed_alarms (\<lambda>_. True) st)) = a" using that by simp
    then show ?thesis using tm_invD(3) [OF inv] m that(3) by (simp add: target_ok_def Let_def)
  qed
  then show ?thesis
    by (simp add: esp_timer_get_next_alarm_def esp_timer_get_next_alarm_for_wake_up_def next_alarm_min [OF ok])
qed

theorem next_alarm_earliest_witness:
  "timers_reach stopping demo_timers \<and> armed_alarms (\<lambda>_. True) demo_timers = {110} \<and>
   esp_timer_get_next_alarm demo_timers = Inr 110 \<and> alarm_target demo_timers = Some 110"
proof -
  have a: "armed_alarms (\<lambda>_. True) demo_timers = {110}"
    by (auto simp: armed_alarms_def demo_timers_def demo_timer_def)
  with next_alarm_earliest [OF stopping_ok demo_timers_reach] demo_timers_reach show ?thesis
    by (simp add: INT64_MAX_def UINT64_MAX_def)
qed

text \<open>
  C18. Restarting. For an armed timer of an initialised timer service \<^verbatim>\<open>esp_timer_restart\<close> has exactly the
  effect of stopping it and starting it again, once or periodically as it was before, with the new
  timeout.
\<close>
theorem restart_is_stop_start:
  assumes "callback_ok callback" "timers_reach callback st" "tm_mem st h = Some t" "timer_armed t" "s_timer_task st"
  shows "esp_timer_restart now (Some h) timeout st =
    bindR (esp_timer_stop (Some h) st)
      (\<lambda>(st, e). if tm_period t = 0 then esp_timer_start_once now (Some h) timeout st
                 else esp_timer_start_periodic now (Some h) timeout st)"
  using restart_eq [OF tm_invD(1) [OF timers_reach_inv [OF assms(1,2)]] assms(3)] assms(4,5)
  by (simp add: timer_armed_def)

theorem restart_is_stop_start_witness:
  "timers_reach stopping demo_timers \<and>
   esp_timer_restart 20 (Some 0) 30 demo_timers =
     bindR (esp_timer_stop (Some 0) demo_timers) (\<lambda>(st, e). esp_timer_start_once 20 (Some 0) 30 st)"
  using demo_timers_reach restart_is_stop_start [OF stopping_ok demo_timers_reach, of 0 "demo_timer\<lparr>tm_alarm := 110\<rparr>" 20 30]
  by (simp add: demo_timers_def demo_timer_def timer_armed_def timers_started_def esp_timer_init_def timers_boot_def)

end
