(* ===== verification/Esp_Timer_Dispatch.thy ===== *)
theory Esp_Timer_Dispatch
  imports Esp_Timer_Props
begin

text \<open>
  Dispatch of what is due: how often the callback of a timer runs at a given time, where the timer is
  afterwards, and that the loop of \<^verbatim>\<open>timer_process_alarm\<close> ends with exactly these calls, in the order of
  their alarms.
\<close>

definition lateness :: "nat \<Rightarrow> esp_timer \<Rightarrow> nat" where
  "lateness now t = (now - tm_alarm t) div tm_period t"

text \<open>
  A timer that is due runs once when it is not periodic or when it skips and is more than one period
  late; otherwise once for every period that passed.
\<close>

definition calls_due :: "nat \<Rightarrow> esp_timer \<Rightarrow> nat" where
  "calls_due now t =
     (if now < tm_alarm t \<or> tm_callback t = EVENT_ID_DELETE_TIMER then 0
      else if tm_period t = 0 \<or> tm_skip t \<and> lateness now t > 1 then 1
      else lateness now t + 1)"

definition settled :: "nat \<Rightarrow> esp_timer \<Rightarrow> esp_timer option" where
  "settled now t =
     (if now < tm_alarm t then Some t
      else if tm_callback t = EVENT_ID_DELETE_TIMER then None
      else Some (t\<lparr>tm_alarm :=
        if tm_period t = 0 then 0
        else if tm_skip t \<and> lateness now t > 1 then now + tm_period t
        else tm_alarm t + (lateness now t + 1) * tm_period t\<rparr>))"

lemma to_int32_small [simp]: "n < 2 ^ 31 \<Longrightarrow> to_int32 n = int n"
  by (simp add: to_int32_def)

lemma lateness_zero: "tm_alarm t \<le> now \<Longrightarrow> now < tm_alarm t + tm_period t \<Longrightarrow> lateness now t = 0"
  by (simp add: lateness_def)

lemma lateness_step:
  assumes "tm_alarm t + tm_period t \<le> now" "0 < tm_period t"
  shows "lateness now t = Suc (lateness now (t\<lparr>tm_alarm := tm_alarm t + tm_period t\<rparr>))"
proof -
  have eq: "now - tm_alarm t = (now - (tm_alarm t + tm_period t)) + tm_period t" using assms(1) by simp
  have "(now - tm_alarm t) div tm_period t = Suc ((now - (tm_alarm t + tm_period t)) div tm_period t)"
    unfolding eq using assms(2) by (subst div_add_self2) simp_all
  then show ?thesis by (simp add: lateness_def)
qed

lemma rearmed_periodic:
  assumes t: "tm_alarm t \<le> now" "now < 2 ^ 63" "0 < tm_period t" "tm_period t < 2 ^ 56"
    "tm_callback t \<noteq> EVENT_ID_DELETE_TIMER" and late: "tm_skip t \<Longrightarrow> lateness now t < 2 ^ 31"
  shows "calls_due now t = Suc (calls_due now (rearmed now t)) \<and> settled now (rearmed now t) = settled now t \<and>
    tm_alarm t \<le> tm_alarm (rearmed now t) \<and> (tm_skip t \<longrightarrow> lateness now (rearmed now t) < 2 ^ 31)"
proof (cases "tm_skip t \<and> lateness now t > 1")
  case True
  then have r: "rearmed now t = t\<lparr>tm_alarm := now + tm_period t\<rparr>"
    using t late by (simp add: rearmed_def u64add_def lateness_def)
  show ?thesis unfolding r using True t by (simp add: calls_due_def settled_def lateness_def)
next
  case False
  let ?t = "t\<lparr>tm_alarm := tm_alarm t + tm_period t\<rparr>"
  have r: "rearmed now t = ?t"
    using False t late by (auto simp: rearmed_def u64add_def lateness_def)
  show ?thesis
  proof (cases "now < tm_alarm t + tm_period t")
    case True
    with t lateness_zero [OF t(1) True] show ?thesis unfolding r
      by (simp add: calls_due_def settled_def lateness_def)
  next
    case n: False
    then have s: "lateness now t = Suc (lateness now ?t)" using lateness_step t(3) by simp
    have "\<not> (tm_skip t \<and> lateness now ?t > 1)" using False s by auto
    with n t s False late show ?thesis unfolding r
      by (auto simp: calls_due_def settled_def algebra_simps)
  qed
qed

lemma rearmed_once:
  assumes "tm_alarm t \<le> now" "tm_period t = 0" "tm_callback t \<noteq> EVENT_ID_DELETE_TIMER"
  shows "calls_due now t = 1" "settled now t = Some (rearmed now t)"
  using assms by (simp_all add: calls_due_def settled_def rearmed_def)

section \<open>The loop\<close>

text \<open>The rounds that the loop needs for a timer: its calls, or one to free a deleted timer.\<close>

definition rounds :: "nat \<Rightarrow> esp_timer \<Rightarrow> nat" where
  "rounds now t = (if now < tm_alarm t then 0 else if tm_callback t = EVENT_ID_DELETE_TIMER then 1 else calls_due now t)"

abbreviation idle :: "nat \<Rightarrow> nat \<Rightarrow> timers_t \<Rightarrow> timers_t" where
  "idle \<equiv> \<lambda>f a st. st"

definition rounds_left :: "nat \<Rightarrow> esp_timer_dispatch_t \<Rightarrow> timers_t \<Rightarrow> nat" where
  "rounds_left now d st = (\<Sum>h \<in> set (s_timers st d). rounds now (the (tm_mem st h)))"

text \<open>What the loop leaves: the memory, the calls made and their order.\<close>

definition dispatched_ok :: "nat \<Rightarrow> esp_timer_dispatch_t \<Rightarrow> timers_t \<Rightarrow> timers_t \<Rightarrow> (nat \<times> nat) list \<Rightarrow> bool" where
  "dispatched_ok now d st st' calls \<longleftrightarrow>
     dispatched st' = dispatched st @ calls \<and>
     (\<forall>h. tm_mem st' h = (if h \<in> set (s_timers st d) then settled now (the (tm_mem st h)) else tm_mem st h)) \<and>
     (\<forall>h. count_list (map fst calls) h =
        (if h \<in> set (s_timers st d) then calls_due now (the (tm_mem st h)) else 0)) \<and>
     sorted (map snd calls) \<and>
     (\<forall>b. (\<forall>h \<in> set (s_timers st d). b \<le> alarm_at st h) \<longrightarrow> (\<forall>c \<in> set calls. b \<le> snd c))"

definition not_too_late :: "nat \<Rightarrow> esp_timer_dispatch_t \<Rightarrow> timers_t \<Rightarrow> bool" where
  "not_too_late now d st \<longleftrightarrow>
     (\<forall>h \<in> set (s_timers st d). tm_skip (the (tm_mem st h)) \<longrightarrow> lateness now (the (tm_mem st h)) < 2 ^ 31)"

lemma dispatched_ok_none:
  assumes "\<forall>h \<in> set (s_timers st d). tm_mem st h \<noteq> None \<and> now < alarm_at st h"
  shows "dispatched_ok now d st st []"
  using assms by (auto simp: dispatched_ok_def settled_def calls_due_def alarm_at_def)

lemma dispatched_ok_free:
  assumes l: "s_timers st d = it # its" "it \<notin> set its" and t: "tm_mem st it = Some t" "tm_alarm t \<le> now"
    "tm_callback t = EVENT_ID_DELETE_TIMER"
    and r: "dispatched_ok now d ((set_list d its st)\<lparr>tm_mem := (tm_mem st)(it := None)\<rparr>) st' calls"
  shows "dispatched_ok now d st st' calls"
  using r l t unfolding dispatched_ok_def
  by (auto simp: settled_def calls_due_def alarm_at_def)

text \<open>The call of the first timer, followed by the rest of the loop.\<close>

lemma dispatched_ok_call:
  assumes l: "s_timers st d = it # its" "it \<notin> set its" "\<forall>h \<in> set its. tm_alarm t \<le> alarm_at st h"
    and t: "tm_mem st it = Some t" "tm_alarm t \<le> now" "now < 2 ^ 63" "tm_period t < 2 ^ 56"
      "tm_callback t \<noteq> EVENT_ID_DELETE_TIMER" "tm_skip t \<Longrightarrow> lateness now t < 2 ^ 31"
    and st1: "tm_mem st1 = (tm_mem st)(it \<mapsto> rearmed now t)" "dispatched st1 = dispatched st @ [(it, tm_alarm t)]"
      "set (s_timers st1 d) = (if tm_period t > 0 then insert it (set its) else set its)"
    and r: "dispatched_ok now d st1 st' calls"
  shows "dispatched_ok now d st st' ((it, tm_alarm t) # calls)"
proof -
  have at: "alarm_at st it = tm_alarm t" "alarm_at st1 it = tm_alarm (rearmed now t)"
    "h \<in> set its \<Longrightarrow> alarm_at st1 h = alarm_at st h" for h
    using t(1) st1(1) l(2) by (auto simp: alarm_at_def)
  have step: "if tm_period t > 0
      then calls_due now t = Suc (calls_due now (rearmed now t)) \<and> settled now (rearmed now t) = settled now t \<and>
        tm_alarm t \<le> tm_alarm (rearmed now t)
      else calls_due now t = 1 \<and> settled now t = Some (rearmed now t)"
    using rearmed_periodic [OF t(2,3) _ t(4,5,6)] rearmed_once [OF t(2) _ t(5)] by auto
  have later: "\<forall>h \<in> set (s_timers st1 d). tm_alarm t \<le> alarm_at st1 h"
    using l(3) st1(3) at step by auto
  have calls: "\<forall>c \<in> set calls. tm_alarm t \<le> snd c" and sorted: "sorted (map snd calls)"
    using r later unfolding dispatched_ok_def by blast+
  have mem: "tm_mem st' h = (if h \<in> set (s_timers st d) then settled now (the (tm_mem st h)) else tm_mem st h)" for h
    using r step l(1,2) t(1) st1(1,3) unfolding dispatched_ok_def by (auto split: if_splits)
  have cnt: "count_list (map fst ((it, tm_alarm t) # calls)) h =
      (if h \<in> set (s_timers st d) then calls_due now (the (tm_mem st h)) else 0)" for h
  proof -
    have "count_list (map fst calls) h = (if h \<in> set (s_timers st1 d) then calls_due now (the (tm_mem st1 h)) else 0)"
      using r unfolding dispatched_ok_def by blast
    with step l(1,2) t(1) st1(1,3) show ?thesis by (auto split: if_splits)
  qed
  have bound: "\<forall>c \<in> set ((it, tm_alarm t) # calls). b \<le> snd c" if "\<forall>h \<in> set (s_timers st d). b \<le> alarm_at st h" for b
    using that l(1) at(1) calls by fastforce
  show ?thesis
    using r mem cnt bound calls sorted st1(2) unfolding dispatched_ok_def by simp
qed

lemma rounds_left_call:
  assumes l: "s_timers st d = it # its" "it \<notin> set its"
    and t: "tm_mem st it = Some t" "tm_alarm t \<le> now" "now < 2 ^ 63" "tm_period t < 2 ^ 56"
      "tm_callback t \<noteq> EVENT_ID_DELETE_TIMER" "tm_skip t \<Longrightarrow> lateness now t < 2 ^ 31"
    and st1: "tm_mem st1 = (tm_mem st)(it \<mapsto> rearmed now t)"
      "set (s_timers st1 d) = (if tm_period t > 0 then insert it (set its) else set its)"
  shows "rounds_left now d st1 < rounds_left now d st"
    "not_too_late now d st \<Longrightarrow> not_too_late now d st1"
proof -
  have eq: "(\<Sum>h \<in> set its. rounds now (the (tm_mem st1 h))) = (\<Sum>h \<in> set its. rounds now (the (tm_mem st h)))"
    using l(2) st1(1) by (intro sum.cong) auto
  have "rounds_left now d st = rounds now t + (\<Sum>h \<in> set its. rounds now (the (tm_mem st h)))"
    using l t(1) by (simp add: rounds_left_def)
  moreover have "rounds_left now d st1 = (if tm_period t > 0 then rounds now (rearmed now t) else 0) +
      (\<Sum>h \<in> set its. rounds now (the (tm_mem st1 h)))"
    using l(2) st1 by (simp add: rounds_left_def)
  moreover have "rounds now t = calls_due now t" "rounds now (rearmed now t) \<le> calls_due now (rearmed now t)"
    using t by (auto simp: rounds_def rearmed_def)
  ultimately show "rounds_left now d st1 < rounds_left now d st"
    using rearmed_periodic [OF t(2,3) _ t(4,5,6)] rearmed_once(1) [OF t(2) _ t(5)] eq by (auto split: if_splits)
  show "not_too_late now d st1" if "not_too_late now d st"
    using that rearmed_periodic [OF t(2,3) _ t(4,5,6)] l st1
    by (auto simp: not_too_late_def rearmed_def split: if_splits)
qed

lemma rounds_left_free:
  assumes "s_timers st d = it # its" "it \<notin> set its" "tm_mem st it = Some t" "tm_alarm t \<le> now"
    "tm_callback t = EVENT_ID_DELETE_TIMER"
  shows "rounds_left now d ((set_list d its st)\<lparr>tm_mem := (tm_mem st)(it := None)\<rparr>) < rounds_left now d st"
    "not_too_late now d st \<Longrightarrow> not_too_late now d ((set_list d its st)\<lparr>tm_mem := (tm_mem st)(it := None)\<rparr>)"
proof -
  let ?st = "(set_list d its st)\<lparr>tm_mem := (tm_mem st)(it := None)\<rparr>"
  have "(\<Sum>h \<in> set its. rounds now (the (tm_mem ?st h))) = (\<Sum>h \<in> set its. rounds now (the (tm_mem st h)))"
    using assms(2) by (intro sum.cong) auto
  with assms show "rounds_left now d ?st < rounds_left now d st"
    by (simp add: rounds_left_def rounds_def)
  show "not_too_late now d ?st" if "not_too_late now d st"
    using that assms(1,2) by (auto simp: not_too_late_def)
qed

lemma process_loop_dispatches:
  assumes "tm_inv {d} st" "now < 2 ^ 63" "not_too_late now d st" "rounds_left now d st < n"
  shows "\<exists>p it st' calls. process_loop idle d (replicate n now) q st = Inr (p, it, st') \<and>
    dispatched_ok now d st st' calls \<and> (\<forall>h \<in> set (s_timers st' d). now < alarm_at st' h)"
  using assms
proof (induction n arbitrary: st q)
  case (Suc n)
  note ok = tm_invD(1) [OF Suc.prems(1)]
  show ?case
  proof (cases "s_timers st d")
    case Nil
    then show ?thesis using dispatched_ok_none [of st d now] by auto
  next
    case l: (Cons it its)
    obtain t where t: "tm_mem st it = Some t" "tm_period t < 2 ^ 56" using take_first [OF Suc.prems(1) l] by metis
    have its: "it \<notin> set its" "\<forall>h \<in> set its. tm_alarm t \<le> alarm_at st h"
      using lists_okD(3,4) [OF ok, of d] l t by (auto simp: alarm_at_def)
    have valid: "\<forall>h \<in> set (s_timers st d). tm_mem st h \<noteq> None"
      using lists_okD(1) [OF ok] by (auto simp: armed_in_def)
    show ?thesis
    proof (cases "tm_alarm t > now")
      case True
      then have "\<forall>h \<in> set (s_timers st d). tm_mem st h \<noteq> None \<and> now < alarm_at st h"
        using its valid l t by (auto simp: alarm_at_def)
      with True l t dispatched_ok_none [of st d now] show ?thesis by auto
    next
      case due: False
      show ?thesis
      proof (cases "tm_callback t = EVENT_ID_DELETE_TIMER")
        case True
        let ?st = "(set_list d its st)\<lparr>tm_mem := (tm_mem st)(it := None)\<rparr>"
        from due have "tm_alarm t \<le> now" by simp
        note free = rounds_left_free [OF l its(1) t(1) this True]
        have "rounds_left now d ?st < n" "not_too_late now d ?st" using free Suc.prems(3,4) by simp_all
        from Suc.IH [OF free_first [OF Suc.prems(1) l] Suc.prems(2) this(2,1), of True]
        show ?thesis using l t due True dispatched_ok_free [OF l its(1) t(1) \<open>tm_alarm t \<le> now\<close> True] by fastforce
      next
        case False
        have a: "tm_alarm t \<le> now" and s: "tm_skip t \<Longrightarrow> lateness now t < 2 ^ 31"
          using due Suc.prems(3) l t(1) by (auto simp: not_too_late_def)
        from a obtain st1 where st1: "rearm now it t (set_list d its st) = Inr st1" "tm_inv {d} st1"
            "dispatched st1 = dispatched st" "tm_mem st1 = (tm_mem st)(it \<mapsto> rearmed now t)"
            "set (s_timers st1 d) = (if tm_period t > 0 then insert it (set its) else set its)"
          using rearm_ok [OF Suc.prems(1) l t(1) _ Suc.prems(2)] by metis
        let ?st2 = "st1\<lparr>dispatched := dispatched st1 @ [(it, tm_alarm t)]\<rparr>"
        have m: "tm_mem ?st2 = (tm_mem st)(it \<mapsto> rearmed now t)"
          "set (s_timers ?st2 d) = (if tm_period t > 0 then insert it (set its) else set its)"
          "dispatched ?st2 = dispatched st @ [(it, tm_alarm t)]" using st1(3-5) by simp_all
        note call = rounds_left_call [OF l its(1) t(1) a Suc.prems(2) t(2) False s m(1,2)]
        have "rounds_left now d ?st2 < n" "not_too_late now d ?st2" "tm_inv {d} ?st2"
          using call Suc.prems(3,4) st1(2) by simp_all
        from Suc.IH [OF this(3) Suc.prems(2) this(2,1), of True]
        show ?thesis
          using l t due False st1(1) dispatched_ok_call [OF l its t(1) a Suc.prems(2) t(2) False s m(1,3,2)]
          by fastforce
      qed
    qed
  qed
qed simp

lemma idle_ok: "callback_ok idle"
  by (simp add: callback_ok_def)

text \<open>
  C19. Dispatch is complete and in order, under three conditions: the callbacks do not call the timer
  functions, the clock shows the same time \<open>now\<close> at every reading of the run, and no timer that skips
  unhandled events is \<open>2 ^ 31\<close> periods late or more. Then \<^verbatim>\<open>timer_process_alarm\<close> ends. Every
  timer of the list that is due was called as often as its kind demands and is left with its next
  alarm, disarmed when it was not periodic, freed when it was to be deleted; no other timer was
  called. The calls are in the order of the alarms they are for, and what remains in the list is
  later than the present time.
\<close>
theorem process_alarm_dispatches:
  assumes "callback_ok callback" "timers_reach callback st" "now < 2 ^ 63" "not_too_late now d st"
    "rounds_left now d st < n"
  shows "\<exists>st' p calls. timer_process_alarm idle d (replicate n now) st = Inr (st', p) \<and>
    dispatched st' = dispatched st @ calls \<and> sorted (map snd calls) \<and>
    (\<forall>h. count_list (map fst calls) h = (if h \<in> set (s_timers st d) then calls_due now (the (tm_mem st h)) else 0)) \<and>
    (\<forall>h. tm_mem st' h = (if h \<in> set (s_timers st d) then settled now (the (tm_mem st h)) else tm_mem st h)) \<and>
    (\<forall>h \<in> set (s_timers st' d). now < alarm_at st' h)"
proof -
  have inv: "tm_inv {d} st" using timers_reach_inv [OF assms(1,2)] by (simp add: tm_inv_def)
  obtain p it st1 calls where l: "process_loop idle d (replicate n now) False st = Inr (p, it, st1)"
      "dispatched_ok now d st st1 calls" "\<forall>h \<in> set (s_timers st1 d). now < alarm_at st1 h"
    using process_loop_dispatches [OF inv assms(3-5)] by blast
  moreover have "tm_inv {d} st1" "it = (case s_timers st1 d of [] \<Rightarrow> None | h # _ \<Rightarrow> Some h)"
    using process_loop_ok [OF idle_ok inv, of "replicate n now" False] l(1) assms(3) by auto
  then obtain st' where "timer_process_alarm idle d (replicate n now) st = Inr (st', p)"
      "tm_mem st' = tm_mem st1" "s_timers st' = s_timers st1" "dispatched st' = dispatched st1"
  proof (cases "s_timers st1 d")
    case (Cons h hs)
    obtain t where "tm_mem st1 h = Some t" using take_first [OF \<open>tm_inv {d} st1\<close> Cons] by metis
    with that Cons l(1) \<open>it = _\<close> show ?thesis by (simp add: timer_process_alarm_def)
  qed (use that l(1) in \<open>simp add: timer_process_alarm_def\<close>)
  moreover from this have "alarm_at st' = alarm_at st1" by (simp add: fun_eq_iff alarm_at_def)
  ultimately show ?thesis
    by (intro exI [of _ st'] exI [of _ p] exI [of _ calls]) (simp add: dispatched_ok_def)
qed

theorem process_alarm_dispatches_witness:
  "timers_reach idle demo_timers \<and>
   (\<exists>st' p calls. timer_process_alarm idle ESP_TIMER_TASK (replicate 2 500) demo_timers = Inr (st', p) \<and>
     count_list (map fst calls) 0 = 1 \<and> dispatched st' = calls \<and>
     tm_mem st' 0 = Some demo_timer)"
proof -
  have "not_too_late 500 ESP_TIMER_TASK demo_timers" "rounds_left 500 ESP_TIMER_TASK demo_timers < 2"
    by (simp_all add: not_too_late_def rounds_left_def rounds_def calls_due_def demo_timers_def demo_timer_def
        EVENT_ID_DELETE_TIMER_def)
  from process_alarm_dispatches [OF idle_ok demo_timers_reach _ this]
  obtain st' p calls where r: "timer_process_alarm idle ESP_TIMER_TASK (replicate 2 500) demo_timers = Inr (st', p)"
    "dispatched st' = dispatched demo_timers @ calls"
    "count_list (map fst calls) 0 = (if 0 \<in> set (s_timers demo_timers ESP_TIMER_TASK)
       then calls_due 500 (the (tm_mem demo_timers 0)) else 0)"
    "tm_mem st' 0 = (if 0 \<in> set (s_timers demo_timers ESP_TIMER_TASK)
       then settled 500 (the (tm_mem demo_timers 0)) else tm_mem demo_timers 0)"
    by auto
  have "s_timers demo_timers ESP_TIMER_TASK = [0]" "tm_mem demo_timers 0 = Some (demo_timer\<lparr>tm_alarm := 110\<rparr>)"
      "dispatched demo_timers = []"
    by (simp_all add: demo_timers_def timers_started_def esp_timer_init_def timers_boot_def)
  with r have "count_list (map fst calls) 0 = 1" "dispatched st' = calls" "tm_mem st' 0 = Some demo_timer"
    by (simp_all add: calls_due_def settled_def demo_timer_def EVENT_ID_DELETE_TIMER_def)
  with r(1) demo_timers_reach show ?thesis by blast
qed

text \<open>
  C20. An interrupt timer behind a task timer. When a task timer is due and the first interrupt timer
  is not, the alarm interrupt only notifies the timer task: the hardware alarm stays at the task
  timer's alarm, which has passed, so no alarm is set for the interrupt timer before the task has run.
\<close>
theorem isr_timer_waits_for_task:
  assumes inv: "tm_inv {} st"
    and task: "s_timers st ESP_TIMER_TASK = h # hs" "alarm_at st h \<le> now"
    and isr: "s_timers st ESP_TIMER_ISR = g # gs" "now < alarm_at st g" and now: "now < UINT64_MAX"
  shows "timer_alarm_handler callback [now] st = Inr (st\<lparr>task_notified := True\<rparr>) \<and>
    alarm_target st = Some (alarm_at st h)"
proof -
  have "tm_inv {ESP_TIMER_ISR} st" using inv by (simp add: tm_inv_def)
  from take_first [OF this isr(1)] obtain t where "tm_mem st g = Some t" by metis
  with isr have "timer_alarm_handler callback [now] st = Inr (st\<lparr>task_notified := True\<rparr>)"
    by (simp add: timer_alarm_handler_def timer_process_alarm_def alarm_at_def)
  moreover have "timestamp_id st ESP_TIMER_TASK = alarm_at st h" "timestamp_id st ESP_TIMER_ISR = alarm_at st g"
    using tm_invD(2) [OF inv] task(1) isr(1) by (auto simp: reg_ok_def split: list.splits)
  then have "alarm_target st = Some (alarm_at st h)"
    using tm_invD(3) [OF inv] task(2) isr(2) now by (simp add: target_ok_def Let_def min_def)
  ultimately show ?thesis by simp
qed

text \<open>A task timer due at 110 and an interrupt timer due at 300.\<close>

definition demo_both :: timers_t where
  "demo_both = demo_timers\<lparr>tm_mem := [0 \<mapsto> demo_timer\<lparr>tm_alarm := 110\<rparr>, 1 \<mapsto> demo_timer\<lparr>tm_alarm := 300, tm_isr := True\<rparr>],
     tm_brk := 2, s_timers := (\<lambda>_. [])(ESP_TIMER_TASK := [0], ESP_TIMER_ISR := [1]),
     timestamp_id := (\<lambda>_. UINT64_MAX)(ESP_TIMER_TASK := 110, ESP_TIMER_ISR := 300)\<rparr>"

lemma demo_both_inv: "tm_inv {} demo_both"
proof -
  have "lists_ok {} demo_both"
    by (rule lists_okI)
      (auto simp: demo_both_def demo_timer_def armed_in_def dispatch_of_def split: if_splits)
  moreover have "reg_ok demo_both d" for d
    by (cases d) (simp_all add: reg_ok_def demo_both_def alarm_at_def demo_timer_def)
  ultimately show ?thesis
    by (simp add: tm_inv_def target_ok_def demo_both_def demo_timers_def)
qed

theorem isr_timer_waits_for_task_witness:
  "timer_alarm_handler idle [200] demo_both = Inr (demo_both\<lparr>task_notified := True\<rparr>) \<and>
   alarm_target demo_both = Some 110 \<and> alarm_at demo_both 1 = 300"
  using isr_timer_waits_for_task [OF demo_both_inv, of 0 "[]" 200 1 "[]" idle]
  by (simp add: demo_both_def alarm_at_def demo_timer_def UINT64_MAX_def)

end
