(* ===== verification/Ets_Timer.thy ===== *)
theory Ets_Timer
  imports Esp_Timer_Props
begin

text \<open>
  The legacy timers of \<^verbatim>\<open>components/esp_timer/src/ets_timer_legacy.c\<close>, which keep the handle of a timer
  in the caller's \<^verbatim>\<open>ETSTimer\<close>.
\<close>

section \<open>Model\<close>

text \<open>The two fields of \<^verbatim>\<open>ETSTimer\<close> that the code uses: the magic value and the timer's handle.\<close>

record ETSTimer =
  timer_expire :: nat
  timer_arg :: "nat option"

definition TIMER_INITIALIZED_VAL :: nat where "TIMER_INITIALIZED_VAL = 0x12121212"

definition timer_initialized :: "ETSTimer \<Rightarrow> bool" where
  "timer_initialized p \<longleftrightarrow> timer_expire p = TIMER_INITIALIZED_VAL"

text \<open>\<^verbatim>\<open>ESP_ERROR_CHECK\<close> aborts on an error.\<close>

definition ESP_ERROR_CHECK :: "(timers_t \<times> esp_err) res \<Rightarrow> timers_t res" where
  "ESP_ERROR_CHECK r = bindR r (\<lambda>(st, e). assertR (e = ESP_OK) (Inr st))"

definition ets_timer_setfn :: "bool \<Rightarrow> nat option \<Rightarrow> nat \<Rightarrow> ETSTimer \<Rightarrow> timers_t \<Rightarrow> (ETSTimer \<times> timers_t) res" where
  "ets_timer_setfn mem_ok pfunction parg p st =
     (let p = (if timer_initialized p then p else \<lparr>timer_expire = TIMER_INITIALIZED_VAL, timer_arg = None\<rparr>)
      in if timer_arg p = None
         then case esp_timer_create mem_ok (Some \<lparr>ca_callback = pfunction, ca_arg = parg,
                     ca_dispatch_method = 0, ca_skip_unhandled_events = False\<rparr>) st of
                (st, e, h) \<Rightarrow> assertR (e = ESP_OK) (Inr (p\<lparr>timer_arg := h\<rparr>, st))
         else Inr (p, st))"

definition ets_timer_arm_us :: "nat \<Rightarrow> ETSTimer \<Rightarrow> nat \<Rightarrow> bool \<Rightarrow> timers_t \<Rightarrow> timers_t res" where
  "ets_timer_arm_us now p time_us repeat_flag st =
     assertR (timer_initialized p)
       (bindR (esp_timer_stop (timer_arg p) st)
         (\<lambda>(st, _). if \<not> repeat_flag then ESP_ERROR_CHECK (esp_timer_start_once now (timer_arg p) time_us st)
                    else ESP_ERROR_CHECK (esp_timer_start_periodic now (timer_arg p) time_us st)))"

definition ets_timer_arm :: "nat \<Rightarrow> ETSTimer \<Rightarrow> nat \<Rightarrow> bool \<Rightarrow> timers_t \<Rightarrow> timers_t res" where
  "ets_timer_arm now p time_ms repeat_flag st =
     (let time_us = 1000 * time_ms
      in assertR (timer_initialized p)
           (bindR (esp_timer_stop (timer_arg p) st)
             (\<lambda>(st, _). if \<not> repeat_flag then ESP_ERROR_CHECK (esp_timer_start_once now (timer_arg p) time_us st)
                        else ESP_ERROR_CHECK (esp_timer_start_periodic now (timer_arg p) time_us st))))"

definition ets_timer_done :: "nat \<Rightarrow> ETSTimer \<Rightarrow> timers_t \<Rightarrow> (ETSTimer \<times> timers_t) res" where
  "ets_timer_done now p st =
     (if timer_initialized p
      then bindR (esp_timer_delete now (timer_arg p) st) (\<lambda>(st, _). Inr (\<lparr>timer_expire = 0, timer_arg = None\<rparr>, st))
      else Inr (p, st))"

definition ets_timer_disarm :: "ETSTimer \<Rightarrow> timers_t \<Rightarrow> timers_t res" where
  "ets_timer_disarm p st =
     (if timer_initialized p then bindR (esp_timer_stop (timer_arg p) st) (\<lambda>(st, _). Inr st) else Inr st)"

section \<open>Properties\<close>

text \<open>Stopping first leaves the timer disarmed in every case.\<close>

lemma stop_any:
  assumes inv: "tm_inv {} st" and t: "tm_mem st h = Some t" and init: "s_timer_task st"
  obtains st' e t' where "esp_timer_stop (Some h) st = Inr (st', e)" "tm_inv {} st'"
    "tm_mem st' = (tm_mem st)(h \<mapsto> t')" "tm_alarm t' = 0" "\<And>a p. t'\<lparr>tm_alarm := a, tm_period := p\<rparr> = t\<lparr>tm_alarm := a, tm_period := p\<rparr>"
    "s_timer_task st'"
proof (cases "timer_armed t")
  case True
  then obtain st' where s: "timer_remove h st = Inr st'" "lists_ok {h} st'"
      "tm_mem st' = (tm_mem st)(h \<mapsto> t\<lparr>tm_alarm := 0, tm_period := 0\<rparr>)" "s_timer_task st' = s_timer_task st"
      "(\<forall>d. d \<notin> {} \<longrightarrow> reg_ok st' d) \<and> target_ok st'"
    using timer_remove_ok [OF tm_invD(1) [OF inv] t] tm_invD(2,3) [OF inv] unfolding timer_armed_def
    by (metis (no_types, lifting))
  then have "lists_ok {} st'" by (intro lists_ok_release [OF s(2)]) auto
  with s True t init show ?thesis
    by (intro that [of st' ESP_OK "t\<lparr>tm_alarm := 0, tm_period := 0\<rparr>"]) (simp_all add: esp_timer_stop_def tm_inv_def)
next
  case False
  with t inv init show ?thesis
    by (intro that [of st ESP_ERR_INVALID_STATE t]) (auto simp: esp_timer_stop_def timer_armed_def)
qed

text \<open>
  C21. Arming a legacy timer. With an initialised timer, armed or not, \<^verbatim>\<open>ets_timer_arm\<close> does not abort: the
  timer is armed with the new time, periodic as asked for and with at least the shortest period, and
  no other timer changes.
\<close>
theorem ets_arm_always:
  fixes rep :: bool
  assumes inv: "tm_inv {} st" and init: "s_timer_task st" "timer_initialized p" "timer_arg p = Some h"
    and t: "tm_mem st h = Some t" and time: "0 < now" "now + max (1000 * ms) 50 < 2 ^ 56"
  defines "us \<equiv> if rep then max (1000 * ms) 50 else 1000 * ms"
  shows "\<exists>st'. ets_timer_arm now p ms rep st = Inr st' \<and> tm_inv {} st' \<and>
    tm_mem st' = (tm_mem st)(h \<mapsto> t\<lparr>tm_alarm := now + us, tm_period := if rep then us else 0\<rparr>)"
proof -
  obtain st1 e t1 where s: "esp_timer_stop (Some h) st = Inr (st1, e)" "tm_inv {} st1"
      "tm_mem st1 = (tm_mem st)(h \<mapsto> t1)" "tm_alarm t1 = 0" "s_timer_task st1"
      and t1: "\<And>a p. t1\<lparr>tm_alarm := a, tm_period := p\<rparr> = t\<lparr>tm_alarm := a, tm_period := p\<rparr>"
    using stop_any [OF inv t init(1)] by metis
  have h: "tm_mem st1 h = Some t1" "lists_ok {h} st1"
    using s lists_ok_hold [OF tm_invD(1) [OF s(2)], of h t1] by simp_all
  have us: "now + us < 2 ^ 56" "0 < now + us" using time by (auto simp: us_def max_def split: if_splits)
  then have "u64add now us = now + us" "period56 us = us" "period56 0 = 0" by (simp_all add: u64add_def period56_def)
  moreover have "now + us < 2 ^ 64" using us(1) by simp
  then obtain st' where "timer_arm h (now + us) (if rep then us else 0) t1 st1 = Inr (st', ESP_OK)" "tm_inv {} st'"
      "tm_mem st' = (tm_mem st1)(h \<mapsto> t1\<lparr>tm_alarm := now + us, tm_period := period56 (if rep then us else 0)\<rparr>)"
    using timer_arm_ok [OF h(2) tm_invD(2,3) [OF s(2)] _ us(2), where t = t1 and p = "if rep then us else 0"] h(1)
    by (metis option.distinct(1))
  ultimately show ?thesis
    using s h init t1
    by (cases rep) (simp_all add: ets_timer_arm_def ESP_ERROR_CHECK_def esp_timer_start_once_def esp_timer_start_periodic_def
        timer_armed_def us_def esp_timer_impl_get_min_period_us_def)
qed

theorem ets_arm_always_witness:
  "tm_inv {} demo_timers \<and>
   (\<exists>st'. ets_timer_arm 20 \<lparr>timer_expire = 0x12121212, timer_arg = Some 0\<rparr> 2 True demo_timers = Inr st' \<and>
     tm_mem st' = [0 \<mapsto> demo_timer\<lparr>tm_alarm := 2020, tm_period := 2000\<rparr>])"
proof -
  have inv: "tm_inv {} demo_timers" using timers_reach_inv [OF stopping_ok demo_timers_reach] .
  have st: "s_timer_task demo_timers" "tm_mem demo_timers = [0 \<mapsto> demo_timer\<lparr>tm_alarm := 110\<rparr>]"
    by (simp_all add: demo_timers_def timers_started_def esp_timer_init_def timers_boot_def)
  show ?thesis
    using inv ets_arm_always [OF inv st(1), of "\<lparr>timer_expire = 0x12121212, timer_arg = Some 0\<rparr>" 0
        "demo_timer\<lparr>tm_alarm := 110\<rparr>" 20 2 True]
    by (auto simp: st timer_initialized_def TIMER_INITIALIZED_VAL_def)
qed

text \<open>
  C22. Ending a legacy timer that is armed. \<^verbatim>\<open>ets_timer_done\<close> forgets the handle but, as a timer that is armed
  cannot be deleted, leaves the timer as it is: armed, in its list, with its callback.
\<close>
theorem ets_done_armed_stays:
  assumes "timer_initialized p" "timer_arg p = Some h" "tm_mem st h = Some t" "timer_armed t"
  shows "ets_timer_done now p st = Inr (\<lparr>timer_expire = 0, timer_arg = None\<rparr>, st)"
  using assms by (simp add: ets_timer_done_def esp_timer_delete_def)

theorem ets_done_armed_stays_witness:
  "ets_timer_done 20 \<lparr>timer_expire = 0x12121212, timer_arg = Some 0\<rparr> demo_timers =
   Inr (\<lparr>timer_expire = 0, timer_arg = None\<rparr>, demo_timers)"
  by (rule ets_done_armed_stays [where h = 0 and t = "demo_timer\<lparr>tm_alarm := 110\<rparr>"])
    (simp_all add: timer_initialized_def TIMER_INITIALIZED_VAL_def timer_armed_def demo_timers_def)

end
