(* ===== verification/Esp_Event.thy ===== *)
theory Esp_Event
  imports Idf_Base
begin

text \<open>
  The event loop library, \<^verbatim>\<open>components/esp_event/esp_event.c\<close> and \<^verbatim>\<open>default_event_loop.c\<close>. The linked lists of
  loop nodes, base nodes, id nodes and handlers are lists of records. Handler functions, their
  arguments and event bases are numbers that stand for addresses; an instance context is named by the
  address it was allocated at. Which allocations succeed is a parameter of a registration; handlers
  are observers here, they do not change the loop that runs them. Profiling is off and posting from
  interrupts is on, as in the default configuration.
\<close>

section \<open>Model\<close>

subsection \<open>Data\<close>

datatype event_base = Any_base | Base nat

definition ESP_EVENT_ANY_ID :: int where "ESP_EVENT_ANY_ID = -1"

record handler_node =
  hn_ctx :: nat
  hn_handler :: nat
  hn_arg :: nat

record id_node =
  in_id :: int
  in_handlers :: "handler_node list"

record base_node =
  bn_base :: event_base
  bn_handlers :: "handler_node list"
  bn_ids :: "id_node list"

record loop_node =
  ln_handlers :: "handler_node list"
  ln_bases :: "base_node list"

text \<open>
  The data of a post: none, a copy on the heap, or the value of a post from an interrupt.
\<close>

datatype post_data = No_data | Heap_data "byte list" | Word_data "byte list"

record post_instance =
  po_base :: event_base
  po_id :: int
  po_data :: post_data

record event_loop =
  el_queue :: "post_instance list"
  el_queue_size :: nat
  el_task :: "nat option"
  el_running_task :: "nat option"
  el_nodes :: "loop_node list"
  el_brk :: nat

subsection \<open>Registering\<close>

text \<open>The places where a registration allocates memory; each is reached at most once.\<close>

datatype alloc = A_loop | A_base | A_id | A_instance | A_context

text \<open>The loops that find the last list element with a property, and the change of that element.\<close>

definition find_last :: "('a \<Rightarrow> bool) \<Rightarrow> 'a list \<Rightarrow> 'a option" where
  "find_last P xs = find P (rev xs)"

fun replace_last :: "('a \<Rightarrow> bool) \<Rightarrow> 'a \<Rightarrow> 'a list \<Rightarrow> 'a list" where
  "replace_last P y [] = []"
| "replace_last P y (x # xs) = (if P x \<and> \<not> list_ex P xs then y # xs else x # replace_last P y xs)"

fun overwrite_arg :: "nat \<Rightarrow> nat \<Rightarrow> handler_node list \<Rightarrow> handler_node list" where
  "overwrite_arg h arg [] = []"
| "overwrite_arg h arg (it # its) =
     (if hn_handler it = h then it\<lparr>hn_arg := arg\<rparr> # its else it # overwrite_arg h arg its)"

definition handler_instances_add ::
    "(alloc \<Rightarrow> bool) \<Rightarrow> handler_node \<Rightarrow> bool \<Rightarrow> handler_node list \<Rightarrow> handler_node list \<times> esp_err" where
  "handler_instances_add mem new legacy handlers =
     (if \<not> mem A_instance then (handlers, ESP_ERR_NO_MEM)
      else if \<not> mem A_context then (handlers, ESP_ERR_NO_MEM)
      else if handlers = [] then ([new], ESP_OK)
      else if legacy \<and> list_ex (\<lambda>it. hn_handler new = hn_handler it) handlers
      then (overwrite_arg (hn_handler new) (hn_arg new) handlers, ESP_OK)
      else (handlers @ [new], ESP_OK))"

definition base_node_add_handler ::
    "(alloc \<Rightarrow> bool) \<Rightarrow> int \<Rightarrow> handler_node \<Rightarrow> bool \<Rightarrow> base_node \<Rightarrow> base_node \<times> esp_err" where
  "base_node_add_handler mem eid new legacy base_node =
     (if eid = ESP_EVENT_ANY_ID
      then case handler_instances_add mem new legacy (bn_handlers base_node) of
             (hs, err) \<Rightarrow> (base_node\<lparr>bn_handlers := hs\<rparr>, err)
      else case find_last (\<lambda>it. in_id it = eid) (bn_ids base_node) of
             None \<Rightarrow>
               if \<not> mem A_id then (base_node, ESP_ERR_NO_MEM)
               else (case handler_instances_add mem new legacy [] of
                       (hs, err) \<Rightarrow>
                         if err = ESP_OK
                         then (base_node\<lparr>bn_ids := bn_ids base_node @ [\<lparr>in_id = eid, in_handlers = hs\<rparr>]\<rparr>, err)
                         else (base_node, err))
           | Some id_node \<Rightarrow>
               (case handler_instances_add mem new legacy (in_handlers id_node) of
                  (hs, err) \<Rightarrow>
                    (base_node\<lparr>bn_ids := replace_last (\<lambda>it. in_id it = eid) (id_node\<lparr>in_handlers := hs\<rparr>)
                                 (bn_ids base_node)\<rparr>, err)))"

definition loop_node_add_handler ::
    "(alloc \<Rightarrow> bool) \<Rightarrow> event_base \<Rightarrow> int \<Rightarrow> handler_node \<Rightarrow> bool \<Rightarrow> loop_node \<Rightarrow> loop_node \<times> esp_err" where
  "loop_node_add_handler mem base eid new legacy loop_node =
     (if base = Any_base \<and> eid = ESP_EVENT_ANY_ID
      then case handler_instances_add mem new legacy (ln_handlers loop_node) of
             (hs, err) \<Rightarrow> (loop_node\<lparr>ln_handlers := hs\<rparr>, err)
      else let found = find_last (\<lambda>it. bn_base it = base) (ln_bases loop_node);
               fresh = (ln_bases loop_node = [] \<or> found = None \<or>
                 (bn_ids (the found) \<noteq> [] \<and> eid = ESP_EVENT_ANY_ID) \<or>
                 (bn_base (last (ln_bases loop_node)) \<noteq> base \<and> bn_ids (last (ln_bases loop_node)) \<noteq> [] \<and>
                  eid = ESP_EVENT_ANY_ID))
           in if fresh
              then if \<not> mem A_base then (loop_node, ESP_ERR_NO_MEM)
                   else (case base_node_add_handler mem eid new legacy
                                \<lparr>bn_base = base, bn_handlers = [], bn_ids = []\<rparr> of
                           (bn, err) \<Rightarrow>
                             if err = ESP_OK then (loop_node\<lparr>ln_bases := ln_bases loop_node @ [bn]\<rparr>, err)
                             else (loop_node, err))
              else (case base_node_add_handler mem eid new legacy (the found) of
                      (bn, err) \<Rightarrow>
                        (loop_node\<lparr>ln_bases := replace_last (\<lambda>it. bn_base it = base) bn (ln_bases loop_node)\<rparr>, err)))"

text \<open>
  The result has the address of the new context, as far as the registration allocated one that the
  caller can use.
\<close>

definition esp_event_handler_register_with_internal ::
    "(alloc \<Rightarrow> bool) \<Rightarrow> nat option \<Rightarrow> int \<Rightarrow> nat \<Rightarrow> nat \<Rightarrow> bool \<Rightarrow> event_loop \<Rightarrow> event_loop \<times> esp_err" where
  "esp_event_handler_register_with_internal mem event_base event_id handler arg legacy loop =
     (if event_base = None \<and> event_id \<noteq> ESP_EVENT_ANY_ID then (loop, ESP_ERR_INVALID_ARG)
      else let base = (case event_base of None \<Rightarrow> Any_base | Some b \<Rightarrow> Base b);
               new = \<lparr>hn_ctx = el_brk loop, hn_handler = handler, hn_arg = arg\<rparr>;
               is_loop_level_handler = (base = Any_base \<and> event_id = ESP_EVENT_ANY_ID);
               next = loop\<lparr>el_brk := el_brk loop + 1\<rparr>
           in if el_nodes loop = [] \<or> (ln_bases (last (el_nodes loop)) \<noteq> [] \<and> is_loop_level_handler)
              then if \<not> mem A_loop then (loop, ESP_ERR_NO_MEM)
                   else (case loop_node_add_handler mem base event_id new legacy
                                \<lparr>ln_handlers = [], ln_bases = []\<rparr> of
                           (ln, err) \<Rightarrow>
                             if err = ESP_OK then (next\<lparr>el_nodes := el_nodes loop @ [ln]\<rparr>, err)
                             else (loop, err))
              else (case loop_node_add_handler mem base event_id new legacy (last (el_nodes loop)) of
                      (ln, err) \<Rightarrow> (next\<lparr>el_nodes := butlast (el_nodes loop) @ [ln]\<rparr>, err)))"

definition esp_event_handler_register_with ::
    "(alloc \<Rightarrow> bool) \<Rightarrow> nat option \<Rightarrow> int \<Rightarrow> nat \<Rightarrow> nat \<Rightarrow> event_loop \<Rightarrow> event_loop \<times> esp_err" where
  "esp_event_handler_register_with mem event_base event_id handler arg =
     esp_event_handler_register_with_internal mem event_base event_id handler arg True"

definition esp_event_handler_instance_register_with ::
    "(alloc \<Rightarrow> bool) \<Rightarrow> nat option \<Rightarrow> int \<Rightarrow> nat \<Rightarrow> nat \<Rightarrow> event_loop \<Rightarrow> event_loop \<times> esp_err" where
  "esp_event_handler_instance_register_with mem event_base event_id handler arg =
     esp_event_handler_register_with_internal mem event_base event_id handler arg False"

subsection \<open>Unregistering\<close>

text \<open>
  What to remove: the context of that address, or for the legacy interface the first handler with that
  function.
\<close>

datatype removal = By_context nat | By_handler nat

definition is_target :: "removal \<Rightarrow> handler_node \<Rightarrow> bool" where
  "is_target r it = (case r of By_context c \<Rightarrow> hn_ctx it = c | By_handler h \<Rightarrow> hn_handler it = h)"

fun handler_instances_remove :: "removal \<Rightarrow> handler_node list \<Rightarrow> handler_node list \<times> esp_err" where
  "handler_instances_remove r [] = ([], ESP_ERR_NOT_FOUND)"
| "handler_instances_remove r (it # its) =
     (if is_target r it then (its, ESP_OK)
      else case handler_instances_remove r its of (hs, err) \<Rightarrow> (it # hs, err))"

text \<open>The loops over id nodes, base nodes and loop nodes; they end early when a node was emptied.\<close>

fun remove_ids :: "int \<Rightarrow> removal \<Rightarrow> id_node list \<Rightarrow> id_node list \<times> esp_err" where
  "remove_ids eid r [] = ([], ESP_ERR_NOT_FOUND)"
| "remove_ids eid r (it # its) =
     (let (hs, res) = (if in_id it = eid then handler_instances_remove r (in_handlers it)
                       else (in_handlers it, ESP_ERR_NOT_FOUND))
      in if in_id it = eid \<and> res = ESP_OK \<and> hs = [] then (its, ESP_OK)
         else case remove_ids eid r its of (ns, err) \<Rightarrow> (it\<lparr>in_handlers := hs\<rparr> # ns, err))"

definition base_node_remove_handler :: "int \<Rightarrow> removal \<Rightarrow> base_node \<Rightarrow> base_node \<times> esp_err" where
  "base_node_remove_handler eid r base_node =
     (if eid = ESP_EVENT_ANY_ID
      then case handler_instances_remove r (bn_handlers base_node) of
             (hs, err) \<Rightarrow> (base_node\<lparr>bn_handlers := hs\<rparr>, err)
      else case remove_ids eid r (bn_ids base_node) of (ns, err) \<Rightarrow> (base_node\<lparr>bn_ids := ns\<rparr>, err))"

fun remove_bases :: "event_base \<Rightarrow> int \<Rightarrow> removal \<Rightarrow> base_node list \<Rightarrow> base_node list \<times> esp_err" where
  "remove_bases base eid r [] = ([], ESP_ERR_NOT_FOUND)"
| "remove_bases base eid r (it # its) =
     (let (bn, res) = (if bn_base it = base then base_node_remove_handler eid r it else (it, ESP_ERR_NOT_FOUND))
      in if bn_base it = base \<and> res = ESP_OK \<and> bn_handlers bn = [] \<and> bn_ids bn = [] then (its, ESP_OK)
         else case remove_bases base eid r its of (bs, err) \<Rightarrow> (bn # bs, err))"

definition loop_node_remove_handler :: "event_base \<Rightarrow> int \<Rightarrow> removal \<Rightarrow> loop_node \<Rightarrow> loop_node \<times> esp_err" where
  "loop_node_remove_handler base eid r loop_node =
     (if base = Any_base \<and> eid = ESP_EVENT_ANY_ID
      then case handler_instances_remove r (ln_handlers loop_node) of
             (hs, err) \<Rightarrow> (loop_node\<lparr>ln_handlers := hs\<rparr>, err)
      else case remove_bases base eid r (ln_bases loop_node) of (bs, err) \<Rightarrow> (loop_node\<lparr>ln_bases := bs\<rparr>, err))"

fun remove_nodes :: "event_base \<Rightarrow> int \<Rightarrow> removal \<Rightarrow> loop_node list \<Rightarrow> loop_node list" where
  "remove_nodes base eid r [] = []"
| "remove_nodes base eid r (it # its) =
     (case loop_node_remove_handler base eid r it of
        (ln, res) \<Rightarrow>
          if res = ESP_OK \<and> ln_bases ln = [] \<and> ln_handlers ln = [] then its
          else ln # remove_nodes base eid r its)"

definition esp_event_handler_unregister_with_internal ::
    "nat option \<Rightarrow> int \<Rightarrow> removal \<Rightarrow> event_loop \<Rightarrow> event_loop \<times> esp_err" where
  "esp_event_handler_unregister_with_internal event_base event_id r loop =
     (if event_base = None \<and> event_id \<noteq> ESP_EVENT_ANY_ID then (loop, ESP_FAIL)
      else let base = (case event_base of None \<Rightarrow> Any_base | Some b \<Rightarrow> Base b)
           in (loop\<lparr>el_nodes := remove_nodes base event_id r (el_nodes loop)\<rparr>, ESP_OK))"

definition esp_event_handler_unregister_with ::
    "nat option \<Rightarrow> int \<Rightarrow> nat \<Rightarrow> event_loop \<Rightarrow> event_loop \<times> esp_err" where
  "esp_event_handler_unregister_with event_base event_id handler =
     esp_event_handler_unregister_with_internal event_base event_id (By_handler handler)"

definition esp_event_handler_instance_unregister_with ::
    "nat option \<Rightarrow> int \<Rightarrow> nat option \<Rightarrow> event_loop \<Rightarrow> event_loop \<times> esp_err" where
  "esp_event_handler_instance_unregister_with event_base event_id ctx loop = (case ctx of
       None \<Rightarrow> (loop, ESP_ERR_INVALID_ARG)
     | Some c \<Rightarrow> esp_event_handler_unregister_with_internal event_base event_id (By_context c) loop)"

subsection \<open>Posting\<close>

text \<open>
  \<^verbatim>\<open>xQueueSendToBack\<close> on a queue of bounded length: the parameter \<open>drain\<close> tells what is left of the queue
  after waiting for a number of ticks.
\<close>

definition queue_send ::
    "(nat \<Rightarrow> post_instance list \<Rightarrow> post_instance list) \<Rightarrow> nat \<Rightarrow> post_instance \<Rightarrow> event_loop \<Rightarrow> event_loop option" where
  "queue_send drain ticks post loop =
     (let q = (if length (el_queue loop) < el_queue_size loop then el_queue loop else drain ticks (el_queue loop))
      in if length q < el_queue_size loop then Some (loop\<lparr>el_queue := q @ [post]\<rparr>) else None)"

text \<open>
  \<open>mutex_ok\<close> tells whether the loop's mutex is taken within the time to wait, \<open>current\<close> is the calling
  task.
\<close>

definition esp_event_post_to ::
    "(nat \<Rightarrow> post_instance list \<Rightarrow> post_instance list) \<Rightarrow> bool \<Rightarrow> bool \<Rightarrow> nat \<Rightarrow> nat option \<Rightarrow> int \<Rightarrow>
     byte list option \<Rightarrow> nat \<Rightarrow> event_loop \<Rightarrow> event_loop \<times> esp_err" where
  "esp_event_post_to drain mem_ok mutex_ok current event_base event_id event_data ticks loop =
     (case event_base of
        None \<Rightarrow> (loop, ESP_ERR_INVALID_ARG)
      | Some b \<Rightarrow>
          if event_id = ESP_EVENT_ANY_ID then (loop, ESP_ERR_INVALID_ARG)
          else if event_data \<noteq> None \<and> event_data \<noteq> Some [] \<and> \<not> mem_ok then (loop, ESP_ERR_NO_MEM)
          else let data = (case event_data of Some (d # ds) \<Rightarrow> Heap_data (d # ds) | _ \<Rightarrow> No_data);
                   post = \<lparr>po_base = Base b, po_id = event_id, po_data = data\<rparr>;
                   result = (if el_task loop = None
                     then if mutex_ok
                          then if el_running_task loop \<noteq> Some current then queue_send drain ticks post loop
                               else queue_send drain 0 post loop
                          else None
                     else if el_task loop \<noteq> Some current then queue_send drain ticks post loop
                     else queue_send drain 0 post loop)
               in case result of None \<Rightarrow> (loop, ESP_ERR_TIMEOUT) | Some loop \<Rightarrow> (loop, ESP_OK))"

text \<open>
  \<open>event_data\<close> is the memory at the pointer, \<open>event_data_size\<close> the size given with it, which is checked also
  when the pointer is \<^verbatim>\<open>NULL\<close>.
\<close>

definition esp_event_isr_post_to ::
    "nat option \<Rightarrow> int \<Rightarrow> byte list option \<Rightarrow> nat \<Rightarrow> event_loop \<Rightarrow> event_loop \<times> esp_err" where
  "esp_event_isr_post_to event_base event_id event_data event_data_size loop =
     (case event_base of
        None \<Rightarrow> (loop, ESP_ERR_INVALID_ARG)
      | Some b \<Rightarrow>
          if event_id = ESP_EVENT_ANY_ID then (loop, ESP_ERR_INVALID_ARG)
          else if 4 < event_data_size then (loop, ESP_ERR_INVALID_ARG)
          else let data = (case event_data of
                     Some ds \<Rightarrow> if event_data_size \<noteq> 0
                       then Word_data (take event_data_size ds @ replicate (4 - event_data_size) 0) else No_data
                   | None \<Rightarrow> No_data)
               in (case queue_send (\<lambda>_ q. q) 0 \<lparr>po_base = Base b, po_id = event_id, po_data = data\<rparr> loop of
                     None \<Rightarrow> (loop, ESP_FAIL)
                   | Some loop \<Rightarrow> (loop, ESP_OK)))"

subsection \<open>Running\<close>

fun id_handlers :: "int \<Rightarrow> id_node list \<Rightarrow> handler_node list" where
  "id_handlers eid [] = []"
| "id_handlers eid (it # its) = (if in_id it = eid then in_handlers it else id_handlers eid its)"

definition base_handlers :: "event_base \<Rightarrow> int \<Rightarrow> base_node \<Rightarrow> handler_node list" where
  "base_handlers base eid bn = (if bn_base bn = base then bn_handlers bn @ id_handlers eid (bn_ids bn) else [])"

definition node_handlers :: "event_base \<Rightarrow> int \<Rightarrow> loop_node \<Rightarrow> handler_node list" where
  "node_handlers base eid ln = ln_handlers ln @ concat (map (base_handlers base eid) (ln_bases ln))"

text \<open>The handlers that the loop executes for an event, in order.\<close>

definition dispatch :: "event_base \<Rightarrow> int \<Rightarrow> event_loop \<Rightarrow> handler_node list" where
  "dispatch base eid loop = concat (map (node_handlers base eid) (el_nodes loop))"

text \<open>A call of a handler: the function, its argument, and the event.\<close>

type_synonym call = "nat \<times> nat \<times> event_base \<times> int \<times> byte list option"

definition handler_execute :: "post_instance \<Rightarrow> handler_node \<Rightarrow> call" where
  "handler_execute post h = (hn_handler h, hn_arg h, po_base post, po_id post,
     case po_data post of No_data \<Rightarrow> None | Heap_data d \<Rightarrow> Some d | Word_data d \<Rightarrow> Some d)"

definition execute_post :: "event_loop \<Rightarrow> post_instance \<Rightarrow> call list" where
  "execute_post loop post = map (handler_execute post) (dispatch (po_base post) (po_id post) loop)"

text \<open>
  The run loop: \<open>run_loop current remaining elapsed loop\<close>, where \<open>remaining\<close> is \<open>None\<close> for \<^verbatim>\<open>portMAX_DELAY\<close>
  and \<open>elapsed\<close> lists the ticks that pass in each round. It ends when the queue is empty (no post came
  within the ticks to run) or the time is over; the result has the calls in order. With an endless
  delay the wait for a post is not modelled: the loop stops there.
\<close>

fun run_loop :: "nat \<Rightarrow> int option \<Rightarrow> nat list \<Rightarrow> post_instance list \<Rightarrow> event_loop \<Rightarrow> event_loop \<times> call list" where
  "run_loop current remaining elapsed [] loop = (loop\<lparr>el_queue := []\<rparr>, [])"
| "run_loop current remaining elapsed (post # posts) loop =
     (let loop = loop\<lparr>el_running_task := Some current\<rparr>;
          calls = execute_post loop post
      in case remaining of
           None \<Rightarrow> (case run_loop current None (drop 1 elapsed) posts (loop\<lparr>el_running_task := None\<rparr>) of
                      (loop, cs) \<Rightarrow> (loop, calls @ cs))
         | Some ticks \<Rightarrow>
             let ticks = ticks - int (case elapsed of [] \<Rightarrow> 0 | e # _ \<Rightarrow> e)
             in if ticks \<le> 0 then (loop\<lparr>el_queue := posts\<rparr>, calls)
                else (case run_loop current (Some ticks) (drop 1 elapsed) posts (loop\<lparr>el_running_task := None\<rparr>) of
                        (loop, cs) \<Rightarrow> (loop, calls @ cs)))"

definition esp_event_loop_run :: "nat \<Rightarrow> nat option \<Rightarrow> nat list \<Rightarrow> event_loop \<Rightarrow> event_loop \<times> call list" where
  "esp_event_loop_run current ticks_to_run elapsed loop =
     run_loop current (map_option int ticks_to_run) elapsed (el_queue loop) loop"

subsection \<open>Creating and deleting\<close>

record loop_args =
  la_queue_size :: nat
  la_task :: bool

text \<open>Whether the queue, the mutex and the task can be created are parameters; \<open>task\<close> is the new task.\<close>

definition esp_event_loop_create ::
    "bool \<Rightarrow> bool \<Rightarrow> bool \<Rightarrow> bool \<Rightarrow> nat \<Rightarrow> loop_args option \<Rightarrow> event_loop option \<times> esp_err" where
  "esp_event_loop_create mem_ok queue_ok mutex_ok task_ok task args = (case args of
       None \<Rightarrow> (None, ESP_ERR_INVALID_ARG)
     | Some a \<Rightarrow>
         if \<not> mem_ok \<or> \<not> queue_ok \<or> \<not> mutex_ok then (None, ESP_ERR_NO_MEM)
         else if la_task a \<and> \<not> task_ok then (None, ESP_FAIL)
         else (Some \<lparr>el_queue = [], el_queue_size = la_queue_size a,
                     el_task = (if la_task a then Some task else None),
                     el_running_task = None, el_nodes = [], el_brk = 0\<rparr>, ESP_OK))"

subsection \<open>The default loop\<close>

text \<open>
  The functions of \<^verbatim>\<open>default_event_loop.c\<close> apply to \<^verbatim>\<open>s_default_loop\<close>, \<open>None\<close> while it is not created.
\<close>

definition on_default :: "(event_loop \<Rightarrow> event_loop \<times> esp_err) \<Rightarrow> event_loop option \<Rightarrow> event_loop option \<times> esp_err" where
  "on_default f s_default_loop = (case s_default_loop of
       None \<Rightarrow> (None, ESP_ERR_INVALID_STATE)
     | Some loop \<Rightarrow> (case f loop of (loop, err) \<Rightarrow> (Some loop, err)))"

definition esp_event_handler_register ::
    "(alloc \<Rightarrow> bool) \<Rightarrow> nat option \<Rightarrow> int \<Rightarrow> nat \<Rightarrow> nat \<Rightarrow> event_loop option \<Rightarrow> event_loop option \<times> esp_err" where
  "esp_event_handler_register mem event_base event_id handler arg =
     on_default (esp_event_handler_register_with mem event_base event_id handler arg)"

definition esp_event_handler_instance_register ::
    "(alloc \<Rightarrow> bool) \<Rightarrow> nat option \<Rightarrow> int \<Rightarrow> nat \<Rightarrow> nat \<Rightarrow> event_loop option \<Rightarrow> event_loop option \<times> esp_err" where
  "esp_event_handler_instance_register mem event_base event_id handler arg =
     on_default (esp_event_handler_instance_register_with mem event_base event_id handler arg)"

definition esp_event_handler_unregister ::
    "nat option \<Rightarrow> int \<Rightarrow> nat \<Rightarrow> event_loop option \<Rightarrow> event_loop option \<times> esp_err" where
  "esp_event_handler_unregister event_base event_id handler =
     on_default (esp_event_handler_unregister_with event_base event_id handler)"

definition esp_event_handler_instance_unregister ::
    "nat option \<Rightarrow> int \<Rightarrow> nat option \<Rightarrow> event_loop option \<Rightarrow> event_loop option \<times> esp_err" where
  "esp_event_handler_instance_unregister event_base event_id ctx =
     on_default (esp_event_handler_instance_unregister_with event_base event_id ctx)"

definition esp_event_post ::
    "(nat \<Rightarrow> post_instance list \<Rightarrow> post_instance list) \<Rightarrow> bool \<Rightarrow> bool \<Rightarrow> nat \<Rightarrow> nat option \<Rightarrow> int \<Rightarrow>
     byte list option \<Rightarrow> nat \<Rightarrow> event_loop option \<Rightarrow> event_loop option \<times> esp_err" where
  "esp_event_post drain mem_ok mutex_ok current event_base event_id event_data ticks =
     on_default (esp_event_post_to drain mem_ok mutex_ok current event_base event_id event_data ticks)"

definition esp_event_isr_post ::
    "nat option \<Rightarrow> int \<Rightarrow> byte list option \<Rightarrow> nat \<Rightarrow> event_loop option \<Rightarrow> event_loop option \<times> esp_err" where
  "esp_event_isr_post event_base event_id event_data event_data_size =
     on_default (esp_event_isr_post_to event_base event_id event_data event_data_size)"

text \<open>\<open>queue_size\<close> is \<^verbatim>\<open>CONFIG_ESP_SYSTEM_EVENT_QUEUE_SIZE\<close>.\<close>

definition esp_event_loop_create_default ::
    "bool \<Rightarrow> bool \<Rightarrow> bool \<Rightarrow> bool \<Rightarrow> nat \<Rightarrow> nat \<Rightarrow> event_loop option \<Rightarrow> event_loop option \<times> esp_err" where
  "esp_event_loop_create_default mem_ok queue_ok mutex_ok task_ok task queue_size s_default_loop =
     (if s_default_loop \<noteq> None then (s_default_loop, ESP_ERR_INVALID_STATE)
      else esp_event_loop_create mem_ok queue_ok mutex_ok task_ok task
             (Some \<lparr>la_queue_size = queue_size, la_task = True\<rparr>))"

text \<open>Deleting a loop frees all it has; what remains is no loop.\<close>

definition esp_event_loop_delete_default :: "event_loop option \<Rightarrow> event_loop option \<times> esp_err" where
  "esp_event_loop_delete_default s_default_loop =
     (if s_default_loop = None then (None, ESP_ERR_INVALID_STATE) else (None, ESP_OK))"

end
