(* ===== verification/Esp_Event_Props.thy ===== *)
theory Esp_Event_Props
  imports Esp_Event "HOL-Library.Multiset"
begin

text \<open>
  Properties of the event loop: handlers run in the order of their registration, unregistering an
  instance removes exactly it, and posts are run in the order they were posted.
\<close>

section \<open>Well-formed loops\<close>

text \<open>All handlers of a node, of a loop.\<close>

definition bn_all :: "base_node \<Rightarrow> handler_node list" where
  "bn_all bn = bn_handlers bn @ concat (map in_handlers (bn_ids bn))"

definition ln_all :: "loop_node \<Rightarrow> handler_node list" where
  "ln_all ln = ln_handlers ln @ concat (map bn_all (ln_bases ln))"

definition all_handlers :: "event_loop \<Rightarrow> handler_node list" where
  "all_handlers loop = concat (map ln_all (el_nodes loop))"

definition bn_wf :: "base_node \<Rightarrow> bool" where
  "bn_wf bn \<longleftrightarrow> distinct (map in_id (bn_ids bn))"

definition ln_wf :: "loop_node \<Rightarrow> bool" where
  "ln_wf ln \<longleftrightarrow> (\<forall>bn \<in> set (ln_bases ln). bn_wf bn)"

text \<open>An id occurs once in a base node; contexts are distinct and were allocated before.\<close>

definition event_wf :: "event_loop \<Rightarrow> bool" where
  "event_wf loop \<longleftrightarrow>
     (\<forall>ln \<in> set (el_nodes loop). ln_wf ln) \<and> distinct (map hn_ctx (all_handlers loop)) \<and>
     (\<forall>h \<in> set (all_handlers loop). hn_ctx h < el_brk loop)"

definition covers :: "event_base \<Rightarrow> int \<Rightarrow> event_base \<Rightarrow> int \<Rightarrow> bool" where
  "covers base eid b i \<longleftrightarrow> (base = Any_base \<or> base = b) \<and> (eid = ESP_EVENT_ANY_ID \<or> eid = i)"

section \<open>Lists with a changed last match\<close>

lemma find_last_None: "find_last P xs = None \<longleftrightarrow> (\<forall>x \<in> set xs. \<not> P x)"
  by (auto simp: find_last_def find_None_iff)

lemma find_last_split:
  "find_last P xs = Some x \<Longrightarrow> \<exists>ys zs. xs = ys @ x # zs \<and> P x \<and> (\<forall>z \<in> set zs. \<not> P z)"
proof (induction xs rule: rev_induct)
  case (snoc y xs)
  show ?case
  proof (cases "P y")
    case True
    with snoc.prems show ?thesis by (intro exI [of _ xs] exI [of _ "[]"]) (simp add: find_last_def)
  next
    case False
    with snoc obtain ys zs where "xs = ys @ x # zs" "P x" "\<forall>z \<in> set zs. \<not> P z"
      by (auto simp: find_last_def)
    with False show ?thesis by (intro exI [of _ ys] exI [of _ "zs @ [y]"]) auto
  qed
qed (simp add: find_last_def)

lemma replace_last_split:
  assumes "P x" "\<forall>z \<in> set zs. \<not> P z"
  shows "replace_last P y (ys @ x # zs) = ys @ y # zs"
  using assms by (induction ys) (auto simp: list_ex_iff)

section \<open>Registering\<close>

lemma instances_add_append:
  assumes "\<forall>a. mem a"
  shows "handler_instances_add mem new False hs = (hs @ [new], ESP_OK)"
  using assms by (simp add: handler_instances_add_def)

lemma id_handlers_append:
  "id_handlers i (ns @ ms) = (if i \<in> in_id ` set ns then id_handlers i ns else id_handlers i ms)"
  by (induction ns) auto

lemma id_handlers_notin: "i \<notin> in_id ` set ns \<Longrightarrow> id_handlers i ns = []"
  by (induction ns) auto

text \<open>
  Adding to a base node: the handler comes last among those of the node that an event reaches, when a
  handler for all ids is only added to a node without ids.
\<close>

lemma base_add:
  assumes mem: "\<forall>a. mem a" and wf: "bn_wf bn" and any: "eid = ESP_EVENT_ANY_ID \<Longrightarrow> bn_ids bn = []"
  obtains bn' where "base_node_add_handler mem eid new False bn = (bn', ESP_OK)" "bn_wf bn'" "bn_base bn' = bn_base bn"
    "\<forall>b i. i \<noteq> ESP_EVENT_ANY_ID \<longrightarrow> base_handlers b i bn' =
       base_handlers b i bn @ (if bn_base bn = b \<and> (eid = ESP_EVENT_ANY_ID \<or> eid = i) then [new] else [])"
    "mset (bn_all bn') = add_mset new (mset (bn_all bn))"
proof (cases "eid = ESP_EVENT_ANY_ID")
  case True
  with any mem wf show ?thesis
    by (intro that [of "bn\<lparr>bn_handlers := bn_handlers bn @ [new]\<rparr>"])
      (simp_all add: base_node_add_handler_def instances_add_append base_handlers_def bn_wf_def bn_all_def)
next
  case eid: False
  show ?thesis
  proof (cases "find_last (\<lambda>it. in_id it = eid) (bn_ids bn)")
    case None
    then have "eid \<notin> in_id ` set (bn_ids bn)" by (auto simp: find_last_None)
    with None eid mem wf show ?thesis
      by (intro that [of "bn\<lparr>bn_ids := bn_ids bn @ [\<lparr>in_id = eid, in_handlers = [new]\<rparr>]\<rparr>"])
        (auto simp: base_node_add_handler_def instances_add_append base_handlers_def bn_wf_def bn_all_def
          id_handlers_append id_handlers_notin handler_instances_add_def)
  next
    case (Some n)
    obtain ys zs where n: "bn_ids bn = ys @ n # zs" "in_id n = eid" "\<forall>z \<in> set zs. in_id z \<noteq> eid"
      using find_last_split [OF Some] by (elim exE conjE)
    let ?ids = "ys @ n\<lparr>in_handlers := in_handlers n @ [new]\<rparr> # zs"
    have r: "replace_last (\<lambda>it. in_id it = eid) (n\<lparr>in_handlers := in_handlers n @ [new]\<rparr>) (bn_ids bn) = ?ids"
      using n by (simp add: replace_last_split)
    have "eid \<notin> in_id ` set ys" using wf n by (auto simp: bn_wf_def)
    with Some r n eid mem wf show ?thesis
      by (intro that [of "bn\<lparr>bn_ids := ?ids\<rparr>"])
        (auto simp: base_node_add_handler_def instances_add_append base_handlers_def bn_wf_def bn_all_def
          id_handlers_append)
  qed
qed

lemma base_handlers_other: "\<forall>z \<in> set zs. bn_base z \<noteq> b \<Longrightarrow> concat (map (base_handlers b i) zs) = []"
  by (induction zs) (auto simp: base_handlers_def)

lemma loop_add:
  assumes mem: "\<forall>a. mem a" and wf: "ln_wf ln" and base: "base = Any_base \<Longrightarrow> eid = ESP_EVENT_ANY_ID \<and> ln_bases ln = []"
  obtains ln' where "loop_node_add_handler mem base eid new False ln = (ln', ESP_OK)" "ln_wf ln'"
    "\<forall>b i. i \<noteq> ESP_EVENT_ANY_ID \<longrightarrow> node_handlers (Base b) i ln' =
       node_handlers (Base b) i ln @ (if covers base eid (Base b) i then [new] else [])"
    "mset (ln_all ln') = add_mset new (mset (ln_all ln))"
proof (cases "base = Any_base")
  case True
  with base mem wf show ?thesis
    by (intro that [of "ln\<lparr>ln_handlers := ln_handlers ln @ [new]\<rparr>"])
      (simp_all add: loop_node_add_handler_def instances_add_append node_handlers_def ln_wf_def ln_all_def covers_def)
next
  case specific: False
  let ?found = "find_last (\<lambda>it. bn_base it = base) (ln_bases ln)"
  let ?fresh = "ln_bases ln = [] \<or> ?found = None \<or> (bn_ids (the ?found) \<noteq> [] \<and> eid = ESP_EVENT_ANY_ID) \<or>
      (bn_base (last (ln_bases ln)) \<noteq> base \<and> bn_ids (last (ln_bases ln)) \<noteq> [] \<and> eid = ESP_EVENT_ANY_ID)"
  show ?thesis
  proof (cases ?fresh)
    case True
    let ?bn = "\<lparr>bn_base = base, bn_handlers = [], bn_ids = []\<rparr>"
    have "bn_wf ?bn" "eid = ESP_EVENT_ANY_ID \<Longrightarrow> bn_ids ?bn = []" by (simp_all add: bn_wf_def)
    then obtain bn' where bn': "base_node_add_handler mem eid new False ?bn = (bn', ESP_OK)" "bn_wf bn'" "bn_base bn' = bn_base ?bn"
        "\<forall>b i. i \<noteq> ESP_EVENT_ANY_ID \<longrightarrow> base_handlers b i bn' =
           base_handlers b i ?bn @ (if bn_base ?bn = b \<and> (eid = ESP_EVENT_ANY_ID \<or> eid = i) then [new] else [])"
        "mset (bn_all bn') = add_mset new (mset (bn_all ?bn))"
      by (rule base_add [OF mem])
    have "loop_node_add_handler mem base eid new False ln = (ln\<lparr>ln_bases := ln_bases ln @ [bn']\<rparr>, ESP_OK)"
      using specific True mem bn'(1) by (simp add: loop_node_add_handler_def Let_def)
    with specific wf bn' show ?thesis
      by (intro that [of "ln\<lparr>ln_bases := ln_bases ln @ [bn']\<rparr>"])
        (auto simp: node_handlers_def ln_wf_def ln_all_def covers_def base_handlers_def [of _ _ ?bn] bn_all_def [of ?bn])
  next
    case False
    then obtain bn where f: "?found = Some bn" and any: "eid = ESP_EVENT_ANY_ID \<Longrightarrow> bn_ids bn = []" by auto
    obtain ys zs where l: "ln_bases ln = ys @ bn # zs" "bn_base bn = base" "\<forall>z \<in> set zs. bn_base z \<noteq> base"
      using find_last_split [OF f] by (elim exE conjE)
    have "bn_wf bn" using wf l(1) by (simp add: ln_wf_def)
    from this any obtain bn' where bn': "base_node_add_handler mem eid new False bn = (bn', ESP_OK)" "bn_wf bn'"
        "bn_base bn' = bn_base bn"
        "\<forall>b i. i \<noteq> ESP_EVENT_ANY_ID \<longrightarrow> base_handlers b i bn' =
           base_handlers b i bn @ (if bn_base bn = b \<and> (eid = ESP_EVENT_ANY_ID \<or> eid = i) then [new] else [])"
        "mset (bn_all bn') = add_mset new (mset (bn_all bn))"
      by (rule base_add [OF mem])
    let ?ln = "ln\<lparr>ln_bases := ys @ bn' # zs\<rparr>"
    have "loop_node_add_handler mem base eid new False ln = (?ln, ESP_OK)"
    proof -
      have "base_node_add_handler mem eid new False (the ?found) = (bn', ESP_OK)" using bn'(1) f by simp
      moreover have "replace_last (\<lambda>it. bn_base it = base) bn' (ln_bases ln) = ys @ bn' # zs"
        using l by (simp add: replace_last_split)
      ultimately show ?thesis
        unfolding loop_node_add_handler_def Let_def if_not_P [OF False] using specific by simp
    qed
    moreover have "node_handlers (Base b) i ?ln =
        node_handlers (Base b) i ln @ (if covers base eid (Base b) i then [new] else [])"
      if "i \<noteq> ESP_EVENT_ANY_ID" for b i
      using specific l bn'(4) that by (auto simp: node_handlers_def covers_def base_handlers_other)
    ultimately show ?thesis
      using wf l bn' by (intro that [of ?ln]) (auto simp: ln_wf_def ln_all_def)
  qed
qed

definition base_of :: "nat option \<Rightarrow> event_base" where
  "base_of b = (case b of None \<Rightarrow> Any_base | Some b \<Rightarrow> Base b)"

lemma register_unfold:
  assumes "event_base = None \<longrightarrow> eid = ESP_EVENT_ANY_ID"
  shows "esp_event_handler_register_with_internal mem event_base eid h arg legacy loop =
    (let new = \<lparr>hn_ctx = el_brk loop, hn_handler = h, hn_arg = arg\<rparr>; base = base_of event_base;
         next = loop\<lparr>el_brk := el_brk loop + 1\<rparr>
     in if el_nodes loop = [] \<or> (ln_bases (last (el_nodes loop)) \<noteq> [] \<and> base = Any_base \<and> eid = ESP_EVENT_ANY_ID)
        then if \<not> mem A_loop then (loop, ESP_ERR_NO_MEM)
             else (case loop_node_add_handler mem base eid new legacy \<lparr>ln_handlers = [], ln_bases = []\<rparr> of
                     (ln, err) \<Rightarrow> if err = ESP_OK then (next\<lparr>el_nodes := el_nodes loop @ [ln]\<rparr>, err) else (loop, err))
        else (case loop_node_add_handler mem base eid new legacy (last (el_nodes loop)) of
                (ln, err) \<Rightarrow> (next\<lparr>el_nodes := butlast (el_nodes loop) @ [ln]\<rparr>, err)))"
proof -
  have "\<not> (event_base = None \<and> eid \<noteq> ESP_EVENT_ANY_ID)" using assms by blast
  then show ?thesis
    unfolding esp_event_handler_register_with_internal_def base_of_def Let_def by (simp only: if_False)
qed

lemma register_ok:
  fixes h arg :: nat
  assumes mem: "\<forall>a. mem a" and wf: "event_wf loop" and base: "event_base = None \<longrightarrow> eid = ESP_EVENT_ANY_ID"
  defines "new \<equiv> \<lparr>hn_ctx = el_brk loop, hn_handler = h, hn_arg = arg\<rparr>"
  obtains loop' where "esp_event_handler_register_with_internal mem event_base eid h arg False loop = (loop', ESP_OK)"
    "event_wf loop'" "el_queue loop' = el_queue loop"
    "\<forall>b i. i \<noteq> ESP_EVENT_ANY_ID \<longrightarrow> dispatch (Base b) i loop' =
       dispatch (Base b) i loop @ (if covers (base_of event_base) eid (Base b) i then [new] else [])"
    "mset (all_handlers loop') = add_mset new (mset (all_handlers loop))"
proof -
  define fresh where "fresh \<longleftrightarrow> el_nodes loop = [] \<or>
    (ln_bases (last (el_nodes loop)) \<noteq> [] \<and> base_of event_base = Any_base \<and> eid = ESP_EVENT_ANY_ID)"
  define pre where "pre = (if fresh then el_nodes loop else butlast (el_nodes loop))"
  define ln where "ln = (if fresh then \<lparr>ln_handlers = [], ln_bases = []\<rparr> else last (el_nodes loop))"
  have "base_of event_base = Any_base \<Longrightarrow> eid = ESP_EVENT_ANY_ID \<and> ln_bases ln = []"
    using base by (auto simp: base_of_def ln_def fresh_def split: option.splits)
  moreover have "ln_wf ln"
    using wf by (auto simp: ln_def ln_wf_def event_wf_def fresh_def)
  ultimately obtain ln' where ln': "loop_node_add_handler mem (base_of event_base) eid new False ln = (ln', ESP_OK)" "ln_wf ln'"
    "\<forall>b i. i \<noteq> ESP_EVENT_ANY_ID \<longrightarrow> node_handlers (Base b) i ln' =
       node_handlers (Base b) i ln @ (if covers (base_of event_base) eid (Base b) i then [new] else [])"
    "mset (ln_all ln') = add_mset new (mset (ln_all ln))"
    using loop_add [OF mem] by (metis (no_types, lifting))
  let ?loop = "loop\<lparr>el_brk := el_brk loop + 1, el_nodes := pre @ [ln']\<rparr>"
  have reg: "esp_event_handler_register_with_internal mem event_base eid h arg False loop = (?loop, ESP_OK)"
  proof (cases fresh)
    case True
    have "pre = el_nodes loop" "ln = \<lparr>ln_handlers = [], ln_bases = []\<rparr>"
      unfolding pre_def ln_def if_P [OF True] by (rule refl)+
    with ln'(1) mem show ?thesis
      unfolding register_unfold [OF base] Let_def fresh_def [symmetric] if_P [OF True] by (simp add: new_def)
  next
    case False
    have "pre = butlast (el_nodes loop)" "ln = last (el_nodes loop)"
      unfolding pre_def ln_def if_not_P [OF False] by (rule refl)+
    with ln'(1) show ?thesis
      unfolding register_unfold [OF base] Let_def fresh_def [symmetric] if_not_P [OF False] by (simp add: new_def)
  qed
  have nodes: "concat (map f (el_nodes loop)) = concat (map f pre) @ (if fresh then [] else f ln)" for f :: "loop_node \<Rightarrow> handler_node list"
  proof (cases fresh)
    case False
    then have "el_nodes loop = pre @ [ln]" unfolding pre_def ln_def if_not_P [OF False] by (simp add: fresh_def)
    then show ?thesis using False by simp
  qed (simp add: pre_def)
  have ln0: "node_handlers b i ln = [] \<and> ln_all ln = []" if fresh for b i
    using that by (simp add: ln_def node_handlers_def ln_all_def)
  have all: "mset (all_handlers ?loop) = add_mset new (mset (all_handlers loop))"
    unfolding all_handlers_def nodes using ln'(4) ln0 by (cases fresh) simp_all
  have "hn_ctx new \<notin> hn_ctx ` set (all_handlers loop)"
    using wf by (auto simp: event_wf_def new_def)
  moreover have "mset (map hn_ctx (all_handlers ?loop)) = mset (map hn_ctx (new # all_handlers loop))"
    using all by simp
  ultimately have "distinct (map hn_ctx (all_handlers ?loop))"
    using wf unfolding event_wf_def by (metis distinct.simps(2) list.set_map list.simps(9) mset_eq_imp_distinct_iff)
  moreover have "set (all_handlers ?loop) = insert new (set (all_handlers loop))"
    using arg_cong [OF all, of set_mset] by simp
  moreover have "\<forall>n \<in> set pre. ln_wf n" using wf by (auto simp: pre_def event_wf_def dest: in_set_butlastD)
  ultimately have "event_wf ?loop" using wf ln'(2) by (auto simp: event_wf_def new_def)
  moreover have "\<forall>b i. i \<noteq> ESP_EVENT_ANY_ID \<longrightarrow> dispatch (Base b) i ?loop =
       dispatch (Base b) i loop @ (if covers (base_of event_base) eid (Base b) i then [new] else [])"
    unfolding dispatch_def nodes using ln'(3) ln0 by (cases fresh) simp_all
  ultimately show thesis using reg all by (intro that [of ?loop]) simp_all
qed

section \<open>Unregistering\<close>

text \<open>
  For unregistering, every context is registered for one base and id: \<open>reg\<close> maps contexts to them, and
  each handler is in a node for its base and id.
\<close>

definition bn_reg :: "(nat \<Rightarrow> event_base \<times> int) \<Rightarrow> base_node \<Rightarrow> bool" where
  "bn_reg reg bn \<longleftrightarrow> bn_base bn \<noteq> Any_base \<and>
     (\<forall>h \<in> set (bn_handlers bn). reg (hn_ctx h) = (bn_base bn, ESP_EVENT_ANY_ID)) \<and>
     (\<forall>n \<in> set (bn_ids bn). in_id n \<noteq> ESP_EVENT_ANY_ID \<and>
        (\<forall>h \<in> set (in_handlers n). reg (hn_ctx h) = (bn_base bn, in_id n)))"

definition ln_reg :: "(nat \<Rightarrow> event_base \<times> int) \<Rightarrow> loop_node \<Rightarrow> bool" where
  "ln_reg reg ln \<longleftrightarrow> (\<forall>h \<in> set (ln_handlers ln). reg (hn_ctx h) = (Any_base, ESP_EVENT_ANY_ID)) \<and>
     (\<forall>bn \<in> set (ln_bases ln). bn_reg reg bn)"

definition event_inv :: "(nat \<Rightarrow> event_base \<times> int) \<Rightarrow> event_loop \<Rightarrow> bool" where
  "event_inv reg loop \<longleftrightarrow> event_wf loop \<and> (\<forall>ln \<in> set (el_nodes loop). ln_reg reg ln)"

abbreviation others :: "nat \<Rightarrow> handler_node list \<Rightarrow> handler_node list" where
  "others c \<equiv> filter (\<lambda>h. hn_ctx h \<noteq> c)"

lemma others_id: "c \<notin> hn_ctx ` set hs \<Longrightarrow> others c hs = hs"
  by (auto simp: filter_id_conv)

lemma instances_remove:
  "distinct (map hn_ctx hs) \<Longrightarrow> handler_instances_remove (By_context c) hs =
     (others c hs, if c \<in> hn_ctx ` set hs then ESP_OK else ESP_ERR_NOT_FOUND)"
proof (induction hs)
  case (Cons h hs)
  then show ?case by (cases "hn_ctx h = c") (auto simp: is_target_def others_id)
qed simp

lemma set_id_handlers: "set (id_handlers i ns) \<subseteq> set (concat (map in_handlers ns))"
  by (induction ns) auto

lemma remove_ids_eq:
  assumes "distinct (map hn_ctx (concat (map in_handlers ns)))" "distinct (map in_id ns)"
    "\<forall>n \<in> set ns. in_id n \<noteq> eid \<longrightarrow> c \<notin> hn_ctx ` set (in_handlers n)"
  shows "concat (map in_handlers (fst (remove_ids eid (By_context c) ns))) = others c (concat (map in_handlers ns)) \<and>
    id_handlers i (fst (remove_ids eid (By_context c) ns)) = others c (id_handlers i ns) \<and>
    (\<forall>m \<in> set (fst (remove_ids eid (By_context c) ns)).
       \<exists>n \<in> set ns. in_id m = in_id n \<and> set (in_handlers m) \<subseteq> set (in_handlers n)) \<and>
    distinct (map in_id (fst (remove_ids eid (By_context c) ns))) \<and>
    (snd (remove_ids eid (By_context c) ns) = ESP_OK \<longrightarrow> c \<in> hn_ctx ` set (concat (map in_handlers ns)))"
  using assms
proof (induction ns)
  case (Cons n ns)
  have IH: "concat (map in_handlers (fst (remove_ids eid (By_context c) ns))) = others c (concat (map in_handlers ns)) \<and>
    id_handlers i (fst (remove_ids eid (By_context c) ns)) = others c (id_handlers i ns) \<and>
    (\<forall>m \<in> set (fst (remove_ids eid (By_context c) ns)).
       \<exists>n \<in> set ns. in_id m = in_id n \<and> set (in_handlers m) \<subseteq> set (in_handlers n)) \<and>
    distinct (map in_id (fst (remove_ids eid (By_context c) ns))) \<and>
    (snd (remove_ids eid (By_context c) ns) = ESP_OK \<longrightarrow> c \<in> hn_ctx ` set (concat (map in_handlers ns)))"
    using Cons.prems by (intro Cons.IH) simp_all
  have rem: "handler_instances_remove (By_context c) (in_handlers n) =
     (others c (in_handlers n), if c \<in> hn_ctx ` set (in_handlers n) then ESP_OK else ESP_ERR_NOT_FOUND)"
    using Cons.prems by (intro instances_remove) simp
  obtain ns' err where r: "remove_ids eid (By_context c) ns = (ns', err)" by fastforce
  show ?case
  proof (cases "in_id n = eid \<and> c \<in> hn_ctx ` set (in_handlers n) \<and> others c (in_handlers n) = []")
    case True
    then have "remove_ids eid (By_context c) (n # ns) = (ns, ESP_OK)" using rem by simp
    moreover have "eid \<notin> in_id ` set ns" using Cons.prems(2) True by auto
    then have "\<forall>m \<in> set ns. c \<notin> hn_ctx ` set (in_handlers m)"
      using Cons.prems(3) by (metis image_eqI list.set_intros(2))
    then have "others c (concat (map in_handlers ns)) = concat (map in_handlers ns)" by (intro others_id) auto
    moreover have "others c (id_handlers j ns) = id_handlers j ns" for j
      using \<open>\<forall>m \<in> set ns. _\<close> by (intro others_id) (induction ns; auto)
    moreover have "id_handlers eid ns = []" using Cons.prems(2) True by (intro id_handlers_notin) auto
    ultimately show ?thesis using True Cons.prems(2) by auto
  next
    case False
    then have "remove_ids eid (By_context c) (n # ns) = (n\<lparr>in_handlers := others c (in_handlers n)\<rparr> # ns', err)"
      using rem r Cons.prems(3) by (auto simp: others_id split: if_splits)
    with IH r Cons.prems(2) show ?thesis by fastforce
  qed
qed simp

text \<open>One base node: what is left and what an event reaches there.\<close>

lemma base_remove:
  assumes d: "distinct (map hn_ctx (bn_all bn))" and wf: "bn_wf bn" and reg: "bn_reg reg bn" "reg c = (bn_base bn, eid)"
  obtains bn' err where "base_node_remove_handler eid (By_context c) bn = (bn', err)" "bn_base bn' = bn_base bn"
    "bn_all bn' = others c (bn_all bn)" "\<forall>b i. base_handlers b i bn' = others c (base_handlers b i bn)"
    "bn_wf bn'" "bn_reg reg bn'" "err = ESP_OK \<longrightarrow> c \<in> hn_ctx ` set (bn_all bn)"
proof (cases "eid = ESP_EVENT_ANY_ID")
  case True
  let ?bn = "bn\<lparr>bn_handlers := others c (bn_handlers bn)\<rparr>"
  have "c \<notin> hn_ctx ` set (concat (map in_handlers (bn_ids bn)))"
    using reg True by (force simp: bn_reg_def)
  then have ids: "others c (concat (map in_handlers (bn_ids bn))) = concat (map in_handlers (bn_ids bn))"
    "others c (id_handlers i (bn_ids bn)) = id_handlers i (bn_ids bn)" for i
    using set_id_handlers by (intro others_id; blast)+
  show ?thesis
    using True instances_remove [of "bn_handlers bn" c] d wf reg ids
    by (intro that [of ?bn "if c \<in> hn_ctx ` set (bn_handlers bn) then ESP_OK else ESP_ERR_NOT_FOUND"])
      (auto simp: base_node_remove_handler_def bn_all_def base_handlers_def bn_wf_def bn_reg_def)
next
  case False
  let ?ns = "fst (remove_ids eid (By_context c) (bn_ids bn))"
  let ?bn = "bn\<lparr>bn_ids := ?ns\<rparr>"
  have ids: "distinct (map hn_ctx (concat (map in_handlers (bn_ids bn))))" "distinct (map in_id (bn_ids bn))"
      "\<forall>n \<in> set (bn_ids bn). in_id n \<noteq> eid \<longrightarrow> c \<notin> hn_ctx ` set (in_handlers n)"
    using d wf reg by (auto simp: bn_all_def bn_wf_def bn_reg_def)
  note rem = remove_ids_eq [OF ids]
  have "c \<notin> hn_ctx ` set (bn_handlers bn)" using reg False by (force simp: bn_reg_def)
  then have hs: "others c (bn_handlers bn) = bn_handlers bn" by (rule others_id)
  have "in_id m \<noteq> ESP_EVENT_ANY_ID \<and> (\<forall>h \<in> set (in_handlers m). reg (hn_ctx h) = (bn_base bn, in_id m))"
    if m: "m \<in> set ?ns" for m
  proof -
    obtain n where n: "n \<in> set (bn_ids bn)" "in_id m = in_id n" "set (in_handlers m) \<subseteq> set (in_handlers n)"
      using bspec [OF rem [THEN conjunct2, THEN conjunct2, THEN conjunct1] m] by (elim bexE conjE)
    moreover have "in_id n \<noteq> ESP_EVENT_ANY_ID \<and> (\<forall>h \<in> set (in_handlers n). reg (hn_ctx h) = (bn_base bn, in_id n))"
      using reg(1) n(1) by (simp add: bn_reg_def)
    ultimately show ?thesis by (simp add: subset_iff)
  qed
  then have "bn_reg reg ?bn" using reg(1) by (simp add: bn_reg_def)
  moreover have "snd (remove_ids eid (By_context c) (bn_ids bn)) = ESP_OK \<longrightarrow> c \<in> hn_ctx ` set (bn_all bn)"
    using rem [of 0] unfolding bn_all_def by (metis UnCI image_Un set_append)
  moreover have "concat (map in_handlers ?ns) = others c (concat (map in_handlers (bn_ids bn)))" "distinct (map in_id ?ns)"
      "\<And>i. id_handlers i ?ns = others c (id_handlers i (bn_ids bn))" using rem by simp_all
  ultimately show ?thesis using False hs
    by (intro that [of ?bn "snd (remove_ids eid (By_context c) (bn_ids bn))"])
      (simp_all add: base_node_remove_handler_def bn_all_def base_handlers_def bn_wf_def split: prod.splits)
qed

lemma base_handlers_sub: "set (base_handlers b i bn) \<subseteq> set (bn_all bn)"
  using set_id_handlers by (auto simp: base_handlers_def bn_all_def)

lemma bases_untouched:
  assumes "c \<notin> hn_ctx ` set (concat (map bn_all bs))"
  shows "others c (concat (map bn_all bs)) = concat (map bn_all bs)"
    "others c (concat (map (base_handlers b i) bs)) = concat (map (base_handlers b i) bs)"
proof -
  have "set (concat (map (base_handlers b i) bs)) \<subseteq> set (concat (map bn_all bs))"
    using base_handlers_sub by fastforce
  with assms show "others c (concat (map bn_all bs)) = concat (map bn_all bs)"
    "others c (concat (map (base_handlers b i) bs)) = concat (map (base_handlers b i) bs)"
    by (intro others_id; blast)+
qed

lemma bases_remove:
  assumes "distinct (map hn_ctx (concat (map bn_all bs)))" "\<forall>bn \<in> set bs. bn_wf bn \<and> bn_reg reg bn"
    "reg c = (base, eid)"
  shows "concat (map bn_all (fst (remove_bases base eid (By_context c) bs))) = others c (concat (map bn_all bs)) \<and>
    (\<forall>b i. concat (map (base_handlers b i) (fst (remove_bases base eid (By_context c) bs))) =
       others c (concat (map (base_handlers b i) bs))) \<and>
    (\<forall>bn \<in> set (fst (remove_bases base eid (By_context c) bs)). bn_wf bn \<and> bn_reg reg bn) \<and>
    (snd (remove_bases base eid (By_context c) bs) = ESP_OK \<longrightarrow> c \<in> hn_ctx ` set (concat (map bn_all bs)))"
  using assms(1,2)
proof (induction bs)
  case (Cons bn bs)
  let ?rest = "remove_bases base eid (By_context c) bs"
  have IH: "concat (map bn_all (fst ?rest)) = others c (concat (map bn_all bs))"
    "\<And>b i. concat (map (base_handlers b i) (fst ?rest)) = others c (concat (map (base_handlers b i) bs))"
    "\<forall>bn \<in> set (fst ?rest). bn_wf bn \<and> bn_reg reg bn"
    "snd ?rest = ESP_OK \<longrightarrow> c \<in> hn_ctx ` set (concat (map bn_all bs))"
    using Cons.IH Cons.prems by simp_all
  obtain rest err where r: "?rest = (rest, err)" by fastforce
  show ?case
  proof (cases "bn_base bn = base")
    case True
    have "distinct (map hn_ctx (bn_all bn))" "bn_wf bn" "bn_reg reg bn" "reg c = (bn_base bn, eid)"
      using Cons.prems assms(3) True by simp_all
    then obtain bn' e where bn': "base_node_remove_handler eid (By_context c) bn = (bn', e)" "bn_base bn' = bn_base bn"
      "bn_all bn' = others c (bn_all bn)" "\<forall>b i. base_handlers b i bn' = others c (base_handlers b i bn)"
      "bn_wf bn'" "bn_reg reg bn'" "e = ESP_OK \<longrightarrow> c \<in> hn_ctx ` set (bn_all bn)"
      by (rule base_remove)
    show ?thesis
    proof (cases "e = ESP_OK \<and> bn_handlers bn' = [] \<and> bn_ids bn' = []")
      case stop: True
      then have "remove_bases base eid (By_context c) (bn # bs) = (bs, ESP_OK)" using True bn'(1) by simp
      moreover have "c \<notin> hn_ctx ` set (concat (map bn_all bs))" using Cons.prems(1) stop bn'(7) by auto
      moreover have "bn_all bn' = []" "\<And>b i. base_handlers b i bn' = []"
        using stop by (simp_all add: bn_all_def base_handlers_def)
      ultimately show ?thesis using bn' stop Cons.prems(2) bases_untouched [of c bs] by auto
    next
      case False
      then have "remove_bases base eid (By_context c) (bn # bs) = (bn' # rest, err)"
        using True bn'(1) r by auto
      with IH bn' r show ?thesis by auto
    qed
  next
    case False
    then have "remove_bases base eid (By_context c) (bn # bs) = (bn # rest, err)" using r by simp
    moreover have "c \<notin> hn_ctx ` set (concat (map bn_all [bn]))"
      using Cons.prems(2) assms(3) False by (auto simp: bn_reg_def bn_all_def)
    ultimately show ?thesis using IH r Cons.prems(2) bases_untouched [of c "[bn]"] by auto
  qed
qed simp

lemma node_handlers_sub: "set (node_handlers b i ln) \<subseteq> set (ln_all ln)"
  using base_handlers_sub by (fastforce simp: node_handlers_def ln_all_def)

lemma node_remove:
  assumes d: "distinct (map hn_ctx (ln_all ln))" and wf: "ln_wf ln" and reg: "ln_reg reg ln" "reg c = (base, eid)"
    and base: "base = Any_base \<longrightarrow> eid = ESP_EVENT_ANY_ID"
  obtains ln' err where "loop_node_remove_handler base eid (By_context c) ln = (ln', err)"
    "ln_all ln' = others c (ln_all ln)" "\<forall>b i. node_handlers b i ln' = others c (node_handlers b i ln)"
    "ln_wf ln'" "ln_reg reg ln'" "err = ESP_OK \<longrightarrow> c \<in> hn_ctx ` set (ln_all ln)"
proof (cases "base = Any_base \<and> eid = ESP_EVENT_ANY_ID")
  case True
  have "c \<notin> hn_ctx ` set (concat (map bn_all (ln_bases ln)))"
    using reg True by (fastforce simp: ln_reg_def bn_reg_def bn_all_def)
  note bs = bases_untouched [OF this]
  show ?thesis
    using True instances_remove [of "ln_handlers ln" c] d wf reg bs
    by (intro that [of "ln\<lparr>ln_handlers := others c (ln_handlers ln)\<rparr>"
          "if c \<in> hn_ctx ` set (ln_handlers ln) then ESP_OK else ESP_ERR_NOT_FOUND"])
      (auto simp: loop_node_remove_handler_def ln_all_def node_handlers_def ln_wf_def ln_reg_def)
next
  case False
  let ?r = "remove_bases base eid (By_context c) (ln_bases ln)"
  have "distinct (map hn_ctx (concat (map bn_all (ln_bases ln))))" "\<forall>bn \<in> set (ln_bases ln). bn_wf bn \<and> bn_reg reg bn"
    using d wf reg(1) by (simp_all add: ln_all_def ln_wf_def ln_reg_def)
  note rem = bases_remove [OF this reg(2)]
  have "c \<notin> hn_ctx ` set (ln_handlers ln)" using reg False base by (force simp: ln_reg_def)
  then have hs: "others c (ln_handlers ln) = ln_handlers ln" by (rule others_id)
  have "snd ?r = ESP_OK \<longrightarrow> c \<in> hn_ctx ` set (ln_all ln)"
    using rem unfolding ln_all_def by (metis UnCI image_Un set_append)
  moreover have "loop_node_remove_handler base eid (By_context c) ln = (ln\<lparr>ln_bases := fst ?r\<rparr>, snd ?r)"
    unfolding loop_node_remove_handler_def if_not_P [OF False] by (simp split: prod.splits)
  ultimately show ?thesis using hs rem reg(1)
    by (intro that [of "ln\<lparr>ln_bases := fst ?r\<rparr>" "snd ?r"])
      (simp_all add: ln_all_def node_handlers_def ln_wf_def ln_reg_def)
qed

lemma nodes_untouched:
  assumes "c \<notin> hn_ctx ` set (concat (map ln_all ls))"
  shows "others c (concat (map ln_all ls)) = concat (map ln_all ls)"
    "others c (concat (map (node_handlers b i) ls)) = concat (map (node_handlers b i) ls)"
proof -
  have "set (concat (map (node_handlers b i) ls)) \<subseteq> set (concat (map ln_all ls))"
    using node_handlers_sub by fastforce
  with assms show "others c (concat (map ln_all ls)) = concat (map ln_all ls)"
    "others c (concat (map (node_handlers b i) ls)) = concat (map (node_handlers b i) ls)"
    by (intro others_id; blast)+
qed

lemma nodes_remove:
  assumes "distinct (map hn_ctx (concat (map ln_all ls)))" "\<forall>ln \<in> set ls. ln_wf ln \<and> ln_reg reg ln"
    "reg c = (base, eid)" "base = Any_base \<longrightarrow> eid = ESP_EVENT_ANY_ID"
  shows "concat (map ln_all (remove_nodes base eid (By_context c) ls)) = others c (concat (map ln_all ls)) \<and>
    (\<forall>b i. concat (map (node_handlers b i) (remove_nodes base eid (By_context c) ls)) =
       others c (concat (map (node_handlers b i) ls))) \<and>
    (\<forall>ln \<in> set (remove_nodes base eid (By_context c) ls). ln_wf ln \<and> ln_reg reg ln)"
  using assms(1,2)
proof (induction ls)
  case (Cons ln ls)
  have "distinct (map hn_ctx (ln_all ln))" "ln_wf ln" "ln_reg reg ln" using Cons.prems by simp_all
  then obtain ln' e where ln': "loop_node_remove_handler base eid (By_context c) ln = (ln', e)"
    "ln_all ln' = others c (ln_all ln)" "\<forall>b i. node_handlers b i ln' = others c (node_handlers b i ln)"
    "ln_wf ln'" "ln_reg reg ln'" "e = ESP_OK \<longrightarrow> c \<in> hn_ctx ` set (ln_all ln)"
    using assms(3,4) by (rule node_remove)
  show ?case
  proof (cases "e = ESP_OK \<and> ln_bases ln' = [] \<and> ln_handlers ln' = []")
    case True
    then have "remove_nodes base eid (By_context c) (ln # ls) = ls" using ln'(1) by simp
    moreover have "c \<notin> hn_ctx ` set (concat (map ln_all ls))" using Cons.prems(1) True ln'(6) by auto
    moreover have "ln_all ln' = []" "\<And>b i. node_handlers b i ln' = []"
      using True by (simp_all add: ln_all_def node_handlers_def)
    ultimately show ?thesis using ln' Cons.prems(2) nodes_untouched [of c ls] by auto
  next
    case False
    then have "remove_nodes base eid (By_context c) (ln # ls) = ln' # remove_nodes base eid (By_context c) ls"
      using ln'(1) by auto
    with Cons ln' show ?thesis by simp
  qed
qed simp

text \<open>Registering keeps the map of contexts.\<close>

lemma instances_add_sub: "set (fst (handler_instances_add mem new False hs)) \<subseteq> insert new (set hs)"
  by (simp add: handler_instances_add_def) auto

lemma replace_last_sub: "set (replace_last P y xs) \<subseteq> insert y (set xs)"
  by (induction xs) auto

lemma subset_ball: "A \<subseteq> B \<Longrightarrow> \<forall>x \<in> B. P x \<Longrightarrow> \<forall>x \<in> A. P x"
  by blast

lemma find_last_in: "find_last P xs = Some x \<Longrightarrow> x \<in> set xs \<and> P x"
  using find_last_split by fastforce

lemma base_add_reg:
  assumes reg: "bn_reg reg bn" "reg (hn_ctx new) = (bn_base bn, eid)"
  shows "bn_reg reg (fst (base_node_add_handler mem eid new False bn))"
proof (cases "eid = ESP_EVENT_ANY_ID")
  case True
  with reg instances_add_sub [of mem new "bn_handlers bn"] show ?thesis
    by (auto simp: base_node_add_handler_def bn_reg_def split: prod.splits)
next
  case False
  show ?thesis
  proof (cases "find_last (\<lambda>it. in_id it = eid) (bn_ids bn)")
    case None
    with False reg instances_add_sub [of mem new "[]"] show ?thesis
      by (fastforce simp: base_node_add_handler_def bn_reg_def split: prod.splits)
  next
    case (Some n)
    let ?n = "n\<lparr>in_handlers := fst (handler_instances_add mem new False (in_handlers n))\<rparr>"
    have n: "n \<in> set (bn_ids bn)" "in_id n = eid" using find_last_in [OF Some] by simp_all
    let ?Q = "\<lambda>m. in_id m \<noteq> ESP_EVENT_ANY_ID \<and> (\<forall>h \<in> set (in_handlers m). reg (hn_ctx h) = (bn_base bn, in_id m))"
    have "?Q ?n"
      using reg n instances_add_sub [of mem new "in_handlers n"] False unfolding bn_reg_def by auto
    then have "\<forall>m \<in> insert ?n (set (bn_ids bn)). ?Q m" using reg(1) by (simp add: bn_reg_def)
    then have "\<forall>m \<in> set (replace_last (\<lambda>it. in_id it = eid) ?n (bn_ids bn)). ?Q m"
      by (rule subset_ball [OF replace_last_sub])
    then have "bn_reg reg (bn\<lparr>bn_ids := replace_last (\<lambda>it. in_id it = eid) ?n (bn_ids bn)\<rparr>)"
      using reg(1) by (simp add: bn_reg_def)
    with Some False show ?thesis by (simp add: base_node_add_handler_def case_prod_beta)
  qed
qed

lemma loop_add_reg:
  assumes reg: "ln_reg reg ln" "reg (hn_ctx new) = (base, eid)" and base: "base = Any_base \<longrightarrow> eid = ESP_EVENT_ANY_ID"
  shows "ln_reg reg (fst (loop_node_add_handler mem base eid new False ln))"
proof (cases "base = Any_base")
  case True
  with base reg instances_add_sub [of mem new "ln_handlers ln"] show ?thesis
    by (auto simp: loop_node_add_handler_def ln_reg_def case_prod_beta)
next
  case False
  have bases: "\<forall>bn \<in> set (ln_bases ln). bn_reg reg bn" using reg(1) by (simp add: ln_reg_def)
  let ?bn0 = "\<lparr>bn_base = base, bn_handlers = [], bn_ids = []\<rparr>"
  have "bn_reg reg ?bn0" using False by (simp add: bn_reg_def)
  then have new: "bn_reg reg (fst (base_node_add_handler mem eid new False ?bn0))"
    using reg(2) by (intro base_add_reg) simp_all
  let ?found = "find_last (\<lambda>it. bn_base it = base) (ln_bases ln)"
  have old: "\<forall>b \<in> set (replace_last (\<lambda>it. bn_base it = base) (fst (base_node_add_handler mem eid new False bn)) (ln_bases ln)).
      bn_reg reg b" if "?found = Some bn" for bn
  proof (rule subset_ball [OF replace_last_sub])
    from find_last_in [OF that] have "bn_reg reg bn" "bn_base bn = base" using bases by auto
    then have "bn_reg reg (fst (base_node_add_handler mem eid new False bn))"
      using reg(2) by (intro base_add_reg) simp_all
    then show "\<forall>b \<in> insert (fst (base_node_add_handler mem eid new False bn)) (set (ln_bases ln)). bn_reg reg b"
      using bases by simp
  qed
  show ?thesis
  proof (cases ?found)
    case None
    with False new reg(1) show ?thesis by (simp add: loop_node_add_handler_def ln_reg_def case_prod_beta)
  next
    case (Some bn)
    with False new old [OF Some] reg(1) show ?thesis
      unfolding loop_node_add_handler_def Let_def Some by (auto simp: ln_reg_def case_prod_beta)
  qed
qed

lemma register_reg:
  assumes inv: "event_inv reg loop" and base: "event_base = None \<longrightarrow> eid = ESP_EVENT_ANY_ID"
    and r: "esp_event_handler_register_with_internal mem event_base eid h arg False loop = (loop', ESP_OK)"
    and wf: "event_wf loop'"
  shows "event_inv (reg(el_brk loop := (base_of event_base, eid))) loop'"
proof -
  let ?reg = "reg(el_brk loop := (base_of event_base, eid))"
  let ?new = "\<lparr>hn_ctx = el_brk loop, hn_handler = h, hn_arg = arg\<rparr>"
  have b: "base_of event_base = Any_base \<longrightarrow> eid = ESP_EVENT_ANY_ID"
    using base by (auto simp: base_of_def split: option.splits)
  have "hn_ctx g < el_brk loop" if "ln \<in> set (el_nodes loop)" "g \<in> set (ln_all ln)" for ln g
    using inv that by (auto simp: event_inv_def event_wf_def all_handlers_def)
  then have old: "ln_reg ?reg ln" if "ln \<in> set (el_nodes loop)" for ln
    using inv that unfolding event_inv_def ln_reg_def bn_reg_def ln_all_def bn_all_def by fastforce
  have add: "ln_reg ?reg (fst (loop_node_add_handler mem (base_of event_base) eid ?new False ln))"
    if "ln_reg ?reg ln" for ln using that b by (intro loop_add_reg) simp_all
  have "ln_reg ?reg \<lparr>ln_handlers = [], ln_bases = []\<rparr>" by (simp add: ln_reg_def)
  note fresh = add [OF this]
  have "\<forall>ln \<in> set (el_nodes loop'). ln_reg ?reg ln"
  proof (cases "el_nodes loop = [] \<or>
      (ln_bases (last (el_nodes loop)) \<noteq> [] \<and> base_of event_base = Any_base \<and> eid = ESP_EVENT_ANY_ID)")
    case True
    then show ?thesis using r fresh old unfolding register_unfold [OF base] Let_def if_P [OF True]
      by (auto simp: case_prod_beta split: if_splits)
  next
    case False
    then have "last (el_nodes loop) \<in> set (el_nodes loop)" by simp
    note last = add [OF old [OF this]]
    have "\<forall>ln \<in> set (butlast (el_nodes loop)). ln_reg ?reg ln" using old in_set_butlastD by metis
    with last show ?thesis
      using r unfolding register_unfold [OF base] Let_def if_not_P [OF False] by (auto simp: case_prod_beta)
  qed
  with wf show ?thesis by (simp add: event_inv_def)
qed

section \<open>The properties\<close>

text \<open>
  C23. First registered, first executed. In a well-formed loop, registering a handler instance for a
  base and an id, either of them possibly any, succeeds when memory is available. Every event that it
  covers then runs the handlers it ran before, in the same order, and the new one last; events that it
  does not cover run what they ran before.
\<close>
theorem register_dispatches_last:
  assumes "\<forall>a. mem a" "event_inv reg loop" "event_base = None \<longrightarrow> eid = ESP_EVENT_ANY_ID"
  shows "\<exists>loop'. esp_event_handler_instance_register_with mem event_base eid h arg loop = (loop', ESP_OK) \<and>
    event_inv (reg(el_brk loop := (base_of event_base, eid))) loop' \<and>
    (\<forall>b i. i \<noteq> ESP_EVENT_ANY_ID \<longrightarrow> dispatch (Base b) i loop' = dispatch (Base b) i loop @
       (if covers (base_of event_base) eid (Base b) i
        then [\<lparr>hn_ctx = el_brk loop, hn_handler = h, hn_arg = arg\<rparr>] else []))"
proof -
  have "event_wf loop" using assms(2) by (simp add: event_inv_def)
  then obtain loop' where r: "esp_event_handler_register_with_internal mem event_base eid h arg False loop = (loop', ESP_OK)"
    "event_wf loop'" "el_queue loop' = el_queue loop"
    "\<forall>b i. i \<noteq> ESP_EVENT_ANY_ID \<longrightarrow> dispatch (Base b) i loop' =
       dispatch (Base b) i loop @ (if covers (base_of event_base) eid (Base b) i
         then [\<lparr>hn_ctx = el_brk loop, hn_handler = h, hn_arg = arg\<rparr>] else [])"
    "mset (all_handlers loop') = add_mset \<lparr>hn_ctx = el_brk loop, hn_handler = h, hn_arg = arg\<rparr> (mset (all_handlers loop))"
    by (rule register_ok [OF assms(1) _ assms(3)])
  with register_reg [OF assms(2,3) r(1,2)] show ?thesis
    by (intro exI [of _ loop']) (simp add: esp_event_handler_instance_register_with_def)
qed

definition empty_loop :: event_loop where
  "empty_loop = \<lparr>el_queue = [], el_queue_size = 2, el_task = None, el_running_task = None, el_nodes = [], el_brk = 0\<rparr>"

lemma empty_loop_inv: "event_inv reg empty_loop"
  by (simp add: event_inv_def event_wf_def empty_loop_def all_handlers_def)

theorem register_dispatches_last_witness:
  "event_inv (\<lambda>_. (Any_base, 0)) empty_loop \<and>
   (\<exists>loop'. esp_event_handler_instance_register_with (\<lambda>_. True) (Some 1) 5 7 9 empty_loop = (loop', ESP_OK) \<and>
     dispatch (Base 1) 5 loop' = [\<lparr>hn_ctx = 0, hn_handler = 7, hn_arg = 9\<rparr>] \<and> dispatch (Base 1) 6 loop' = [])"
proof -
  have "el_nodes empty_loop = []" "el_brk empty_loop = 0" by (simp_all add: empty_loop_def)
  moreover obtain loop' where "esp_event_handler_instance_register_with (\<lambda>_. True) (Some 1) 5 7 9 empty_loop = (loop', ESP_OK)"
    "\<forall>b i. i \<noteq> ESP_EVENT_ANY_ID \<longrightarrow> dispatch (Base b) i loop' = dispatch (Base b) i empty_loop @
       (if covers (base_of (Some 1)) 5 (Base b) i
        then [\<lparr>hn_ctx = el_brk empty_loop, hn_handler = 7, hn_arg = 9\<rparr>] else [])"
    using register_dispatches_last [OF _ empty_loop_inv, of "\<lambda>_. True" "Some 1" 5 7 9 "\<lambda>_. (Any_base, 0)"] by auto
  ultimately show ?thesis
    using empty_loop_inv by (auto simp: dispatch_def [of _ _ empty_loop] covers_def base_of_def ESP_EVENT_ANY_ID_def)
qed

text \<open>
  C24. Unregistering an instance removes exactly it. With the base and id that the instance was
  registered for, every event afterwards runs the handlers it ran before without that instance, in the
  same order, and the loop stays well formed.
\<close>
theorem unregister_removes_instance:
  assumes "event_inv reg loop" "reg c = (base_of event_base, eid)" "event_base = None \<longrightarrow> eid = ESP_EVENT_ANY_ID"
  shows "\<exists>loop'. esp_event_handler_instance_unregister_with event_base eid (Some c) loop = (loop', ESP_OK) \<and>
    event_inv reg loop' \<and> (\<forall>b i. dispatch b i loop' = filter (\<lambda>h. hn_ctx h \<noteq> c) (dispatch b i loop))"
proof -
  let ?ls = "remove_nodes (base_of event_base) eid (By_context c) (el_nodes loop)"
  let ?loop = "loop\<lparr>el_nodes := ?ls\<rparr>"
  have b: "base_of event_base = Any_base \<longrightarrow> eid = ESP_EVENT_ANY_ID"
    using assms(3) by (auto simp: base_of_def split: option.splits)
  have "distinct (map hn_ctx (concat (map ln_all (el_nodes loop))))" "\<forall>ln \<in> set (el_nodes loop). ln_wf ln \<and> ln_reg reg ln"
    using assms(1) by (simp_all add: event_inv_def event_wf_def all_handlers_def)
  note rem = nodes_remove [OF this assms(2) b]
  have "esp_event_handler_instance_unregister_with event_base eid (Some c) loop = (?loop, ESP_OK)"
    using assms(3) by (auto simp: esp_event_handler_instance_unregister_with_def
        esp_event_handler_unregister_with_internal_def base_of_def)
  moreover have all: "all_handlers ?loop = others c (all_handlers loop)"
    using rem by (simp add: all_handlers_def)
  then have "distinct (map hn_ctx (all_handlers ?loop))" "\<forall>h \<in> set (all_handlers ?loop). hn_ctx h < el_brk ?loop"
    using assms(1) by (simp_all add: event_inv_def event_wf_def distinct_map_filter)
  then have "event_inv reg ?loop"
    using rem by (simp add: event_inv_def event_wf_def)
  moreover have "\<forall>b i. dispatch b i ?loop = others c (dispatch b i loop)"
    using rem by (simp add: dispatch_def)
  ultimately show ?thesis by (intro exI [of _ ?loop]) simp
qed

text \<open>A loop with one handler for an event and one for all events.\<close>

definition demo_loop :: event_loop where
  "demo_loop = empty_loop\<lparr>el_nodes := [\<lparr>ln_handlers = [\<lparr>hn_ctx = 0, hn_handler = 7, hn_arg = 9\<rparr>],
     ln_bases = [\<lparr>bn_base = Base 1, bn_handlers = [],
       bn_ids = [\<lparr>in_id = 5, in_handlers = [\<lparr>hn_ctx = 1, hn_handler = 8, hn_arg = 9\<rparr>]\<rparr>]\<rparr>]\<rparr>], el_brk := 2\<rparr>"

definition demo_reg :: "nat \<Rightarrow> event_base \<times> int" where
  "demo_reg c = (if c = 0 then (Any_base, ESP_EVENT_ANY_ID) else (Base 1, 5))"

lemma demo_loop_inv: "event_inv demo_reg demo_loop"
  by (simp add: event_inv_def event_wf_def ln_wf_def bn_wf_def ln_reg_def bn_reg_def all_handlers_def ln_all_def bn_all_def
      demo_loop_def demo_reg_def ESP_EVENT_ANY_ID_def)

theorem unregister_removes_instance_witness:
  "event_inv demo_reg demo_loop \<and>
   (\<exists>loop'. esp_event_handler_instance_unregister_with (Some 1) 5 (Some 1) demo_loop = (loop', ESP_OK) \<and>
     dispatch (Base 1) 5 loop' = [\<lparr>hn_ctx = 0, hn_handler = 7, hn_arg = 9\<rparr>])"
proof -
  have "dispatch (Base 1) 5 demo_loop = [\<lparr>hn_ctx = 0, hn_handler = 7, hn_arg = 9\<rparr>, \<lparr>hn_ctx = 1, hn_handler = 8, hn_arg = 9\<rparr>]"
    by (simp add: dispatch_def node_handlers_def base_handlers_def demo_loop_def)
  with unregister_removes_instance [OF demo_loop_inv, of 1 "Some 1" 5] demo_loop_inv show ?thesis
    by (auto simp: demo_reg_def base_of_def)
qed

section \<open>Posting and running\<close>

lemma dispatch_cong: "el_nodes loop' = el_nodes loop \<Longrightarrow> execute_post loop' = execute_post loop"
  by (simp add: fun_eq_iff execute_post_def dispatch_def)

lemma run_loop_all:
  "el_running_task loop = None \<Longrightarrow> run_loop current None elapsed posts loop =
     (loop\<lparr>el_queue := []\<rparr>, concat (map (execute_post loop) posts))"
proof (induction posts arbitrary: loop elapsed)
  case (Cons post posts)
  have "execute_post (loop\<lparr>el_running_task := x\<rparr>) = execute_post loop" for x by (rule dispatch_cong) simp
  moreover have "loop\<lparr>el_running_task := None\<rparr> = loop" using Cons.prems by simp
  ultimately show ?case using Cons by (simp add: Let_def)
qed simp

text \<open>
  C25. Posts are run in the order they were posted. A post that is accepted while the loop does not
  run is put at the end of the queue, with a copy of its data; running the loop then executes, for
  every post of the queue in order, the handlers of its event, the accepted post last, and leaves the
  queue empty and the handlers registered.
\<close>
theorem posts_run_in_order:
  assumes "esp_event_post_to drain mem_ok mutex_ok current (Some b) eid data ticks loop = (loop', ESP_OK)"
    "length (el_queue loop) < el_queue_size loop" "el_running_task loop = None"
  shows "esp_event_loop_run task None elapsed loop' =
    (loop\<lparr>el_queue := []\<rparr>,
     concat (map (execute_post loop) (el_queue loop)) @
     map (\<lambda>h. (hn_handler h, hn_arg h, Base b, eid, if data = Some [] then None else data)) (dispatch (Base b) eid loop))"
proof -
  let ?post = "\<lparr>po_base = Base b, po_id = eid, po_data = case data of Some (d # ds) \<Rightarrow> Heap_data (d # ds) | _ \<Rightarrow> No_data\<rparr>"
  have l: "loop' = loop\<lparr>el_queue := el_queue loop @ [?post]\<rparr>"
    using assms(1,2) by (auto simp: esp_event_post_to_def queue_send_def Let_def split: if_splits option.splits)
  moreover have "execute_post (loop\<lparr>el_queue := q\<rparr>) = execute_post loop" for q by (rule dispatch_cong) simp
  moreover have "execute_post loop ?post =
      map (\<lambda>h. (hn_handler h, hn_arg h, Base b, eid, if data = Some [] then None else data)) (dispatch (Base b) eid loop)"
    by (cases data rule: option.exhaust; cases "the data") (simp_all add: execute_post_def handler_execute_def)
  ultimately show ?thesis
    using run_loop_all [of loop' task elapsed "el_queue loop'"] assms(3) by (simp add: esp_event_loop_run_def)
qed

theorem posts_run_in_order_witness:
  "\<exists>loop'. esp_event_post_to (\<lambda>_ q. q) True True 3 (Some 1) 5 (Some [4]) 0 demo_loop = (loop', ESP_OK) \<and>
     snd (esp_event_loop_run 3 None [] loop') = [(7, 9, Base 1, 5, Some [4]), (8, 9, Base 1, 5, Some [4])]"
proof -
  let ?r = "esp_event_post_to (\<lambda>_ q. q) True True 3 (Some 1) 5 (Some [4]) 0 demo_loop"
  have p: "?r = (fst ?r, ESP_OK)"
    by (simp add: esp_event_post_to_def queue_send_def demo_loop_def empty_loop_def ESP_EVENT_ANY_ID_def)
  have "dispatch (Base 1) 5 demo_loop = [\<lparr>hn_ctx = 0, hn_handler = 7, hn_arg = 9\<rparr>, \<lparr>hn_ctx = 1, hn_handler = 8, hn_arg = 9\<rparr>]"
    "el_queue demo_loop = []" "el_queue_size demo_loop = 2" "el_running_task demo_loop = None"
    by (simp_all add: dispatch_def node_handlers_def base_handlers_def demo_loop_def empty_loop_def)
  with posts_run_in_order [OF p, of 3 "[]"] p show ?thesis by (intro exI [of _ "fst ?r"]) simp
qed

text \<open>
  C26. After a run that ended because its time was over, the loop still names the task as the one that
  runs it. A later post by this task to a full queue then fails at once, whatever time to wait it was
  given, also when another task would make room within that time.
\<close>
theorem timed_run_leaves_running_task:
  assumes "el_task loop = None" "el_queue loop = post # posts" "t \<le> e"
    and "\<And>q. drain 0 q = q" "eid \<noteq> ESP_EVENT_ANY_ID" "length q = el_queue_size loop"
  shows "\<exists>loop' calls. esp_event_loop_run current (Some t) (e # es) loop = (loop', calls) \<and>
    el_queue loop' = posts \<and> el_running_task loop' = Some current \<and>
    esp_event_post_to drain True mutex_ok current (Some b) eid data ticks (loop'\<lparr>el_queue := q\<rparr>) =
      (loop'\<lparr>el_queue := q\<rparr>, ESP_ERR_TIMEOUT)"
  using assms by (simp add: esp_event_loop_run_def Let_def esp_event_post_to_def queue_send_def)

theorem timed_run_leaves_running_task_witness:
  "\<exists>loop' calls. esp_event_loop_run 3 (Some 1) [1] (demo_loop\<lparr>el_queue := [\<lparr>po_base = Base 1, po_id = 5, po_data = No_data\<rparr>]\<rparr>) =
     (loop', calls) \<and> el_running_task loop' = Some 3 \<and>
     esp_event_post_to (\<lambda>ticks q. if ticks = 0 then q else []) True True 3 (Some 1) 6 None 100
       (loop'\<lparr>el_queue := replicate 2 \<lparr>po_base = Base 1, po_id = 5, po_data = No_data\<rparr>\<rparr>) =
     (loop'\<lparr>el_queue := replicate 2 \<lparr>po_base = Base 1, po_id = 5, po_data = No_data\<rparr>\<rparr>, ESP_ERR_TIMEOUT)"
  using timed_run_leaves_running_task
    [of "demo_loop\<lparr>el_queue := [\<lparr>po_base = Base 1, po_id = 5, po_data = No_data\<rparr>]\<rparr>"
      "\<lparr>po_base = Base 1, po_id = 5, po_data = No_data\<rparr>" "[]" 1 1 "\<lambda>ticks q. if ticks = 0 then q else []" 6
      "replicate 2 \<lparr>po_base = Base 1, po_id = 5, po_data = No_data\<rparr>" 3 "[]" True 1 None 100]
  by (auto simp: demo_loop_def empty_loop_def ESP_EVENT_ANY_ID_def)

section \<open>Legacy registrations\<close>

text \<open>
  A legacy registration differs from one of an instance only when the handler is already in the list
  it is added to.
\<close>

lemma instances_add_legacy:
  "hn_handler new \<notin> hn_handler ` set hs \<Longrightarrow>
   handler_instances_add mem new True hs = handler_instances_add mem new False hs"
  by (auto simp: handler_instances_add_def list_ex_iff image_iff)

lemma base_add_legacy:
  assumes "hn_handler new \<notin> hn_handler ` set (bn_all bn)"
  shows "base_node_add_handler mem eid new True bn = base_node_add_handler mem eid new False bn"
proof -
  have "handler_instances_add mem new True (bn_handlers bn) = handler_instances_add mem new False (bn_handlers bn)"
    using assms by (intro instances_add_legacy) (auto simp: bn_all_def)
  moreover have "handler_instances_add mem new True [] = handler_instances_add mem new False []"
    by (rule instances_add_legacy) simp
  moreover have "handler_instances_add mem new True (in_handlers n) = handler_instances_add mem new False (in_handlers n)"
    if "find_last (\<lambda>it. in_id it = eid) (bn_ids bn) = Some n" for n
    using assms find_last_split [OF that] by (intro instances_add_legacy) (auto simp: bn_all_def)
  ultimately show ?thesis
    by (simp add: base_node_add_handler_def split: option.split)
qed

lemma loop_add_legacy:
  assumes "hn_handler new \<notin> hn_handler ` set (ln_all ln)"
  shows "loop_node_add_handler mem base eid new True ln = loop_node_add_handler mem base eid new False ln"
proof -
  let ?found = "find_last (\<lambda>it. bn_base it = base) (ln_bases ln)"
  let ?bn = "\<lparr>bn_base = base, bn_handlers = [], bn_ids = []\<rparr>"
  have "handler_instances_add mem new True (ln_handlers ln) = handler_instances_add mem new False (ln_handlers ln)"
    using assms by (intro instances_add_legacy) (auto simp: ln_all_def)
  moreover have "base_node_add_handler mem eid new True ?bn = base_node_add_handler mem eid new False ?bn" for eid
    by (intro base_add_legacy) (simp add: bn_all_def)
  moreover have "base_node_add_handler mem eid new True bn = base_node_add_handler mem eid new False bn"
    if found: "?found = Some bn" for eid bn
    using assms find_last_split [OF found] by (intro base_add_legacy) (auto simp: ln_all_def)
  ultimately show ?thesis by (cases ?found) (simp_all add: loop_node_add_handler_def Let_def)
qed

lemma register_legacy:
  assumes "h \<notin> hn_handler ` set (all_handlers loop)"
  shows "esp_event_handler_register_with mem event_base eid h arg loop =
    esp_event_handler_instance_register_with mem event_base eid h arg loop"
proof -
  let ?new = "\<lparr>hn_ctx = el_brk loop, hn_handler = h, hn_arg = arg\<rparr>"
  have "loop_node_add_handler mem base eid ?new True \<lparr>ln_handlers = [], ln_bases = []\<rparr> =
      loop_node_add_handler mem base eid ?new False \<lparr>ln_handlers = [], ln_bases = []\<rparr>" for base eid
    by (rule loop_add_legacy) (simp add: ln_all_def)
  moreover have "loop_node_add_handler mem base eid ?new True (last (el_nodes loop)) =
      loop_node_add_handler mem base eid ?new False (last (el_nodes loop))" if "el_nodes loop \<noteq> []" for base eid
  proof (rule loop_add_legacy)
    have "set (ln_all (last (el_nodes loop))) \<subseteq> set (all_handlers loop)"
      using last_in_set [OF that] unfolding all_handlers_def by (auto simp del: last_in_set)
    with assms show "hn_handler ?new \<notin> hn_handler ` set (ln_all (last (el_nodes loop)))" by auto
  qed
  ultimately show ?thesis
    unfolding esp_event_handler_register_with_def esp_event_handler_instance_register_with_def
      esp_event_handler_register_with_internal_def
    by (cases "el_nodes loop = []") (simp_all add: Let_def)
qed

text \<open>The last node of a base has ids: a handler for all ids gets a node of its own.\<close>

definition ids_last :: "event_base \<Rightarrow> event_loop \<Rightarrow> bool" where
  "ids_last base loop \<longleftrightarrow> el_nodes loop \<noteq> [] \<and>
     (\<exists>bn. find_last (\<lambda>it. bn_base it = base) (ln_bases (last (el_nodes loop))) = Some bn \<and> bn_ids bn \<noteq> [])"

lemma find_last_last: "P x \<Longrightarrow> \<forall>z \<in> set zs. \<not> P z \<Longrightarrow> find_last P (ys @ x # zs) = Some x"
  unfolding find_last_def by (induction zs rule: rev_induct) auto

lemma replace_last_nonempty: "xs \<noteq> [] \<Longrightarrow> replace_last P y xs \<noteq> []"
  by (cases xs) auto

lemma base_add_ids:
  assumes "base_node_add_handler mem eid new legacy bn = (bn', ESP_OK)" "eid \<noteq> ESP_EVENT_ANY_ID"
  shows "bn_ids bn' \<noteq> [] \<and> bn_base bn' = bn_base bn"
proof (cases "find_last (\<lambda>it. in_id it = eid) (bn_ids bn)")
  case None
  with assms show ?thesis by (auto simp: base_node_add_handler_def split: if_splits prod.splits)
next
  case (Some n)
  then have "bn_ids bn \<noteq> []" by (auto simp: find_last_def)
  with Some assms show ?thesis
    by (auto simp: base_node_add_handler_def replace_last_nonempty split: prod.splits)
qed

lemma loop_add_ids:
  assumes add: "loop_node_add_handler mem (Base b) eid new legacy ln = (ln', ESP_OK)" and eid: "eid \<noteq> ESP_EVENT_ANY_ID"
  shows "\<exists>bn. find_last (\<lambda>it. bn_base it = Base b) (ln_bases ln') = Some bn \<and> bn_ids bn \<noteq> []"
proof (cases "find_last (\<lambda>it. bn_base it = Base b) (ln_bases ln)")
  case None
  then obtain bn' where bn': "base_node_add_handler mem eid new legacy
      \<lparr>bn_base = Base b, bn_handlers = [], bn_ids = []\<rparr> = (bn', ESP_OK)" "ln_bases ln' = ln_bases ln @ [bn']"
    using add eid by (auto simp: loop_node_add_handler_def Let_def split: if_splits prod.splits)
  with base_add_ids [OF bn'(1) eid] show ?thesis
    using find_last_last [of "\<lambda>it. bn_base it = Base b" bn' "[]" "ln_bases ln"] by simp
next
  case (Some bn)
  obtain ys zs where l: "ln_bases ln = ys @ bn # zs" "bn_base bn = Base b" "\<forall>z \<in> set zs. bn_base z \<noteq> Base b"
    using find_last_split [OF Some] by (elim exE conjE)
  then obtain bn' where bn': "base_node_add_handler mem eid new legacy bn = (bn', ESP_OK)"
      "ln_bases ln' = ys @ bn' # zs"
    using add eid Some by (auto simp: loop_node_add_handler_def Let_def replace_last_split split: prod.splits)
  with base_add_ids [OF bn'(1) eid] l show ?thesis
    using find_last_last [of "\<lambda>it. bn_base it = Base b" bn' zs ys] by simp
qed

lemma register_ids:
  assumes "esp_event_handler_instance_register_with mem (Some b) eid h arg loop = (loop', ESP_OK)"
    and "eid \<noteq> ESP_EVENT_ANY_ID"
  shows "ids_last (Base b) loop'"
  using assms loop_add_ids [OF _ assms(2)]
  by (auto simp: ids_last_def esp_event_handler_instance_register_with_def
      esp_event_handler_register_with_internal_def Let_def split: if_splits prod.splits)

lemma register_any_fresh:
  assumes "ids_last (Base b) loop"
  shows "esp_event_handler_register_with mem (Some b) ESP_EVENT_ANY_ID h arg loop =
    esp_event_handler_instance_register_with mem (Some b) ESP_EVENT_ANY_ID h arg loop"
proof -
  let ?new = "\<lparr>hn_ctx = el_brk loop, hn_handler = h, hn_arg = arg\<rparr>"
  let ?bn = "\<lparr>bn_base = Base b, bn_handlers = [], bn_ids = []\<rparr>"
  have "base_node_add_handler mem ESP_EVENT_ANY_ID ?new True ?bn = base_node_add_handler mem ESP_EVENT_ANY_ID ?new False ?bn"
    by (intro base_add_legacy) (simp add: bn_all_def)
  with assms have "loop_node_add_handler mem (Base b) ESP_EVENT_ANY_ID ?new True (last (el_nodes loop)) =
      loop_node_add_handler mem (Base b) ESP_EVENT_ANY_ID ?new False (last (el_nodes loop))"
    by (auto simp: ids_last_def loop_node_add_handler_def Let_def)
  with assms show ?thesis
    by (simp add: ids_last_def esp_event_handler_register_with_def esp_event_handler_instance_register_with_def
        esp_event_handler_register_with_internal_def)
qed

lemma instance_register_ok:
  fixes h arg :: nat
  defines "new loop \<equiv> \<lparr>hn_ctx = el_brk loop, hn_handler = h, hn_arg = arg\<rparr>"
  assumes mem: "\<forall>a. mem a" and wf: "event_wf loop" and i: "i \<noteq> ESP_EVENT_ANY_ID"
    and eid: "eid = ESP_EVENT_ANY_ID \<or> eid = i"
  shows "\<exists>loop'. esp_event_handler_instance_register_with mem (Some b) eid h arg loop = (loop', ESP_OK) \<and>
    event_wf loop' \<and> set (all_handlers loop') = insert (new loop) (set (all_handlers loop)) \<and>
    dispatch (Base b) i loop' = dispatch (Base b) i loop @ [new loop]"
proof -
  have "Some b = None \<longrightarrow> eid = ESP_EVENT_ANY_ID" by simp
  then obtain loop' where r: "esp_event_handler_register_with_internal mem (Some b) eid h arg False loop = (loop', ESP_OK)"
    "event_wf loop'" "el_queue loop' = el_queue loop"
    "\<forall>b' i. i \<noteq> ESP_EVENT_ANY_ID \<longrightarrow> dispatch (Base b') i loop' =
       dispatch (Base b') i loop @ (if covers (base_of (Some b)) eid (Base b') i then [new loop] else [])"
    "mset (all_handlers loop') = add_mset (new loop) (mset (all_handlers loop))"
    unfolding new_def by (rule register_ok [OF mem wf])
  have "set (all_handlers loop') = insert (new loop) (set (all_handlers loop))"
    using arg_cong [OF r(5), of set_mset] by simp
  moreover have "covers (base_of (Some b)) eid (Base b) i" using eid by (auto simp: covers_def base_of_def)
  ultimately show ?thesis
    using r(1,2,4) i by (intro exI [of _ loop']) (simp add: esp_event_handler_instance_register_with_def)
qed

text \<open>
  C27. A handler registered twice runs twice. In any well-formed loop that has neither of two different
  handlers, register the first with the legacy interface for all ids of a base, the second for one id of
  it, and the first again for all ids. While memory is available all three calls succeed, and the third does not overwrite the
  first registration: an event of the base with that id runs, after the handlers it ran before, the
  first handler with the first argument, the second handler, and the first handler once more, with the
  argument of the third call.
\<close>
theorem legacy_registration_not_overwritten:
  assumes "\<forall>a. mem a" "event_wf loop" "eid \<noteq> ESP_EVENT_ANY_ID" "h \<noteq> h'"
    "h \<notin> hn_handler ` set (all_handlers loop)" "h' \<notin> hn_handler ` set (all_handlers loop)"
  shows "\<exists>l1 l2 l3. esp_event_handler_register_with mem (Some b) ESP_EVENT_ANY_ID h arg loop = (l1, ESP_OK) \<and>
    esp_event_handler_register_with mem (Some b) eid h' arg' l1 = (l2, ESP_OK) \<and>
    esp_event_handler_register_with mem (Some b) ESP_EVENT_ANY_ID h arg'' l2 = (l3, ESP_OK) \<and>
    map (\<lambda>n. (hn_handler n, hn_arg n)) (dispatch (Base b) eid l3) =
      map (\<lambda>n. (hn_handler n, hn_arg n)) (dispatch (Base b) eid loop) @ [(h, arg), (h', arg'), (h, arg'')]"
proof -
  obtain l1 where l1: "esp_event_handler_instance_register_with mem (Some b) ESP_EVENT_ANY_ID h arg loop = (l1, ESP_OK)"
    "event_wf l1" "set (all_handlers l1) = insert \<lparr>hn_ctx = el_brk loop, hn_handler = h, hn_arg = arg\<rparr> (set (all_handlers loop))"
    "dispatch (Base b) eid l1 = dispatch (Base b) eid loop @ [\<lparr>hn_ctx = el_brk loop, hn_handler = h, hn_arg = arg\<rparr>]"
    using instance_register_ok [OF assms(1,2,3), of ESP_EVENT_ANY_ID b h arg] by auto
  obtain l2 where l2: "esp_event_handler_instance_register_with mem (Some b) eid h' arg' l1 = (l2, ESP_OK)"
    "event_wf l2"
    "dispatch (Base b) eid l2 = dispatch (Base b) eid l1 @ [\<lparr>hn_ctx = el_brk l1, hn_handler = h', hn_arg = arg'\<rparr>]"
    using instance_register_ok [OF assms(1) l1(2) assms(3), of eid b h' arg'] by auto
  obtain l3 where l3: "esp_event_handler_instance_register_with mem (Some b) ESP_EVENT_ANY_ID h arg'' l2 = (l3, ESP_OK)"
    "dispatch (Base b) eid l3 = dispatch (Base b) eid l2 @ [\<lparr>hn_ctx = el_brk l2, hn_handler = h, hn_arg = arg''\<rparr>]"
    using instance_register_ok [OF assms(1) l2(2) assms(3), of ESP_EVENT_ANY_ID b h arg''] by auto
  have "h' \<notin> hn_handler ` set (all_handlers l1)" using l1(3) assms(4,6) by auto
  then have "esp_event_handler_register_with mem (Some b) eid h' arg' l1 = (l2, ESP_OK)"
    using l2(1) by (simp add: register_legacy)
  moreover have "esp_event_handler_register_with mem (Some b) ESP_EVENT_ANY_ID h arg'' l2 = (l3, ESP_OK)"
    using l3(1) by (simp add: register_any_fresh [OF register_ids [OF l2(1) assms(3)]])
  moreover have "esp_event_handler_register_with mem (Some b) ESP_EVENT_ANY_ID h arg loop = (l1, ESP_OK)"
    using l1(1) assms(5) by (simp add: register_legacy)
  ultimately show ?thesis
    using l1(4) l2(3) l3(2) by (intro exI [of _ l1] exI [of _ l2] exI [of _ l3]) simp
qed

theorem legacy_registration_not_overwritten_witness:
  "\<exists>l1 l2 l3. esp_event_handler_register_with (\<lambda>_. True) (Some 1) ESP_EVENT_ANY_ID 17 0 demo_loop = (l1, ESP_OK) \<and>
    esp_event_handler_register_with (\<lambda>_. True) (Some 1) 5 18 0 l1 = (l2, ESP_OK) \<and>
    esp_event_handler_register_with (\<lambda>_. True) (Some 1) ESP_EVENT_ANY_ID 17 1 l2 = (l3, ESP_OK) \<and>
    map (\<lambda>n. (hn_handler n, hn_arg n)) (dispatch (Base 1) 5 l3) = [(7, 9), (8, 9), (17, 0), (18, 0), (17, 1)]"
proof -
  have "event_wf demo_loop" "17 \<notin> hn_handler ` set (all_handlers demo_loop)" "18 \<notin> hn_handler ` set (all_handlers demo_loop)"
    "map (\<lambda>n. (hn_handler n, hn_arg n)) (dispatch (Base 1) 5 demo_loop) = [(7, 9), (8, 9)]"
    by (simp_all add: event_wf_def ln_wf_def bn_wf_def all_handlers_def ln_all_def bn_all_def dispatch_def
        node_handlers_def base_handlers_def demo_loop_def empty_loop_def)
  then show ?thesis
    using legacy_registration_not_overwritten [of "\<lambda>_. True" demo_loop 5 17 18 1 0 0 1]
    by (simp add: ESP_EVENT_ANY_ID_def)
qed

end
