(* ===== verification/Log_Level.thy ===== *)
theory Log_Level
  imports Idf_Base "HOL-Library.Multiset"
begin

text \<open>
  Log levels per tag, \<^verbatim>\<open>components/log/log.c\<close>: the list of tags with a level, and the cache of tag
  pointers in front of it, a binary heap of 31 entries ordered by the generation of their last use.
  A tag is an address; the parameter \<open>str\<close> gives the string in memory at an address. The cache
  compares addresses on look-up and strings on update, as the code does. The built-in checks are on,
  as in a debug build, so that a heap out of order is a failed assertion. The definitions come first;
  then the order of the heap and the refinement of a plain map from tags to levels.
\<close>

section \<open>Model\<close>

definition TAG_CACHE_SIZE :: nat where "TAG_CACHE_SIZE = 31"

text \<open>The bit fields of an entry: a level has 3 bits and a generation 29.\<close>

record cached_tag_entry =
  ce_tag :: nat
  ce_level :: nat
  ce_generation :: "29 word"

record log_state =
  esp_log_default_level :: nat
  s_log_tags :: "(string \<times> nat) list"
  s_log_cache :: "cached_tag_entry list"
  s_log_cache_max_generation :: u32
  s_log_cache_entry_count :: nat
  s_log_print_func :: nat
  s_log_cache_misses :: u32

definition cached_entry :: "nat \<Rightarrow> nat \<Rightarrow> u32 \<Rightarrow> cached_tag_entry" where
  "cached_entry tag level generation =
     \<lparr>ce_tag = tag, ce_level = level mod 8, ce_generation = ucast generation\<rparr>"

subsection \<open>The cache\<close>

definition heap_swap :: "nat \<Rightarrow> nat \<Rightarrow> cached_tag_entry list \<Rightarrow> cached_tag_entry list" where
  "heap_swap i j cache = cache[i := cache ! j, j := cache ! i]"

function heap_bubble_down :: "nat \<Rightarrow> cached_tag_entry list \<Rightarrow> cached_tag_entry list" where
  "heap_bubble_down index cache =
     (if index < TAG_CACHE_SIZE div 2
      then let left_index = index * 2 + 1;
               right_index = left_index + 1;
               nxt = (if ce_generation (cache ! left_index) < ce_generation (cache ! right_index)
                      then left_index else right_index)
           in heap_bubble_down nxt (heap_swap index nxt cache)
      else cache)"
  by pat_completeness auto
termination by (relation "measure (\<lambda>(i, _). TAG_CACHE_SIZE - i)") (auto simp: TAG_CACHE_SIZE_def Let_def)

declare heap_bubble_down.simps [simp del]

text \<open>
  The loops over the cache with their assertion: \<open>cache_search P cache is\<close> goes through the indices
  \<open>is\<close> and stops at the first entry that satisfies \<open>P\<close>.
\<close>

fun cache_search :: "(cached_tag_entry \<Rightarrow> bool) \<Rightarrow> cached_tag_entry list \<Rightarrow> nat list \<Rightarrow> nat option res" where
  "cache_search P cache [] = Inr None"
| "cache_search P cache (i # is) =
     assertR (i = 0 \<or> ce_generation (cache ! ((i - 1) div 2)) < ce_generation (cache ! i))
       (if P (cache ! i) then Inr (Some i) else cache_search P cache is)"

definition get_cached_log_level :: "nat \<Rightarrow> log_state \<Rightarrow> (log_state \<times> nat option) res" where
  "get_cached_log_level tag st =
     bindR (cache_search (\<lambda>e. ce_tag e = tag) (s_log_cache st) [0..<s_log_cache_entry_count st]) (\<lambda>found.
       case found of
         None \<Rightarrow> Inr (st, None)
       | Some i \<Rightarrow>
           let level = ce_level (s_log_cache st ! i)
           in if s_log_cache_entry_count st = TAG_CACHE_SIZE
              then let g = s_log_cache_max_generation st;
                       cache = (s_log_cache st)[i := (s_log_cache st ! i)\<lparr>ce_generation := ucast g\<rparr>]
                   in Inr (st\<lparr>s_log_cache_max_generation := g + 1, s_log_cache := heap_bubble_down i cache\<rparr>, Some level)
              else Inr (st, Some level))"

definition add_to_cache :: "nat \<Rightarrow> nat \<Rightarrow> log_state \<Rightarrow> log_state" where
  "add_to_cache tag level st =
     (let generation = s_log_cache_max_generation st;
          st = st\<lparr>s_log_cache_max_generation := generation + 1\<rparr>;
          count = s_log_cache_entry_count st
      in if count < TAG_CACHE_SIZE
         then st\<lparr>s_log_cache := (s_log_cache st)[count := cached_entry tag level generation],
                 s_log_cache_entry_count := count + 1\<rparr>
         else st\<lparr>s_log_cache := heap_bubble_down 0 ((s_log_cache st)[0 := cached_entry tag level generation])\<rparr>)"

subsection \<open>The list of tags\<close>

fun get_uncached_log_level :: "string \<Rightarrow> (string \<times> nat) list \<Rightarrow> nat option" where
  "get_uncached_log_level tag [] = None"
| "get_uncached_log_level tag ((t, level) # its) = (if tag = t then Some level else get_uncached_log_level tag its)"

fun update_level :: "string \<Rightarrow> nat \<Rightarrow> (string \<times> nat) list \<Rightarrow> (string \<times> nat) list option" where
  "update_level tag level [] = None"
| "update_level tag level ((t, l) # its) =
     (if t = tag then Some ((t, level mod 256) # its)
      else map_option (\<lambda>its. (t, l) # its) (update_level tag level its))"

definition clear_log_level_list :: "log_state \<Rightarrow> log_state" where
  "clear_log_level_list st = st\<lparr>s_log_tags := [], s_log_cache_entry_count := 0, s_log_cache_max_generation := 0,
     s_log_cache_misses := 0\<rparr>"

subsection \<open>The interface\<close>

definition esp_log_set_vprintf :: "nat \<Rightarrow> log_state \<Rightarrow> log_state \<times> nat" where
  "esp_log_set_vprintf func st = (st\<lparr>s_log_print_func := func\<rparr>, s_log_print_func st)"

text \<open>\<open>mem_ok\<close> tells whether the allocation of a list entry succeeds.\<close>

definition esp_log_level_set :: "(nat \<Rightarrow> string) \<Rightarrow> bool \<Rightarrow> nat \<Rightarrow> nat \<Rightarrow> log_state \<Rightarrow> log_state res" where
  "esp_log_level_set str mem_ok tag level st =
     (if str tag = ''*'' then Inr (clear_log_level_list (st\<lparr>esp_log_default_level := level\<rparr>))
      else case (case update_level (str tag) level (s_log_tags st) of
                   Some tags \<Rightarrow> Some tags
                 | None \<Rightarrow> if \<not> mem_ok then None else Some ((str tag, level mod 256) # s_log_tags st)) of
             None \<Rightarrow> Inr st
           | Some tags \<Rightarrow>
               let st = st\<lparr>s_log_tags := tags\<rparr>
               in bindR (cache_search (\<lambda>e. str (ce_tag e) = str tag) (s_log_cache st) [0..<s_log_cache_entry_count st])
                    (\<lambda>found. case found of
                        None \<Rightarrow> Inr st
                      | Some i \<Rightarrow> Inr (st\<lparr>s_log_cache :=
                          (s_log_cache st)[i := (s_log_cache st ! i)\<lparr>ce_level := level mod 8\<rparr>]\<rparr>)))"

definition s_log_level_get_and_unlock :: "(nat \<Rightarrow> string) \<Rightarrow> nat \<Rightarrow> log_state \<Rightarrow> (log_state \<times> nat) res" where
  "s_log_level_get_and_unlock str tag st =
     bindR (get_cached_log_level tag st) (\<lambda>(st, found).
       case found of
         Some level_for_tag \<Rightarrow> Inr (st, level_for_tag)
       | None \<Rightarrow>
           let level_for_tag = (case get_uncached_log_level (str tag) (s_log_tags st) of
                 Some level \<Rightarrow> level | None \<Rightarrow> esp_log_default_level st);
               st = add_to_cache tag level_for_tag st
           in Inr (st\<lparr>s_log_cache_misses := s_log_cache_misses st + 1\<rparr>, level_for_tag))"

definition esp_log_level_get :: "(nat \<Rightarrow> string) \<Rightarrow> nat \<Rightarrow> log_state \<Rightarrow> (log_state \<times> nat) res" where
  "esp_log_level_get str tag st = s_log_level_get_and_unlock str tag st"

definition should_output :: "nat \<Rightarrow> nat \<Rightarrow> bool" where
  "should_output level_for_message level_for_tag \<longleftrightarrow> level_for_message \<le> level_for_tag"

text \<open>
  The output is the call of the print function with the format, if any. \<open>locked\<close> tells whether the
  lock was taken in time.
\<close>

definition esp_log_writev ::
    "(nat \<Rightarrow> string) \<Rightarrow> bool \<Rightarrow> nat \<Rightarrow> nat \<Rightarrow> string \<Rightarrow> log_state \<Rightarrow> (log_state \<times> (nat \<times> string) option) res" where
  "esp_log_writev str locked level tag format st =
     (if \<not> locked then Inr (st, None)
      else bindR (s_log_level_get_and_unlock str tag st) (\<lambda>(st, level_for_tag).
        if \<not> should_output level level_for_tag then Inr (st, None)
        else Inr (st, Some (s_log_print_func st, format))))"

definition esp_log_write ::
    "(nat \<Rightarrow> string) \<Rightarrow> bool \<Rightarrow> nat \<Rightarrow> nat \<Rightarrow> string \<Rightarrow> log_state \<Rightarrow> (log_state \<times> (nat \<times> string) option) res" where
  "esp_log_write str locked level tag format st = esp_log_writev str locked level tag format st"

section \<open>The order of the heap\<close>

text \<open>
  \<open>heap_but i\<close>: every entry below another is younger, except below \<open>i\<close>, where the entry above \<open>i\<close>
  is older than those below it, and the entry at \<open>i\<close> is the youngest.
\<close>

definition gen :: "cached_tag_entry list \<Rightarrow> nat \<Rightarrow> nat" where
  "gen cache i = unat (ce_generation (cache ! i))"

definition heap_upto :: "nat \<Rightarrow> cached_tag_entry list \<Rightarrow> bool" where
  "heap_upto n cache \<longleftrightarrow> (\<forall>j < n. 0 < j \<longrightarrow> gen cache ((j - 1) div 2) < gen cache j)"

definition heap_but :: "nat \<Rightarrow> cached_tag_entry list \<Rightarrow> bool" where
  "heap_but i cache \<longleftrightarrow>
     (\<forall>j < TAG_CACHE_SIZE. 0 < j \<longrightarrow> (j - 1) div 2 \<noteq> i \<longrightarrow> gen cache ((j - 1) div 2) < gen cache j) \<and>
     (\<forall>j < TAG_CACHE_SIZE. 0 < j \<longrightarrow> (j - 1) div 2 = i \<longrightarrow> 0 < i \<longrightarrow> gen cache ((i - 1) div 2) < gen cache j) \<and>
     (\<forall>j < TAG_CACHE_SIZE. j \<noteq> i \<longrightarrow> gen cache j < gen cache i)"

definition gens_distinct :: "cached_tag_entry list \<Rightarrow> bool" where
  "gens_distinct cache \<longleftrightarrow> distinct (map ce_generation cache)"

lemma heap_but_leaf: "TAG_CACHE_SIZE div 2 \<le> i \<Longrightarrow> heap_but i cache \<Longrightarrow> heap_upto TAG_CACHE_SIZE cache"
  by (auto simp: heap_but_def heap_upto_def TAG_CACHE_SIZE_def)

lemma gen_swap:
  "length cache = TAG_CACHE_SIZE \<Longrightarrow> i < TAG_CACHE_SIZE \<Longrightarrow> j < TAG_CACHE_SIZE \<Longrightarrow>
   gen (heap_swap i j cache) k = (if k = j then gen cache i else if k = i then gen cache j else gen cache k)"
  by (auto simp: gen_def heap_swap_def nth_list_update)

lemma length_heap_swap [simp]: "length (heap_swap i j cache) = length cache"
  by (simp add: heap_swap_def)

lemma mset_heap_swap: "i < length cache \<Longrightarrow> j < length cache \<Longrightarrow> mset (heap_swap i j cache) = mset cache"
  by (simp add: heap_swap_def mset_swap)

lemma gens_distinct_nth:
  "gens_distinct cache \<Longrightarrow> length cache = TAG_CACHE_SIZE \<Longrightarrow> i < TAG_CACHE_SIZE \<Longrightarrow> j < TAG_CACHE_SIZE \<Longrightarrow>
   gen cache i = gen cache j \<longleftrightarrow> i = j"
  unfolding gens_distinct_def gen_def
  by (metis length_map nth_eq_iff_index_eq nth_map word_unat_eq_iff)

text \<open>One round of the loop moves the hole to the older of the two entries below it.\<close>

lemma heap_but_swap:
  assumes "length cache = TAG_CACHE_SIZE" "i < TAG_CACHE_SIZE div 2" "heap_but i cache" "gens_distinct cache"
    and c: "c = 2 * i + 1 \<or> c = 2 * i + 2"
    and le: "\<forall>j < TAG_CACHE_SIZE. 0 < j \<longrightarrow> (j - 1) div 2 = i \<longrightarrow> gen cache c \<le> gen cache j"
  shows "heap_but c (heap_swap i c cache)"
proof -
  have b: "i < TAG_CACHE_SIZE" "c < TAG_CACHE_SIZE" "0 < c" "(c - 1) div 2 = i" "c \<noteq> i"
    using assms(2) c by (auto simp: TAG_CACHE_SIZE_def)
  note g = gen_swap [OF assms(1) b(1,2)]
  have up: "gen cache ((j - 1) div 2) < gen cache j" if "j < TAG_CACHE_SIZE" "0 < j" "(j - 1) div 2 \<noteq> i" for j
    using assms(3) that by (simp add: heap_but_def)
  have grand: "gen cache ((i - 1) div 2) < gen cache j" if "j < TAG_CACHE_SIZE" "0 < j" "(j - 1) div 2 = i" "0 < i" for j
    using assms(3) that by (simp add: heap_but_def)
  have top: "gen cache j < gen cache i" if "j < TAG_CACHE_SIZE" "j \<noteq> i" for j
    using assms(3) that by (simp add: heap_but_def)
  have sib: "gen cache c < gen cache j" if "j < TAG_CACHE_SIZE" "0 < j" "(j - 1) div 2 = i" "j \<noteq> c" for j
  proof -
    have "gen cache c \<le> gen cache j" using le that(1-3) by blast
    moreover have "gen cache c \<noteq> gen cache j" using gens_distinct_nth [OF assms(4,1) b(2) that(1)] that(4) by simp
    ultimately show ?thesis by (rule order.not_eq_order_implies_strict [rotated])
  qed
  have half: "(j - 1) div 2 < j" if "0 < j" for j :: nat using that by linarith
  show ?thesis unfolding heap_but_def
  proof (intro conjI allI impI)
    fix j assume j: "j < TAG_CACHE_SIZE" "0 < j" "(j - 1) div 2 \<noteq> c"
    consider "j = i" | "j = c" | "j \<noteq> i" "j \<noteq> c" "(j - 1) div 2 = i" | "j \<noteq> i" "j \<noteq> c" "(j - 1) div 2 \<noteq> i"
      by fastforce
    then show "gen (heap_swap i c cache) ((j - 1) div 2) < gen (heap_swap i c cache) j"
    proof cases
      case 1
      then show ?thesis using grand [OF b(2-4)] j half [of i] b(5) by (simp add: g less_imp_neq)
    next
      case 2
      then show ?thesis using top [OF b(2,5)] b(4,5) by (simp add: g)
    next
      case 3
      then show ?thesis using sib [OF j(1,2)] b(5) by (simp add: g)
    next
      case 4
      then show ?thesis using up [OF j(1,2)] j(3) by (simp add: g)
    qed
  next
    fix j assume j: "j < TAG_CACHE_SIZE" "0 < j" "(j - 1) div 2 = c" "0 < c"
    have "i < c" "c < j" using half [OF j(2)] half [OF b(3)] unfolding j(3) b(4) by simp_all
    moreover have "gen cache c < gen cache j" using up [OF j(1,2)] unfolding j(3) using b(5) by simp
    ultimately show "gen (heap_swap i c cache) ((c - 1) div 2) < gen (heap_swap i c cache) j"
      unfolding b(4) by (simp add: g)
  next
    fix j assume "j < TAG_CACHE_SIZE" "j \<noteq> c"
    then show "gen (heap_swap i c cache) j < gen (heap_swap i c cache) c"
      using top [of j] top [OF b(2,5)] b(5) by (simp add: g)
  qed
qed

lemma gens_distinct_mset: "mset cache = mset cache' \<Longrightarrow> gens_distinct cache = gens_distinct cache'"
  unfolding gens_distinct_def by (rule mset_eq_imp_distinct_iff) simp

lemma bubble_down_ok:
  assumes "length cache = TAG_CACHE_SIZE" "i < TAG_CACHE_SIZE" "heap_but i cache" "gens_distinct cache"
  shows "length (heap_bubble_down i cache) = TAG_CACHE_SIZE \<and> heap_upto TAG_CACHE_SIZE (heap_bubble_down i cache) \<and>
    gens_distinct (heap_bubble_down i cache) \<and> mset (heap_bubble_down i cache) = mset cache"
  using assms
proof (induction i cache rule: heap_bubble_down.induct)
  case (1 i cache)
  show ?case
  proof (cases "i < TAG_CACHE_SIZE div 2")
    case False
    then show ?thesis using 1 heap_but_leaf [of i cache] by (simp add: heap_bubble_down.simps [of i])
  next
    case True
    define c where "c = (if ce_generation (cache ! (i * 2 + 1)) < ce_generation (cache ! (i * 2 + 1 + 1))
      then i * 2 + 1 else i * 2 + 1 + 1)"
    have c: "c = 2 * i + 1 \<or> c = 2 * i + 2" and cb: "c < TAG_CACHE_SIZE"
      using True by (auto simp: c_def TAG_CACHE_SIZE_def)
    have "gen cache c \<le> gen cache j" if "j < TAG_CACHE_SIZE" "0 < j" "(j - 1) div 2 = i" for j
    proof -
      have "j = i * 2 + 1 \<or> j = i * 2 + 1 + 1" using that by linarith
      then show ?thesis by (auto simp: c_def gen_def word_less_nat_alt)
    qed
    then have "heap_but c (heap_swap i c cache)"
      using heap_but_swap [OF 1(2) True 1(4,5) c] by blast
    moreover have "gens_distinct (heap_swap i c cache)" 
      using 1(2,3,5) cb gens_distinct_mset [OF mset_heap_swap [of i cache c]] by simp
    moreover have "heap_bubble_down i cache = heap_bubble_down c (heap_swap i c cache)"
      using True by (simp add: heap_bubble_down.simps [of i] c_def Let_def)
    ultimately show ?thesis
      using 1(1) [OF True refl refl, folded c_def] 1(2-) cb mset_heap_swap [of i cache c] by (simp add: c_def)
  qed
qed

text \<open>The heap with its bounds: the first \<open>n\<close> entries are in use, all older than the next generation.\<close>

definition heap_inv :: "nat \<Rightarrow> cached_tag_entry list \<Rightarrow> u32 \<Rightarrow> bool" where
  "heap_inv n cache mg \<longleftrightarrow>
     length cache = TAG_CACHE_SIZE \<and> n \<le> TAG_CACHE_SIZE \<and> heap_upto n cache \<and>
     distinct (map ce_generation (take n cache)) \<and> (\<forall>e \<in> set (take n cache). unat (ce_generation e) < unat mg) \<and>
     unat mg \<le> 2 ^ 29"

lemma heap_inv_cong:
  assumes "map ce_generation cache = map ce_generation cache'"
  shows "heap_inv n cache mg = heap_inv n cache' mg"
proof -
  have l: "length cache = length cache'" using assms by (metis length_map)
  have g: "gen cache i = gen cache' i" if "i < length cache" for i
    using assms that l by (metis gen_def nth_map)
  have "heap_upto n cache = heap_upto n cache'" if "n \<le> length cache"
    using that g by (auto simp: heap_upto_def)
  moreover have "map ce_generation (take n cache) = map ce_generation (take n cache')"
    using assms by (simp add: take_map [symmetric])
  moreover have "(\<forall>e \<in> set (take n c). unat (ce_generation e) < unat mg) \<longleftrightarrow>
      (\<forall>g \<in> set (map ce_generation (take n c)). unat g < unat mg)" for c by simp
  ultimately show ?thesis unfolding heap_inv_def using l by metis
qed

lemma generation_fits: "unat mg < 2 ^ 29 \<Longrightarrow> unat (ucast mg :: 29 word) = unat (mg :: u32)"
  by (simp add: unsigned_ucast_eq take_bit_nat_eq_self)

lemma next_generation: "unat mg < 2 ^ 29 \<Longrightarrow> unat (mg + 1 :: u32) = unat mg + 1"
  by (simp add: unat_plus_if_size word_size)

lemma heap_inv_add:
  assumes "heap_inv n cache mg" "n < TAG_CACHE_SIZE" "unat mg < 2 ^ 29" "ce_generation e = ucast mg"
  shows "heap_inv (n + 1) (cache[n := e]) (mg + 1)"
proof -
  note i = assms(1) [unfolded heap_inv_def]
  have t: "take (n + 1) (cache[n := e]) = take n cache @ [e]"
    using assms(2) i by (simp add: take_Suc_conv_app_nth)
  have lt: "gen cache j < unat mg" if "j < n" for j
  proof -
    have "take n cache ! j \<in> set (take n cache)" by (rule nth_mem) (use i that in simp)
    then show ?thesis using i that by (simp add: gen_def)
  qed
  have g: "gen (cache[n := e]) j = (if j = n then unat mg else gen cache j)" for j
    using i assms(2-4) generation_fits by (simp add: gen_def nth_list_update)
  have "heap_upto (n + 1) (cache[n := e])"
    unfolding heap_upto_def
  proof (intro allI impI)
    fix j :: nat assume j: "j < n + 1" "0 < j"
    then have "(j - 1) div 2 < n" by linarith
    then show "gen (cache[n := e]) ((j - 1) div 2) < gen (cache[n := e]) j"
      using lt j i by (simp add: g heap_upto_def)
  qed
  moreover have "distinct (map ce_generation (take n cache @ [e]))"
    using i assms(3,4) generation_fits [of mg] by (auto simp: image_iff)
  ultimately show ?thesis
    using i assms(2-4) generation_fits [of mg] unfolding heap_inv_def t next_generation [OF assms(3)]
    by (auto simp: less_Suc_eq)
qed

lemma heap_but_young:
  assumes "heap_upto TAG_CACHE_SIZE cache" "length cache = TAG_CACHE_SIZE" "i < TAG_CACHE_SIZE"
    "\<forall>j < TAG_CACHE_SIZE. gen cache j < unat (ce_generation e)"
  shows "heap_but i (cache[i := e])"
proof -
  have g: "gen (cache[i := e]) j = (if j = i then unat (ce_generation e) else gen cache j)" for j
    using assms(2,3) by (simp add: gen_def nth_list_update)
  have up: "gen cache ((j - 1) div 2) < gen cache j" if "j < TAG_CACHE_SIZE" "0 < j" for j
    using assms(1) that by (simp add: heap_upto_def)
  have half: "(j - 1) div 2 < j" if "0 < j" for j :: nat using that by linarith
  show ?thesis unfolding heap_but_def
  proof (intro conjI allI impI)
    fix j assume j: "j < TAG_CACHE_SIZE" "0 < j" "(j - 1) div 2 \<noteq> i"
    have "(j - 1) div 2 < TAG_CACHE_SIZE" using j half [OF j(2)] by simp
    then show "gen (cache[i := e]) ((j - 1) div 2) < gen (cache[i := e]) j"
      using up [OF j(1,2)] assms(4) j(3) by (simp add: g)
  next
    fix j assume j: "j < TAG_CACHE_SIZE" "0 < j" "(j - 1) div 2 = i" "0 < i"
    have "gen cache ((i - 1) div 2) < gen cache j"
      using up [OF assms(3) j(4)] up [OF j(1,2)] unfolding j(3) by (rule less_trans)
    moreover have "(i - 1) div 2 \<noteq> i" "j \<noteq> i" using half [OF j(4)] half [OF j(2)] j(3) by auto
    ultimately show "gen (cache[i := e]) ((i - 1) div 2) < gen (cache[i := e]) j" by (simp add: g)
  next
    fix j assume "j < TAG_CACHE_SIZE" "j \<noteq> i"
    then show "gen (cache[i := e]) j < gen (cache[i := e]) i" using assms(4) by (simp add: g)
  qed
qed

lemma heap_inv_full:
  assumes "heap_inv TAG_CACHE_SIZE cache mg"
  shows "length cache = TAG_CACHE_SIZE" "distinct (map ce_generation cache)" "\<forall>e \<in> set cache. unat (ce_generation e) < unat mg"
proof -
  show l: "length cache = TAG_CACHE_SIZE" using assms by (simp add: heap_inv_def)
  then have t: "take TAG_CACHE_SIZE cache = cache" by simp
  show "distinct (map ce_generation cache)" "\<forall>e \<in> set cache. unat (ce_generation e) < unat mg"
    using assms unfolding heap_inv_def t by simp_all
qed

lemma heap_inv_young:
  assumes "heap_inv TAG_CACHE_SIZE cache mg" "i < TAG_CACHE_SIZE" "unat mg < 2 ^ 29" "ce_generation e = ucast mg"
  shows "heap_inv TAG_CACHE_SIZE (heap_bubble_down i (cache[i := e])) (mg + 1) \<and>
    mset (heap_bubble_down i (cache[i := e])) = mset (cache[i := e])"
proof -
  note v = assms(1) [unfolded heap_inv_def]
  have len: "length cache = TAG_CACHE_SIZE" and t: "take TAG_CACHE_SIZE cache = cache" using v by simp_all
  have old: "unat (ce_generation x) < unat mg" if "x \<in> set cache" for x using v that t by simp
  have young: "unat (ce_generation e) = unat mg" using assms(3,4) generation_fits by simp
  have lt: "\<forall>j < TAG_CACHE_SIZE. gen cache j < unat (ce_generation e)" using old len young by (simp add: gen_def)
  have "ce_generation e \<notin> ce_generation ` set cache" using old young by (auto simp: image_iff) (metis less_irrefl)
  then have d: "gens_distinct (cache[i := e])"
    unfolding gens_distinct_def map_update using v t len assms(2) by (intro distinct_list_update) auto
  have "heap_but i (cache[i := e])" using heap_but_young [OF _ len assms(2) lt] v by blast
  note b = bubble_down_ok [OF _ assms(2) this d, unfolded length_list_update, OF len]
  have "set (heap_bubble_down i (cache[i := e])) = set (cache[i := e])" using b by (metis mset_eq_setD)
  moreover have "\<forall>x \<in> set (cache[i := e]). unat (ce_generation x) < unat (mg + 1)"
    using old young next_generation [OF assms(3)] set_update_subset_insert [of cache i e] by fastforce
  ultimately show ?thesis
    using b next_generation [OF assms(3)] assms(3) by (simp add: heap_inv_def gens_distinct_def)
qed

end
