(* ===== verification/Log_Props.thy ===== *)
theory Log_Props
  imports Log_Level
begin

text \<open>
  The log level functions refine a map from tags to levels with a default: every sequence of calls
  gives the same levels and the same output with the cache as without it, as long as a string has one
  tag pointer and the generations do not wrap. Then what the cache keeps when it is full, and what
  happens outside of those two conditions.
\<close>

section \<open>The abstract levels\<close>

record log_spec =
  sp_default :: nat
  sp_levels :: "string \<Rightarrow> nat option"
  sp_print :: nat

definition sp_level :: "log_spec \<Rightarrow> string \<Rightarrow> nat" where
  "sp_level sp t = (case sp_levels sp t of Some l \<Rightarrow> l | None \<Rightarrow> sp_default sp)"

definition sp_set :: "bool \<Rightarrow> string \<Rightarrow> nat \<Rightarrow> log_spec \<Rightarrow> log_spec" where
  "sp_set mem_ok t level sp =
     (if t = ''*'' then sp\<lparr>sp_default := level, sp_levels := \<lambda>_. None\<rparr>
      else if mem_ok \<or> sp_levels sp t \<noteq> None then sp\<lparr>sp_levels := (sp_levels sp)(t := Some level)\<rparr>
      else sp)"

text \<open>Calls of the interface and what a caller sees of them.\<close>

datatype log_call =
    Level_set bool nat nat
  | Level_get nat
  | Write bool nat nat string
  | Set_vprintf nat

datatype log_out = Done | Level nat | Output "(nat \<times> string) option" | Old_func nat

fun log_step :: "(nat \<Rightarrow> string) \<Rightarrow> log_call \<Rightarrow> log_state \<Rightarrow> (log_state \<times> log_out) res" where
  "log_step str (Level_set mem_ok tag level) st =
     bindR (esp_log_level_set str mem_ok tag level st) (\<lambda>st. Inr (st, Done))"
| "log_step str (Level_get tag) st = bindR (esp_log_level_get str tag st) (\<lambda>(st, l). Inr (st, Level l))"
| "log_step str (Write locked level tag format) st =
     bindR (esp_log_write str locked level tag format st) (\<lambda>(st, out). Inr (st, Output out))"
| "log_step str (Set_vprintf func) st = (case esp_log_set_vprintf func st of (st, old) \<Rightarrow> Inr (st, Old_func old))"

fun log_run :: "(nat \<Rightarrow> string) \<Rightarrow> log_call list \<Rightarrow> log_state \<Rightarrow> (log_state \<times> log_out list) res" where
  "log_run str [] st = Inr (st, [])"
| "log_run str (c # cs) st =
     bindR (log_step str c st) (\<lambda>(st, out). bindR (log_run str cs st) (\<lambda>(st, outs). Inr (st, out # outs)))"

fun sp_step :: "(nat \<Rightarrow> string) \<Rightarrow> log_call \<Rightarrow> log_spec \<Rightarrow> log_spec \<times> log_out" where
  "sp_step str (Level_set mem_ok tag level) sp = (sp_set mem_ok (str tag) level sp, Done)"
| "sp_step str (Level_get tag) sp = (sp, Level (sp_level sp (str tag)))"
| "sp_step str (Write locked level tag format) sp =
     (sp, Output (if locked \<and> level \<le> sp_level sp (str tag) then Some (sp_print sp, format) else None))"
| "sp_step str (Set_vprintf func) sp = (sp\<lparr>sp_print := func\<rparr>, Old_func (sp_print sp))"

fun sp_run :: "(nat \<Rightarrow> string) \<Rightarrow> log_call list \<Rightarrow> log_spec \<Rightarrow> log_out list" where
  "sp_run str [] sp = []"
| "sp_run str (c # cs) sp = (case sp_step str c sp of (sp, out) \<Rightarrow> out # sp_run str cs sp)"

text \<open>
  The calls that the statement is about: a level that fits its bit field, and reads with tag pointers
  from a set \<open>T\<close>, in practice the addresses of the tag constants.
\<close>

fun call_ok :: "nat set \<Rightarrow> log_call \<Rightarrow> bool" where
  "call_ok T (Level_set mem_ok tag level) \<longleftrightarrow> level < 8"
| "call_ok T (Level_get tag) \<longleftrightarrow> tag \<in> T"
| "call_ok T (Write locked level tag format) \<longleftrightarrow> tag \<in> T"
| "call_ok T (Set_vprintf func) \<longleftrightarrow> True"

section \<open>Abstraction and invariant\<close>

definition log_abs :: "log_state \<Rightarrow> log_spec" where
  "log_abs st = \<lparr>sp_default = esp_log_default_level st, sp_levels = map_of (s_log_tags st), sp_print = s_log_print_func st\<rparr>"

definition entries :: "log_state \<Rightarrow> cached_tag_entry list" where
  "entries st = take (s_log_cache_entry_count st) (s_log_cache st)"

text \<open>What the entries hold: tags from \<open>T\<close>, each once, with their level. The order does not matter.\<close>

definition entries_ok :: "(nat \<Rightarrow> string) \<Rightarrow> nat set \<Rightarrow> log_spec \<Rightarrow> cached_tag_entry list \<Rightarrow> bool" where
  "entries_ok str T sp es \<longleftrightarrow> distinct (map ce_tag es) \<and>
     (\<forall>e \<in> set es. ce_tag e \<in> T \<and> ce_level e = sp_level sp (str (ce_tag e)))"

definition log_inv :: "(nat \<Rightarrow> string) \<Rightarrow> nat set \<Rightarrow> log_state \<Rightarrow> bool" where
  "log_inv str T st \<longleftrightarrow>
     heap_inv (s_log_cache_entry_count st) (s_log_cache st) (s_log_cache_max_generation st) \<and>
     entries_ok str T (log_abs st) (entries st) \<and>
     esp_log_default_level st < 8 \<and> (\<forall>(t, l) \<in> set (s_log_tags st). l < 8)"

lemma entries_ok_pairs:
  "entries_ok str T sp es \<longleftrightarrow> distinct (map fst (map (\<lambda>e. (ce_tag e, ce_level e)) es)) \<and>
     (\<forall>p \<in> set (map (\<lambda>e. (ce_tag e, ce_level e)) es). fst p \<in> T \<and> snd p = sp_level sp (str (fst p)))"
  by (simp add: entries_ok_def comp_def)

lemma entries_ok_mset:
  assumes "mset (map (\<lambda>e. (ce_tag e, ce_level e)) es) = mset (map (\<lambda>e. (ce_tag e, ce_level e)) es')"
  shows "entries_ok str T sp es = entries_ok str T sp es'"
proof -
  have "distinct (map fst (map (\<lambda>e. (ce_tag e, ce_level e)) es)) = distinct (map fst (map (\<lambda>e. (ce_tag e, ce_level e)) es'))"
    by (rule mset_eq_imp_distinct_iff) (use arg_cong [OF assms, of "image_mset fst"] in \<open>simp only: mset_map\<close>)
  then show ?thesis by (simp only: entries_ok_pairs mset_eq_setD [OF assms])
qed

lemma get_uncached_map_of: "get_uncached_log_level t its = map_of its t"
  by (induction its) auto

lemma update_level_None: "update_level t level its = None \<longleftrightarrow> map_of its t = None"
  by (induction its) auto

lemma update_level_Some:
  "update_level t level its = Some its' \<Longrightarrow>
   map_of its' = (map_of its)(t := Some (level mod 256)) \<and> set its' \<subseteq> insert (t, level mod 256) (set its)"
  by (induction its arbitrary: its') (fastforce split: if_splits)+

text \<open>With the heap in order no assertion fails, and the loop is a search for the first match.\<close>

lemma cache_search_find:
  assumes "heap_upto n cache" "\<forall>i \<in> set is. i < n"
  shows "cache_search P cache is = Inr (find (\<lambda>i. P (cache ! i)) is)"
  using assms(2)
proof (induction "is")
  case (Cons i "is")
  have "i = 0 \<or> ce_generation (cache ! ((i - 1) div 2)) < ce_generation (cache ! i)"
    using assms(1) Cons.prems by (auto simp: heap_upto_def gen_def word_less_nat_alt)
  then show ?case using Cons by simp
qed simp

lemma cache_search_entries:
  assumes "log_inv str T st"
  obtains "cache_search P (s_log_cache st) [0..<s_log_cache_entry_count st] = Inr None" "\<forall>e \<in> set (entries st). \<not> P e"
  | i where "cache_search P (s_log_cache st) [0..<s_log_cache_entry_count st] = Inr (Some i)"
      "i < s_log_cache_entry_count st" "entries st ! i = s_log_cache st ! i" "P (s_log_cache st ! i)"
proof -
  let ?n = "s_log_cache_entry_count st"
  have h: "heap_upto ?n (s_log_cache st)" "?n \<le> length (s_log_cache st)"
    using assms by (simp_all add: log_inv_def heap_inv_def)
  have s: "cache_search P (s_log_cache st) [0..<?n] = Inr (find (\<lambda>i. P (s_log_cache st ! i)) [0..<?n])"
    by (rule cache_search_find [OF h(1)]) simp
  show thesis
  proof (cases "find (\<lambda>i. P (s_log_cache st ! i)) [0..<?n]")
    case None
    then have "\<forall>i < ?n. \<not> P (s_log_cache st ! i)" by (auto simp: find_None_iff)
    then have "\<forall>e \<in> set (entries st). \<not> P e" using h(2) by (auto simp: entries_def in_set_conv_nth)
    then show thesis using s None that(1) by simp
  next
    case (Some i)
    then have "i < ?n" "P (s_log_cache st ! i)" by (auto simp: find_Some_iff)
    then show thesis using s Some that(2) by (simp add: entries_def)
  qed
qed

section \<open>Simulation\<close>

text \<open>The four outcomes of a read: hit or miss, in a full cache or not.\<close>

lemma entries_ok_sp: "sp_level sp = sp_level sp' \<Longrightarrow> entries_ok str T sp es = entries_ok str T sp' es"
  by (simp add: entries_ok_def)

lemma sp_level_small: "log_inv str T st \<Longrightarrow> sp_level (log_abs st) t < 8"
  by (auto simp: log_inv_def sp_level_def log_abs_def split: option.splits dest: map_of_SomeD)

lemma log_abs_cache [simp]:
  "log_abs (st\<lparr>s_log_cache := c\<rparr>) = log_abs st"
  "log_abs (st\<lparr>s_log_cache_entry_count := n\<rparr>) = log_abs st"
  "log_abs (st\<lparr>s_log_cache_max_generation := g\<rparr>) = log_abs st"
  "log_abs (st\<lparr>s_log_cache_misses := k\<rparr>) = log_abs st"
  by (simp_all add: log_abs_def)

lemma log_inv_misses [simp]: "log_inv str T (st\<lparr>s_log_cache_misses := k\<rparr>) = log_inv str T st"
  by (simp add: log_inv_def entries_def)

lemma log_hit_ok:
  assumes inv: "log_inv str T st" and full: "s_log_cache_entry_count st = TAG_CACHE_SIZE"
    and i: "i < TAG_CACHE_SIZE" and g: "unat (s_log_cache_max_generation st) < 2 ^ 29"
  defines "c \<equiv> heap_bubble_down i ((s_log_cache st)[i := (s_log_cache st ! i)\<lparr>ce_generation := ucast (s_log_cache_max_generation st)\<rparr>])"
  shows "log_inv str T (st\<lparr>s_log_cache_max_generation := s_log_cache_max_generation st + 1, s_log_cache := c\<rparr>)"
proof -
  let ?e = "(s_log_cache st ! i)\<lparr>ce_generation := ucast (s_log_cache_max_generation st)\<rparr>"
  note v = inv [unfolded log_inv_def]
  have h: "heap_inv TAG_CACHE_SIZE c (s_log_cache_max_generation st + 1)" "mset c = mset ((s_log_cache st)[i := ?e])"
    using heap_inv_young [of "s_log_cache st" _ i ?e, OF _ i g] v full by (simp_all add: c_def)
  have len: "length (s_log_cache st) = TAG_CACHE_SIZE" "length c = TAG_CACHE_SIZE"
    using v h(1) full by (simp_all add: heap_inv_def)
  let ?p = "\<lambda>e. (ce_tag e, ce_level e)"
  have p: "map ?p ((s_log_cache st)[i := ?e]) = map ?p (s_log_cache st)"
    using i len by (simp add: map_update list_update_same_conv)
  have "mset (map ?p c) = mset (map ?p ((s_log_cache st)[i := ?e]))" unfolding mset_map h(2) ..
  then have "mset (map ?p c) = mset (map ?p (s_log_cache st))" unfolding p .
  then have "entries_ok str T (log_abs st) c = entries_ok str T (log_abs st) (s_log_cache st)" by (rule entries_ok_mset)
  then show ?thesis using v h(1) len full by (simp add: log_inv_def entries_def)
qed

lemma log_miss_ok:
  assumes inv: "log_inv str T st" and tag: "tag \<in> T" "\<forall>e \<in> set (entries st). ce_tag e \<noteq> tag"
    and g: "unat (s_log_cache_max_generation st) < 2 ^ 29" and l: "level = sp_level (log_abs st) (str tag)"
  shows "log_inv str T (add_to_cache tag level st) \<and> log_abs (add_to_cache tag level st) = log_abs st \<and>
    s_log_cache_max_generation (add_to_cache tag level st) = s_log_cache_max_generation st + 1"
proof -
  let ?n = "s_log_cache_entry_count st" and ?e = "cached_entry tag level (s_log_cache_max_generation st)"
  note v = inv [unfolded log_inv_def]
  have e: "ce_tag ?e = tag" "ce_level ?e = level" "ce_generation ?e = ucast (s_log_cache_max_generation st)"
    using sp_level_small [OF inv, of "str tag"] l by (simp_all add: cached_entry_def)
  have len: "length (s_log_cache st) = TAG_CACHE_SIZE" "?n \<le> TAG_CACHE_SIZE" using v by (simp_all add: heap_inv_def)
  show ?thesis
  proof (cases "?n < TAG_CACHE_SIZE")
    case True
    have t: "take (?n + 1) ((s_log_cache st)[?n := ?e]) = entries st @ [?e]"
      using True len by (simp add: entries_def take_Suc_conv_app_nth)
    have "entries_ok str T (log_abs st) (entries st @ [?e])" using v e tag l by (auto simp: entries_ok_def)
    then show ?thesis using heap_inv_add [OF _ True g e(3)] v True t
      by (simp add: add_to_cache_def Let_def log_inv_def entries_def)
  next
    case False
    then have full: "?n = TAG_CACHE_SIZE" using len by simp
    let ?c = "heap_bubble_down 0 ((s_log_cache st)[0 := ?e])"
    have h: "heap_inv TAG_CACHE_SIZE ?c (s_log_cache_max_generation st + 1)" "mset ?c = mset ((s_log_cache st)[0 := ?e])"
      using heap_inv_young [of "s_log_cache st" _ 0 ?e, OF _ _ g e(3)] v full by (simp_all add: TAG_CACHE_SIZE_def)
    have es: "entries st = s_log_cache st" using full len by (simp add: entries_def)
    then obtain x xs where x: "s_log_cache st = x # xs" using len by (cases "s_log_cache st") (auto simp: TAG_CACHE_SIZE_def)
    have "entries_ok str T (log_abs st) ((s_log_cache st)[0 := ?e])"
      using v e tag l unfolding es x by (auto simp: entries_ok_def)
    moreover have "entries_ok str T (log_abs st) ?c = entries_ok str T (log_abs st) ((s_log_cache st)[0 := ?e])"
      by (rule entries_ok_mset) (simp add: h(2))
    moreover have "length ?c = TAG_CACHE_SIZE" using h(1) by (simp add: heap_inv_def)
    ultimately show ?thesis using h(1) v full by (simp add: add_to_cache_def Let_def log_inv_def entries_def)
  qed
qed

lemma log_get_ok:
  assumes inv: "log_inv str T st" and tag: "tag \<in> T" and g: "unat (s_log_cache_max_generation st) < 2 ^ 29"
  shows "\<exists>st'. s_log_level_get_and_unlock str tag st = Inr (st', sp_level (log_abs st) (str tag)) \<and>
    log_inv str T st' \<and> log_abs st' = log_abs st \<and>
    unat (s_log_cache_max_generation st') \<le> unat (s_log_cache_max_generation st) + 1"
proof (rule cache_search_entries [OF inv, of "\<lambda>e. ce_tag e = tag"])
  assume s: "cache_search (\<lambda>e. ce_tag e = tag) (s_log_cache st) [0..<s_log_cache_entry_count st] = Inr None"
    "\<forall>e \<in> set (entries st). ce_tag e \<noteq> tag"
  define l where "l = (case get_uncached_log_level (str tag) (s_log_tags st) of Some l \<Rightarrow> l | None \<Rightarrow> esp_log_default_level st)"
  have l: "l = sp_level (log_abs st) (str tag)"
    by (auto simp: l_def sp_level_def log_abs_def get_uncached_map_of split: option.splits)
  have "s_log_level_get_and_unlock str tag st =
      Inr ((add_to_cache tag l st)\<lparr>s_log_cache_misses := s_log_cache_misses (add_to_cache tag l st) + 1\<rparr>, l)"
    using s(1) by (simp add: s_log_level_get_and_unlock_def get_cached_log_level_def Let_def l_def)
  then show ?thesis using log_miss_ok [OF inv tag s(2) g l] next_generation [OF g] l by simp
next
  fix i assume s: "cache_search (\<lambda>e. ce_tag e = tag) (s_log_cache st) [0..<s_log_cache_entry_count st] = Inr (Some i)"
    "i < s_log_cache_entry_count st" "entries st ! i = s_log_cache st ! i" "ce_tag (s_log_cache st ! i) = tag"
  have len: "s_log_cache_entry_count st \<le> TAG_CACHE_SIZE" "length (s_log_cache st) = TAG_CACHE_SIZE"
    using inv by (simp_all add: log_inv_def heap_inv_def)
  have "entries st ! i \<in> set (entries st)" using s(2) len by (intro nth_mem) (simp add: entries_def)
  then have l: "ce_level (s_log_cache st ! i) = sp_level (log_abs st) (str tag)"
    using inv s(3,4) by (auto simp: log_inv_def entries_ok_def)
  show ?thesis
  proof (cases "s_log_cache_entry_count st = TAG_CACHE_SIZE")
    case True
    show ?thesis
      using log_hit_ok [OF inv True _ g, of i] s(1,2) True l next_generation [OF g]
      by (simp add: s_log_level_get_and_unlock_def get_cached_log_level_def Let_def)
  next
    case False
    then show ?thesis using s(1) l inv by (simp add: s_log_level_get_and_unlock_def get_cached_log_level_def Let_def)
  qed
qed

text \<open>Setting a level: the list first, then the entry of the cache with that string, if there is one.\<close>

lemma log_set_tags_ok:
  assumes inv: "log_inv str T st" and inj: "inj_on str T" and level: "level < 8"
    and tags: "map_of tags = (map_of (s_log_tags st))(str tag := Some level)" "\<forall>(t, l) \<in> set tags. l < 8"
  shows "\<exists>st'. bindR (cache_search (\<lambda>e. str (ce_tag e) = str tag) (s_log_cache st) [0..<s_log_cache_entry_count st])
      (\<lambda>found. case found of
          None \<Rightarrow> Inr (st\<lparr>s_log_tags := tags\<rparr>)
        | Some i \<Rightarrow> Inr (st\<lparr>s_log_tags := tags, s_log_cache :=
            (s_log_cache st)[i := (s_log_cache st ! i)\<lparr>ce_level := level mod 8\<rparr>]\<rparr>)) = Inr st' \<and>
    log_inv str T st' \<and> log_abs st' = (log_abs st)\<lparr>sp_levels := (sp_levels (log_abs st))(str tag := Some level)\<rparr> \<and>
    s_log_cache_max_generation st' = s_log_cache_max_generation st"
proof (rule cache_search_entries [OF inv, of "\<lambda>e. str (ce_tag e) = str tag"])
  note v = inv [unfolded log_inv_def]
  let ?sp = "(log_abs st)\<lparr>sp_levels := (sp_levels (log_abs st))(str tag := Some level)\<rparr>"
  have sp: "sp_level ?sp t = (if t = str tag then level else sp_level (log_abs st) t)" for t
    by (simp add: sp_level_def split: option.splits)
  have abs: "log_abs (st\<lparr>s_log_tags := tags\<rparr>) = ?sp" using tags(1) by (simp add: log_abs_def)
  {
    assume s: "cache_search (\<lambda>e. str (ce_tag e) = str tag) (s_log_cache st) [0..<s_log_cache_entry_count st] = Inr None"
      "\<forall>e \<in> set (entries st). str (ce_tag e) \<noteq> str tag"
    have "entries_ok str T ?sp (entries st)" using v s(2) by (simp add: entries_ok_def sp)
    then have "log_inv str T (st\<lparr>s_log_tags := tags\<rparr>)" unfolding log_inv_def abs using v tags(2) by (simp add: entries_def)
    then show ?thesis using s(1) abs by simp
  }
  fix i assume s: "cache_search (\<lambda>e. str (ce_tag e) = str tag) (s_log_cache st) [0..<s_log_cache_entry_count st] = Inr (Some i)"
    "i < s_log_cache_entry_count st" "entries st ! i = s_log_cache st ! i" "str (ce_tag (s_log_cache st ! i)) = str tag"
  define e where "e = (s_log_cache st ! i)\<lparr>ce_level := level mod 8\<rparr>"
  define es where "es = (entries st)[i := e]"
  let ?st = "st\<lparr>s_log_tags := tags, s_log_cache := (s_log_cache st)[i := e]\<rparr>"
  have e: "ce_tag e = ce_tag (entries st ! i)" "ce_level e = level" "ce_generation e = ce_generation (s_log_cache st ! i)"
    using level s(3) by (simp_all add: e_def)
  have len: "i < length (entries st)" "i < length (s_log_cache st)" using v s(2) by (simp_all add: heap_inv_def entries_def)
  have es: "entries ?st = es" by (simp add: entries_def es_def take_update_swap)
  have "ce_level (es ! j) = sp_level ?sp (str (ce_tag (es ! j))) \<and> ce_tag (es ! j) \<in> T"
    if j: "j < length (entries st)" for j
  proof (cases "j = i")
    case True
    then show ?thesis using s(3,4) v len nth_mem [OF len(1)] e by (simp add: es_def sp entries_ok_def)
  next
    case False
    have T: "ce_tag (entries st ! k) \<in> T" if "k < length (entries st)" for k
      using v nth_mem [OF that] by (auto simp: entries_ok_def)
    have "ce_tag (entries st ! j) \<noteq> ce_tag (entries st ! i)"
      using v False j len(1) by (simp add: entries_ok_def distinct_conv_nth)
    then have "str (ce_tag (entries st ! j)) \<noteq> str tag"
      using inj_onD [OF inj _ T [OF j] T [OF len(1)]] s(3,4) by auto
    then show ?thesis using False v nth_mem [OF j] T [OF j] by (auto simp: es_def sp entries_ok_def)
  qed
  moreover have "map ce_tag es = map ce_tag (entries st)"
    using len(1) e by (simp add: es_def map_update list_update_same_conv)
  then have "distinct (map ce_tag es)" using v by (simp add: entries_ok_def)
  ultimately have ok: "entries_ok str T ?sp (entries ?st)" unfolding es
    by (simp add: entries_ok_def all_set_conv_all_nth es_def)
  have "map ce_generation ((s_log_cache st)[i := e]) = map ce_generation (s_log_cache st)"
    using len(2) e by (simp add: map_update list_update_same_conv)
  note hc = heap_inv_cong [OF this]
  have abs': "log_abs ?st = ?sp" using abs by (simp add: log_abs_def)
  have "log_inv str T ?st" unfolding log_inv_def abs' using v ok hc tags(2) by simp
  then show ?thesis using s(1) abs' by (simp add: e_def)
qed

lemma log_set_ok:
  assumes inv: "log_inv str T st" and inj: "inj_on str T" and level: "level < 8"
  shows "\<exists>st'. esp_log_level_set str mem_ok tag level st = Inr st' \<and> log_inv str T st' \<and>
    log_abs st' = sp_set mem_ok (str tag) level (log_abs st) \<and>
    unat (s_log_cache_max_generation st') \<le> unat (s_log_cache_max_generation st)"
proof (cases "str tag = ''*''")
  case True
  then show ?thesis using inv level
    by (simp add: esp_log_level_set_def clear_log_level_list_def log_inv_def heap_inv_def heap_upto_def entries_def
        entries_ok_def sp_set_def log_abs_def)
next
  case False
  have small: "\<forall>(t, l) \<in> set (s_log_tags st). l < 8" using inv by (simp add: log_inv_def)
  define tags where "tags = (case update_level (str tag) level (s_log_tags st) of
      Some tags \<Rightarrow> Some tags | None \<Rightarrow> if \<not> mem_ok then None else Some ((str tag, level mod 256) # s_log_tags st))"
  have set: "esp_log_level_set str mem_ok tag level st = (case tags of None \<Rightarrow> Inr st | Some tags \<Rightarrow>
      bindR (cache_search (\<lambda>e. str (ce_tag e) = str tag) (s_log_cache st) [0..<s_log_cache_entry_count st])
        (\<lambda>found. case found of
            None \<Rightarrow> Inr (st\<lparr>s_log_tags := tags\<rparr>)
          | Some i \<Rightarrow> Inr (st\<lparr>s_log_tags := tags, s_log_cache :=
              (s_log_cache st)[i := (s_log_cache st ! i)\<lparr>ce_level := level mod 8\<rparr>]\<rparr>)))"
    unfolding esp_log_level_set_def tags_def [symmetric] if_not_P [OF False] by (cases tags) (simp_all add: Let_def)
  show ?thesis
  proof (cases tags)
    case None
    then have "\<not> mem_ok" "map_of (s_log_tags st) (str tag) = None"
      using update_level_None [of "str tag" level "s_log_tags st"] by (auto simp: tags_def split: option.splits if_splits)
    then show ?thesis using set None inv False by (simp add: sp_set_def log_abs_def)
  next
    case (Some ts)
    have "map_of ts = (map_of (s_log_tags st))(str tag := Some level) \<and> set ts \<subseteq> insert (str tag, level) (set (s_log_tags st)) \<and>
        (mem_ok \<or> map_of (s_log_tags st) (str tag) \<noteq> None)"
      using Some level update_level_Some [of "str tag" level "s_log_tags st"] update_level_None [of "str tag" level "s_log_tags st"]
      by (auto simp: tags_def split: option.splits if_splits)
    moreover from this have "\<forall>(t, l) \<in> set ts. l < 8" using small level by auto
    ultimately show ?thesis
      using log_set_tags_ok [OF inv inj level, of ts tag] set Some False by (auto simp: sp_set_def log_abs_def)
  qed
qed

lemma log_step_ok:
  assumes "log_inv str T st" "inj_on str T" "call_ok T c" "unat (s_log_cache_max_generation st) < 2 ^ 29"
  shows "\<exists>st'. log_step str c st = Inr (st', snd (sp_step str c (log_abs st))) \<and> log_inv str T st' \<and>
    log_abs st' = fst (sp_step str c (log_abs st)) \<and>
    unat (s_log_cache_max_generation st') \<le> unat (s_log_cache_max_generation st) + 1"
proof (cases c)
  case (Level_set mem_ok tag level)
  then have "level < 8" using assms(3) by simp
  from log_set_ok [OF assms(1,2) this, of mem_ok tag] obtain st' where "esp_log_level_set str mem_ok tag level st = Inr st'"
    "log_inv str T st'" "log_abs st' = sp_set mem_ok (str tag) level (log_abs st)"
    "unat (s_log_cache_max_generation st') \<le> unat (s_log_cache_max_generation st)" by (elim exE conjE)
  then show ?thesis using Level_set by (intro exI [of _ st']) simp
next
  case (Level_get tag)
  then have "tag \<in> T" using assms(3) by simp
  from log_get_ok [OF assms(1) this assms(4)] obtain st' where
    "s_log_level_get_and_unlock str tag st = Inr (st', sp_level (log_abs st) (str tag))"
    "log_inv str T st'" "log_abs st' = log_abs st"
    "unat (s_log_cache_max_generation st') \<le> unat (s_log_cache_max_generation st) + 1" by (elim exE conjE)
  then show ?thesis using Level_get by (intro exI [of _ st']) (simp add: esp_log_level_get_def)
next
  case (Write locked level tag format)
  then have "tag \<in> T" using assms(3) by simp
  from log_get_ok [OF assms(1) this assms(4)] obtain st' where
    st': "s_log_level_get_and_unlock str tag st = Inr (st', sp_level (log_abs st) (str tag))"
    "log_inv str T st'" "log_abs st' = log_abs st"
    "unat (s_log_cache_max_generation st') \<le> unat (s_log_cache_max_generation st) + 1" by (elim exE conjE)
  have "s_log_print_func st' = sp_print (log_abs st)"
    using arg_cong [OF st'(3), of sp_print] by (simp add: log_abs_def)
  then show ?thesis using Write st' assms(1)
    by (intro exI [of _ "if locked then st' else st"])
      (simp add: esp_log_write_def esp_log_writev_def should_output_def)
next
  case (Set_vprintf func)
  have "log_inv str T (st\<lparr>s_log_print_func := func\<rparr>)"
  proof -
    have "sp_level (log_abs (st\<lparr>s_log_print_func := func\<rparr>)) = sp_level (log_abs st)"
      by (rule ext) (simp add: sp_level_def log_abs_def split: option.splits)
    note entries_ok_sp [OF this]
    then show ?thesis using assms(1) by (simp add: log_inv_def entries_def)
  qed
  then show ?thesis using Set_vprintf by (simp add: esp_log_set_vprintf_def log_abs_def)
qed

lemma log_run_ok:
  assumes "log_inv str T st" "inj_on str T" "\<forall>c \<in> set cs. call_ok T c"
    "unat (s_log_cache_max_generation st) + length cs \<le> 2 ^ 29"
  shows "\<exists>st'. log_run str cs st = Inr (st', sp_run str cs (log_abs st)) \<and> log_inv str T st'"
  using assms(1,3,4)
proof (induction cs arbitrary: st)
  case (Cons c cs)
  have "call_ok T c" "unat (s_log_cache_max_generation st) < 2 ^ 29" using Cons.prems(2,3) by simp_all
  from log_step_ok [OF Cons.prems(1) assms(2) this] obtain st1 where 1: "log_step str c st = Inr (st1, snd (sp_step str c (log_abs st)))" "log_inv str T st1"
    "log_abs st1 = fst (sp_step str c (log_abs st))"
    "unat (s_log_cache_max_generation st1) \<le> unat (s_log_cache_max_generation st) + 1"
    by (elim exE conjE)
  have "\<exists>st'. log_run str cs st1 = Inr (st', sp_run str cs (log_abs st1)) \<and> log_inv str T st'"
    by (rule Cons.IH) (use 1 Cons.prems in simp_all)
  then obtain st' where "log_run str cs st1 = Inr (st', sp_run str cs (log_abs st1))" "log_inv str T st'" by (elim exE conjE)
  then show ?case using 1(1,3) by (intro exI [of _ st']) (simp add: case_prod_beta)
qed simp

text \<open>The static variables at start-up: \<open>level\<close> is the configured default, \<open>func\<close> the address of \<^verbatim>\<open>vprintf\<close>.\<close>

definition log_init :: "nat \<Rightarrow> nat \<Rightarrow> log_state" where
  "log_init level func = \<lparr>esp_log_default_level = level, s_log_tags = [],
     s_log_cache = replicate TAG_CACHE_SIZE \<lparr>ce_tag = 0, ce_level = 0, ce_generation = 0\<rparr>,
     s_log_cache_max_generation = 0, s_log_cache_entry_count = 0, s_log_print_func = func, s_log_cache_misses = 0\<rparr>"

lemma log_inv_init: "level < 8 \<Longrightarrow> log_inv str T (log_init level func)"
  by (simp add: log_inv_def log_init_def heap_inv_def heap_upto_def entries_ok_def entries_def)

section \<open>Least recently used\<close>

text \<open>
  The tags in the cache in the order of their generations. While the cache fills, an entry has the
  generation of its insertion, since a hit changes nothing then; in a full cache every use gives a new
  generation, so that from then on the order is that of use.
\<close>

definition lru :: "log_state \<Rightarrow> nat list" where
  "lru st = map ce_tag (sort_key ce_generation (entries st))"

lemma sort_key_unique:
  assumes "set xs = set ys" "distinct (map f xs)" "distinct (map f ys)" "sorted (map f ys)"
  shows "sort_key f xs = ys"
proof (rule map_sorted_distinct_set_unique [of f])
  have "mset (sort_key f xs) = mset xs" by simp
  then have "distinct (map f (sort_key f xs)) = distinct (map f xs)" by (intro mset_eq_imp_distinct_iff) simp
  with assms(2) show "distinct (map f (sort_key f xs))" by simp
  show "inj_on f (set (sort_key f xs) \<union> set ys)" using assms by (simp add: distinct_map)
qed (use assms in simp_all)

lemma heap_root_least:
  assumes "heap_upto n cache" "j < n"
  shows "j = 0 \<or> gen cache 0 < gen cache j"
  using assms(2)
proof (induction j rule: less_induct)
  case (less j)
  show ?case
  proof (cases "j = 0")
    case False
    then have p: "(j - 1) div 2 < j" by linarith
    then have "(j - 1) div 2 = 0 \<or> gen cache 0 < gen cache ((j - 1) div 2)" using less by simp
    moreover have "gen cache ((j - 1) div 2) < gen cache j" using assms(1) less.prems False by (simp add: heap_upto_def)
    ultimately show ?thesis by auto
  qed simp
qed

text \<open>The cache after the entry at \<open>i\<close> was replaced by the youngest one, as a list by age.\<close>

lemma sort_replace:
  assumes inv: "heap_inv TAG_CACHE_SIZE cache mg" and i: "i < TAG_CACHE_SIZE" and g: "unat mg < 2 ^ 29"
    and e: "ce_generation e = ucast mg"
  shows "sort_key ce_generation (heap_bubble_down i (cache[i := e])) =
    filter (\<lambda>x. x \<noteq> cache ! i) (sort_key ce_generation cache) @ [e]"
proof (rule sort_key_unique)
  let ?c = "heap_bubble_down i (cache[i := e])"
  note len = heap_inv_full(1) [OF inv] and d = heap_inv_full(2) [OF inv] and v = heap_inv_full(3) [OF inv]
  have y: "heap_inv TAG_CACHE_SIZE ?c (mg + 1)" "mset ?c = mset (cache[i := e])" using heap_inv_young [OF inv i g e] by simp_all
  have old: "ce_generation x < ce_generation e" if "x \<in> set cache" for x
    using v that generation_fits [OF g] by (simp add: word_less_nat_alt e)
  show "set ?c = set (filter (\<lambda>x. x \<noteq> cache ! i) (sort_key ce_generation cache) @ [e])"
    using mset_eq_setD [OF y(2)] set_update_distinct [of cache i e] d i len by (auto simp: distinct_map)
  show "distinct (map ce_generation ?c)" by (rule heap_inv_full(2) [OF y(1)])
  have "mset (sort_key ce_generation cache) = mset cache" by simp
  then have "distinct (map ce_generation (sort_key ce_generation cache)) = distinct (map ce_generation cache)"
    by (intro mset_eq_imp_distinct_iff) simp
  then show "distinct (map ce_generation (filter (\<lambda>x. x \<noteq> cache ! i) (sort_key ce_generation cache) @ [e]))"
    using d by (auto intro: distinct_map_filter dest!: old)
  show "sorted (map ce_generation (filter (\<lambda>x. x \<noteq> cache ! i) (sort_key ce_generation cache) @ [e]))"
    using old by (auto simp: sorted_append intro: sorted_filter less_imp_le)
qed

lemma lru_hit:
  assumes inv: "log_inv str T st" and full: "s_log_cache_entry_count st = TAG_CACHE_SIZE"
    and g: "unat (s_log_cache_max_generation st) < 2 ^ 29" and i: "i < TAG_CACHE_SIZE" "ce_tag (s_log_cache st ! i) = tag"
  defines "e \<equiv> (s_log_cache st ! i)\<lparr>ce_generation := ucast (s_log_cache_max_generation st)\<rparr>"
  shows "map ce_tag (sort_key ce_generation (heap_bubble_down i ((s_log_cache st)[i := e]))) =
    filter (\<lambda>t. t \<noteq> tag) (lru st) @ [tag]"
proof -
  note v = inv [unfolded log_inv_def]
  have es: "entries st = s_log_cache st" and len: "length (s_log_cache st) = TAG_CACHE_SIZE"
    using v full by (simp_all add: entries_def heap_inv_def)
  have "x \<noteq> s_log_cache st ! i \<longleftrightarrow> ce_tag x \<noteq> tag" if "x \<in> set (s_log_cache st)" for x
    using v that nth_mem [of i "s_log_cache st"] i len inj_onD [of ce_tag "set (s_log_cache st)" x "s_log_cache st ! i"]
    by (auto simp: entries_ok_def es distinct_map)
  then have "filter (\<lambda>x. x \<noteq> s_log_cache st ! i) (sort_key ce_generation (s_log_cache st)) =
      filter (\<lambda>x. ce_tag x \<noteq> tag) (sort_key ce_generation (s_log_cache st))"
    by (intro filter_cong) simp_all
  moreover have "heap_inv TAG_CACHE_SIZE (s_log_cache st) (s_log_cache_max_generation st)" using v full by simp
  ultimately show ?thesis
    using sort_replace [OF _ i(1) g, of "s_log_cache st" e] i(2) by (simp add: e_def lru_def es filter_map comp_def)
qed

lemma lru_miss:
  assumes inv: "log_inv str T st" and full: "s_log_cache_entry_count st = TAG_CACHE_SIZE"
    and g: "unat (s_log_cache_max_generation st) < 2 ^ 29"
  shows "map ce_tag (sort_key ce_generation (heap_bubble_down 0 ((s_log_cache st)[0 := cached_entry tag level (s_log_cache_max_generation st)]))) =
    tl (lru st) @ [tag]"
proof -
  let ?e = "cached_entry tag level (s_log_cache_max_generation st)" and ?L = "sort_key ce_generation (s_log_cache st)"
  note v = inv [unfolded log_inv_def full]
  have len: "length (s_log_cache st) = TAG_CACHE_SIZE" using v by (simp add: heap_inv_def)
  have es: "entries st = s_log_cache st" and d: "distinct (map ce_generation (s_log_cache st))"
    using v full len by (simp_all add: entries_def heap_inv_def)
  obtain x xs where L: "?L = x # xs"
    using len by (cases ?L) (auto simp: TAG_CACHE_SIZE_def simp flip: length_0_conv dest: arg_cong [of _ _ length])
  have dL: "distinct ?L" using d by (simp add: distinct_map)
  have root: "s_log_cache st ! 0 \<in> set ?L" using len by (simp add: TAG_CACHE_SIZE_def)
  have "ce_generation (s_log_cache st ! 0) \<le> ce_generation y" if y: "y \<in> set (s_log_cache st)" for y
  proof -
    obtain j where "j < TAG_CACHE_SIZE" "y = s_log_cache st ! j" using y unfolding in_set_conv_nth len by blast
    then show ?thesis using heap_root_least [of TAG_CACHE_SIZE "s_log_cache st" j] v
      by (auto simp: heap_inv_def gen_def word_le_nat_alt)
  qed
  moreover have "x \<in> set (s_log_cache st)" using L by (metis list.set_intros(1) set_sort)
  ultimately have "ce_generation (s_log_cache st ! 0) \<le> ce_generation x" by blast
  moreover have "ce_generation x \<le> ce_generation (s_log_cache st ! 0)"
    using root sorted_sort_key [of ce_generation "s_log_cache st"] unfolding L by auto
  ultimately have x: "x = s_log_cache st ! 0"
    using d root \<open>x \<in> set (s_log_cache st)\<close> by (auto simp: distinct_map dest: inj_onD)
  then have "filter (\<lambda>y. y \<noteq> s_log_cache st ! 0) ?L = xs" using dL unfolding L by (auto simp: filter_id_conv)
  moreover have "heap_inv TAG_CACHE_SIZE (s_log_cache st) (s_log_cache_max_generation st)" using v by simp
  ultimately show ?thesis
    using sort_replace [OF _ _ g, of "s_log_cache st" 0 ?e] L
    by (simp add: lru_def es cached_entry_def TAG_CACHE_SIZE_def)
qed

section \<open>A generation that wraps\<close>

lemma bubble_down_leaf:
  assumes "length cache = TAG_CACHE_SIZE" "i < TAG_CACHE_SIZE"
  shows "length (heap_bubble_down i cache) = TAG_CACHE_SIZE \<and> mset (heap_bubble_down i cache) = mset cache \<and>
    (\<exists>j. 0 < j \<and> j < TAG_CACHE_SIZE \<and> heap_bubble_down i cache ! j = cache ! i)"
  using assms
proof (induction i cache rule: heap_bubble_down.induct)
  case (1 i cache)
  show ?case
  proof (cases "i < TAG_CACHE_SIZE div 2")
    case False
    then have "0 < i" by (simp add: TAG_CACHE_SIZE_def)
    then show ?thesis using 1 False by (auto simp: heap_bubble_down.simps [of i])
  next
    case True
    define c where "c = (if ce_generation (cache ! (i * 2 + 1)) < ce_generation (cache ! (i * 2 + 1 + 1))
      then i * 2 + 1 else i * 2 + 1 + 1)"
    have c: "c < TAG_CACHE_SIZE" using True by (auto simp: c_def TAG_CACHE_SIZE_def)
    have "heap_bubble_down i cache = heap_bubble_down c (heap_swap i c cache)"
      using True by (simp add: heap_bubble_down.simps [of i] c_def Let_def)
    moreover have "heap_swap i c cache ! c = cache ! i" using 1 c by (simp add: heap_swap_def)
    ultimately show ?thesis
      using 1(1) [OF True refl refl, folded c_def] 1(2,3) c mset_heap_swap [of i cache c] by (simp add: c_def)
  qed
qed

lemma cache_search_abort:
  assumes "\<forall>i \<in> set is. \<not> P (cache ! i)" "0 < j" "ce_generation (cache ! j) = 0"
  shows "cache_search P cache (is @ j # js) = Inl Assert_failed"
  using assms(1)
proof (induction "is")
  case Nil
  have "\<not> ce_generation (cache ! ((j - 1) div 2)) < ce_generation (cache ! j)" unfolding assms(3) by simp
  then show ?case using assms(2) by (simp add: assertR_def)
next
  case (Cons i "is")
  then show ?case by (simp add: assertR_def)
qed

section \<open>Properties\<close>

text \<open>
  C28. The cache is invisible. Start with a default level that fits its bit field, and let every string
  be read through one tag pointer. Then any sequence of at most \<open>2 ^ 29\<close> calls - setting levels, also
  for all tags and also when memory runs out, reading levels, writing messages, changing the print
  function - ends without a failed assertion and gives the levels and the output of a plain map from
  strings to levels with a default.
\<close>
theorem cached_levels_refine_map:
  assumes "inj_on str T" "\<forall>c \<in> set cs. call_ok T c" "length cs \<le> 2 ^ 29" "level < 8"
  shows "\<exists>st'. log_run str cs (log_init level func) =
    Inr (st', sp_run str cs \<lparr>sp_default = level, sp_levels = \<lambda>_. None, sp_print = func\<rparr>)"
proof -
  have "log_abs (log_init level func) = \<lparr>sp_default = level, sp_levels = \<lambda>_. None, sp_print = func\<rparr>"
    by (simp add: log_abs_def log_init_def fun_eq_iff)
  moreover have "s_log_cache_max_generation (log_init level func) = 0" by (simp add: log_init_def)
  ultimately show ?thesis using log_run_ok [OF log_inv_init [OF assms(4)] assms(1,2), of func] assms(3) by auto
qed

definition demo_str :: "nat \<Rightarrow> string" where
  "demo_str p = (if p = 1 then ''wifi'' else if p = 2 then ''httpd'' else ''*'')"

theorem cached_levels_refine_map_witness:
  "\<exists>st'. log_run demo_str [Level_get 1, Level_set True 1 5, Write True 4 1 ''x'', Write True 4 2 ''y'', Level_get 1] (log_init 3 7) =
   Inr (st', [Level 3, Done, Output (Some (7, ''x'')), Output None, Level 5])"
proof -
  let ?cs = "[Level_get 1, Level_set True 1 5, Write True 4 1 ''x'', Write True 4 2 ''y'', Level_get 1]"
  have run: "sp_run demo_str ?cs \<lparr>sp_default = 3, sp_levels = \<lambda>_. None, sp_print = 7\<rparr> =
      [Level 3, Done, Output (Some (7, ''x'')), Output None, Level 5]"
    by (simp add: demo_str_def sp_set_def sp_level_def)
  have "\<exists>st'. log_run demo_str ?cs (log_init 3 7) =
      Inr (st', sp_run demo_str ?cs \<lparr>sp_default = 3, sp_levels = \<lambda>_. None, sp_print = 7\<rparr>)"
    by (rule cached_levels_refine_map [of _ "{1, 2}"]) (simp_all add: demo_str_def)
  then show ?thesis unfolding run .
qed

text \<open>
  C29. A full cache replaces the tag that is first in the order of generations. Reading the level of a
  tag in the cache makes it the last; reading the level of another tag drops the first and adds the new
  one as the last. All others keep their order. So among the uses since the cache is full, the tag
  dropped is the one not used for the longest time. Fewer than \<open>2 ^ 29\<close> generations have been used.
\<close>
theorem cache_is_lru:
  assumes "log_inv str T st" "s_log_cache_entry_count st = TAG_CACHE_SIZE" "tag \<in> T"
    "unat (s_log_cache_max_generation st) < 2 ^ 29"
  shows "\<exists>st' l. esp_log_level_get str tag st = Inr (st', l) \<and>
    lru st' = (if tag \<in> set (lru st) then filter (\<lambda>t. t \<noteq> tag) (lru st) else tl (lru st)) @ [tag]"
proof (rule cache_search_entries [OF assms(1), of "\<lambda>e. ce_tag e = tag"])
  note v = heap_inv_young [of "s_log_cache st" "s_log_cache_max_generation st", OF _ _ assms(4)]
  have h: "heap_inv TAG_CACHE_SIZE (s_log_cache st) (s_log_cache_max_generation st)"
    using assms(1,2) by (simp add: log_inv_def)
  have tags: "set (lru st) = ce_tag ` set (entries st)" by (simp add: lru_def)
  {
    assume s: "cache_search (\<lambda>e. ce_tag e = tag) (s_log_cache st) [0..<s_log_cache_entry_count st] = Inr None"
      "\<forall>e \<in> set (entries st). ce_tag e \<noteq> tag"
    define l where "l = (case get_uncached_log_level (str tag) (s_log_tags st) of Some l \<Rightarrow> l | None \<Rightarrow> esp_log_default_level st)"
    let ?c = "heap_bubble_down 0 ((s_log_cache st)[0 := cached_entry tag l (s_log_cache_max_generation st)])"
    have c: "length ?c = TAG_CACHE_SIZE"
      using v [OF h, of 0] by (simp add: cached_entry_def TAG_CACHE_SIZE_def heap_inv_def)
    have "esp_log_level_get str tag st = Inr ((add_to_cache tag l st)\<lparr>s_log_cache_misses := s_log_cache_misses (add_to_cache tag l st) + 1\<rparr>, l)"
      using s(1) by (simp add: esp_log_level_get_def s_log_level_get_and_unlock_def get_cached_log_level_def Let_def l_def)
    moreover have "tag \<notin> set (lru st)" using s(2) tags by auto
    ultimately show ?thesis using lru_miss [OF assms(1,2,4), of tag l] assms(2) c
      by (simp add: add_to_cache_def Let_def lru_def [of "_ \<lparr>s_log_cache_misses := _\<rparr>"] entries_def)
  }
  fix i assume s: "cache_search (\<lambda>e. ce_tag e = tag) (s_log_cache st) [0..<s_log_cache_entry_count st] = Inr (Some i)"
    "i < s_log_cache_entry_count st" "entries st ! i = s_log_cache st ! i" "ce_tag (s_log_cache st ! i) = tag"
  let ?c = "heap_bubble_down i ((s_log_cache st)[i := (s_log_cache st ! i)\<lparr>ce_generation := ucast (s_log_cache_max_generation st)\<rparr>])"
  let ?st = "st\<lparr>s_log_cache_max_generation := s_log_cache_max_generation st + 1, s_log_cache := ?c\<rparr>"
  have i: "i < TAG_CACHE_SIZE" using s(2) assms(2) by simp
  have "length ?c = TAG_CACHE_SIZE" using v [OF h i] by (simp add: heap_inv_def)
  then have "entries ?st = ?c" using assms(2) by (simp add: entries_def)
  then have "lru ?st = filter (\<lambda>t. t \<noteq> tag) (lru st) @ [tag]"
    using lru_hit [OF assms(1,2,4) i s(4)] by (simp add: lru_def [of ?st])
  moreover have "tag \<in> set (lru st)"
    using nth_mem [of i "entries st"] i assms(2) heap_inv_full(1) [OF h] s(3,4) tags by (auto simp: entries_def image_iff)
  moreover have "esp_log_level_get str tag st = Inr (?st, ce_level (s_log_cache st ! i))"
    using s(1) assms(2) by (simp add: esp_log_level_get_def s_log_level_get_and_unlock_def get_cached_log_level_def Let_def)
  ultimately show ?thesis by (intro exI [of _ ?st] exI [of _ "ce_level (s_log_cache st ! i)"]) simp
qed

text \<open>A full cache for the witnesses: the tags 0 to 30 in the order of their use.\<close>

definition full_log :: "u32 \<Rightarrow> log_state" where
  "full_log mg = (log_init 3 7)\<lparr>s_log_cache := map (\<lambda>i. \<lparr>ce_tag = i, ce_level = 3, ce_generation = of_nat i\<rparr>) [0..<TAG_CACHE_SIZE],
     s_log_cache_max_generation := mg, s_log_cache_entry_count := TAG_CACHE_SIZE\<rparr>"

lemma entries_full_log: "entries (full_log mg) = map (\<lambda>i. \<lparr>ce_tag = i, ce_level = 3, ce_generation = of_nat i\<rparr>) [0..<TAG_CACHE_SIZE]"
  by (simp add: entries_def full_log_def)

lemma generation_of_nat: "i < TAG_CACHE_SIZE \<Longrightarrow> unat (of_nat i :: 29 word) = i"
  by (simp add: unat_of_nat TAG_CACHE_SIZE_def)

lemma full_log_generations:
  "distinct (map ce_generation (entries (full_log mg)))" "sorted (map ce_generation (entries (full_log mg)))"
  unfolding entries_full_log
  by (auto simp: distinct_map inj_on_def sorted_map sorted_wrt_iff_nth_less word_le_nat_alt generation_of_nat
      dest: arg_cong [of _ _ unat])

lemma full_log_inv:
  assumes "TAG_CACHE_SIZE \<le> unat mg" "unat mg \<le> 2 ^ 29"
  shows "log_inv str UNIV (full_log mg)"
proof -
  let ?c = "map (\<lambda>i. \<lparr>ce_tag = i, ce_level = 3, ce_generation = of_nat i\<rparr>) [0..<TAG_CACHE_SIZE]"
  have "gen ?c i = i" if "i < TAG_CACHE_SIZE" for i using that by (simp add: gen_def generation_of_nat)
  then have "heap_upto TAG_CACHE_SIZE ?c" by (auto simp: heap_upto_def)
  then have "heap_inv TAG_CACHE_SIZE ?c mg"
    using assms full_log_generations(1) [of mg] unfolding heap_inv_def entries_full_log by (auto simp: generation_of_nat)
  then show ?thesis
    by (simp add: log_inv_def entries_full_log entries_ok_def distinct_map inj_on_def sp_level_def log_abs_def)
      (simp add: full_log_def log_init_def)
qed

lemma lru_full_log: "lru (full_log mg) = [0..<TAG_CACHE_SIZE]"
proof -
  have "sort_key ce_generation (entries (full_log mg)) = entries (full_log mg)"
    using full_log_generations [of mg] by (intro sort_key_unique) simp_all
  then show ?thesis by (simp add: lru_def entries_full_log comp_def)
qed

theorem cache_is_lru_witness:
  "\<exists>st' l. esp_log_level_get (\<lambda>p. replicate p CHR ''t'') 99 (full_log 31) = Inr (st', l) \<and>
     lru st' = [1..<31] @ [99]"
  using cache_is_lru [of "\<lambda>p. replicate p CHR ''t''" UNIV "full_log 31" 99] full_log_inv [of 31]
  by (simp add: lru_full_log TAG_CACHE_SIZE_def) (simp add: full_log_def TAG_CACHE_SIZE_def)

text \<open>
  C30. The generation counter wraps after \<open>2 ^ 29\<close> uses. Generations have 29 bits, so when the cache is
  full and the counter has reached \<open>2 ^ 29\<close>, the next read of a tag in the cache gives it generation 0
  and sinks it to a leaf of the heap; the read after it of the same tag then fails the assertion on
  the order of the heap.
\<close>
theorem generation_wrap_aborts:
  assumes "log_inv str T st" "s_log_cache_entry_count st = TAG_CACHE_SIZE" "s_log_cache_max_generation st = 2 ^ 29"
    "tag \<in> ce_tag ` set (entries st)"
  shows "\<exists>st' l. esp_log_level_get str tag st = Inr (st', l) \<and> esp_log_level_get str tag st' = Inl Assert_failed"
proof (rule cache_search_entries [OF assms(1), of "\<lambda>e. ce_tag e = tag"])
  assume "\<forall>e \<in> set (entries st). ce_tag e \<noteq> tag"
  then show ?thesis using assms(4) by blast
next
  fix i assume s: "cache_search (\<lambda>e. ce_tag e = tag) (s_log_cache st) [0..<s_log_cache_entry_count st] = Inr (Some i)"
    "i < s_log_cache_entry_count st" "entries st ! i = s_log_cache st ! i" "ce_tag (s_log_cache st ! i) = tag"
  let ?e = "(s_log_cache st ! i)\<lparr>ce_generation := ucast (s_log_cache_max_generation st)\<rparr>"
  let ?c = "heap_bubble_down i ((s_log_cache st)[i := ?e])"
  let ?st = "st\<lparr>s_log_cache_max_generation := s_log_cache_max_generation st + 1, s_log_cache := ?c\<rparr>"
  have "heap_inv TAG_CACHE_SIZE (s_log_cache st) (s_log_cache_max_generation st)"
    using assms(1,2) by (simp add: log_inv_def)
  note len = heap_inv_full(1) [OF this]
  have i: "i < TAG_CACHE_SIZE" using s(2) assms(2) by simp
  obtain j where j: "0 < j" "j < TAG_CACHE_SIZE" "?c ! j = ?e" and c: "length ?c = TAG_CACHE_SIZE" "mset ?c = mset ((s_log_cache st)[i := ?e])"
    using bubble_down_leaf [of "(s_log_cache st)[i := ?e]" i] len i by auto
  have g: "ce_generation ?e = 0" using assms(3) by (simp add: ucast_eq)
  have "map ce_tag ((s_log_cache st)[i := ?e]) = map ce_tag (s_log_cache st)"
    using i len by (simp add: map_update list_update_same_conv)
  moreover have "distinct (map ce_tag (s_log_cache st))"
    using assms(1,2) len by (simp add: log_inv_def entries_ok_def entries_def)
  moreover have "mset (map ce_tag ?c) = mset (map ce_tag ((s_log_cache st)[i := ?e]))" unfolding mset_map c(2) ..
  ultimately have d: "distinct (map ce_tag ?c)" using mset_eq_imp_distinct_iff by metis
  have "ce_tag (?c ! k) \<noteq> tag" if "k < j" for k
    using nth_eq_iff_index_eq [OF d, of k j] that j s(4) c(1) by simp
  then have "cache_search (\<lambda>e. ce_tag e = tag) ?c ([0..<j] @ j # [Suc j..<TAG_CACHE_SIZE]) = Inl Assert_failed"
    using j g by (intro cache_search_abort) auto
  moreover have "[0..<TAG_CACHE_SIZE] = [0..<j] @ j # [Suc j..<TAG_CACHE_SIZE]"
    using upt_add_eq_append [of 0 j "TAG_CACHE_SIZE - j"] upt_conv_Cons [OF j(2)] j(2) by simp
  ultimately have "esp_log_level_get str tag ?st = Inl Assert_failed"
    using assms(2) by (simp add: esp_log_level_get_def s_log_level_get_and_unlock_def get_cached_log_level_def)
  moreover have "esp_log_level_get str tag st = Inr (?st, ce_level (s_log_cache st ! i))"
    using s(1) assms(2) by (simp add: esp_log_level_get_def s_log_level_get_and_unlock_def get_cached_log_level_def Let_def)
  ultimately show ?thesis by (intro exI conjI)
qed

theorem generation_wrap_aborts_witness:
  "\<exists>st' l. esp_log_level_get (\<lambda>_. ''t'') 5 (full_log (2 ^ 29)) = Inr (st', l) \<and>
     esp_log_level_get (\<lambda>_. ''t'') 5 st' = Inl Assert_failed"
proof (rule generation_wrap_aborts [of _ UNIV])
  show "log_inv (\<lambda>_. ''t'') UNIV (full_log (2 ^ 29))" by (rule full_log_inv) (simp_all add: TAG_CACHE_SIZE_def)
  show "5 \<in> ce_tag ` set (entries (full_log (2 ^ 29)))" by (simp add: entries_full_log image_image TAG_CACHE_SIZE_def)
qed (simp_all add: full_log_def)

text \<open>
  C31. A string with two tag pointers keeps an old level. When both pointers were read before the level
  of their string is set, the second pointer still gives the level from before, and the first one the
  new level.
\<close>
theorem second_pointer_keeps_level:
  assumes "str p = str q" "p \<noteq> q" "str p \<noteq> ''*''" "level < 8" "new < 8"
  shows "\<exists>st'. log_run str [Level_get p, Level_get q, Level_set True p new, Level_get p, Level_get q] (log_init level func) =
    Inr (st', [Level level, Level level, Done, Level new, Level level])"
proof -
  note defs = esp_log_level_get_def s_log_level_get_and_unlock_def get_cached_log_level_def Let_def
  define c where "c = replicate TAG_CACHE_SIZE \<lparr>ce_tag = 0, ce_level = 0, ce_generation = 0 :: 29 word\<rparr>"
  have c: "0 < length c" "Suc 0 < length c" by (simp_all add: c_def TAG_CACHE_SIZE_def)
  define s0 where "s0 = log_init level func"
  define s1 where "s1 = s0\<lparr>s_log_cache := c[0 := cached_entry p level 0], s_log_cache_max_generation := 1,
    s_log_cache_entry_count := 1, s_log_cache_misses := 1\<rparr>"
  define s2 where "s2 = s0\<lparr>s_log_cache := c[0 := cached_entry p level 0, 1 := cached_entry q level 1],
    s_log_cache_max_generation := 2, s_log_cache_entry_count := 2, s_log_cache_misses := 2\<rparr>"
  define s3 where "s3 = s2\<lparr>s_log_tags := [(str p, new)], s_log_cache := c[0 := cached_entry p new 0, 1 := cached_entry q level 1]\<rparr>"
  have s0: "s_log_cache s0 = c" "s_log_cache_max_generation s0 = 0" "s_log_cache_entry_count s0 = 0"
    "s_log_tags s0 = []" "esp_log_default_level s0 = level" "s_log_cache_misses s0 = 0"
    by (simp_all add: s0_def log_init_def c_def)
  have gens: "ce_generation (cached_entry t l 0) < ce_generation (cached_entry t' l' 1)" for t l t' l'
    by (simp add: cached_entry_def)
  have tag: "ce_tag (cached_entry t l g) = t" "ce_level (cached_entry t l g) = l mod 8"
    "(cached_entry t l g)\<lparr>ce_level := new\<rparr> = cached_entry t new g" for t l g using assms(5) by (simp_all add: cached_entry_def)
  have swap: "c[0 := x, Suc 0 := y, 0 := z] = c[0 := z, Suc 0 := y]" for x y z by (simp add: list_update_swap [of "Suc 0" 0])
  have two: "[0..<2] = [0, Suc 0]" by (simp add: upt_rec)
  have "esp_log_level_get str p s0 = Inr (s1, level)"
    by (simp add: defs add_to_cache_def s0 s1_def TAG_CACHE_SIZE_def)
  moreover have "esp_log_level_get str q s1 = Inr (s2, level)"
    using assms(2) c by (simp add: defs add_to_cache_def s0 s1_def s2_def tag TAG_CACHE_SIZE_def)
  moreover have "esp_log_level_set str True p new s2 = Inr s3"
    using assms(1,3,5) c by (simp add: esp_log_level_set_def Let_def s0 s2_def s3_def tag two swap)
  moreover have "esp_log_level_get str p s3 = Inr (s3, new)" "esp_log_level_get str q s3 = Inr (s3, level)"
    using assms c by (simp_all add: defs s0 s2_def s3_def tag two gens TAG_CACHE_SIZE_def)
  ultimately show ?thesis by (simp add: s0_def)
qed

theorem second_pointer_keeps_level_witness:
  "\<exists>st'. log_run (\<lambda>_. ''wifi'') [Level_get 1, Level_get 2, Level_set True 1 5, Level_get 1, Level_get 2] (log_init 3 7) =
    Inr (st', [Level 3, Level 3, Done, Level 5, Level 3])"
  by (rule second_pointer_keeps_level) simp_all

end
