(* ===== verification/Flash_Access.thy ===== *)
theory Flash_Access
  imports Idf_Base
begin

text \<open>
  Flash memory as the wear levelling layer sees it. The interface \<^verbatim>\<open>Flash_Access\<close> of
  \<^verbatim>\<open>components/wear_levelling\<close> is a record of operations on a state, and its contract the locale
  \<open>flash_driver\<close>. The provider is the class \<^verbatim>\<open>Partition\<close> on top of \<^verbatim>\<open>esp_partition_read\<close>,
  \<^verbatim>\<open>esp_partition_write\<close> and \<^verbatim>\<open>esp_partition_erase_range\<close> for a partition that is not encrypted. The flash chip
  below is a parameter with the contract \<open>flash_chip\<close>: a read returns the contents, a write can only
  clear bits, an erase sets all bits, and a failed operation leaves arbitrary contents in the range it
  was for and nowhere else.
\<close>

section \<open>Model\<close>

definition SPI_FLASH_SEC_SIZE :: nat where "SPI_FLASH_SEC_SIZE = 4096"

record 'f flash_access =
  fa_read :: "nat \<Rightarrow> nat \<Rightarrow> 'f \<Rightarrow> esp_err \<times> byte list \<times> 'f"
  fa_write :: "nat \<Rightarrow> byte list \<Rightarrow> 'f \<Rightarrow> esp_err \<times> 'f"
  fa_erase_range :: "nat \<Rightarrow> nat \<Rightarrow> 'f \<Rightarrow> esp_err \<times> 'f"
  fa_erase_sector :: "nat \<Rightarrow> 'f \<Rightarrow> esp_err \<times> 'f"

text \<open>The calls \<^verbatim>\<open>esp_flash_read\<close>, \<^verbatim>\<open>esp_flash_write\<close> and \<^verbatim>\<open>esp_flash_erase_region\<close> of a chip.\<close>

record 'c esp_flash_t =
  esp_flash_read :: "nat \<Rightarrow> nat \<Rightarrow> 'c \<Rightarrow> esp_err \<times> byte list \<times> 'c"
  esp_flash_write :: "nat \<Rightarrow> byte list \<Rightarrow> 'c \<Rightarrow> esp_err \<times> 'c"
  esp_flash_erase_region :: "nat \<Rightarrow> nat \<Rightarrow> 'c \<Rightarrow> esp_err \<times> 'c"

record esp_partition_t =
  pt_address :: nat
  pt_size :: nat

subsection \<open>Partitions\<close>

definition esp_partition_read ::
    "'c esp_flash_t \<Rightarrow> esp_partition_t \<Rightarrow> nat \<Rightarrow> nat \<Rightarrow> 'c \<Rightarrow> esp_err \<times> byte list \<times> 'c" where
  "esp_partition_read chip part src_offset sz c =
     (if src_offset > pt_size part then (ESP_ERR_INVALID_ARG, [], c)
      else if uadd src_offset sz > pt_size part then (ESP_ERR_INVALID_SIZE, [], c)
      else esp_flash_read chip (pt_address part + src_offset) sz c)"

definition esp_partition_write ::
    "'c esp_flash_t \<Rightarrow> esp_partition_t \<Rightarrow> nat \<Rightarrow> byte list \<Rightarrow> 'c \<Rightarrow> esp_err \<times> 'c" where
  "esp_partition_write chip part dst_offset src c =
     (if dst_offset > pt_size part then (ESP_ERR_INVALID_ARG, c)
      else if uadd dst_offset (length src) > pt_size part then (ESP_ERR_INVALID_SIZE, c)
      else esp_flash_write chip (pt_address part + dst_offset) src c)"

definition esp_partition_erase_range ::
    "'c esp_flash_t \<Rightarrow> esp_partition_t \<Rightarrow> nat \<Rightarrow> nat \<Rightarrow> 'c \<Rightarrow> esp_err \<times> 'c" where
  "esp_partition_erase_range chip part offset sz c =
     (if offset > pt_size part then (ESP_ERR_INVALID_ARG, c)
      else if uadd offset sz > pt_size part then (ESP_ERR_INVALID_SIZE, c)
      else if sz mod SPI_FLASH_SEC_SIZE \<noteq> 0 then (ESP_ERR_INVALID_SIZE, c)
      else if offset mod SPI_FLASH_SEC_SIZE \<noteq> 0 then (ESP_ERR_INVALID_ARG, c)
      else esp_flash_erase_region chip (pt_address part + offset) sz c)"

text \<open>The class \<^verbatim>\<open>Partition\<close>.\<close>

definition Partition_erase_range :: "'c esp_flash_t \<Rightarrow> esp_partition_t \<Rightarrow> nat \<Rightarrow> nat \<Rightarrow> 'c \<Rightarrow> esp_err \<times> 'c" where
  "Partition_erase_range chip part start_address sz = esp_partition_erase_range chip part start_address sz"

definition Partition_erase_sector :: "'c esp_flash_t \<Rightarrow> esp_partition_t \<Rightarrow> nat \<Rightarrow> 'c \<Rightarrow> esp_err \<times> 'c" where
  "Partition_erase_sector chip part sector =
     Partition_erase_range chip part (sector * SPI_FLASH_SEC_SIZE) SPI_FLASH_SEC_SIZE"

definition Partition_write :: "'c esp_flash_t \<Rightarrow> esp_partition_t \<Rightarrow> nat \<Rightarrow> byte list \<Rightarrow> 'c \<Rightarrow> esp_err \<times> 'c" where
  "Partition_write chip part dest_addr src = esp_partition_write chip part dest_addr src"

definition Partition_read ::
    "'c esp_flash_t \<Rightarrow> esp_partition_t \<Rightarrow> nat \<Rightarrow> nat \<Rightarrow> 'c \<Rightarrow> esp_err \<times> byte list \<times> 'c" where
  "Partition_read chip part src_addr sz = esp_partition_read chip part src_addr sz"

definition Partition_t :: "'c esp_flash_t \<Rightarrow> esp_partition_t \<Rightarrow> 'c flash_access" where
  "Partition_t chip part = \<lparr>fa_read = Partition_read chip part, fa_write = Partition_write chip part,
     fa_erase_range = Partition_erase_range chip part, fa_erase_sector = Partition_erase_sector chip part\<rparr>"

section \<open>Contracts\<close>

text \<open>A write clears bits, an erase sets them.\<close>

definition nor_write :: "nat \<Rightarrow> byte list \<Rightarrow> mem \<Rightarrow> mem" where
  "nor_write a bs m = mem_write a (map2 (AND) (mem_read a (length bs) m) bs) m"

definition nor_erase :: "nat \<Rightarrow> nat \<Rightarrow> mem \<Rightarrow> mem" where
  "nor_erase a n m = mem_write a (replicate n 255) m"

lemma length_nor [simp]:
  "a + length bs \<le> length m \<Longrightarrow> length (nor_write a bs m) = length m"
  "a + n \<le> length m \<Longrightarrow> length (nor_erase a n m) = length m"
  by (simp_all add: nor_write_def nor_erase_def)

text \<open>
  The contract of the interface: \<open>content\<close> is what is in the flash, \<open>up\<close> says that the flash works.
\<close>

locale flash_driver =
  fixes drv :: "'f flash_access" and content :: "'f \<Rightarrow> mem" and up :: "'f \<Rightarrow> bool"
  assumes read_keeps: "fa_read drv a n f = (e, bs, f') \<Longrightarrow> content f' = content f"
    and read_ok: "fa_read drv a n f = (ESP_OK, bs, f') \<Longrightarrow> a + n \<le> length (content f) \<and> bs = mem_read a n (content f)"
    and read_up: "up f \<Longrightarrow> a + n \<le> length (content f) \<Longrightarrow> \<exists>f'. fa_read drv a n f = (ESP_OK, mem_read a n (content f), f') \<and> up f'"
    and write_frame: "fa_write drv a bs f = (e, f') \<Longrightarrow> mem_agree (- {a..<a + length bs}) (content f) (content f')"
    and write_ok: "fa_write drv a bs f = (ESP_OK, f') \<Longrightarrow> a + length bs \<le> length (content f) \<and> content f' = nor_write a bs (content f)"
    and write_up: "up f \<Longrightarrow> a + length bs \<le> length (content f) \<Longrightarrow> \<exists>f'. fa_write drv a bs f = (ESP_OK, f') \<and> up f'"
    and erase_frame: "fa_erase_range drv a n f = (e, f') \<Longrightarrow> mem_agree (- {a..<a + n}) (content f) (content f')"
    and erase_ok: "fa_erase_range drv a n f = (ESP_OK, f') \<Longrightarrow> a + n \<le> length (content f) \<and> content f' = nor_erase a n (content f)"
    and erase_up: "up f \<Longrightarrow> a + n \<le> length (content f) \<Longrightarrow> a mod SPI_FLASH_SEC_SIZE = 0 \<Longrightarrow> n mod SPI_FLASH_SEC_SIZE = 0 \<Longrightarrow>
      \<exists>f'. fa_erase_range drv a n f = (ESP_OK, f') \<and> up f'"
    and erase_sector: "fa_erase_sector drv s = fa_erase_range drv (s * SPI_FLASH_SEC_SIZE) SPI_FLASH_SEC_SIZE"

text \<open>The same of the chip.\<close>

locale flash_chip =
  fixes chip :: "'c esp_flash_t" and content :: "'c \<Rightarrow> mem" and up :: "'c \<Rightarrow> bool"
  assumes chip_read_keeps: "esp_flash_read chip a n f = (e, bs, f') \<Longrightarrow> content f' = content f"
    and chip_read_ok: "esp_flash_read chip a n f = (ESP_OK, bs, f') \<Longrightarrow>
      a + n < 2 ^ 32 \<and> a + n \<le> length (content f) \<and> bs = mem_read a n (content f)"
    and chip_read_up: "up f \<Longrightarrow> a + n < 2 ^ 32 \<Longrightarrow> a + n \<le> length (content f) \<Longrightarrow>
      \<exists>f'. esp_flash_read chip a n f = (ESP_OK, mem_read a n (content f), f') \<and> up f'"
    and chip_write_frame: "esp_flash_write chip a bs f = (e, f') \<Longrightarrow> mem_agree (- {a..<a + length bs}) (content f) (content f')"
    and chip_write_ok: "esp_flash_write chip a bs f = (ESP_OK, f') \<Longrightarrow>
      a + length bs < 2 ^ 32 \<and> a + length bs \<le> length (content f) \<and> content f' = nor_write a bs (content f)"
    and chip_write_up: "up f \<Longrightarrow> a + length bs < 2 ^ 32 \<Longrightarrow> a + length bs \<le> length (content f) \<Longrightarrow> \<exists>f'. esp_flash_write chip a bs f = (ESP_OK, f') \<and> up f'"
    and chip_erase_frame: "esp_flash_erase_region chip a n f = (e, f') \<Longrightarrow> mem_agree (- {a..<a + n}) (content f) (content f')"
    and chip_erase_ok: "esp_flash_erase_region chip a n f = (ESP_OK, f') \<Longrightarrow>
      a + n < 2 ^ 32 \<and> a + n \<le> length (content f) \<and> content f' = nor_erase a n (content f)"
    and chip_erase_up: "up f \<Longrightarrow> a + n < 2 ^ 32 \<Longrightarrow> a + n \<le> length (content f) \<Longrightarrow> a mod SPI_FLASH_SEC_SIZE = 0 \<Longrightarrow> n mod SPI_FLASH_SEC_SIZE = 0 \<Longrightarrow>
      \<exists>f'. esp_flash_erase_region chip a n f = (ESP_OK, f') \<and> up f'"

locale partition_on_chip = flash_chip +
  fixes part :: esp_partition_t
  assumes partition_aligned: "pt_address part mod SPI_FLASH_SEC_SIZE = 0"
    and partition_size: "pt_address part + pt_size part < 2 ^ 32"

section \<open>A partition is a flash driver\<close>

text \<open>The contents of a partition are a part of the contents of the chip.\<close>

definition slice :: "esp_partition_t \<Rightarrow> mem \<Rightarrow> mem" where
  "slice p m = mem_read (pt_address p) (pt_size p) m"

lemma length_slice: "length (slice p m) = min (pt_size p) (length m - pt_address p)"
  by (simp add: slice_def mem_read_def min.commute)

lemma nth_slice: "i < length (slice p m) \<Longrightarrow> slice p m ! i = m ! (pt_address p + i)"
  by (cases "pt_address p \<le> length m") (simp_all add: slice_def mem_read_def)

lemma slice_range:
  assumes "a + n \<le> pt_size p" "pt_address p + a + n \<le> length m"
  shows "a + n \<le> length (slice p m)"
  using assms by (simp add: length_slice)

lemma mem_read_slice:
  assumes "a + n \<le> pt_size p"
  shows "mem_read a n (slice p m) = mem_read (pt_address p + a) n m"
  using assms by (simp add: slice_def mem_read_def drop_take add.commute min_def)

lemma slice_mem_write:
  assumes "a + length bs \<le> pt_size p" "pt_address p + a + length bs \<le> length m"
  shows "slice p (mem_write (pt_address p + a) bs m) = mem_write a bs (slice p m)"
proof (rule nth_equalityI)
  have r: "a + length bs \<le> length (slice p m)" using slice_range [OF assms] .
  show "length (slice p (mem_write (pt_address p + a) bs m)) = length (mem_write a bs (slice p m))"
    using assms r by (simp add: length_slice)
  fix i assume i: "i < length (slice p (mem_write (pt_address p + a) bs m))"
  then have "i < length (slice p m)" "pt_address p + i < length m" using assms by (auto simp: length_slice)
  then show "slice p (mem_write (pt_address p + a) bs m) ! i = mem_write a bs (slice p m) ! i"
    using i assms r by (simp add: nth_slice nth_mem_write)
qed

lemma slice_nor_write:
  assumes "a + length bs \<le> pt_size p" "pt_address p + a + length bs \<le> length m"
  shows "slice p (nor_write (pt_address p + a) bs m) = nor_write a bs (slice p m)"
  unfolding nor_write_def mem_read_slice [OF assms(1)] by (rule slice_mem_write) (use assms in simp_all)

lemma slice_agree:
  assumes "mem_agree (- {pt_address p + a..<pt_address p + a + n}) m m'"
  shows "mem_agree (- {a..<a + n}) (slice p m) (slice p m')"
  using assms by (auto simp: mem_agree_def length_slice nth_slice)

lemma in_partition:
  assumes "\<not> pt_size p < a" "\<not> pt_size p < uadd a n" "pt_address p + a + n < 2 ^ 32"
  shows "a + n \<le> pt_size p"
  using assms by (simp add: uadd_small)

text \<open>The partition works when the chip works and has it all.\<close>

definition partition_up :: "esp_partition_t \<Rightarrow> ('c \<Rightarrow> mem) \<Rightarrow> ('c \<Rightarrow> bool) \<Rightarrow> 'c \<Rightarrow> bool" where
  "partition_up p content up f \<longleftrightarrow> up f \<and> pt_address p + pt_size p \<le> length (content f)"

context partition_on_chip begin

lemma partition_read_ok:
  assumes "esp_partition_read chip part a n f = (ESP_OK, bs, f')"
  shows "a + n \<le> length (slice part (content f)) \<and> bs = mem_read a n (slice part (content f))"
proof -
  have c: "\<not> pt_size part < a" "\<not> pt_size part < uadd a n" "esp_flash_read chip (pt_address part + a) n f = (ESP_OK, bs, f')"
    using assms by (auto simp: esp_partition_read_def split: if_splits)
  from chip_read_ok [OF c(3)] have r: "pt_address part + a + n < 2 ^ 32" "pt_address part + a + n \<le> length (content f)"
    "bs = mem_read (pt_address part + a) n (content f)" by simp_all
  from in_partition [OF c(1,2) r(1)] r(2,3) slice_range show ?thesis by (simp add: mem_read_slice)
qed

lemma partition_write_ok:
  assumes "esp_partition_write chip part a bs f = (ESP_OK, f')"
  shows "a + length bs \<le> length (slice part (content f)) \<and> slice part (content f') = nor_write a bs (slice part (content f))"
proof -
  have c: "\<not> pt_size part < a" "\<not> pt_size part < uadd a (length bs)" "esp_flash_write chip (pt_address part + a) bs f = (ESP_OK, f')"
    using assms by (auto simp: esp_partition_write_def split: if_splits)
  from chip_write_ok [OF c(3)] have r: "pt_address part + a + length bs < 2 ^ 32" "pt_address part + a + length bs \<le> length (content f)"
    "content f' = nor_write (pt_address part + a) bs (content f)" by simp_all
  from in_partition [OF c(1,2) r(1)] r(2,3) slice_range show ?thesis by (simp add: slice_nor_write)
qed

lemma partition_erase_ok:
  assumes "esp_partition_erase_range chip part a n f = (ESP_OK, f')"
  shows "a + n \<le> length (slice part (content f)) \<and> slice part (content f') = nor_erase a n (slice part (content f))"
proof -
  have c: "\<not> pt_size part < a" "\<not> pt_size part < uadd a n" "esp_flash_erase_region chip (pt_address part + a) n f = (ESP_OK, f')"
    using assms by (auto simp: esp_partition_erase_range_def split: if_splits)
  from chip_erase_ok [OF c(3)] have r: "pt_address part + a + n < 2 ^ 32" "pt_address part + a + n \<le> length (content f)"
    "content f' = nor_erase (pt_address part + a) n (content f)" by simp_all
  from in_partition [OF c(1,2) r(1)] r(2,3) slice_range show ?thesis by (simp add: nor_erase_def slice_mem_write)
qed

lemma partition_frames:
  "esp_partition_read chip part a n f = (e, bs, f') \<Longrightarrow> slice part (content f') = slice part (content f)"
  "esp_partition_write chip part a bs f = (e, f') \<Longrightarrow> mem_agree (- {a..<a + length bs}) (slice part (content f)) (slice part (content f'))"
  "esp_partition_erase_range chip part a n f = (e, f') \<Longrightarrow> mem_agree (- {a..<a + n}) (slice part (content f)) (slice part (content f'))"
proof -
  have refl: "mem_agree A m m" for A m by (simp add: mem_agree_def)
  show "esp_partition_read chip part a n f = (e, bs, f') \<Longrightarrow> slice part (content f') = slice part (content f)"
    using chip_read_keeps by (fastforce simp: esp_partition_read_def split: if_splits)
  show "esp_partition_write chip part a bs f = (e, f') \<Longrightarrow> mem_agree (- {a..<a + length bs}) (slice part (content f)) (slice part (content f'))"
    using slice_agree [OF chip_write_frame] by (auto simp: esp_partition_write_def refl split: if_splits)
  show "esp_partition_erase_range chip part a n f = (e, f') \<Longrightarrow> mem_agree (- {a..<a + n}) (slice part (content f)) (slice part (content f'))"
    using slice_agree [OF chip_erase_frame] by (auto simp: esp_partition_erase_range_def refl split: if_splits)
qed

lemma in_range:
  assumes "partition_up part content up f" "a + n \<le> length (slice part (content f))"
  shows "a + n \<le> pt_size part" "pt_address part + a + n < 2 ^ 32" "uadd a n = a + n"
    "pt_address part + a + n \<le> length (content f)" "up f"
  using assms partition_size by (auto simp: partition_up_def length_slice uadd_small)

lemma partition_read_up:
  assumes "partition_up part content up f" "a + n \<le> length (slice part (content f))"
  shows "\<exists>f'. esp_partition_read chip part a n f = (ESP_OK, mem_read a n (slice part (content f)), f') \<and> partition_up part content up f'"
proof -
  note r = in_range [OF assms]
  from chip_read_up [OF r(5,2,4)] obtain f' where f': "esp_flash_read chip (pt_address part + a) n f =
      (ESP_OK, mem_read (pt_address part + a) n (content f), f')" "up f'" by blast
  then show ?thesis
    using r assms(1) chip_read_keeps [OF f'(1)] by (simp add: esp_partition_read_def mem_read_slice partition_up_def)
qed

lemma partition_write_up:
  assumes "partition_up part content up f" "a + length bs \<le> length (slice part (content f))"
  shows "\<exists>f'. esp_partition_write chip part a bs f = (ESP_OK, f') \<and> partition_up part content up f'"
proof -
  note r = in_range [OF assms]
  from chip_write_up [OF r(5,2,4)] obtain f' where f': "esp_flash_write chip (pt_address part + a) bs f = (ESP_OK, f')" "up f'"
    by blast
  then show ?thesis using r assms(1) chip_write_frame [OF f'(1)]
    by (simp add: esp_partition_write_def partition_up_def mem_agree_def)
qed

lemma partition_erase_up:
  assumes "partition_up part content up f" "a + n \<le> length (slice part (content f))" "a mod SPI_FLASH_SEC_SIZE = 0" "n mod SPI_FLASH_SEC_SIZE = 0"
  shows "\<exists>f'. esp_partition_erase_range chip part a n f = (ESP_OK, f') \<and> partition_up part content up f'"
proof -
  note r = in_range [OF assms(1,2)]
  have "(pt_address part + a) mod SPI_FLASH_SEC_SIZE = 0" using partition_aligned assms(3) by (simp add: mod_eq_0_iff_dvd)
  from chip_erase_up [OF r(5,2,4) this assms(4)] obtain f' where
    f': "esp_flash_erase_region chip (pt_address part + a) n f = (ESP_OK, f')" "up f'" by blast
  then show ?thesis using r assms chip_erase_frame [OF f'(1)]
    by (simp add: esp_partition_erase_range_def partition_up_def mem_agree_def)
qed

end

sublocale partition_on_chip \<subseteq> on_part: flash_driver "Partition_t chip part" "\<lambda>f. slice part (content f)" "partition_up part content up"
  by unfold_locales
    (simp_all add: Partition_t_def Partition_read_def Partition_write_def Partition_erase_range_def Partition_erase_sector_def
      partition_read_ok partition_write_ok partition_erase_ok partition_frames partition_read_up partition_write_up
      partition_erase_up)

context partition_on_chip begin

lemma partition_driver: "flash_driver (Partition_t chip part) (\<lambda>f. slice part (content f)) (partition_up part content up)"
  by (rule on_part.flash_driver_axioms)

end

section \<open>A chip with faults\<close>

text \<open>
  A flash chip to run the model on: a memory, and for every operation to come whether it succeeds
  (\<open>None\<close>) or fails and what it leaves in its range. An operation without an entry succeeds.
\<close>

record sim_flash =
  sim_mem :: mem
  sim_faults :: "byte list option list"

definition sim_fail :: "nat \<Rightarrow> nat \<Rightarrow> byte list \<Rightarrow> mem \<Rightarrow> mem" where
  "sim_fail a n junk m = (if length junk = n \<and> a + n \<le> length m then mem_write a junk m else m)"

definition sim_op :: "nat \<Rightarrow> nat \<Rightarrow> (mem \<Rightarrow> mem) \<Rightarrow> sim_flash \<Rightarrow> esp_err \<times> sim_flash" where
  "sim_op a n g f =
     (let f' = f\<lparr>sim_faults := tl (sim_faults f)\<rparr>
      in if \<not> (a + n < 2 ^ 32 \<and> a + n \<le> length (sim_mem f)) then (ESP_ERR_INVALID_ARG, f')
         else case sim_faults f of
           Some junk # _ \<Rightarrow> (ESP_FAIL, f'\<lparr>sim_mem := sim_fail a n junk (sim_mem f)\<rparr>)
         | _ \<Rightarrow> (ESP_OK, f'\<lparr>sim_mem := g (sim_mem f)\<rparr>))"

definition sim_read :: "nat \<Rightarrow> nat \<Rightarrow> sim_flash \<Rightarrow> esp_err \<times> byte list \<times> sim_flash" where
  "sim_read a n f =
     (let f' = f\<lparr>sim_faults := tl (sim_faults f)\<rparr>
      in if \<not> (a + n < 2 ^ 32 \<and> a + n \<le> length (sim_mem f)) then (ESP_ERR_INVALID_ARG, [], f')
         else case sim_faults f of
           Some junk # _ \<Rightarrow> (ESP_FAIL, [], f')
         | _ \<Rightarrow> (ESP_OK, mem_read a n (sim_mem f), f'))"

definition sim_erase :: "nat \<Rightarrow> nat \<Rightarrow> sim_flash \<Rightarrow> esp_err \<times> sim_flash" where
  "sim_erase a n f =
     (if a mod SPI_FLASH_SEC_SIZE \<noteq> 0 \<or> n mod SPI_FLASH_SEC_SIZE \<noteq> 0 then (ESP_ERR_INVALID_ARG, f)
      else sim_op a n (nor_erase a n) f)"

definition sim_chip :: "sim_flash esp_flash_t" where
  "sim_chip = \<lparr>esp_flash_read = sim_read, esp_flash_write = \<lambda>a bs. sim_op a (length bs) (nor_write a bs),
     esp_flash_erase_region = sim_erase\<rparr>"

definition sim_up :: "sim_flash \<Rightarrow> bool" where
  "sim_up f \<longleftrightarrow> sim_faults f = []"

lemma sim_op_frame:
  assumes "sim_op a n g f = (e, f')" and g: "a + n \<le> length (sim_mem f) \<Longrightarrow> mem_agree (- {a..<a + n}) (sim_mem f) (g (sim_mem f))"
  shows "mem_agree (- {a..<a + n}) (sim_mem f) (sim_mem f')"
proof -
  have "mem_agree (- {a..<a + n}) m (sim_fail a n junk m)" for junk m
    by (auto simp: sim_fail_def mem_agree_def nth_mem_write)
  moreover have "mem_agree A m m" for A m by (simp add: mem_agree_def)
  ultimately show ?thesis using assms by (auto simp: sim_op_def Let_def split: if_splits list.splits option.splits)
qed

lemma sim_op_ok:
  "sim_op a n g f = (ESP_OK, f') \<Longrightarrow> a + n < 2 ^ 32 \<and> a + n \<le> length (sim_mem f) \<and> sim_mem f' = g (sim_mem f)"
  by (auto simp: sim_op_def Let_def split: if_splits list.splits option.splits)

lemma nor_frame:
  "a + length bs \<le> length m \<Longrightarrow> mem_agree (- {a..<a + length bs}) m (nor_write a bs m)"
  "a + n \<le> length m \<Longrightarrow> mem_agree (- {a..<a + n}) m (nor_erase a n m)"
  by (auto simp: nor_write_def nor_erase_def mem_agree_def nth_mem_write)

lemma sim_erase_frame:
  assumes "sim_erase a n f = (e, f')"
  shows "mem_agree (- {a..<a + n}) (sim_mem f) (sim_mem f')"
proof (cases "a mod SPI_FLASH_SEC_SIZE \<noteq> 0 \<or> n mod SPI_FLASH_SEC_SIZE \<noteq> 0")
  case True
  then show ?thesis using assms by (auto simp: sim_erase_def mem_agree_def)
next
  case False
  then show ?thesis using assms by (intro sim_op_frame [where g = "nor_erase a n"]) (simp_all add: sim_erase_def nor_frame)
qed

interpretation sim: flash_chip sim_chip sim_mem sim_up
proof unfold_locales
  fix a n e bs f f'
  show "esp_flash_read sim_chip a n f = (e, bs, f') \<Longrightarrow> sim_mem f' = sim_mem f"
    by (auto simp: sim_chip_def sim_read_def Let_def split: if_splits list.splits option.splits)
  show "esp_flash_read sim_chip a n f = (ESP_OK, bs, f') \<Longrightarrow> a + n < 2 ^ 32 \<and> a + n \<le> length (sim_mem f) \<and> bs = mem_read a n (sim_mem f)"
    by (auto simp: sim_chip_def sim_read_def Let_def split: if_splits list.splits option.splits)
  show "esp_flash_write sim_chip a bs f = (e, f') \<Longrightarrow> mem_agree (- {a..<a + length bs}) (sim_mem f) (sim_mem f')"
    by (rule sim_op_frame [where g = "nor_write a bs"]) (simp_all add: sim_chip_def nor_frame)
  show "esp_flash_erase_region sim_chip a n f = (e, f') \<Longrightarrow> mem_agree (- {a..<a + n}) (sim_mem f) (sim_mem f')"
    by (simp add: sim_chip_def sim_erase_frame)
qed (auto simp: sim_chip_def sim_erase_def sim_up_def sim_read_def sim_op_def Let_def split: if_splits list.splits option.splits)

text \<open>A partition of 48 KiB after the first 64 KiB of the chip.\<close>

definition sim_part :: esp_partition_t where
  "sim_part = \<lparr>pt_address = 65536, pt_size = 49152\<rparr>"

interpretation spart: partition_on_chip sim_chip sim_mem sim_up sim_part
  by unfold_locales (simp_all add: sim_part_def SPI_FLASH_SEC_SIZE_def)

end
