(* ===== verification/WL_Flash.thy ===== *)
theory WL_Flash
  imports Flash_Access
begin

text \<open>
  The wear levelling layer, class \<^verbatim>\<open>WL_Flash\<close> of \<^verbatim>\<open>components/wear_levelling/WL_Flash.cpp\<close>. The member variables
  are a record; the driver below is a parameter \<open>drv\<close> of the interface \<^verbatim>\<open>Flash_Access\<close>, with its state in
  the object. \<open>crc\<close> stands for \<^verbatim>\<open>crc32_le\<close> of the ROM with the start value \<^verbatim>\<open>WL_CFG_CRC_CONST\<close>, and
  \<open>rnd\<close> for the value of \<^verbatim>\<open>esp_random\<close>. The state and the configuration are stored with their byte
  layout. Addresses into the flash are sums below its size, so they are natural numbers without
  wrap-around; the sizes of the configuration and the mapping of addresses are computed with 32 bits.
  A method returns its error code with the changed object, or a fault.
\<close>

section \<open>Data\<close>

record wl_state =
  ws_pos :: nat
  ws_max_pos :: nat
  ws_move_count :: nat
  ws_access_count :: nat
  ws_max_count :: nat
  ws_block_size :: nat
  ws_version :: nat
  ws_device_id :: nat
  ws_reserved :: "nat list"
  ws_crc :: nat

text \<open>The last field is the padding of the structure to 48 bytes.\<close>

record wl_config =
  wc_start_addr :: nat
  wc_full_mem_size :: nat
  wc_page_size :: nat
  wc_sector_size :: nat
  wc_updaterate :: nat
  wc_wr_size :: nat
  wc_version :: nat
  wc_temp_buff_size :: nat
  wc_crc :: nat
  wc_padding :: "byte list"

definition sizeof_state :: nat where "sizeof_state = 64"
definition sizeof_config :: nat where "sizeof_config = 48"
definition WL_STATE_CRC_LEN_V1 :: nat where "WL_STATE_CRC_LEN_V1 = 28"
definition WL_STATE_CRC_LEN_V2 :: nat where "WL_STATE_CRC_LEN_V2 = 60"

definition state_bytes :: "wl_state \<Rightarrow> byte list" where
  "state_bytes s = concat (map le32 ([ws_pos s, ws_max_pos s, ws_move_count s, ws_access_count s, ws_max_count s,
     ws_block_size s, ws_version s, ws_device_id s] @ ws_reserved s @ [ws_crc s]))"

definition word_at :: "nat \<Rightarrow> byte list \<Rightarrow> nat" where
  "word_at i bs = le32_dec (take 4 (drop (4 * i) bs))"

definition state_of_bytes :: "byte list \<Rightarrow> wl_state" where
  "state_of_bytes bs = \<lparr>ws_pos = word_at 0 bs, ws_max_pos = word_at 1 bs, ws_move_count = word_at 2 bs,
     ws_access_count = word_at 3 bs, ws_max_count = word_at 4 bs, ws_block_size = word_at 5 bs,
     ws_version = word_at 6 bs, ws_device_id = word_at 7 bs,
     ws_reserved = map (\<lambda>i. word_at i bs) [8..<15], ws_crc = word_at 15 bs\<rparr>"

definition config_bytes :: "wl_config \<Rightarrow> byte list" where
  "config_bytes c = concat (map le32 [wc_start_addr c, wc_full_mem_size c, wc_page_size c, wc_sector_size c,
     wc_updaterate c, wc_wr_size c, wc_version c, wc_temp_buff_size c, wc_crc c]) @ wc_padding c"

record 'f wl_flash =
  w_configured :: bool
  w_initialized :: bool
  w_state :: wl_state
  w_cfg :: wl_config
  w_addr_cfg :: nat
  w_addr_state1 :: nat
  w_addr_state2 :: nat
  w_flash_size :: nat
  w_state_size :: nat
  w_cfg_size :: nat
  w_temp_buff :: "byte list"
  w_dummy_addr :: nat
  w_flash :: 'f

type_synonym 'f wl_op = "'f wl_flash \<Rightarrow> (esp_err \<times> 'f wl_flash) res"

text \<open>The macro \<^verbatim>\<open>WL_RESULT_CHECK\<close> between two steps.\<close>

definition check :: "'f wl_op \<Rightarrow> 'f wl_op \<Rightarrow> 'f wl_op" where
  "check m k w = bindR (m w) (\<lambda>(result, w). if result = ESP_OK then k w else Inr (result, w))"

definition finish :: "'f wl_op" where
  "finish w = Inr (ESP_OK, w)"

text \<open>
  Calls of the driver. A read goes to \<^verbatim>\<open>temp_buff\<close> or to \<^verbatim>\<open>state\<close>; one that fails leaves there what it
  delivered before it failed.
\<close>

definition read_into :: "nat \<Rightarrow> byte list \<Rightarrow> byte list \<Rightarrow> byte list" where
  "read_into n bs buf = take n bs @ drop (length (take n bs)) buf"

definition drv_write :: "'f flash_access \<Rightarrow> nat \<Rightarrow> byte list \<Rightarrow> 'f wl_op" where
  "drv_write drv a bs w = (case fa_write drv a bs (w_flash w) of (result, f) \<Rightarrow> Inr (result, w\<lparr>w_flash := f\<rparr>))"

definition drv_erase_range :: "'f flash_access \<Rightarrow> nat \<Rightarrow> nat \<Rightarrow> 'f wl_op" where
  "drv_erase_range drv a n w = (case fa_erase_range drv a n (w_flash w) of (result, f) \<Rightarrow> Inr (result, w\<lparr>w_flash := f\<rparr>))"

definition drv_read_temp :: "'f flash_access \<Rightarrow> nat \<Rightarrow> nat \<Rightarrow> 'f wl_op" where
  "drv_read_temp drv a n w = (case fa_read drv a n (w_flash w) of
     (result, bs, f) \<Rightarrow> Inr (result, w\<lparr>w_flash := f,
       w_temp_buff := read_into n bs (w_temp_buff w)\<rparr>))"

definition drv_read_state :: "'f flash_access \<Rightarrow> nat \<Rightarrow> 'f wl_op" where
  "drv_read_state drv a w = (case fa_read drv a sizeof_state (w_flash w) of
     (result, bs, f) \<Rightarrow> Inr (result, w\<lparr>w_flash := f,
       w_state := state_of_bytes (take sizeof_state (read_into sizeof_state bs (state_bytes (w_state w))))\<rparr>))"

section \<open>Configuration\<close>

text \<open>A 32-bit value read as \<^verbatim>\<open>ptrdiff_t\<close>.\<close>

definition to_ptrdiff :: "nat \<Rightarrow> int" where
  "to_ptrdiff n = (if n < 2 ^ 31 then int n else int n - 2 ^ 32)"

definition WL_config :: "(byte list \<Rightarrow> nat) \<Rightarrow> (nat \<Rightarrow> byte list option) \<Rightarrow> wl_config \<Rightarrow> 'f wl_op" where
  "WL_config crc malloc cfg w =
     (let cfg = cfg\<lparr>wc_crc := crc (take 32 (config_bytes cfg))\<rparr>;
          cfg = (if wc_temp_buff_size cfg < wc_wr_size cfg then cfg\<lparr>wc_temp_buff_size := wc_wr_size cfg\<rparr> else cfg);
          w = w\<lparr>w_cfg := cfg, w_configured := False\<rparr>;
          full = wc_full_mem_size cfg; sector = wc_sector_size cfg; page = wc_page_size cfg
      in if wc_temp_buff_size cfg = 0 then Inl Div_by_zero
         else if sector mod wc_temp_buff_size cfg \<noteq> 0 \<or> page < sector then Inr (ESP_ERR_INVALID_ARG, w)
         else if sector = 0 then Inl Div_by_zero
         else let need = uadd sizeof_state (umul (full div sector) (wc_wr_size cfg));
                  state_size = (if sector < need then umul (usub (uadd need sector) 1 div sector) sector else sector);
                  cfg_size = umul (usub (uadd sizeof_config sector) 1 div sector) sector;
                  top = uadd (wc_start_addr cfg) full;
                  rest = usub (usub full (umul state_size 2)) cfg_size;
                  flash_size = umul (usub (rest div page) 1) page;
                  w = w\<lparr>w_state_size := state_size, w_cfg_size := cfg_size,
                        w_addr_cfg := usub top cfg_size,
                        w_addr_state1 := usub (usub top (umul state_size 2)) cfg_size,
                        w_addr_state2 := usub (usub top state_size) cfg_size,
                        w_flash_size := flash_size\<rparr>
              in if to_ptrdiff flash_size \<le> 0 then Inr (ESP_ERR_INVALID_ARG, w)
                 else case malloc (wc_temp_buff_size cfg) of
                        None \<Rightarrow> Inr (ESP_ERR_NO_MEM, w)
                      | Some buff \<Rightarrow> Inr (ESP_OK, w\<lparr>w_temp_buff := buff, w_configured := True\<rparr>))"

definition WL_chip_size :: "'f wl_flash \<Rightarrow> nat" where
  "WL_chip_size w = (if \<not> w_configured w then 0 else w_flash_size w)"

definition WL_sector_size :: "'f wl_flash \<Rightarrow> nat" where
  "WL_sector_size w = (if \<not> w_configured w then 0 else wc_sector_size (w_cfg w))"

section \<open>Position records\<close>

text \<open>
  The record of a position has four words, each the CRC of a number that depends on the device id and
  the position.
\<close>

definition ok_word :: "(byte list \<Rightarrow> nat) \<Rightarrow> nat \<Rightarrow> nat \<Rightarrow> nat \<Rightarrow> nat" where
  "ok_word crc device_id n i = crc (le32 (uadd device_id (uadd (umul n 4) i)))"

definition ok_bytes :: "(byte list \<Rightarrow> nat) \<Rightarrow> nat \<Rightarrow> nat \<Rightarrow> byte list" where
  "ok_bytes crc device_id n = concat (map (\<lambda>i. le32 (ok_word crc device_id n i)) [0..<4])"

definition fillOkBuff :: "(byte list \<Rightarrow> nat) \<Rightarrow> nat \<Rightarrow> 'f wl_op" where
  "fillOkBuff crc n w =
     (if length (w_temp_buff w) < 16 then Inl Out_of_bounds
      else Inr (ESP_OK, w\<lparr>w_temp_buff := ok_bytes crc (ws_device_id (w_state w)) n @ drop 16 (w_temp_buff w)\<rparr>))"

definition OkBuffSet :: "(byte list \<Rightarrow> nat) \<Rightarrow> nat \<Rightarrow> 'f wl_flash \<Rightarrow> bool res" where
  "OkBuffSet crc n w =
     (if length (w_temp_buff w) < 16 then Inl Out_of_bounds
      else Inr (\<forall>i < 4. word_at i (w_temp_buff w) = ok_word crc (ws_device_id (w_state w)) n i))"

text \<open>The bytes of \<^verbatim>\<open>temp_buff\<close> that a record is written from.\<close>

definition temp_record :: "'f wl_flash \<Rightarrow> byte list" where
  "temp_record w = take (wc_wr_size (w_cfg w)) (w_temp_buff w)"

definition record_addr :: "nat \<Rightarrow> nat \<Rightarrow> 'f wl_flash \<Rightarrow> nat" where
  "record_addr addr i w = addr + sizeof_state + i * wc_wr_size (w_cfg w)"

fun recover_loop :: "'f flash_access \<Rightarrow> (byte list \<Rightarrow> nat) \<Rightarrow> nat list \<Rightarrow> nat \<Rightarrow> 'f wl_flash \<Rightarrow> (esp_err \<times> nat \<times> 'f wl_flash) res" where
  "recover_loop drv crc [] position w = Inr (ESP_OK, position, w)"
| "recover_loop drv crc (i # is) position w =
     bindR (drv_read_temp drv (record_addr (w_addr_state1 w) i w) (wc_wr_size (w_cfg w)) w) (\<lambda>(result, w).
       bindR (OkBuffSet crc i w) (\<lambda>pos_bits.
         if result \<noteq> ESP_OK then Inr (result, i, w)
         else if \<not> pos_bits then Inr (ESP_OK, i, w)
         else recover_loop drv crc is i w))"

definition recoverPos :: "'f flash_access \<Rightarrow> (byte list \<Rightarrow> nat) \<Rightarrow> 'f wl_op" where
  "recoverPos drv crc w =
     bindR (recover_loop drv crc [0..<ws_max_pos (w_state w)] 0 w) (\<lambda>(result, position, w).
       if result \<noteq> ESP_OK then Inr (result, w)
       else Inr (ESP_OK, w\<lparr>w_state := (w_state w)\<lparr>ws_pos :=
              (if position = ws_max_pos (w_state w) then usub position 1 else position)\<rparr>\<rparr>))"

section \<open>Initialisation\<close>

definition state_crc :: "(byte list \<Rightarrow> nat) \<Rightarrow> wl_state \<Rightarrow> nat" where
  "state_crc crc s = crc (take WL_STATE_CRC_LEN_V2 (state_bytes s))"

definition write_state :: "'f flash_access \<Rightarrow> nat \<Rightarrow> 'f wl_op" where
  "write_state drv addr w =
     check (drv_erase_range drv addr (w_state_size w)) (\<lambda>w. drv_write drv addr (state_bytes (w_state w)) w) w"

definition initSections :: "'f flash_access \<Rightarrow> (byte list \<Rightarrow> nat) \<Rightarrow> nat \<Rightarrow> 'f wl_op" where
  "initSections drv crc rnd w =
     (if w_state_size w = 0 \<or> wc_page_size (w_cfg w) = 0 then Inl Div_by_zero
      else let max_count = umul (w_flash_size w div w_state_size w) (wc_updaterate (w_cfg w));
               max_count = (if wc_updaterate (w_cfg w) \<noteq> 0 then wc_updaterate (w_cfg w) else max_count);
               s = (w_state w)\<lparr>ws_pos := 0, ws_access_count := 0, ws_move_count := 0, ws_max_count := max_count,
                     ws_version := wc_version (w_cfg w), ws_block_size := wc_page_size (w_cfg w), ws_device_id := rnd,
                     ws_reserved := replicate 7 0,
                     ws_max_pos := uadd 1 (w_flash_size w div wc_page_size (w_cfg w))\<rparr>;
               w = w\<lparr>w_state := s\<lparr>ws_crc := state_crc crc s\<rparr>\<rparr>
           in check (\<lambda>w. write_state drv (w_addr_state1 w) w)
             (check (\<lambda>w. write_state drv (w_addr_state2 w) w)
             (check (\<lambda>w. drv_erase_range drv (w_addr_cfg w) (w_cfg_size w) w)
             (check (\<lambda>w. drv_write drv (w_addr_cfg w) (config_bytes (w_cfg w)) w) finish))) w)"

text \<open>The loop that copies the position records of one state to the other, from the indices of the list.\<close>

fun copy_records :: "'f flash_access \<Rightarrow> (byte list \<Rightarrow> nat) \<Rightarrow> nat \<Rightarrow> nat \<Rightarrow> nat list \<Rightarrow> 'f wl_op" where
  "copy_records drv crc src dst [] w = Inr (ESP_OK, w)"
| "copy_records drv crc src dst (i # is) w =
     check (\<lambda>w. drv_read_temp drv (record_addr src i w) (wc_wr_size (w_cfg w)) w)
       (\<lambda>w. bindR (OkBuffSet crc i w) (\<lambda>pos_bits.
          if pos_bits
          then check (\<lambda>w. drv_write drv (record_addr dst i w) (temp_record w) w) (copy_records drv crc src dst is) w
          else copy_records drv crc src dst is w)) w"

definition record_indices :: "'f wl_flash \<Rightarrow> nat list" where
  "record_indices w = [0..<umul (wc_full_mem_size (w_cfg w) div wc_sector_size (w_cfg w)) (wc_wr_size (w_cfg w))]"

definition copy_state :: "'f flash_access \<Rightarrow> (byte list \<Rightarrow> nat) \<Rightarrow> nat \<Rightarrow> nat \<Rightarrow> wl_state \<Rightarrow> 'f wl_op" where
  "copy_state drv crc src dst s =
     check (\<lambda>w. drv_erase_range drv dst (w_state_size w) w)
     (check (\<lambda>w. drv_write drv dst (state_bytes s) w)
       (\<lambda>w. copy_records drv crc src dst (record_indices w) w))"

text \<open>
  The update of a version 1 state: \<open>v1_pos\<close> finds the first position whose first byte is erased, and
  \<open>write_records\<close> writes the records of version 2.
\<close>

fun v1_pos :: "'f flash_access \<Rightarrow> nat list \<Rightarrow> nat \<Rightarrow> 'f wl_flash \<Rightarrow> (esp_err \<times> nat \<times> 'f wl_flash) res" where
  "v1_pos drv [] pos w = Inr (ESP_OK, pos, w)"
| "v1_pos drv (i # is) pos w = (case fa_read drv (record_addr (w_addr_state1 w) i w) 1 (w_flash w) of
     (result, bs, f) \<Rightarrow>
       let w = w\<lparr>w_flash := f\<rparr>
       in if result \<noteq> ESP_OK then Inr (result, pos, w)
          else if bs = [255] then Inr (ESP_OK, i, w)
          else v1_pos drv is i w)"

fun write_records :: "'f flash_access \<Rightarrow> (byte list \<Rightarrow> nat) \<Rightarrow> nat \<Rightarrow> nat list \<Rightarrow> 'f wl_op" where
  "write_records drv crc addr [] w = Inr (ESP_OK, w)"
| "write_records drv crc addr (i # is) w =
     check (fillOkBuff crc i)
     (check (\<lambda>w. drv_write drv (record_addr addr i w) (temp_record w) w) (write_records drv crc addr is)) w"

definition clear_temp :: "'f wl_flash \<Rightarrow> 'f wl_flash" where
  "clear_temp w = w\<lparr>w_temp_buff := replicate (wc_wr_size (w_cfg w)) 0 @ drop (wc_wr_size (w_cfg w)) (w_temp_buff w)\<rparr>"

definition updateV1_V2 :: "'f flash_access \<Rightarrow> (byte list \<Rightarrow> nat) \<Rightarrow> nat \<Rightarrow> 'f wl_op" where
  "updateV1_V2 drv crc rnd w = (case fa_read drv (w_addr_state2 w) sizeof_state (w_flash w) of
     (result, bs, f) \<Rightarrow>
       let w = w\<lparr>w_flash := f\<rparr>; s = w_state w; state_copy = state_of_bytes bs;
           crc1 = crc (take WL_STATE_CRC_LEN_V1 (state_bytes s));
           crc2 = crc (take WL_STATE_CRC_LEN_V1 (state_bytes state_copy));
           v1_crc1 = ws_device_id s; v1_crc2 = ws_device_id state_copy
       in if result \<noteq> ESP_OK then Inr (result, w)
          else if crc1 = v1_crc1 \<and> crc2 = v1_crc2 \<and> v1_crc1 = v1_crc2 \<and> ws_version s = 1 \<and> ws_version state_copy = 1
          then bindR (v1_pos drv [0..<ws_max_pos s] 0 w) (\<lambda>(result, pos, w).
            let pos = (if pos = ws_max_pos s then usub pos 1 else pos);
                s = s\<lparr>ws_version := 2, ws_pos := 0, ws_device_id := rnd, ws_reserved := replicate 7 0\<rparr>;
                v = w\<lparr>w_state := s\<lparr>ws_crc := state_crc crc s\<rparr>\<rparr>
            in if result \<noteq> ESP_OK then Inr (result, w)
               else check (\<lambda>w. write_state drv (w_addr_state1 w) w)
                   (check (\<lambda>w. write_records drv crc (w_addr_state1 w) [0..<pos + 1] (clear_temp w))
                   (check (\<lambda>w. write_state drv (w_addr_state2 w) w)
                   (check (\<lambda>w. write_records drv crc (w_addr_state2 w) [0..<pos + 1] (clear_temp w))
                     (\<lambda>w. Inr (ESP_OK, w\<lparr>w_state := (w_state w)\<lparr>ws_pos := pos\<rparr>\<rparr>))))) v)
          else Inr (ESP_FAIL, w))"

definition updateVersion :: "'f flash_access \<Rightarrow> (byte list \<Rightarrow> nat) \<Rightarrow> nat \<Rightarrow> 'f wl_op" where
  "updateVersion drv crc rnd = updateV1_V2 drv crc rnd"

text \<open>
  The method \<^verbatim>\<open>init\<close>. The first read is not checked by the code; when it fails the state is what it
  was, overwritten by the bytes the read delivered. \<open>init_done\<close> is its end.
\<close>

definition init_done :: "'f wl_op" where
  "init_done w = Inr (ESP_OK, w\<lparr>w_initialized := True\<rparr>)"

definition recover_state2 :: "'f flash_access \<Rightarrow> (byte list \<Rightarrow> nat) \<Rightarrow> 'f wl_op" where
  "recover_state2 drv crc w =
     check (\<lambda>w. copy_state drv crc (w_addr_state1 w) (w_addr_state2 w) (w_state w) w)
       (\<lambda>w. drv_read_state drv (w_addr_state2 w) w) w"

definition recover_state1 :: "'f flash_access \<Rightarrow> (byte list \<Rightarrow> nat) \<Rightarrow> wl_state \<Rightarrow> 'f wl_op" where
  "recover_state1 drv crc state_copy w =
     check (\<lambda>w. copy_state drv crc (w_addr_state2 w) (w_addr_state1 w) state_copy w)
     (check (\<lambda>w. drv_read_state drv (w_addr_state1 w) w)
       (\<lambda>w. Inr (ESP_OK, w\<lparr>w_state := (w_state w)\<lparr>ws_pos := usub (ws_max_pos (w_state w)) 1\<rparr>\<rparr>))) w"

definition new_version :: "'f flash_access \<Rightarrow> (byte list \<Rightarrow> nat) \<Rightarrow> nat \<Rightarrow> 'f wl_op" where
  "new_version drv crc rnd w =
     (if ws_version (w_state w) \<noteq> wc_version (w_cfg w) then initSections drv crc rnd w else Inr (ESP_OK, w))"

definition init_states :: "'f flash_access \<Rightarrow> (byte list \<Rightarrow> nat) \<Rightarrow> nat \<Rightarrow> wl_state \<Rightarrow> 'f wl_op" where
  "init_states drv crc rnd state_copy w =
     (let crc1 = state_crc crc (w_state w); crc2 = state_crc crc state_copy
      in if crc1 = ws_crc (w_state w) \<and> crc2 = ws_crc state_copy
         then if ws_version (w_state w) \<noteq> wc_version (w_cfg w)
              then check (initSections drv crc rnd) (check (recoverPos drv crc) init_done) w
              else check (\<lambda>w. if crc1 \<noteq> crc2 then copy_state drv crc (w_addr_state1 w) (w_addr_state2 w) (w_state w) w
                              else Inr (ESP_OK, w))
                   (check (recoverPos drv crc) init_done) w
         else if crc1 \<noteq> ws_crc (w_state w) \<and> crc2 \<noteq> ws_crc state_copy
         then bindR (updateVersion drv crc rnd w) (\<lambda>(result, w).
           check (\<lambda>w. if result = ESP_FAIL then initSections drv crc rnd w else Inr (ESP_OK, w))
             (check (recoverPos drv crc) init_done) w)
         else if crc1 = ws_crc (w_state w)
         then check (recover_state2 drv crc) (check (new_version drv crc rnd) init_done) w
         else check (recover_state1 drv crc state_copy) (check (new_version drv crc rnd) init_done) w)"

definition WL_init :: "'f flash_access \<Rightarrow> (byte list \<Rightarrow> nat) \<Rightarrow> nat \<Rightarrow> 'f wl_op" where
  "WL_init drv crc rnd w =
     (if \<not> w_configured w then Inr (ESP_ERR_INVALID_STATE, w)
      else bindR (drv_read_state drv (w_addr_state1 w) (w\<lparr>w_initialized := False\<rparr>)) (\<lambda>(_, w).
        case fa_read drv (w_addr_state2 w) sizeof_state (w_flash w) of
          (result, bs, f) \<Rightarrow>
            let w = w\<lparr>w_flash := f\<rparr>
            in if result \<noteq> ESP_OK then Inr (result, w) else init_states drv crc rnd (state_of_bytes bs) w))"

section \<open>Moving a block\<close>

definition set_access :: "nat \<Rightarrow> 'f wl_flash \<Rightarrow> 'f wl_flash" where
  "set_access n w = w\<lparr>w_state := (w_state w)\<lparr>ws_access_count := n\<rparr>\<rparr>"

text \<open>On an error the move is tried again at the next access.\<close>

definition or_retry :: "'f wl_op \<Rightarrow> 'f wl_op \<Rightarrow> 'f wl_op" where
  "or_retry m k w = bindR (m w) (\<lambda>(result, w).
     if result = ESP_OK then k w else Inr (result, set_access (usub (ws_max_count (w_state w)) 1) w))"

fun copy_block :: "'f flash_access \<Rightarrow> nat \<Rightarrow> nat list \<Rightarrow> 'f wl_op" where
  "copy_block drv data_addr [] w = Inr (ESP_OK, w)"
| "copy_block drv data_addr (i # is) w =
     or_retry (\<lambda>w. drv_read_temp drv (data_addr + i * wc_temp_buff_size (w_cfg w)) (wc_temp_buff_size (w_cfg w)) w)
     (or_retry (\<lambda>w. drv_write drv (w_dummy_addr w + i * wc_temp_buff_size (w_cfg w)) (take (wc_temp_buff_size (w_cfg w)) (w_temp_buff w)) w)
       (copy_block drv data_addr is)) w"

text \<open>The step to the next position, with the main state when a round is complete.\<close>

definition next_pos :: "'f flash_access \<Rightarrow> (byte list \<Rightarrow> nat) \<Rightarrow> 'f wl_op" where
  "next_pos drv crc w =
     (let s = (w_state w)\<lparr>ws_pos := uadd (ws_pos (w_state w)) 1\<rparr>
      in if ws_pos s \<ge> ws_max_pos s
         then let s = s\<lparr>ws_pos := 0, ws_move_count := uadd (ws_move_count s) 1\<rparr>;
                  s = (if ws_move_count s \<ge> usub (ws_max_pos s) 1 then s\<lparr>ws_move_count := 0\<rparr> else s)
              in check (\<lambda>w. write_state drv (w_addr_state1 w) w)
                   (\<lambda>w. write_state drv (w_addr_state2 w) w) (w\<lparr>w_state := s\<lparr>ws_crc := state_crc crc s\<rparr>\<rparr>)
         else Inr (ESP_OK, w\<lparr>w_state := s\<rparr>))"

definition updateWL :: "'f flash_access \<Rightarrow> (byte list \<Rightarrow> nat) \<Rightarrow> 'f wl_op" where
  "updateWL drv crc w =
     (let w = set_access (uadd (ws_access_count (w_state w)) 1) w
      in if ws_access_count (w_state w) < ws_max_count (w_state w) then Inr (ESP_OK, w)
         else if wc_temp_buff_size (w_cfg w) = 0 then Inl Div_by_zero
         else let w = set_access 0 w; s = w_state w; page = wc_page_size (w_cfg w);
                  data_addr = (if uadd (ws_pos s) 1 \<ge> ws_max_pos s then 0 else uadd (ws_pos s) 1);
                  data_addr = wc_start_addr (w_cfg w) + data_addr * page;
                  w = w\<lparr>w_dummy_addr := wc_start_addr (w_cfg w) + ws_pos s * page\<rparr>
              in or_retry (\<lambda>w. drv_erase_range drv (w_dummy_addr w) page w)
                 (or_retry (copy_block drv data_addr [0..<page div wc_temp_buff_size (w_cfg w)])
                 (or_retry (fillOkBuff crc (ws_pos s))
                 (or_retry (\<lambda>w. drv_write drv (record_addr (w_addr_state1 w) (ws_pos s) w) (temp_record w) w)
                 (or_retry (fillOkBuff crc (ws_pos s))
                 (or_retry (\<lambda>w. drv_write drv (record_addr (w_addr_state2 w) (ws_pos s) w) (temp_record w) w)
                   (next_pos drv crc)))))) w)"

section \<open>The interface\<close>

definition calcAddr :: "nat \<Rightarrow> 'f wl_flash \<Rightarrow> nat" where
  "calcAddr addr w =
     (let page = wc_page_size (w_cfg w);
          result = uadd (usub (w_flash_size w) (umul (ws_move_count (w_state w)) page)) addr mod w_flash_size w;
          dummy_addr = umul (ws_pos (w_state w)) page
      in if result < dummy_addr then result else uadd result page)"

definition WL_erase_sector :: "'f flash_access \<Rightarrow> (byte list \<Rightarrow> nat) \<Rightarrow> nat \<Rightarrow> 'f wl_op" where
  "WL_erase_sector drv crc sector w =
     (if \<not> w_initialized w then Inr (ESP_ERR_INVALID_STATE, w)
      else check (updateWL drv crc)
        (\<lambda>w. if w_flash_size w = 0 \<or> wc_sector_size (w_cfg w) = 0 then Inl Div_by_zero
             else let virt_addr = calcAddr (umul sector (wc_sector_size (w_cfg w))) w
                  in case fa_erase_sector drv ((wc_start_addr (w_cfg w) + virt_addr) div wc_sector_size (w_cfg w)) (w_flash w) of
                       (result, f) \<Rightarrow> Inr (result, w\<lparr>w_flash := f\<rparr>)) w)"

fun erase_sectors :: "'f flash_access \<Rightarrow> (byte list \<Rightarrow> nat) \<Rightarrow> nat list \<Rightarrow> 'f wl_op" where
  "erase_sectors drv crc [] w = Inr (ESP_OK, w)"
| "erase_sectors drv crc (s # ss) w = check (WL_erase_sector drv crc s) (erase_sectors drv crc ss) w"

definition WL_erase_range :: "'f flash_access \<Rightarrow> (byte list \<Rightarrow> nat) \<Rightarrow> nat \<Rightarrow> nat \<Rightarrow> 'f wl_op" where
  "WL_erase_range drv crc start_address sz w =
     (if \<not> w_initialized w then Inr (ESP_ERR_INVALID_STATE, w)
      else if wc_sector_size (w_cfg w) = 0 then Inl Div_by_zero
      else let sector = wc_sector_size (w_cfg w);
               erase_count = usub (uadd sz sector) 1 div sector;
               start_sector = start_address div sector
           in erase_sectors drv crc (map (\<lambda>i. start_sector + i) [0..<erase_count]) w)"

text \<open>
  The loops over pages write \<open>src\<close> and collect what is read, into a buffer of \<open>sz\<close> bytes.
\<close>

fun write_pages :: "'f flash_access \<Rightarrow> nat \<Rightarrow> byte list \<Rightarrow> (nat \<times> nat) list \<Rightarrow> 'f wl_op" where
  "write_pages drv dest_addr src [] w = Inr (ESP_OK, w)"
| "write_pages drv dest_addr src ((off, n) # ps) w =
     bindR (mem_load off n src) (\<lambda>bs.
       check (\<lambda>w. drv_write drv (wc_start_addr (w_cfg w) + calcAddr (uadd dest_addr off) w) bs w)
         (write_pages drv dest_addr src ps) w)"

fun read_pages :: "'f flash_access \<Rightarrow> nat \<Rightarrow> nat \<Rightarrow> (nat \<times> nat) list \<Rightarrow> byte list \<Rightarrow> 'f wl_flash \<Rightarrow>
    (esp_err \<times> byte list \<times> 'f wl_flash) res" where
  "read_pages drv src_addr sz [] dest w = Inr (ESP_OK, dest, w)"
| "read_pages drv src_addr sz ((off, n) # ps) dest w =
     (if off + n > sz then Inl Out_of_bounds
      else case fa_read drv (wc_start_addr (w_cfg w) + calcAddr (uadd src_addr off) w) n (w_flash w) of
        (result, bs, f) \<Rightarrow>
          let w = w\<lparr>w_flash := f\<rparr>
          in if result \<noteq> ESP_OK then Inr (result, dest, w) else read_pages drv src_addr sz ps (dest @ bs) w)"

text \<open>The offsets and sizes of the accesses: \<open>count\<close> whole pages and the rest.\<close>

definition page_accesses :: "nat \<Rightarrow> nat \<Rightarrow> (nat \<times> nat) list" where
  "page_accesses page sz =
     (let count = usub sz 1 div page
      in map (\<lambda>i. (i * page, page)) [0..<count] @ [(count * page, usub sz (count * page))])"

definition WL_write :: "'f flash_access \<Rightarrow> nat \<Rightarrow> byte list \<Rightarrow> 'f wl_op" where
  "WL_write drv dest_addr src w =
     (if \<not> w_initialized w then Inr (ESP_ERR_INVALID_STATE, w)
      else if wc_page_size (w_cfg w) = 0 \<or> w_flash_size w = 0 then Inl Div_by_zero
      else write_pages drv dest_addr src (page_accesses (wc_page_size (w_cfg w)) (length src)) w)"

definition WL_read :: "'f flash_access \<Rightarrow> nat \<Rightarrow> nat \<Rightarrow> 'f wl_flash \<Rightarrow> (esp_err \<times> byte list \<times> 'f wl_flash) res" where
  "WL_read drv src_addr sz w =
     (if \<not> w_initialized w then Inr (ESP_ERR_INVALID_STATE, [], w)
      else if wc_page_size (w_cfg w) = 0 \<or> w_flash_size w = 0 then Inl Div_by_zero
      else read_pages drv src_addr sz (page_accesses (wc_page_size (w_cfg w)) sz) [] w)"

definition WL_flush :: "'f flash_access \<Rightarrow> (byte list \<Rightarrow> nat) \<Rightarrow> 'f wl_op" where
  "WL_flush drv crc w = updateWL drv crc (set_access (usub (ws_max_count (w_state w)) 1) w)"

end
