(* ===== verification/WL_Map.thy ===== *)
theory WL_Map
  imports WL_Flash
begin

text \<open>
  The mapping of addresses. The data area has one block more than the storage that is offered; one
  block is the dummy block. \<open>blk\<close> maps the blocks of the storage to the others, \<^verbatim>\<open>calcAddr\<close> is this map on
  addresses, and moving the dummy block by one changes the map only for the block that is copied.
  \<open>vmem\<close> is what the storage holds for its users.
\<close>

section \<open>Blocks\<close>

definition blk :: "nat \<Rightarrow> nat \<Rightarrow> nat \<Rightarrow> nat \<Rightarrow> nat" where
  "blk K pos mc b = (let r = (K - mc + b) mod K in if r < pos then r else r + 1)"

lemma blk_le: "0 < K \<Longrightarrow> blk K pos mc b \<le> K"
  using mod_less_divisor [of K "K - mc + b"] by (simp add: blk_def Let_def less_imp_le Suc_le_eq)

lemma blk_not_dummy: "blk K pos mc b \<noteq> pos"
  by (simp add: blk_def Let_def)

lemma rot_inj_le:
  assumes "(x + b) mod K = (x + b') mod K" "b \<le> b'" "b' < K"
  shows "b = (b' :: nat)"
proof -
  have "K dvd b' - b" using mod_eq_dvd_iff_nat [of "x + b" "x + b'" K] assms(1,2) by simp
  then show ?thesis using nat_dvd_not_less [of "b' - b" K] assms(2,3) by (cases "b = b'") auto
qed

lemma rot_inj: "(x + b) mod K = (x + b') mod K \<Longrightarrow> b < K \<Longrightarrow> b' < K \<Longrightarrow> b = (b' :: nat)"
  using rot_inj_le [of x b K b'] rot_inj_le [of x b' K b] by (cases "b \<le> b'") auto

lemma blk_inj: "blk K pos mc b = blk K pos mc b' \<Longrightarrow> b < K \<Longrightarrow> b' < K \<Longrightarrow> b = b'"
  using rot_inj [of "K - mc" b K b'] by (auto simp: blk_def Let_def split: if_splits)

text \<open>The dummy block moves from \<open>pos\<close> to \<open>pos + 1\<close>.\<close>

lemma blk_next: "blk K (pos + 1) mc b = (if blk K pos mc b = pos + 1 then pos else blk K pos mc b)"
  by (auto simp: blk_def Let_def)

text \<open>The dummy block moves from the end to the beginning, and the storage is rotated by one.\<close>

lemma blk_round:
  assumes "0 < K" "mc < K" "b < K"
  shows "blk K 0 (if K \<le> mc + 1 then 0 else mc + 1) b = (if blk K K mc b = 0 then K else blk K K mc b)"
proof -
  have r: "(K - mc + b) mod K < K" using assms(1) by simp
  have "(K - (if K \<le> mc + 1 then 0 else mc + 1) + b) mod K = (if (K - mc + b) mod K = 0 then K - 1 else (K - mc + b) mod K - 1)"
  proof (cases "K \<le> mc + 1")
    case True
    then have "K - mc + b = Suc b" using assms by simp
    then show ?thesis using True assms by (cases "Suc b = K") auto
  next
    case False
    then have e: "K - mc + b = Suc (K - (mc + 1) + b)" using assms by simp
    show ?thesis using False assms(1) unfolding e mod_Suc by auto
  qed
  then show ?thesis using r assms(1) by (auto simp: blk_def Let_def)
qed

section \<open>Geometry\<close>

text \<open>
  What the configuration fixes: whole blocks, a buffer that divides a block and holds a record, and the
  data area, the two states and the configuration one after the other.
\<close>

definition wl_sizes :: "'f wl_flash \<Rightarrow> bool" where
  "wl_sizes w \<longleftrightarrow> (let c = w_cfg w; page = wc_page_size c; temp = wc_temp_buff_size c; sec = SPI_FLASH_SEC_SIZE in
     0 < page \<and> page dvd w_flash_size w \<and> 0 < w_flash_size w \<and> w_flash_size w < 2 ^ 31 \<and>
     0 < temp \<and> temp dvd page \<and> length (w_temp_buff w) = temp \<and> 16 \<le> wc_wr_size c \<and> wc_wr_size c \<le> temp \<and>
     wc_sector_size c = sec \<and> sec dvd page \<and> sec dvd wc_start_addr c \<and> sec dvd w_addr_state1 w \<and> sec dvd w_addr_state2 w \<and>
     sec dvd w_addr_cfg w \<and> sec dvd w_state_size w \<and> sec dvd w_cfg_size w \<and>
     wc_start_addr c + w_flash_size w + page \<le> w_addr_state1 w \<and>
     w_addr_state1 w + w_state_size w \<le> w_addr_state2 w \<and>
     w_addr_state2 w + w_state_size w \<le> w_addr_cfg w \<and> w_addr_cfg w + w_cfg_size w < 2 ^ 32 \<and>
     sizeof_config \<le> w_cfg_size w \<and>
     sizeof_state + (w_flash_size w div page + 1) * wc_wr_size c \<le> w_state_size w)"

definition n_blocks :: "'f wl_flash \<Rightarrow> nat" where
  "n_blocks w = w_flash_size w div wc_page_size (w_cfg w)"

text \<open>The state fits the geometry.\<close>

definition wl_pos_ok :: "'f wl_flash \<Rightarrow> bool" where
  "wl_pos_ok w \<longleftrightarrow> ws_max_pos (w_state w) = n_blocks w + 1 \<and> ws_pos (w_state w) < ws_max_pos (w_state w) \<and>
     ws_move_count (w_state w) < n_blocks w \<and> length (ws_reserved (w_state w)) = 7"

definition wl_geom :: "'f wl_flash \<Rightarrow> bool" where
  "wl_geom w \<longleftrightarrow> wl_sizes w \<and> wl_pos_ok w"

lemma n_blocks:
  assumes "wl_sizes w"
  shows "w_flash_size w = n_blocks w * wc_page_size (w_cfg w)" "0 < n_blocks w"
proof -
  have z: "wc_page_size (w_cfg w) dvd w_flash_size w" "0 < w_flash_size w" using assms by (simp_all add: wl_sizes_def Let_def)
  then show fs: "w_flash_size w = n_blocks w * wc_page_size (w_cfg w)" by (simp add: n_blocks_def)
  show "0 < n_blocks w" by (rule ccontr) (use fs z(2) in simp)
qed

text \<open>A byte is at an offset in a block.\<close>

lemma in_block: "b < K \<Longrightarrow> j < P \<Longrightarrow> b * P + j < K * (P :: nat)"
proof -
  assume "b < K" "j < P"
  then have "(b + 1) * P \<le> K * P" by (intro mult_le_mono1) simp
  then show ?thesis using \<open>j < P\<close> by simp
qed

lemma block_less: "j < P \<Longrightarrow> x * P + j < p * P \<longleftrightarrow> x < (p :: nat)"
proof
  assume "x * P + j < p * P"
  then have "\<not> p * P \<le> x * P" by linarith
  then show "x < p" using mult_le_mono1 not_le by blast
qed (rule in_block)

lemma block_mod: "j < P \<Longrightarrow> (x * P + j) mod (K * P) = x mod K * P + (j :: nat)"
proof -
  assume "j < P"
  then have "(x * P + j) div P = x" "(x * P + j) mod P = j" by simp_all
  then show ?thesis using mod_mult2_eq [of "x * P + j" P K] by (simp add: mult.commute)
qed

lemma calcAddr_blk:
  assumes "wl_geom w" "b < n_blocks w" "j < wc_page_size (w_cfg w)"
  shows "calcAddr (b * wc_page_size (w_cfg w) + j) w =
    blk (n_blocks w) (ws_pos (w_state w)) (ws_move_count (w_state w)) b * wc_page_size (w_cfg w) + j"
proof -
  let ?P = "wc_page_size (w_cfg w)" and ?K = "n_blocks w" and ?m = "ws_move_count (w_state w)" and ?p = "ws_pos (w_state w)"
  have sz: "wl_sizes w" and po: "?m < ?K" "?p \<le> ?K" using assms(1) by (auto simp: wl_geom_def wl_pos_ok_def)
  have top: "w_flash_size w + ?P < 2 ^ 32" and half: "w_flash_size w < 2 ^ 31" using sz by (auto simp: wl_sizes_def Let_def)
  note fs = n_blocks [OF sz]
  let ?r = "(?K - ?m + b) mod ?K"
  have lim: "?K * ?P + ?P < 2 ^ 32" using top fs(1) by simp
  have mP: "?m * ?P \<le> ?K * ?P" "?p * ?P \<le> ?K * ?P" using po by (simp_all add: mult_le_mono1)
  have bP: "b * ?P + j < ?K * ?P" using assms(2,3) by (rule in_block)
  have dP: "(?K - ?m) * ?P \<le> ?K * ?P" by (simp add: mult_le_mono1)
  have mul: "umul ?m ?P = ?m * ?P" "umul ?p ?P = ?p * ?P" using mP lim by (intro umul_small, linarith)+
  have "usub (?K * ?P) (?m * ?P) = ?K * ?P - ?m * ?P" using mP lim by (intro usub_le) linarith+
  then have sub: "usub (w_flash_size w) (umul ?m ?P) = (?K - ?m) * ?P" unfolding fs(1) mul by (simp add: diff_mult_distrib)
  have "uadd ((?K - ?m) * ?P) (b * ?P + j) = (?K - ?m) * ?P + (b * ?P + j)" 
    using add_le_less_mono [OF dP bP] half fs(1) by (intro uadd_small) (simp add: fs(1))
  then have "uadd ((?K - ?m) * ?P) (b * ?P + j) = (?K - ?m + b) * ?P + j" by (simp add: add_mult_distrib)
  then have res: "uadd ((?K - ?m) * ?P) (b * ?P + j) mod (?K * ?P) = ?r * ?P + j" using block_mod [OF assms(3)] by simp
  have "?r < ?K" using fs(2) by simp
  then have "?r * ?P + j < ?K * ?P" using assms(3) by (rule in_block)
  moreover have "?r * ?P + j < ?p * ?P \<longleftrightarrow> ?r < ?p"
    using assms(3) by (rule block_less)
  moreover have "uadd (?r * ?P + j) ?P = ?r * ?P + j + ?P" using calculation(1) lim by (intro uadd_small) linarith
  ultimately show ?thesis
    unfolding calcAddr_def Let_def sub by (simp add: res fs(1) [symmetric] mul(2) blk_def Let_def add_mult_distrib) (simp add: fs(1) res)
qed

section \<open>The storage\<close>

definition vmem :: "'f wl_flash \<Rightarrow> mem \<Rightarrow> mem" where
  "vmem w m = map (\<lambda>i. m ! (wc_start_addr (w_cfg w) + calcAddr i w)) [0..<w_flash_size w]"

text \<open>The blocks in use: the data area without the dummy block.\<close>

definition dummy :: "'f wl_flash \<Rightarrow> nat set" where
  "dummy w = {wc_start_addr (w_cfg w) + ws_pos (w_state w) * wc_page_size (w_cfg w) ..<
     wc_start_addr (w_cfg w) + ws_pos (w_state w) * wc_page_size (w_cfg w) + wc_page_size (w_cfg w)}"

definition in_use :: "'f wl_flash \<Rightarrow> nat set" where
  "in_use w = {wc_start_addr (w_cfg w) ..< wc_start_addr (w_cfg w) + w_flash_size w + wc_page_size (w_cfg w)} - dummy w"

lemma length_vmem [simp]: "length (vmem w m) = w_flash_size w"
  by (simp add: vmem_def)

lemma geom_page: "wl_geom w \<Longrightarrow> 0 < wc_page_size (w_cfg w)"
  by (simp add: wl_geom_def wl_sizes_def Let_def)

lemma calcAddr_at:
  assumes "wl_geom w" "i < w_flash_size w"
  shows "calcAddr i w = blk (n_blocks w) (ws_pos (w_state w)) (ws_move_count (w_state w)) (i div wc_page_size (w_cfg w)) *
      wc_page_size (w_cfg w) + i mod wc_page_size (w_cfg w)" "i div wc_page_size (w_cfg w) < n_blocks w"
proof -
  have "wl_sizes w" using assms(1) by (simp add: wl_geom_def)
  note fs = n_blocks [OF this]
  show b: "i div wc_page_size (w_cfg w) < n_blocks w" using assms(2) unfolding fs(1) by (rule less_mult_imp_div_less)
  show "calcAddr i w = blk (n_blocks w) (ws_pos (w_state w)) (ws_move_count (w_state w)) (i div wc_page_size (w_cfg w)) *
      wc_page_size (w_cfg w) + i mod wc_page_size (w_cfg w)"
    using calcAddr_blk [OF assms(1) b, of "i mod wc_page_size (w_cfg w)"] geom_page [OF assms(1)] by simp
qed

text \<open>An access that stays in a block.\<close>

definition in_page :: "nat \<Rightarrow> nat \<Rightarrow> nat \<Rightarrow> bool" where
  "in_page P a n \<longleftrightarrow> a mod P + n \<le> P"

lemma calcAddr_chunk:
  assumes "wl_geom w" "in_page (wc_page_size (w_cfg w)) a n" "a + n \<le> w_flash_size w" "i < n"
  shows "calcAddr (a + i) w = calcAddr a w + i"
proof -
  let ?P = "wc_page_size (w_cfg w)"
  have r: "a mod ?P + i < ?P" using assms(2,4) by (simp add: in_page_def)
  have "(a + i) div ?P = a div ?P \<and> (a + i) mod ?P = a mod ?P + i"
  proof -
    have "a + i = a div ?P * ?P + (a mod ?P + i)" using div_mult_mod_eq [of a ?P] by linarith
    then show ?thesis using r by (metis add.commute div_less div_mult_self1 mod_less mod_mult_self1 add_0 less_nat_zero_code)
  qed
  then show ?thesis using calcAddr_at(1) [OF assms(1), of a] calcAddr_at(1) [OF assms(1), of "a + i"] assms(3,4) by simp
qed

lemma calcAddr_bound:
  assumes "wl_geom w" "i < w_flash_size w"
  shows "calcAddr i w < w_flash_size w + wc_page_size (w_cfg w)"
proof -
  let ?P = "wc_page_size (w_cfg w)"
  have "wl_sizes w" using assms(1) by (simp add: wl_geom_def)
  note fs = n_blocks [OF this]
  have "blk (n_blocks w) (ws_pos (w_state w)) (ws_move_count (w_state w)) (i div ?P) < n_blocks w + 1"
    using blk_le [OF fs(2)] by (simp add: less_Suc_eq_le)
  from in_block [OF this, of "i mod ?P" ?P] geom_page [OF assms(1)] show ?thesis
    unfolding calcAddr_at(1) [OF assms] fs(1) by (simp add: add_mult_distrib)
qed

lemma calcAddr_inj:
  assumes "wl_geom w" "i < w_flash_size w" "i' < w_flash_size w" "calcAddr i w = calcAddr i' w"
  shows "i = i'"
proof -
  let ?P = "wc_page_size (w_cfg w)" and ?b = "\<lambda>i. blk (n_blocks w) (ws_pos (w_state w)) (ws_move_count (w_state w)) (i div wc_page_size (w_cfg w))"
  have P: "0 < ?P" by (rule geom_page [OF assms(1)])
  note c = calcAddr_at [OF assms(1,2)] calcAddr_at [OF assms(1,3)]
  have "calcAddr i w div ?P = ?b i" "calcAddr i w mod ?P = i mod ?P" "calcAddr i' w div ?P = ?b i'" "calcAddr i' w mod ?P = i' mod ?P"
    unfolding c(1) c(3) using P by simp_all
  then have "?b i = ?b i'" "i mod ?P = i' mod ?P" using assms(4) by simp_all
  from blk_inj [OF this(1) c(2,4)] this(2) show ?thesis by (metis div_mult_mod_eq)
qed

lemma calcAddr_in_use:
  assumes "wl_geom w" "i < w_flash_size w"
  shows "wc_start_addr (w_cfg w) + calcAddr i w \<in> in_use w"
proof -
  let ?P = "wc_page_size (w_cfg w)" and ?p = "ws_pos (w_state w)"
  let ?b = "blk (n_blocks w) ?p (ws_move_count (w_state w)) (i div ?P)"
  have m: "i mod ?P < ?P" using geom_page [OF assms(1)] by simp
  have "?b < ?p \<or> ?p < ?b" using blk_not_dummy [of "n_blocks w" ?p] by (meson nat_neq_iff)
  then have "calcAddr i w < ?p * ?P \<or> ?p * ?P + ?P \<le> calcAddr i w"
  proof
    assume "?b < ?p"
    from in_block [OF this m] show ?thesis unfolding calcAddr_at(1) [OF assms] by simp
  next
    assume "?p < ?b"
    then have "(?p + 1) * ?P \<le> ?b * ?P" by (intro mult_le_mono1) simp
    then show ?thesis unfolding calcAddr_at(1) [OF assms] by simp
  qed
  then show ?thesis using calcAddr_bound [OF assms] by (auto simp: in_use_def dummy_def)
qed

lemma vmem_agree:
  assumes "wl_geom w" "mem_agree (in_use w) m m'" "wc_start_addr (w_cfg w) + w_flash_size w + wc_page_size (w_cfg w) \<le> length m"
  shows "vmem w m = vmem w m'"
  unfolding vmem_def
proof (rule map_cong)
  fix i assume "i \<in> set [0..<w_flash_size w]"
  then have i: "i < w_flash_size w" by simp
  show "m ! (wc_start_addr (w_cfg w) + calcAddr i w) = m' ! (wc_start_addr (w_cfg w) + calcAddr i w)"
    using calcAddr_in_use [OF assms(1) i] calcAddr_bound [OF assms(1) i] assms(2,3) by (simp add: mem_agree_def)
qed simp

lemma calcAddr_range:
  assumes "wl_geom w" "in_page (wc_page_size (w_cfg w)) a n" "a + n \<le> w_flash_size w" "0 < n"
  shows "calcAddr a w + n \<le> w_flash_size w + wc_page_size (w_cfg w)"
proof -
  have "a + (n - 1) < w_flash_size w" using assms(3,4) by linarith
  from calcAddr_bound [OF assms(1) this] show ?thesis using calcAddr_chunk [OF assms(1-3), of "n - 1"] assms(4) by simp
qed

lemma vmem_read:
  assumes "wl_geom w" "in_page (wc_page_size (w_cfg w)) a n" "a + n \<le> w_flash_size w"
    "wc_start_addr (w_cfg w) + w_flash_size w + wc_page_size (w_cfg w) \<le> length m"
  shows "mem_read (wc_start_addr (w_cfg w) + calcAddr a w) n m = mem_read a n (vmem w m)"
proof (cases "n = 0")
  case False
  let ?p = "wc_start_addr (w_cfg w) + calcAddr a w"
  have len: "?p + n \<le> length m" using calcAddr_range [OF assms(1-3)] assms(4) False by simp
  show ?thesis
  proof (rule nth_equalityI)
    fix i assume "i < length (mem_read ?p n m)"
    then have i: "i < n" using len by simp
    then show "mem_read ?p n m ! i = mem_read a n (vmem w m) ! i"
      using len assms(3) calcAddr_chunk [OF assms(1-3) i] by (simp add: nth_mem_read vmem_def add.assoc)
  qed (use len assms(3) in simp)
qed simp

lemma vmem_write:
  assumes "wl_geom w" "in_page (wc_page_size (w_cfg w)) a (length bs)" "a + length bs \<le> w_flash_size w"
    "wc_start_addr (w_cfg w) + w_flash_size w + wc_page_size (w_cfg w) \<le> length m" "bs \<noteq> []"
  shows "vmem w (mem_write (wc_start_addr (w_cfg w) + calcAddr a w) bs m) = mem_write a bs (vmem w m)"
    "wc_start_addr (w_cfg w) + calcAddr a w + length bs \<le> length m"
proof -
  let ?s = "wc_start_addr (w_cfg w)" and ?n = "length bs"
  have n: "0 < ?n" using assms(5) by simp
  show len: "?s + calcAddr a w + ?n \<le> length m" using calcAddr_range [OF assms(1-3) n] assms(4) by simp
  show "vmem w (mem_write (?s + calcAddr a w) bs m) = mem_write a bs (vmem w m)"
  proof (rule nth_equalityI)
    fix i assume "i < length (vmem w (mem_write (?s + calcAddr a w) bs m))"
    then have i: "i < w_flash_size w" by simp
    have p: "?s + calcAddr i w < length m" using calcAddr_bound [OF assms(1) i] assms(4) by simp
    show "vmem w (mem_write (?s + calcAddr a w) bs m) ! i = mem_write a bs (vmem w m) ! i"
    proof (cases "a \<le> i \<and> i < a + ?n")
      case True
      then obtain k where k: "i = a + k" "k < ?n" by (metis le_Suc_ex nat_add_left_cancel_less)
      then show ?thesis using i p len assms(3) calcAddr_chunk [OF assms(1-3) k(2)] by (simp add: vmem_def nth_mem_write)
    next
      case False
      have "\<not> (calcAddr a w \<le> calcAddr i w \<and> calcAddr i w < calcAddr a w + ?n)"
      proof
        assume c: "calcAddr a w \<le> calcAddr i w \<and> calcAddr i w < calcAddr a w + ?n"
        let ?k = "calcAddr i w - calcAddr a w"
        have k: "?k < ?n" "calcAddr a w + ?k = calcAddr i w" using c by linarith+
        have "calcAddr (a + ?k) w = calcAddr i w" using calcAddr_chunk [OF assms(1-3) k(1)] k(2) by simp
        moreover have "a + ?k < w_flash_size w" using k(1) assms(3) by linarith
        ultimately have "a + ?k = i" using calcAddr_inj [OF assms(1) _ i] by blast
        then show False using False k(1) by linarith
      qed
      then show ?thesis using False i p len assms(3) by (auto simp: vmem_def nth_mem_write)
    qed
  qed (use assms(3) in simp)
qed

text \<open>The block that the dummy block moves to, and the mapping afterwards.\<close>

definition next_block :: "'f wl_flash \<Rightarrow> nat" where
  "next_block w = (if ws_pos (w_state w) + 1 = ws_max_pos (w_state w) then 0 else ws_pos (w_state w) + 1)"

definition next_state :: "wl_state \<Rightarrow> wl_state" where
  "next_state s = (if ws_pos s + 1 = ws_max_pos s
     then s\<lparr>ws_pos := 0, ws_move_count := (if ws_max_pos s \<le> ws_move_count s + 2 then 0 else ws_move_count s + 1)\<rparr>
     else s\<lparr>ws_pos := ws_pos s + 1\<rparr>)"

lemma next_geom: "wl_geom w \<Longrightarrow> wl_geom (w\<lparr>w_state := next_state (w_state w)\<rparr>)"
  using n_blocks(2) [of w]
  by (auto simp: wl_geom_def wl_sizes_def wl_pos_ok_def next_state_def n_blocks_def Let_def)

lemma blk_next_state:
  assumes "wl_geom w" "b < n_blocks w"
  shows "blk (n_blocks w) (ws_pos (next_state (w_state w))) (ws_move_count (next_state (w_state w))) b =
    (let c = blk (n_blocks w) (ws_pos (w_state w)) (ws_move_count (w_state w)) b
     in if c = next_block w then ws_pos (w_state w) else c)"
proof -
  let ?s = "w_state w" and ?K = "n_blocks w"
  have po: "ws_max_pos ?s = ?K + 1" "ws_pos ?s < ws_max_pos ?s" "ws_move_count ?s < ?K" "0 < ?K"
    using assms(1) n_blocks(2) by (auto simp: wl_geom_def wl_pos_ok_def)
  show ?thesis
  proof (cases "ws_pos ?s = ?K")
    case True
    then show ?thesis using blk_round [OF po(4,3) assms(2)] po by (simp add: next_state_def next_block_def Let_def)
  next
    case False
    then show ?thesis using blk_next [of ?K "ws_pos ?s"] po by (simp add: next_state_def next_block_def Let_def)
  qed
qed

lemma vmem_next:
  assumes "wl_geom w"
    and copied: "\<forall>j < wc_page_size (w_cfg w).
      m ! (wc_start_addr (w_cfg w) + ws_pos (w_state w) * wc_page_size (w_cfg w) + j) =
      m ! (wc_start_addr (w_cfg w) + next_block w * wc_page_size (w_cfg w) + j)"
  shows "vmem (w\<lparr>w_state := next_state (w_state w)\<rparr>) m = vmem w m"
proof -
  let ?w = "w\<lparr>w_state := next_state (w_state w)\<rparr>" and ?P = "wc_page_size (w_cfg w)" and ?s = "wc_start_addr (w_cfg w)"
  have g: "wl_geom ?w" by (rule next_geom [OF assms(1)])
  have "m ! (?s + calcAddr i ?w) = m ! (?s + calcAddr i w)" if i: "i < w_flash_size w" for i
  proof -
    let ?c = "blk (n_blocks w) (ws_pos (w_state w)) (ws_move_count (w_state w)) (i div ?P)"
    have j: "i mod ?P < ?P" using geom_page [OF assms(1)] by simp
    have n: "n_blocks ?w = n_blocks w" by (simp add: n_blocks_def)
    have "calcAddr i ?w = (if ?c = next_block w then ws_pos (w_state w) else ?c) * ?P + i mod ?P"
      using calcAddr_at(1) [OF g, of i] i blk_next_state [OF assms(1) calcAddr_at(2) [OF assms(1) i]] unfolding n by (simp add: Let_def)
    then show ?thesis using calcAddr_at(1) [OF assms(1) i] copied j by (simp add: add.assoc)
  qed
  then show ?thesis by (simp add: vmem_def)
qed

end
