(* ===== verification/WL_Hoare.thy ===== *)
theory WL_Hoare
  imports WL_Map
begin

text \<open>
  Triples for the methods of \<^verbatim>\<open>WL_Flash\<close>: a precondition, a postcondition for \<^verbatim>\<open>ESP_OK\<close> and one for errors;
  a triple also says that the method does not fault. The rules for the calls of the driver come from
  the contract \<open>flash_driver\<close>. With the flag \<open>u\<close> the driver is assumed to work, and then errors are
  excluded; without it any call can fail.
\<close>

section \<open>Triples\<close>

definition triple :: "('f wl_flash \<Rightarrow> bool) \<Rightarrow> 'f wl_op \<Rightarrow> ('f wl_flash \<Rightarrow> bool) \<Rightarrow> ('f wl_flash \<Rightarrow> bool) \<Rightarrow> bool" where
  "triple P m Q E \<longleftrightarrow> (\<forall>w. P w \<longrightarrow> (\<exists>r w'. m w = Inr (r, w') \<and> (if r = ESP_OK then Q w' else E w')))"

lemma tripleI:
  "(\<And>w. P w \<Longrightarrow> \<exists>r w'. m w = Inr (r, w') \<and> (if r = ESP_OK then Q w' else E w')) \<Longrightarrow> triple P m Q E"
  by (simp add: triple_def)

lemma tripleD: "triple P m Q E \<Longrightarrow> P w \<Longrightarrow> \<exists>r w'. m w = Inr (r, w') \<and> (if r = ESP_OK then Q w' else E w')"
  by (simp add: triple_def)

lemma triple_pre: "triple P' m Q E \<Longrightarrow> (\<And>w. P w \<Longrightarrow> P' w) \<Longrightarrow> triple P m Q E"
  by (simp add: triple_def)

lemma triple_post:
  assumes "triple P m Q' E'" "\<And>w. Q' w \<Longrightarrow> Q w" "\<And>w. E' w \<Longrightarrow> E w"
  shows "triple P m Q E"
proof (rule tripleI)
  fix w assume "P w"
  from tripleD [OF assms(1) this] obtain r w' where "m w = Inr (r, w')" "if r = ESP_OK then Q' w' else E' w'" by (elim exE conjE)
  then show "\<exists>r w'. m w = Inr (r, w') \<and> (if r = ESP_OK then Q w' else E w')"
    using assms(2,3) by (intro exI [of _ r] exI [of _ w']) (simp split: if_splits)
qed

lemma triple_cong: "triple P m' Q E \<Longrightarrow> (\<And>w. P w \<Longrightarrow> m w = m' w) \<Longrightarrow> triple P m Q E"
  by (simp add: triple_def)

lemma triple_ex: "(\<And>x. triple (P x) m Q E) \<Longrightarrow> triple (\<lambda>w. \<exists>x. P x w) m Q E"
  unfolding triple_def by blast

lemma triple_assume: "(R \<Longrightarrow> triple P m Q E) \<Longrightarrow> triple (\<lambda>w. R \<and> P w) m Q E"
  by (simp add: triple_def)

lemma triple_return: "(\<And>w. P w \<Longrightarrow> Q (f w)) \<Longrightarrow> triple P (\<lambda>w. Inr (ESP_OK, f w)) Q E"
  by (simp add: triple_def)

lemma triple_check:
  assumes "triple P m R E" "triple R k Q E"
  shows "triple P (check m k) Q E"
proof (rule tripleI)
  fix w assume "P w"
  from tripleD [OF assms(1) this] obtain r w1 where m: "m w = Inr (r, w1)" "if r = ESP_OK then R w1 else E w1" by (elim exE conjE)
  show "\<exists>r w'. check m k w = Inr (r, w') \<and> (if r = ESP_OK then Q w' else E w')"
  proof (cases "r = ESP_OK")
    case True
    then show ?thesis using m tripleD [OF assms(2), of w1] by (simp add: check_def)
  next
    case False
    then show ?thesis using m by (simp add: check_def)
  qed
qed

definition retry :: "'f wl_flash \<Rightarrow> 'f wl_flash" where
  "retry w = set_access (usub (ws_max_count (w_state w)) 1) w"

lemma triple_retry:
  assumes "triple P m R E'" "\<And>w. E' w \<Longrightarrow> E (retry w)" "triple R k Q E"
  shows "triple P (or_retry m k) Q E"
proof (rule tripleI)
  fix w assume "P w"
  from tripleD [OF assms(1) this] obtain r w1 where m: "m w = Inr (r, w1)" "if r = ESP_OK then R w1 else E' w1" by (elim exE conjE)
  show "\<exists>r w'. or_retry m k w = Inr (r, w') \<and> (if r = ESP_OK then Q w' else E w')"
  proof (cases "r = ESP_OK")
    case True
    then show ?thesis using m tripleD [OF assms(3), of w1] by (simp add: or_retry_def)
  next
    case False
    then show ?thesis using m assms(2) by (simp add: or_retry_def retry_def)
  qed
qed

section \<open>Driver calls\<close>

lemma read_into_full: "length bs = n \<Longrightarrow> read_into n bs buf = bs @ drop n buf"
  by (simp add: read_into_def)

lemma read_into_state [simp]: "length bs = sizeof_state \<Longrightarrow> take sizeof_state (read_into sizeof_state bs buf) = bs"
  by (simp add: read_into_def)

lemma length_read_into: "n \<le> length buf \<Longrightarrow> length (read_into n bs buf) = length buf"
  by (simp add: read_into_def)

context flash_driver begin

lemma write_rule:
  assumes "\<And>w. P w \<Longrightarrow> u \<Longrightarrow> up (w_flash w) \<and> a w + length (bs w) \<le> length (content (w_flash w))"
    and "\<And>w f. P w \<Longrightarrow> a w + length (bs w) \<le> length (content (w_flash w)) \<Longrightarrow> u \<longrightarrow> up f \<Longrightarrow>
      content f = nor_write (a w) (bs w) (content (w_flash w)) \<Longrightarrow> Q (w\<lparr>w_flash := f\<rparr>)"
    and "\<And>w f. P w \<Longrightarrow> \<not> u \<Longrightarrow> mem_agree (- {a w..<a w + length (bs w)}) (content (w_flash w)) (content f) \<Longrightarrow> E (w\<lparr>w_flash := f\<rparr>)"
  shows "triple P (\<lambda>w. drv_write drv (a w) (bs w) w) Q E"
proof (rule tripleI)
  fix w assume P: "P w"
  obtain r f where d: "fa_write drv (a w) (bs w) (w_flash w) = (r, f)" by (cases "fa_write drv (a w) (bs w) (w_flash w)")
  have ok: "u \<Longrightarrow> r = ESP_OK \<and> up f" using write_up [of "w_flash w" "a w" "bs w"] assms(1) [OF P] d by auto
  show "\<exists>r w'. drv_write drv (a w) (bs w) w = Inr (r, w') \<and> (if r = ESP_OK then Q w' else E w')"
  proof (cases "r = ESP_OK")
    case True
    then show ?thesis using write_ok d assms(2) [OF P] ok by (simp add: drv_write_def)
  next
    case False
    then show ?thesis using write_frame [OF d] d assms(3) [OF P] ok by (auto simp: drv_write_def)
  qed
qed

lemma erase_rule:
  assumes "\<And>w. P w \<Longrightarrow> u \<Longrightarrow> up (w_flash w) \<and> a w + n w \<le> length (content (w_flash w)) \<and> SPI_FLASH_SEC_SIZE dvd a w \<and> SPI_FLASH_SEC_SIZE dvd n w"
    and "\<And>w f. P w \<Longrightarrow> a w + n w \<le> length (content (w_flash w)) \<Longrightarrow> u \<longrightarrow> up f \<Longrightarrow>
      content f = nor_erase (a w) (n w) (content (w_flash w)) \<Longrightarrow> Q (w\<lparr>w_flash := f\<rparr>)"
    and "\<And>w f. P w \<Longrightarrow> \<not> u \<Longrightarrow> mem_agree (- {a w..<a w + n w}) (content (w_flash w)) (content f) \<Longrightarrow> E (w\<lparr>w_flash := f\<rparr>)"
  shows "triple P (\<lambda>w. drv_erase_range drv (a w) (n w) w) Q E"
proof (rule tripleI)
  fix w assume P: "P w"
  obtain r f where d: "fa_erase_range drv (a w) (n w) (w_flash w) = (r, f)" by (cases "fa_erase_range drv (a w) (n w) (w_flash w)")
  have ok: "u \<Longrightarrow> r = ESP_OK \<and> up f" using erase_up [of "w_flash w" "a w" "n w"] assms(1) [OF P] d by (auto simp: dvd_eq_mod_eq_0)
  show "\<exists>r w'. drv_erase_range drv (a w) (n w) w = Inr (r, w') \<and> (if r = ESP_OK then Q w' else E w')"
  proof (cases "r = ESP_OK")
    case True
    then show ?thesis using erase_ok d assms(2) [OF P] ok by (simp add: drv_erase_range_def)
  next
    case False
    then show ?thesis using erase_frame [OF d] d assms(3) [OF P] ok by (auto simp: drv_erase_range_def)
  qed
qed

lemma read_temp_rule:
  assumes "\<And>w. P w \<Longrightarrow> u \<Longrightarrow> up (w_flash w) \<and> a w + n w \<le> length (content (w_flash w))"
    and "\<And>w f. P w \<Longrightarrow> a w + n w \<le> length (content (w_flash w)) \<Longrightarrow> u \<longrightarrow> up f \<Longrightarrow> content f = content (w_flash w) \<Longrightarrow>
      Q (w\<lparr>w_flash := f, w_temp_buff := mem_read (a w) (n w) (content (w_flash w)) @ drop (n w) (w_temp_buff w)\<rparr>)"
    and "\<And>w f t. P w \<Longrightarrow> \<not> u \<Longrightarrow> content f = content (w_flash w) \<Longrightarrow>
      (n w \<le> length (w_temp_buff w) \<Longrightarrow> length t = length (w_temp_buff w)) \<Longrightarrow> E (w\<lparr>w_flash := f, w_temp_buff := t\<rparr>)"
  shows "triple P (\<lambda>w. drv_read_temp drv (a w) (n w) w) Q E"
proof (rule tripleI)
  fix w assume P: "P w"
  obtain r bs f where d: "fa_read drv (a w) (n w) (w_flash w) = (r, bs, f)" by (cases "fa_read drv (a w) (n w) (w_flash w)")
  have ok: "u \<Longrightarrow> r = ESP_OK \<and> up f" using read_up [of "w_flash w" "a w" "n w"] assms(1) [OF P] d by auto
  show "\<exists>r w'. drv_read_temp drv (a w) (n w) w = Inr (r, w') \<and> (if r = ESP_OK then Q w' else E w')"
  proof (cases "r = ESP_OK")
    case True
    then have r: "a w + n w \<le> length (content (w_flash w))" "bs = mem_read (a w) (n w) (content (w_flash w))"
      using read_ok [of "a w" "n w" "w_flash w" bs f] d by simp_all
    then have "read_into (n w) bs (w_temp_buff w) = bs @ drop (n w) (w_temp_buff w)" by (simp add: read_into_full)
    then show ?thesis using r True read_keeps [OF d] d assms(2) [OF P, of f] ok by (simp add: drv_read_temp_def)
  next
    case False
    then show ?thesis
      using read_keeps [OF d] d assms(3) [OF P, of f "read_into (n w) bs (w_temp_buff w)"] ok length_read_into
      by (auto simp: drv_read_temp_def)
  qed
qed

end

end
