(* ===== verification/WL_Move.thy ===== *)
theory WL_Move
  imports WL_Hoare
begin

text \<open>
  Moving a block, \<^verbatim>\<open>updateWL\<close>: what is in the flash after a complete move, and what can be there when a
  call of the driver failed on the way.
\<close>

section \<open>Memory\<close>

lemma nor_write_erased:
  assumes "mem_read a (length bs) m = replicate (length bs) 255"
  shows "nor_write a bs m = mem_write a bs m"
proof -
  have ones: "(255 :: byte) = -1" by simp
  have "255 AND b = b" for b :: byte unfolding ones by (rule and.left_neutral)
  then have "map2 (AND) (replicate (length bs) 255) bs = bs" by (induction bs) simp_all
  then show ?thesis using assms by (simp add: nor_write_def)
qed

lemma mem_write_fill:
  assumes "length xs = x" "d + x + length bs + n \<le> length m"
  shows "mem_write (d + x) bs (mem_write d (xs @ replicate (length bs + n) y) m) = mem_write d (xs @ bs @ replicate n y) m"
proof -
  have "length (take d m) = d" using assms(2) by simp
  then show ?thesis using assms by (simp add: mem_write_def replicate_add add.assoc)
qed

lemma mem_read_fill:
  assumes "length xs = x" "d + x + n \<le> length m" "k \<le> n"
  shows "mem_read (d + x) k (mem_write d (xs @ replicate n y) m) = replicate k y"
  using assms by (intro nth_equalityI) (simp_all add: nth_mem_read nth_mem_write nth_append)

text \<open>One round of the loop that copies a block of \<open>P\<close> bytes from \<open>a\<close> to \<open>d\<close> in pieces of \<open>T\<close> bytes.\<close>

definition partial :: "nat \<Rightarrow> nat \<Rightarrow> nat \<Rightarrow> nat \<Rightarrow> mem \<Rightarrow> mem" where
  "partial d a P x m = mem_write d (mem_read a x m @ replicate (P - x) 255) m"

lemma partial_step:
  assumes "d + P \<le> length m" "a + P \<le> length m" "d + P \<le> a \<or> a + P \<le> d" "x + T \<le> P"
  shows "nor_write (d + x) (mem_read (a + x) T (partial d a P x m)) (partial d a P x m) = partial d a P (x + T) m"
proof -
  have src: "mem_read (a + x) T (partial d a P x m) = mem_read (a + x) T m"
    unfolding partial_def by (rule mem_read_write_disjoint) (use assms in auto)
  have len: "length (mem_read (a + x) T m) = T" "length (mem_read a x m) = x" using assms by simp_all
  have e: "P - x = T + (P - (x + T))" using assms(4) by simp
  have "mem_read (d + x) T (partial d a P x m) = replicate T 255"
    unfolding partial_def by (rule mem_read_fill) (use assms len in simp_all)
  then have "nor_write (d + x) (mem_read (a + x) T m) (partial d a P x m) = mem_write (d + x) (mem_read (a + x) T m) (partial d a P x m)"
    by (intro nor_write_erased) (simp add: len)
  also have "\<dots> = mem_write d (mem_read a x m @ mem_read (a + x) T m @ replicate (P - (x + T)) 255) m"
    using mem_write_fill [OF len(2), of d "mem_read (a + x) T m" "P - (x + T)" m 255] assms(1,4) unfolding partial_def e len(1) by simp
  finally show ?thesis unfolding src by (simp add: partial_def mem_read_append)
qed

lemma partial_ends: "partial d a P 0 m = nor_erase d P m" "partial d a P P m = mem_write d (mem_read a P m) m"
  by (simp_all add: partial_def nor_erase_def)

section \<open>Frames\<close>

definition base :: "'f wl_flash \<Rightarrow> bool \<times> bool \<times> wl_config \<times> nat list" where
  "base w = (w_configured w, w_initialized w, w_cfg w, [w_addr_cfg w, w_addr_state1 w, w_addr_state2 w, w_flash_size w,
     w_state_size w, w_cfg_size w, length (w_temp_buff w)])"

lemma base_eq:
  "base w = base w' \<longleftrightarrow> w_configured w = w_configured w' \<and> w_initialized w = w_initialized w' \<and> w_cfg w = w_cfg w' \<and>
     w_addr_cfg w = w_addr_cfg w' \<and> w_addr_state1 w = w_addr_state1 w' \<and> w_addr_state2 w = w_addr_state2 w' \<and>
     w_flash_size w = w_flash_size w' \<and> w_state_size w = w_state_size w' \<and> w_cfg_size w = w_cfg_size w' \<and>
     length (w_temp_buff w) = length (w_temp_buff w')"
  by (simp add: base_def)

lemma base_update [simp]:
  "base (w\<lparr>w_flash := f\<rparr>) = base w" "base (w\<lparr>w_state := s\<rparr>) = base w" "base (w\<lparr>w_dummy_addr := d\<rparr>) = base w"
  "base (set_access n w) = base w" "base (retry w) = base w"
  "length t = length (w_temp_buff w) \<Longrightarrow> base (w\<lparr>w_temp_buff := t\<rparr>) = base w"
  by (simp_all add: base_def set_access_def retry_def)

lemma sizes_base: "base w = base w' \<Longrightarrow> wl_sizes w = wl_sizes w'"
  by (simp add: base_eq wl_sizes_def Let_def)

text \<open>The state but for the number of accesses and the CRC.\<close>

definition core :: "wl_state \<Rightarrow> wl_state" where
  "core s = s\<lparr>ws_access_count := 0, ws_crc := 0\<rparr>"

lemma core_eq:
  "core s = core s' \<longleftrightarrow> ws_pos s = ws_pos s' \<and> ws_max_pos s = ws_max_pos s' \<and> ws_move_count s = ws_move_count s' \<and>
     ws_max_count s = ws_max_count s' \<and> ws_block_size s = ws_block_size s' \<and> ws_version s = ws_version s' \<and>
     ws_device_id s = ws_device_id s' \<and> ws_reserved s = ws_reserved s'"
  by (cases s; cases s') (auto simp: core_def)

lemma core_update [simp]:
  "core (s\<lparr>ws_access_count := n\<rparr>) = core s" "core (s\<lparr>ws_crc := c\<rparr>) = core s" "core (w_state (retry w)) = core (w_state w)"
  "core (w_state (set_access n w)) = core (w_state w)"
  by (simp_all add: core_def retry_def set_access_def)

lemma geom_core:
  assumes "base w = base w'" "core (w_state w) = core (w_state w')"
  shows "wl_geom w = wl_geom w'" "vmem w = vmem w'" "in_use w = in_use w'" "dummy w = dummy w'" "next_block w = next_block w'"
proof -
  show "wl_geom w = wl_geom w'"
    using assms sizes_base [OF assms(1)] by (simp add: wl_geom_def wl_pos_ok_def base_eq core_eq n_blocks_def)
  have "calcAddr i w = calcAddr i w'" for i using assms by (simp add: calcAddr_def base_eq core_eq Let_def)
  then show "vmem w = vmem w'" using assms by (intro ext) (simp add: vmem_def base_eq)
  show "dummy w = dummy w'" using assms by (simp add: dummy_def base_eq core_eq)
  then show "in_use w = in_use w'" using assms by (simp add: in_use_def base_eq core_eq)
  show "next_block w = next_block w'" using assms by (simp add: next_block_def core_eq)
qed

text \<open>The flash is large enough.\<close>

definition fits :: "'f wl_flash \<Rightarrow> mem \<Rightarrow> bool" where
  "fits w m \<longleftrightarrow> w_addr_cfg w + w_cfg_size w \<le> length m"

lemma agree_widen: "mem_agree (- {a..<a + n}) m m' \<Longrightarrow> b \<le> a \<Longrightarrow> a + n \<le> b + k \<Longrightarrow> mem_agree (- {b..<b + k}) m m'"
  by (rule mem_agree_subset) auto

section \<open>The copy loop\<close>

definition at :: "('f \<Rightarrow> mem) \<Rightarrow> ('f \<Rightarrow> bool) \<Rightarrow> bool \<Rightarrow> 'f wl_flash \<Rightarrow> mem \<Rightarrow> 'f wl_flash \<Rightarrow> bool" where
  "at content up u w0 m w \<longleftrightarrow> base w = base w0 \<and> w_state w = w_state w0 \<and> w_dummy_addr w = w_dummy_addr w0 \<and>
     (u \<longrightarrow> up (w_flash w)) \<and> content (w_flash w) = m"

definition hurt :: "('f \<Rightarrow> mem) \<Rightarrow> bool \<Rightarrow> 'f wl_flash \<Rightarrow> nat set \<Rightarrow> mem \<Rightarrow> 'f wl_flash \<Rightarrow> bool" where
  "hurt content u w0 A m w \<longleftrightarrow> \<not> u \<and> base w = base w0 \<and> core (w_state w) = core (w_state w0) \<and>
     mem_agree (- A) m (content (w_flash w))"

lemma hurt_retry: "hurt content u w0 A m w \<Longrightarrow> hurt content u w0 A m (retry w)"
  by (simp add: hurt_def) (simp add: retry_def set_access_def)

lemma partial_agree: "d + P \<le> length m \<Longrightarrow> x \<le> P \<Longrightarrow> a + P \<le> length m \<Longrightarrow> mem_agree (- {d..<d + P}) m (partial d a P x m)"
  unfolding partial_def by (rule mem_agree_write) auto

context flash_driver begin

lemma copy_block_rule:
  fixes w0 :: "'f wl_flash"
  defines "P \<equiv> wc_page_size (w_cfg w0)" and "T \<equiv> wc_temp_buff_size (w_cfg w0)" and "d \<equiv> w_dummy_addr w0"
  assumes "d + P \<le> length m" "a + P \<le> length m" "d + P \<le> a \<or> a + P \<le> d" "P = n * T" "length (w_temp_buff w0) = T" "k \<le> n"
  shows "triple (at content up u w0 (partial d a P (k * T) m)) (copy_block drv a [k..<n])
    (at content up u w0 (partial d a P P m)) (hurt content u w0 {d..<d + P} m)"
  using assms(9)
proof (induction "n - k" arbitrary: k)
  case 0
  then show ?case using assms(7) by (simp add: triple_def)
next
  case (Suc j)
  let ?m = "\<lambda>k. partial d a P (k * T) m"
  let ?R = "\<lambda>w. at content up u w0 (?m k) w \<and> w_temp_buff w = mem_read (a + k * T) T (?m k)"
  have k: "k < n" "j = n - (k + 1)" "k + 1 \<le> n" using Suc.hyps(2) by linarith+
  have kT: "k * T + T \<le> P" using mult_le_mono1 [OF k(3), of T] assms(7) by simp
  have len: "length (?m k) = length m" using partial_agree [OF assms(4) _ assms(5), of "k * T"] kT by (simp add: mem_agree_def)
  have agree: "mem_agree (- {d..<d + P}) m (?m k)" by (rule partial_agree) (use assms kT in auto)
  have "triple (at content up u w0 (?m k)) (\<lambda>w. drv_read_temp drv (a + k * wc_temp_buff_size (w_cfg w)) (wc_temp_buff_size (w_cfg w)) w)
      ?R (hurt content u w0 {d..<d + P} m)"
  proof (rule read_temp_rule [where u = u])
    fix w assume w: "at content up u w0 (?m k) w"
    then have c: "w_cfg w = w_cfg w0" "length (w_temp_buff w) = T" using assms(8) by (simp_all add: at_def base_eq)
    show "u \<Longrightarrow> up (w_flash w) \<and> a + k * wc_temp_buff_size (w_cfg w) + wc_temp_buff_size (w_cfg w) \<le> length (content (w_flash w))"
      using w kT assms(5) len by (simp add: at_def c T_def [symmetric])
    fix f
    {
      assume f: "u \<longrightarrow> up f" "content f = content (w_flash w)"
        "a + k * wc_temp_buff_size (w_cfg w) + wc_temp_buff_size (w_cfg w) \<le> length (content (w_flash w))"
      let ?t = "mem_read (a + k * T) T (content (w_flash w)) @ drop T (w_temp_buff w)"
      have "length ?t = length (w_temp_buff w)" "drop T (w_temp_buff w) = []" using f(3) c by (simp_all add: T_def [symmetric])
      then show "?R (w\<lparr>w_flash := f, w_temp_buff := mem_read (a + k * wc_temp_buff_size (w_cfg w)) (wc_temp_buff_size (w_cfg w)) (content (w_flash w)) @
          drop (wc_temp_buff_size (w_cfg w)) (w_temp_buff w)\<rparr>)"
        using w f by (simp add: at_def c T_def [symmetric])
    }
    fix t
    show "\<not> u \<Longrightarrow> content f = content (w_flash w) \<Longrightarrow>
        (wc_temp_buff_size (w_cfg w) \<le> length (w_temp_buff w) \<Longrightarrow> length t = length (w_temp_buff w)) \<Longrightarrow>
        hurt content u w0 {d..<d + P} m (w\<lparr>w_flash := f, w_temp_buff := t\<rparr>)"
      using w agree c by (simp add: at_def hurt_def T_def [symmetric])
  qed
  moreover have "triple ?R (\<lambda>w. drv_write drv (w_dummy_addr w + k * wc_temp_buff_size (w_cfg w)) (take (wc_temp_buff_size (w_cfg w)) (w_temp_buff w)) w)
      (at content up u w0 (?m (k + 1))) (hurt content u w0 {d..<d + P} m)"
  proof (rule write_rule [where u = u])
    fix w assume w: "?R w"
    have t: "length (mem_read (a + k * T) T (?m k)) = T" using kT assms(5) len by simp
    have c: "w_cfg w = w_cfg w0" "w_dummy_addr w = d" "length (w_temp_buff w) = T" "content (w_flash w) = ?m k"
      "take T (w_temp_buff w) = mem_read (a + k * T) T (?m k)"
      using w t by (simp_all add: at_def base_eq d_def)
    show "u \<Longrightarrow> up (w_flash w) \<and> w_dummy_addr w + k * wc_temp_buff_size (w_cfg w) + length (take (wc_temp_buff_size (w_cfg w)) (w_temp_buff w)) \<le> length (content (w_flash w))"
      using w kT assms(4) len c by (simp add: at_def T_def [symmetric])
    fix f
    show "content f = nor_write (w_dummy_addr w + k * wc_temp_buff_size (w_cfg w)) (take (wc_temp_buff_size (w_cfg w)) (w_temp_buff w)) (content (w_flash w)) \<Longrightarrow>
        u \<longrightarrow> up f \<Longrightarrow> at content up u w0 (?m (k + 1)) (w\<lparr>w_flash := f\<rparr>)"
      using w partial_step [OF assms(4-6) kT] c by (simp add: at_def T_def [symmetric] add.commute)
    assume e: "\<not> u" "mem_agree (- {w_dummy_addr w + k * wc_temp_buff_size (w_cfg w)..<w_dummy_addr w + k * wc_temp_buff_size (w_cfg w) + length (take (wc_temp_buff_size (w_cfg w)) (w_temp_buff w))})
        (content (w_flash w)) (content f)"
    have "mem_agree (- {d..<d + P}) (?m k) (content f)"
      using e(2) kT c by (intro mem_agree_subset [OF e(2) [unfolded c(4)]]) (auto simp: T_def [symmetric])
    then show "hurt content u w0 {d..<d + P} m (w\<lparr>w_flash := f\<rparr>)"
      using w e(1) mem_agree_trans [OF agree] by (simp add: at_def hurt_def)
  qed
  moreover have "triple (at content up u w0 (?m (k + 1))) (copy_block drv a [k + 1..<n])
      (at content up u w0 (partial d a P P m)) (hurt content u w0 {d..<d + P} m)"
    by (rule Suc.hyps(1)) (use k in simp_all)
  ultimately have "triple (at content up u w0 (?m k)) (copy_block drv a (k # [k + 1..<n]))
      (at content up u w0 (partial d a P P m)) (hurt content u w0 {d..<d + P} m)"
    unfolding copy_block.simps [abs_def] by (intro triple_retry hurt_retry)
  then show ?case using upt_conv_Cons [OF k(1)] by simp
qed

end

section \<open>A complete move\<close>

definition moved :: "'f wl_flash \<Rightarrow> mem \<Rightarrow> mem" where
  "moved w m = mem_write (wc_start_addr (w_cfg w) + ws_pos (w_state w) * wc_page_size (w_cfg w))
     (mem_read (wc_start_addr (w_cfg w) + next_block w * wc_page_size (w_cfg w)) (wc_page_size (w_cfg w)) m) m"

definition is_record :: "(byte list \<Rightarrow> nat) \<Rightarrow> 'f wl_flash \<Rightarrow> byte list \<Rightarrow> bool" where
  "is_record crc w bs \<longleftrightarrow> length bs = wc_wr_size (w_cfg w) \<and>
     take 16 bs = ok_bytes crc (ws_device_id (w_state w)) (ws_pos (w_state w))"

definition rec_addr :: "nat \<Rightarrow> 'f wl_flash \<Rightarrow> nat" where
  "rec_addr a w = record_addr a (ws_pos (w_state w)) w"

text \<open>A state area after it was erased and its header written.\<close>

definition stamped :: "nat \<Rightarrow> nat \<Rightarrow> byte list \<Rightarrow> mem \<Rightarrow> mem" where
  "stamped a n bs m = mem_write a (bs @ replicate (n - length bs) 255) m"

definition round_mem :: "'f wl_flash \<Rightarrow> wl_state \<Rightarrow> mem \<Rightarrow> mem" where
  "round_mem w s m = stamped (w_addr_state2 w) (w_state_size w) (state_bytes s)
     (stamped (w_addr_state1 w) (w_state_size w) (state_bytes s) m)"

definition done_state :: "(byte list \<Rightarrow> nat) \<Rightarrow> wl_state \<Rightarrow> wl_state" where
  "done_state crc s = (if ws_pos s + 1 = ws_max_pos s then (next_state s)\<lparr>ws_crc := state_crc crc (next_state s)\<rparr> else next_state s)"

definition recorded :: "'f wl_flash \<Rightarrow> byte list \<Rightarrow> byte list \<Rightarrow> mem \<Rightarrow> mem" where
  "recorded w r1 r2 m = nor_write (rec_addr (w_addr_state2 w) w) r2 (nor_write (rec_addr (w_addr_state1 w) w) r1 (moved w m))"

definition move_done :: "(byte list \<Rightarrow> nat) \<Rightarrow> ('f \<Rightarrow> mem) \<Rightarrow> 'f wl_flash \<Rightarrow> mem \<Rightarrow> 'f wl_flash \<Rightarrow> bool" where
  "move_done crc content w m w' \<longleftrightarrow> (\<exists>r1 r2. is_record crc w r1 \<and> is_record crc w r2 \<and> base w' = base w \<and>
     w_state w' = done_state crc ((w_state w)\<lparr>ws_access_count := 0\<rparr>) \<and>
     content (w_flash w') = (if ws_pos (w_state w) + 1 = ws_max_pos (w_state w)
       then round_mem w (w_state w') (recorded w r1 r2 m) else recorded w r1 r2 m))"

text \<open>The errors: in the dummy block, in one of the two records, or in the main state after a round.\<close>

definition states_area :: "'f wl_flash \<Rightarrow> nat set" where
  "states_area w = {w_addr_state1 w..<w_addr_state2 w + w_state_size w}"

definition move_failed :: "(byte list \<Rightarrow> nat) \<Rightarrow> ('f \<Rightarrow> mem) \<Rightarrow> 'f wl_flash \<Rightarrow> mem \<Rightarrow> 'f wl_flash \<Rightarrow> bool" where
  "move_failed crc content w m w' \<longleftrightarrow>
     hurt content False w (dummy w) m w' \<or>
     hurt content False w {rec_addr (w_addr_state1 w) w..<rec_addr (w_addr_state1 w) w + wc_wr_size (w_cfg w)} (moved w m) w' \<or>
     (\<exists>r1. is_record crc w r1 \<and>
        hurt content False w {rec_addr (w_addr_state2 w) w..<rec_addr (w_addr_state2 w) w + wc_wr_size (w_cfg w)}
          (nor_write (rec_addr (w_addr_state1 w) w) r1 (moved w m)) w') \<or>
     (ws_pos (w_state w) + 1 = ws_max_pos (w_state w) \<and> base w' = base w \<and> core (w_state w') = core (next_state (w_state w)) \<and>
        mem_agree (- states_area w) (moved w m) (content (w_flash w')))"

lemma length_state_bytes: "length (ws_reserved s) = 7 \<Longrightarrow> length (state_bytes s) = sizeof_state"
proof -
  have "length (concat (map le32 xs)) = 4 * length xs" for xs by (induction xs) simp_all
  then show "length (ws_reserved s) = 7 \<Longrightarrow> ?thesis" by (simp add: state_bytes_def sizeof_state_def)
qed

lemma length_ok_bytes [simp]: "length (ok_bytes crc i n) = 16"
  by (simp add: ok_bytes_def upt_rec)

lemma nor_stamped:
  assumes "a + n \<le> length m" "length bs \<le> n"
  shows "nor_write a bs (nor_erase a n m) = stamped a n bs m"
proof -
  have "mem_read a (length bs) (nor_erase a n m) = replicate (length bs) 255"
    using mem_read_fill [of "[]" 0 a n m "length bs" 255] assms by (simp add: nor_erase_def)
  then have "nor_write a bs (nor_erase a n m) = mem_write a bs (nor_erase a n m)" by (rule nor_write_erased)
  then show ?thesis using mem_write_fill [of "[]" 0 a bs "n - length bs" m 255] assms by (simp add: nor_erase_def stamped_def)
qed

text \<open>The areas of the geometry, as inequalities.\<close>

lemma areas:
  assumes "wl_geom w"
  shows "wc_start_addr (w_cfg w) + w_flash_size w + wc_page_size (w_cfg w) \<le> w_addr_state1 w"
    "w_addr_state1 w + w_state_size w \<le> w_addr_state2 w" "w_addr_state2 w + w_state_size w \<le> w_addr_cfg w"
    "i \<le> n_blocks w \<Longrightarrow> sizeof_state + i * wc_wr_size (w_cfg w) + wc_wr_size (w_cfg w) \<le> w_state_size w"
    "16 \<le> wc_wr_size (w_cfg w)" "wc_wr_size (w_cfg w) \<le> length (w_temp_buff w)" "length (w_temp_buff w) = wc_temp_buff_size (w_cfg w)"
    "w_addr_cfg w + w_cfg_size w < 2 ^ 32"
proof -
  have z: "wl_sizes w" using assms by (simp add: wl_geom_def)
  then show "wc_start_addr (w_cfg w) + w_flash_size w + wc_page_size (w_cfg w) \<le> w_addr_state1 w"
    "w_addr_state1 w + w_state_size w \<le> w_addr_state2 w" "w_addr_state2 w + w_state_size w \<le> w_addr_cfg w"
    "16 \<le> wc_wr_size (w_cfg w)" "wc_wr_size (w_cfg w) \<le> length (w_temp_buff w)" "length (w_temp_buff w) = wc_temp_buff_size (w_cfg w)"
    "w_addr_cfg w + w_cfg_size w < 2 ^ 32"
    by (simp_all add: wl_sizes_def Let_def)
  assume "i \<le> n_blocks w"
  then have "i * wc_wr_size (w_cfg w) \<le> n_blocks w * wc_wr_size (w_cfg w)" by (rule mult_le_mono1)
  moreover have "sizeof_state + (n_blocks w * wc_wr_size (w_cfg w) + wc_wr_size (w_cfg w)) \<le> w_state_size w"
    using z by (simp add: wl_sizes_def Let_def n_blocks_def add.commute)
  ultimately show "sizeof_state + i * wc_wr_size (w_cfg w) + wc_wr_size (w_cfg w) \<le> w_state_size w" by linarith
qed

lemma block_area:
  assumes "wl_geom w" "b \<le> n_blocks w"
  shows "b * wc_page_size (w_cfg w) + wc_page_size (w_cfg w) \<le> w_flash_size w + wc_page_size (w_cfg w)"
  using n_blocks(1) [of w] assms mult_le_mono1 [OF assms(2), of "wc_page_size (w_cfg w)"] by (simp add: wl_geom_def)

lemma next_block_le:
  assumes "wl_geom w"
  shows "next_block w \<le> n_blocks w" "next_block w \<noteq> ws_pos (w_state w)" "ws_pos (w_state w) \<le> n_blocks w"
  using assms n_blocks(2) [of w] by (auto simp: next_block_def wl_geom_def wl_pos_ok_def)

lemma blocks_disjoint: "b \<noteq> c \<Longrightarrow> b * P + P \<le> c * P \<or> c * P + P \<le> b * (P :: nat)"
  using mult_le_mono1 [of "b + 1" c P] mult_le_mono1 [of "c + 1" b P] by (cases "b < c") auto

context flash_driver begin

lemma write_state_rule:
  fixes w0 :: "'f wl_flash"
  assumes "a + w_state_size w0 \<le> length m" "SPI_FLASH_SEC_SIZE dvd a" "SPI_FLASH_SEC_SIZE dvd w_state_size w0"
    "length (state_bytes (w_state w0)) \<le> w_state_size w0"
  shows "triple (at content up u w0 m) (write_state drv a)
    (at content up u w0 (stamped a (w_state_size w0) (state_bytes (w_state w0)) m)) (hurt content u w0 {a..<a + w_state_size w0} m)"
proof -
  let ?n = "w_state_size w0" and ?b = "state_bytes (w_state w0)" and ?E = "hurt content u w0 {a..<a + w_state_size w0} m"
  have eq: "write_state drv a = check (\<lambda>w. drv_erase_range drv a (w_state_size w) w) (\<lambda>w. drv_write drv a (state_bytes (w_state w)) w)"
    by (rule ext) (simp add: write_state_def check_def)
  have "triple (at content up u w0 m) (\<lambda>w. drv_erase_range drv a (w_state_size w) w) (at content up u w0 (nor_erase a ?n m)) ?E"
    by (rule erase_rule [where u = u]) (use assms in \<open>auto simp: at_def hurt_def base_eq\<close>)
  moreover have "triple (at content up u w0 (nor_erase a ?n m)) (\<lambda>w. drv_write drv a (state_bytes (w_state w)) w)
      (at content up u w0 (stamped a ?n ?b m)) ?E"
  proof (rule write_rule [where u = u])
    fix w f assume w: "at content up u w0 (nor_erase a ?n m) w"
    then show "u \<Longrightarrow> up (w_flash w) \<and> a + length (state_bytes (w_state w)) \<le> length (content (w_flash w))"
      using assms by (simp add: at_def)
    show "u \<longrightarrow> up f \<Longrightarrow> content f = nor_write a (state_bytes (w_state w)) (content (w_flash w)) \<Longrightarrow>
        at content up u w0 (stamped a ?n ?b m) (w\<lparr>w_flash := f\<rparr>)"
      using w nor_stamped [OF assms(1,4)] by (simp add: at_def)
    assume e: "\<not> u" "mem_agree (- {a..<a + length (state_bytes (w_state w))}) (content (w_flash w)) (content f)"
    have "mem_agree (- {a..<a + ?n}) (nor_erase a ?n m) (content f)"
      by (rule agree_widen [where a = a and n = "length (state_bytes (w_state w))"]) (use e(2) w assms(4) in \<open>simp_all add: at_def\<close>)
    then show "hurt content u w0 {a..<a + ?n} m (w\<lparr>w_flash := f\<rparr>)"
      using w e(1) mem_agree_trans [OF nor_frame(2) [OF assms(1)]] by (simp add: at_def hurt_def)
  qed
  ultimately show ?thesis unfolding eq by (rule triple_check)
qed

end

lemma small_positions:
  assumes "wl_geom w"
  shows "ws_pos (w_state w) + 1 < 2 ^ 32" "ws_move_count (w_state w) + 1 < 2 ^ 32" "ws_max_pos (w_state w) < 2 ^ 32" "0 < ws_max_pos (w_state w)"
proof -
  have "wl_sizes w" and p: "ws_max_pos (w_state w) = n_blocks w + 1" "ws_pos (w_state w) < ws_max_pos (w_state w)" "ws_move_count (w_state w) < n_blocks w"
    using assms by (auto simp: wl_geom_def wl_pos_ok_def)
  have "w_flash_size w < 2 ^ 31" using assms by (simp add: wl_geom_def wl_sizes_def Let_def)
  moreover have "n_blocks w \<le> w_flash_size w" by (simp add: n_blocks_def)
  ultimately have "n_blocks w < 2 ^ 31" by (rule le_less_trans [rotated])
  then show "ws_pos (w_state w) + 1 < 2 ^ 32" "ws_move_count (w_state w) + 1 < 2 ^ 32" "ws_max_pos (w_state w) < 2 ^ 32" "0 < ws_max_pos (w_state w)"
    using p by simp_all
qed

lemma reserved_next: "length (ws_reserved (done_state crc s)) = length (ws_reserved s)"
  by (simp add: done_state_def next_state_def)

lemma next_pos_eq:
  assumes "wl_geom w"
  shows "next_pos drv crc w = (if ws_pos (w_state w) + 1 = ws_max_pos (w_state w)
    then check (\<lambda>w. write_state drv (w_addr_state1 w) w) (\<lambda>w. write_state drv (w_addr_state2 w) w) (w\<lparr>w_state := done_state crc (w_state w)\<rparr>)
    else Inr (ESP_OK, w\<lparr>w_state := done_state crc (w_state w)\<rparr>))"
proof -
  note sm = small_positions [OF assms]
  have "ws_pos (w_state w) < ws_max_pos (w_state w)" using assms by (simp add: wl_geom_def wl_pos_ok_def)
  then have "ws_max_pos (w_state w) \<le> ws_pos (w_state w) + 1 \<longleftrightarrow> ws_pos (w_state w) + 1 = ws_max_pos (w_state w)" by linarith
  moreover have "usub (ws_max_pos (w_state w)) 1 = ws_max_pos (w_state w) - 1" using sm by simp
  moreover have "ws_max_pos (w_state w) - 1 \<le> ws_move_count (w_state w) + 1 \<longleftrightarrow> ws_max_pos (w_state w) \<le> ws_move_count (w_state w) + 2" by linarith
  ultimately show ?thesis using sm by (simp add: next_pos_def done_state_def next_state_def Let_def del: One_nat_def)
qed

context flash_driver begin

lemma next_pos_rule:
  fixes w0 :: "'f wl_flash"
  assumes g: "wl_geom w0" and m: "fits w0 m"
  shows "triple (at content up u w0 m) (next_pos drv crc)
    (\<lambda>w. base w = base w0 \<and> w_state w = done_state crc (w_state w0) \<and> (u \<longrightarrow> up (w_flash w)) \<and>
       content (w_flash w) = (if ws_pos (w_state w0) + 1 = ws_max_pos (w_state w0) then round_mem w0 (w_state w) m else m))
    (\<lambda>w. \<not> u \<and> base w = base w0 \<and> ws_pos (w_state w0) + 1 = ws_max_pos (w_state w0) \<and>
       core (w_state w) = core (next_state (w_state w0)) \<and> mem_agree (- states_area w0) m (content (w_flash w)))"
    (is "triple _ _ ?Q ?E")
proof (rule tripleI)
  fix w assume w: "at content up u w0 m w"
  have gw: "wl_geom w" using w g geom_core(1) [of w w0] by (simp add: at_def)
  note eq = next_pos_eq [OF gw, of drv crc]
  show "\<exists>r w'. next_pos drv crc w = Inr (r, w') \<and> (if r = ESP_OK then ?Q w' else ?E w')"
  proof (cases "ws_pos (w_state w0) + 1 = ws_max_pos (w_state w0)")
    case False
    then show ?thesis using eq w by (simp add: at_def)
  next
    case True
    let ?s = "done_state crc (w_state w0)"
    let ?v = "w\<lparr>w_state := ?s\<rparr>" and ?n = "w_state_size w0" and ?b = "state_bytes ?s"
    have v: "base ?v = base w0" "at content up u ?v m ?v" using w by (simp_all add: at_def)
    have ad: "w_addr_state1 ?v = w_addr_state1 w0" "w_addr_state2 ?v = w_addr_state2 w0" "w_state_size ?v = ?n"
      using w by (simp_all add: at_def base_eq)
    note ar = areas [OF g]
    have lens: "length ?b = sizeof_state" using g by (intro length_state_bytes) (simp add: reserved_next wl_geom_def wl_pos_ok_def)
    have al: "SPI_FLASH_SEC_SIZE dvd w_addr_state1 w0" "SPI_FLASH_SEC_SIZE dvd w_addr_state2 w0" "SPI_FLASH_SEC_SIZE dvd ?n"
      using g by (simp_all add: wl_geom_def wl_sizes_def Let_def)
    have nb: "length ?b \<le> ?n" using ar(4) [of 0] lens by simp
    have l1: "w_addr_state1 w0 + ?n \<le> length m" "w_addr_state2 w0 + ?n \<le> length m" using ar(2,3) m by (simp_all add: fits_def)
    let ?m1 = "stamped (w_addr_state1 w0) ?n ?b m"
    have len1: "length ?m1 = length m" using l1(1) nb by (simp add: stamped_def)
    have t1: "triple (at content up u ?v m) (\<lambda>w. write_state drv (w_addr_state1 w) w) (at content up u ?v ?m1) ?E"
    proof (rule triple_cong [OF triple_post [OF write_state_rule [of "w_addr_state1 w0" ?v m u]]])
      fix w1 assume "hurt content u ?v {w_addr_state1 w0..<w_addr_state1 w0 + w_state_size ?v} m w1"
      then show "?E w1" using True v(1) ar(2) ad(3)
        by (auto simp: hurt_def done_state_def states_area_def elim!: mem_agree_subset)
    qed (use l1 al nb ad in \<open>simp_all add: at_def base_eq\<close>)
    have t2: "triple (at content up u ?v ?m1) (\<lambda>w. write_state drv (w_addr_state2 w) w)
        (at content up u ?v (stamped (w_addr_state2 w0) ?n ?b ?m1)) ?E"
    proof (rule triple_cong [OF triple_post [OF write_state_rule [of "w_addr_state2 w0" ?v ?m1 u]]])
      fix w1 assume "hurt content u ?v {w_addr_state2 w0..<w_addr_state2 w0 + w_state_size ?v} ?m1 w1"
      moreover have "mem_agree (- states_area w0) m ?m1"
        unfolding stamped_def by (rule mem_agree_write) (use l1 nb ar(2) in \<open>auto simp: states_area_def\<close>)
      ultimately show "?E w1" using True v(1) ar(2) ad(3)
        by (auto simp: hurt_def done_state_def states_area_def elim!: mem_agree_subset mem_agree_trans)
    qed (use l1 al nb ad len1 in \<open>simp_all add: at_def base_eq\<close>)
    from tripleD [OF triple_check [OF t1 t2] v(2)] obtain r w' where
      r: "check (\<lambda>w. write_state drv (w_addr_state1 w) w) (\<lambda>w. write_state drv (w_addr_state2 w) w) ?v = Inr (r, w')"
      "if r = ESP_OK then at content up u ?v (stamped (w_addr_state2 w0) ?n ?b ?m1) w' else ?E w'" by (elim exE conjE)
    have "next_pos drv crc w = Inr (r, w')" using eq True w r(1) by (simp add: at_def)
    then show ?thesis using r(2) v(1) True by (auto simp: at_def round_mem_def)
  qed
qed

end

lemma length_moved:
  assumes "wl_geom w" "fits w m"
  shows "length (moved w m) = length m" "mem_agree (- dummy w) m (moved w m)"
proof -
  note a = areas [OF assms(1)] and n = next_block_le [OF assms(1)]
  have l: "wc_start_addr (w_cfg w) + b * wc_page_size (w_cfg w) + wc_page_size (w_cfg w) \<le> length m" if "b \<le> n_blocks w" for b
    using block_area [OF assms(1) that] a(1-3) assms(2) by (simp add: fits_def)
  show "mem_agree (- dummy w) m (moved w m)"
    unfolding moved_def by (rule mem_agree_write) (use l [OF n(1)] l [OF n(3)] in \<open>simp_all add: dummy_def\<close>)
  then show "length (moved w m) = length m" by (simp add: mem_agree_def)
qed

lemma rec_area:
  assumes "wl_geom w" "i \<le> n_blocks w"
  shows "record_addr (w_addr_state1 w) i w + wc_wr_size (w_cfg w) \<le> w_addr_state1 w + w_state_size w"
    "record_addr (w_addr_state2 w) i w + wc_wr_size (w_cfg w) \<le> w_addr_state2 w + w_state_size w"
    "w_addr_state1 w + sizeof_state \<le> record_addr (w_addr_state1 w) i w" "w_addr_state2 w + sizeof_state \<le> record_addr (w_addr_state2 w) i w"
  using areas(4) [OF assms] by (simp_all add: record_addr_def)

context flash_driver begin

lemma fill_rule:
  fixes w0 :: "'f wl_flash"
  assumes "wl_geom w0"
  shows "triple (at content up u w0 m) (fillOkBuff crc (ws_pos (w_state w0)))
    (\<lambda>w. at content up u w0 m w \<and> is_record crc w0 (temp_record w)) E"
proof (rule tripleI)
  fix w assume w: "at content up u w0 m w"
  note a = areas [OF assms]
  have c: "w_cfg w = w_cfg w0" "length (w_temp_buff w) = length (w_temp_buff w0)" "w_state w = w_state w0" using w by (simp_all add: at_def base_eq)
  then show "\<exists>r w'. fillOkBuff crc (ws_pos (w_state w0)) w = Inr (r, w') \<and>
      (if r = ESP_OK then at content up u w0 m w' \<and> is_record crc w0 (temp_record w') else E w')"
    using a(5,6) w by (simp add: fillOkBuff_def at_def is_record_def temp_record_def take_drop min_def)
qed

lemma record_rule:
  fixes w0 :: "'f wl_flash"
  assumes g: "wl_geom w0" and m: "fits w0 m"
    and a: "a w0 + sizeof_state + ws_pos (w_state w0) * wc_wr_size (w_cfg w0) + wc_wr_size (w_cfg w0) \<le> w_addr_cfg w0"
    "\<And>w. base w = base w0 \<Longrightarrow> a w = a w0"
  shows "triple (\<lambda>w. at content up u w0 m w \<and> is_record crc w0 (temp_record w))
    (\<lambda>w. drv_write drv (record_addr (a w) (ws_pos (w_state w0)) w) (temp_record w) w)
    (\<lambda>w. \<exists>r. is_record crc w0 r \<and> at content up u w0 (nor_write (rec_addr (a w0) w0) r m) w)
    (hurt content u w0 {rec_addr (a w0) w0..<rec_addr (a w0) w0 + wc_wr_size (w_cfg w0)} m)"
proof (rule write_rule [where u = u])
  fix w f assume w: "at content up u w0 m w \<and> is_record crc w0 (temp_record w)"
  then have r: "record_addr (a w) (ws_pos (w_state w0)) w = rec_addr (a w0) w0" "length (temp_record w) = wc_wr_size (w_cfg w0)"
    using a(2) [of w] by (simp_all add: at_def base_eq record_addr_def rec_addr_def is_record_def)
  show "u \<Longrightarrow> up (w_flash w) \<and> record_addr (a w) (ws_pos (w_state w0)) w + length (temp_record w) \<le> length (content (w_flash w))"
    using w a(1) m unfolding r by (simp add: at_def rec_addr_def record_addr_def fits_def)
  show "u \<longrightarrow> up f \<Longrightarrow> content f = nor_write (record_addr (a w) (ws_pos (w_state w0)) w) (temp_record w) (content (w_flash w)) \<Longrightarrow>
      \<exists>r. is_record crc w0 r \<and> at content up u w0 (nor_write (rec_addr (a w0) w0) r m) (w\<lparr>w_flash := f\<rparr>)"
    using w by (intro exI [of _ "temp_record w"]) (simp add: r at_def)
  show "\<not> u \<Longrightarrow> mem_agree (- {record_addr (a w) (ws_pos (w_state w0)) w..<record_addr (a w) (ws_pos (w_state w0)) w + length (temp_record w)})
      (content (w_flash w)) (content f) \<Longrightarrow>
    hurt content u w0 {rec_addr (a w0) w0..<rec_addr (a w0) w0 + wc_wr_size (w_cfg w0)} m (w\<lparr>w_flash := f\<rparr>)"
    using w by (simp add: r at_def hurt_def)
qed

end

text \<open>\<^verbatim>\<open>updateWL\<close> either counts the access or moves a block.\<close>

definition start_move :: "'f wl_flash \<Rightarrow> 'f wl_flash" where
  "start_move w = (set_access 0 w)\<lparr>w_dummy_addr := wc_start_addr (w_cfg w) + ws_pos (w_state w) * wc_page_size (w_cfg w)\<rparr>"

lemma updateWL_eq:
  assumes "wl_geom w"
  shows "updateWL drv crc w =
    (if uadd (ws_access_count (w_state w)) 1 < ws_max_count (w_state w)
     then Inr (ESP_OK, set_access (uadd (ws_access_count (w_state w)) 1) w)
     else or_retry (\<lambda>v. drv_erase_range drv (w_dummy_addr v) (wc_page_size (w_cfg w)) v)
         (or_retry (copy_block drv (wc_start_addr (w_cfg w) + next_block w * wc_page_size (w_cfg w))
            [0..<wc_page_size (w_cfg w) div wc_temp_buff_size (w_cfg w)])
         (or_retry (fillOkBuff crc (ws_pos (w_state w)))
         (or_retry (\<lambda>v. drv_write drv (record_addr (w_addr_state1 v) (ws_pos (w_state w)) v) (temp_record v) v)
         (or_retry (fillOkBuff crc (ws_pos (w_state w)))
         (or_retry (\<lambda>v. drv_write drv (record_addr (w_addr_state2 v) (ws_pos (w_state w)) v) (temp_record v) v)
           (next_pos drv crc)))))) (start_move w))"
proof -
  have p: "ws_pos (w_state w) < ws_max_pos (w_state w)" "0 < wc_temp_buff_size (w_cfg w)"
    using assms by (simp_all add: wl_geom_def wl_pos_ok_def wl_sizes_def Let_def)
  have u: "uadd (ws_pos (w_state w)) 1 = ws_pos (w_state w) + 1" using small_positions(1) [OF assms] by simp
  have "next_block w = (if ws_max_pos (w_state w) \<le> ws_pos (w_state w) + 1 then 0 else ws_pos (w_state w) + 1)"
    using p(1) by (auto simp: next_block_def)
  then show ?thesis using p(2) unfolding updateWL_def Let_def set_access_def start_move_def by (simp add: u [simplified])
qed

lemma move_fits:
  assumes g: "wl_geom w" and m: "fits w m"
  shows "b \<le> n_blocks w \<Longrightarrow> wc_start_addr (w_cfg w) + b * wc_page_size (w_cfg w) + wc_page_size (w_cfg w) \<le> length m"
    "rec_addr (w_addr_state1 w) w + wc_wr_size (w_cfg w) \<le> w_addr_cfg w" "rec_addr (w_addr_state2 w) w + wc_wr_size (w_cfg w) \<le> w_addr_cfg w"
    "fits w (moved w m)" "is_record crc w r \<Longrightarrow> fits w (nor_write (rec_addr (w_addr_state1 w) w) r (moved w m))"
    "is_record crc w r \<Longrightarrow> is_record crc w r' \<Longrightarrow> fits w (recorded w r r' m)"
    "is_record crc w r \<Longrightarrow> is_record crc w r' \<Longrightarrow> mem_agree (- states_area w) (moved w m) (recorded w r r' m)"
proof -
  let ?r1 = "rec_addr (w_addr_state1 w) w" and ?r2 = "rec_addr (w_addr_state2 w) w"
  note ar = areas [OF g] and n = next_block_le [OF g] and ra = rec_area [OF g next_block_le(3) [OF g]]
  show "b \<le> n_blocks w \<Longrightarrow> wc_start_addr (w_cfg w) + b * wc_page_size (w_cfg w) + wc_page_size (w_cfg w) \<le> length m"
    using block_area [OF g, of b] ar(1-3) m by (simp add: fits_def)
  show r: "?r1 + wc_wr_size (w_cfg w) \<le> w_addr_cfg w" "?r2 + wc_wr_size (w_cfg w) \<le> w_addr_cfg w"
    using ra ar(2,3) by (simp_all add: rec_addr_def)
  show f: "fits w (moved w m)" using length_moved [OF g m] m by (simp add: fits_def)
  assume r1: "is_record crc w r"
  then have l1: "length r = wc_wr_size (w_cfg w)" by (simp add: is_record_def)
  show f1: "fits w (nor_write ?r1 r (moved w m))" using f r(1) l1 by (simp add: fits_def)
  assume r2: "is_record crc w r'"
  then have l2: "length r' = wc_wr_size (w_cfg w)" by (simp add: is_record_def)
  show "fits w (recorded w r r' m)" using f1 r(2) l2 by (simp add: fits_def recorded_def)
  have "mem_agree (- states_area w) (moved w m) (nor_write ?r1 r (moved w m))"
    by (rule mem_agree_subset [OF nor_frame(1)]) (use f r ra ar(2) l1 in \<open>auto simp: fits_def states_area_def rec_addr_def\<close>)
  moreover have "mem_agree (- states_area w) (nor_write ?r1 r (moved w m)) (recorded w r r' m)"
    unfolding recorded_def
    by (rule mem_agree_subset [OF nor_frame(1)]) (use f1 r ra ar(2) l2 in \<open>auto simp: fits_def states_area_def rec_addr_def\<close>)
  ultimately show "mem_agree (- states_area w) (moved w m) (recorded w r r' m)" by (rule mem_agree_trans)
qed

lemma hurt_failed:
  assumes "hurt content u w0 A m' w" "hurt content False w0 A m' (retry w) \<Longrightarrow> move_failed crc content w0 m (retry w)"
  shows "move_failed crc content w0 m (retry w) \<and> \<not> u"
  using hurt_retry [OF assms(1)] assms(2) by (simp add: hurt_def)

context flash_driver begin

lemma record2_rule:
  fixes w0 :: "'f wl_flash"
  assumes g: "wl_geom w0" and m: "fits w0 m"
  defines "r1 \<equiv> rec_addr (w_addr_state1 w0) w0" and "r2 \<equiv> rec_addr (w_addr_state2 w0) w0"
  shows "triple (\<lambda>w. \<exists>r. is_record crc w0 r \<and> at content up u w0 (nor_write r1 r (moved w0 m)) w \<and> is_record crc w0 (temp_record w))
      (\<lambda>v. drv_write drv (record_addr (w_addr_state2 v) (ws_pos (w_state w0)) v) (temp_record v) v)
      (\<lambda>w. \<exists>r r'. is_record crc w0 r \<and> is_record crc w0 r' \<and> at content up u w0 (recorded w0 r r' m) w)
      (\<lambda>w. \<exists>r. is_record crc w0 r \<and> hurt content u w0 {r2..<r2 + wc_wr_size (w_cfg w0)} (nor_write r1 r (moved w0 m)) w)"
proof (intro triple_ex triple_assume)
  fix r assume r: "is_record crc w0 r"
  note mf = move_fits [OF g m]
  have "triple (\<lambda>w. at content up u w0 (nor_write r1 r (moved w0 m)) w \<and> is_record crc w0 (temp_record w))
    (\<lambda>v. drv_write drv (record_addr (w_addr_state2 v) (ws_pos (w_state w0)) v) (temp_record v) v)
    (\<lambda>w. \<exists>r'. is_record crc w0 r' \<and> at content up u w0 (nor_write r2 r' (nor_write r1 r (moved w0 m))) w)
    (hurt content u w0 {r2..<r2 + wc_wr_size (w_cfg w0)} (nor_write r1 r (moved w0 m)))"
    unfolding r1_def r2_def by (rule record_rule [OF g mf(5) [OF r]]) (use mf(3) in \<open>simp_all add: rec_addr_def record_addr_def base_eq\<close>)
  then show "triple (\<lambda>w. at content up u w0 (nor_write r1 r (moved w0 m)) w \<and> is_record crc w0 (temp_record w))
    (\<lambda>v. drv_write drv (record_addr (w_addr_state2 v) (ws_pos (w_state w0)) v) (temp_record v) v)
    (\<lambda>w. \<exists>r r'. is_record crc w0 r \<and> is_record crc w0 r' \<and> at content up u w0 (recorded w0 r r' m) w)
    (\<lambda>w. \<exists>r. is_record crc w0 r \<and> hurt content u w0 {r2..<r2 + wc_wr_size (w_cfg w0)} (nor_write r1 r (moved w0 m)) w)"
    by (rule triple_post) (use r in \<open>unfold recorded_def r1_def r2_def, blast+\<close>)
qed

lemma last_rule:
  fixes w0 :: "'f wl_flash"
  assumes g: "wl_geom w0" and m: "fits w0 m" and acc: "ws_access_count (w_state w0) = 0"
  shows "triple (\<lambda>w. \<exists>r r'. is_record crc w0 r \<and> is_record crc w0 r' \<and> at content up u w0 (recorded w0 r r' m) w)
      (next_pos drv crc) (\<lambda>w. move_done crc content w0 m w \<and> (u \<longrightarrow> up (w_flash w))) (\<lambda>w. move_failed crc content w0 m w \<and> \<not> u)"
    (is "triple _ _ ?Q ?E")
proof (intro triple_ex triple_assume)
  fix r r' assume rs: "is_record crc w0 r" "is_record crc w0 r'"
  note mf = move_fits [OF g m]
  show "triple (at content up u w0 (recorded w0 r r' m)) (next_pos drv crc) ?Q ?E"
  proof (rule triple_post [OF next_pos_rule [OF g mf(6) [OF rs]]])
    fix w assume "base w = base w0 \<and> w_state w = done_state crc (w_state w0) \<and> (u \<longrightarrow> up (w_flash w)) \<and>
      content (w_flash w) = (if ws_pos (w_state w0) + 1 = ws_max_pos (w_state w0) then round_mem w0 (w_state w) (recorded w0 r r' m) else recorded w0 r r' m)"
    moreover have "(w_state w0)\<lparr>ws_access_count := 0\<rparr> = w_state w0" using acc by (cases "w_state w0") simp
    ultimately show "?Q w" using rs unfolding move_done_def by (intro conjI, intro exI [of _ r] exI [of _ r']) simp_all
  next
    fix w assume "\<not> u \<and> base w = base w0 \<and> ws_pos (w_state w0) + 1 = ws_max_pos (w_state w0) \<and>
      core (w_state w) = core (next_state (w_state w0)) \<and> mem_agree (- states_area w0) (recorded w0 r r' m) (content (w_flash w))"
    then show "?E w" using mem_agree_trans [OF mf(7) [OF rs]] by (simp add: move_failed_def)
  qed
qed

lemma copy_rules:
  fixes w0 :: "'f wl_flash"
  assumes g: "wl_geom w0" and m: "fits w0 m" and d: "w_dummy_addr w0 = wc_start_addr (w_cfg w0) + ws_pos (w_state w0) * wc_page_size (w_cfg w0)"
  defines "a \<equiv> wc_start_addr (w_cfg w0) + next_block w0 * wc_page_size (w_cfg w0)" and "P \<equiv> wc_page_size (w_cfg w0)" and "T \<equiv> wc_temp_buff_size (w_cfg w0)"
  shows "triple (at content up u w0 m) (\<lambda>v. drv_erase_range drv (w_dummy_addr v) P v)
      (at content up u w0 (partial (w_dummy_addr w0) a P (0 * T) m)) (hurt content u w0 (dummy w0) m)"
    "triple (at content up u w0 (partial (w_dummy_addr w0) a P (0 * T) m)) (copy_block drv a [0..<P div T])
      (at content up u w0 (moved w0 m)) (hurt content u w0 (dummy w0) m)"
proof -
  let ?s = "wc_start_addr (w_cfg w0)" and ?d = "w_dummy_addr w0"
  note mf = move_fits [OF g m] and n = next_block_le [OF g]
  have l: "?d + P \<le> length m" "a + P \<le> length m" using mf(1) [OF n(1)] mf(1) [OF n(3)] by (simp_all add: d a_def P_def)
  have dis: "?d + P \<le> a \<or> a + P \<le> ?d" using blocks_disjoint [OF n(2), of P] by (auto simp: a_def P_def d)
  have T: "P = P div T * T" "SPI_FLASH_SEC_SIZE dvd P" "SPI_FLASH_SEC_SIZE dvd ?d"
    using g by (simp_all add: wl_geom_def wl_sizes_def Let_def P_def T_def d)
  have dum: "dummy w0 = {?d..<?d + P}" by (simp add: dummy_def d P_def)
  show "triple (at content up u w0 m) (\<lambda>v. drv_erase_range drv (w_dummy_addr v) P v)
      (at content up u w0 (partial ?d a P (0 * T) m)) (hurt content u w0 (dummy w0) m)"
    by (rule erase_rule [where u = u]) (use l T in \<open>auto simp: at_def hurt_def partial_ends dum\<close>)
  have "length (w_temp_buff w0) = T" using areas(7) [OF g] by (simp add: T_def)
  then show "triple (at content up u w0 (partial ?d a P (0 * T) m)) (copy_block drv a [0..<P div T])
      (at content up u w0 (moved w0 m)) (hurt content u w0 (dummy w0) m)"
    using copy_block_rule [of w0 m a "P div T" 0 u] l dis T(1) unfolding P_def [symmetric] T_def [symmetric]
    by (simp add: partial_ends dum moved_def d P_def a_def)
qed

lemma move_rule:
  fixes w0 :: "'f wl_flash"
  assumes g: "wl_geom w0" and m: "fits w0 m" and d: "w_dummy_addr w0 = wc_start_addr (w_cfg w0) + ws_pos (w_state w0) * wc_page_size (w_cfg w0)"
    and acc: "ws_access_count (w_state w0) = 0"
  shows "triple (at content up u w0 m)
    (or_retry (\<lambda>v. drv_erase_range drv (w_dummy_addr v) (wc_page_size (w_cfg w0)) v)
         (or_retry (copy_block drv (wc_start_addr (w_cfg w0) + next_block w0 * wc_page_size (w_cfg w0))
            [0..<wc_page_size (w_cfg w0) div wc_temp_buff_size (w_cfg w0)])
         (or_retry (fillOkBuff crc (ws_pos (w_state w0)))
         (or_retry (\<lambda>v. drv_write drv (record_addr (w_addr_state1 v) (ws_pos (w_state w0)) v) (temp_record v) v)
         (or_retry (fillOkBuff crc (ws_pos (w_state w0)))
         (or_retry (\<lambda>v. drv_write drv (record_addr (w_addr_state2 v) (ws_pos (w_state w0)) v) (temp_record v) v)
           (next_pos drv crc)))))))
    (\<lambda>w. move_done crc content w0 m w \<and> (u \<longrightarrow> up (w_flash w))) (\<lambda>w. move_failed crc content w0 m w \<and> \<not> u)"
proof -
  let ?r1 = "rec_addr (w_addr_state1 w0) w0" and ?r2 = "rec_addr (w_addr_state2 w0) w0"
  note mf = move_fits [OF g m]
  have fill2: "triple (\<lambda>w. \<exists>r. is_record crc w0 r \<and> at content up u w0 (nor_write ?r1 r (moved w0 m)) w)
      (fillOkBuff crc (ws_pos (w_state w0)))
      (\<lambda>w. \<exists>r. is_record crc w0 r \<and> at content up u w0 (nor_write ?r1 r (moved w0 m)) w \<and> is_record crc w0 (temp_record w)) (hurt content u w0 (dummy w0) m)"
    by (intro triple_ex triple_assume, rule triple_post [OF fill_rule [OF g]]) (blast, assumption)
  have rec1: "triple (\<lambda>w. at content up u w0 (moved w0 m) w \<and> is_record crc w0 (temp_record w))
      (\<lambda>v. drv_write drv (record_addr (w_addr_state1 v) (ws_pos (w_state w0)) v) (temp_record v) v)
      (\<lambda>w. \<exists>r. is_record crc w0 r \<and> at content up u w0 (nor_write ?r1 r (moved w0 m)) w)
      (hurt content u w0 {?r1..<?r1 + wc_wr_size (w_cfg w0)} (moved w0 m))"
    by (rule record_rule [OF g mf(4)]) (use mf(2) in \<open>simp_all add: rec_addr_def record_addr_def base_eq\<close>)
  have fail: "hurt content u w0 (dummy w0) m w \<Longrightarrow> move_failed crc content w0 m (retry w) \<and> \<not> u"
    "hurt content u w0 {?r1..<?r1 + wc_wr_size (w_cfg w0)} (moved w0 m) w \<Longrightarrow> move_failed crc content w0 m (retry w) \<and> \<not> u"
    "\<exists>r. is_record crc w0 r \<and> hurt content u w0 {?r2..<?r2 + wc_wr_size (w_cfg w0)} (nor_write ?r1 r (moved w0 m)) w \<Longrightarrow>
      move_failed crc content w0 m (retry w) \<and> \<not> u" for w
    by (erule hurt_failed, simp add: move_failed_def)+ (elim exE conjE, erule hurt_failed, unfold move_failed_def, blast)
  show ?thesis
    by (rule triple_retry, rule copy_rules(1) [OF g m d], erule fail(1), rule triple_retry, rule copy_rules(2) [OF g m d], erule fail(1),
        rule triple_retry, rule fill_rule [OF g], erule fail(1), rule triple_retry, rule rec1, erule fail(2),
        rule triple_retry, rule fill2, erule fail(1), rule triple_retry, rule record2_rule [OF g m], erule fail(3), rule last_rule [OF g m acc])
qed

end

end
