(* ===== verification/WL_Stored.thy ===== *)
theory WL_Stored
  imports WL_Move
begin

text \<open>
  What the flash holds of the state. Both state areas start with the same header, whose position is 0,
  and the first area has a record for every position the dummy block has left since. A complete move
  keeps this, so that a later mount finds the position.
\<close>

section \<open>Headers and records\<close>

definition bounded :: "wl_state \<Rightarrow> bool" where
  "bounded s \<longleftrightarrow> (\<forall>x \<in> {ws_pos s, ws_max_pos s, ws_move_count s, ws_access_count s, ws_max_count s, ws_block_size s,
     ws_version s, ws_device_id s, ws_crc s} \<union> set (ws_reserved s). x < 2 ^ 32) \<and> length (ws_reserved s) = 7"

lemma word_at_concat:
  assumes "i < length xs" "xs ! i < 2 ^ 32"
  shows "word_at i (concat (map le32 xs) @ ys) = xs ! i"
proof -
  have len: "length (concat (map le32 zs)) = 4 * length zs" for zs by (induction zs) simp_all
  have "concat (map le32 xs) = concat (map le32 (take i xs)) @ le32 (xs ! i) @ concat (map le32 (drop (Suc i) xs))"
    using arg_cong [OF id_take_nth_drop [OF assms(1)], of "\<lambda>zs. concat (map le32 zs)"]
    by (simp only: map_append list.map concat_append concat.simps)
  then show ?thesis using assms len [of "take i xs"] by (simp add: word_at_def)
qed

lemma state_roundtrip:
  assumes "bounded s"
  shows "state_of_bytes (state_bytes s) = s"
proof -
  have "length (ws_reserved s) = Suc (Suc (Suc (Suc (Suc (Suc (Suc 0))))))" using assms by (simp add: bounded_def)
  then obtain r0 r1 r2 r3 r4 r5 r6 where r: "ws_reserved s = [r0, r1, r2, r3, r4, r5, r6]"
    unfolding length_Suc_conv length_0_conv by (elim exE conjE) simp
  let ?xs = "[ws_pos s, ws_max_pos s, ws_move_count s, ws_access_count s, ws_max_count s,
     ws_block_size s, ws_version s, ws_device_id s] @ ws_reserved s @ [ws_crc s]"
  have "word_at i (state_bytes s) = ?xs ! i" if "i < 16" for i
  proof -
    have "?xs ! i \<in> set ?xs" using that r by (intro nth_mem) simp
    then have "?xs ! i < 2 ^ 32" using assms by (auto simp: bounded_def)
    then show ?thesis using word_at_concat [of i ?xs "[]"] that r by (simp add: state_bytes_def)
  qed
  then show ?thesis using r by (cases s) (simp add: state_of_bytes_def upt_rec)
qed

text \<open>The bytes \<open>bs\<close> are the record of position \<open>n\<close>, as \<^verbatim>\<open>OkBuffSet\<close> finds.\<close>

definition rec_ok :: "(byte list \<Rightarrow> nat) \<Rightarrow> nat \<Rightarrow> nat \<Rightarrow> byte list \<Rightarrow> bool" where
  "rec_ok crc dev n bs \<longleftrightarrow> (\<forall>i < 4. word_at i bs = ok_word crc dev n i)"

text \<open>
  CRC-32 of the 4 bytes of a word is a word, and different words have different values.
\<close>

definition crc_words :: "(byte list \<Rightarrow> nat) \<Rightarrow> bool" where
  "crc_words crc \<longleftrightarrow> (\<forall>bs. crc bs < 2 ^ 32) \<and> inj_on crc {bs. length bs = 4}"

lemma rec_ok_bytes:
  assumes "crc_words crc" "take 16 bs = ok_bytes crc dev n"
  shows "rec_ok crc dev n bs"
  unfolding rec_ok_def
proof (intro allI impI)
  fix i :: nat assume i: "i < 4"
  have "word_at i bs = word_at i (take 16 bs)" using i by (simp add: word_at_def drop_take min_def)
  also have "\<dots> = ok_word crc dev n i"
    unfolding assms(2) ok_bytes_def using word_at_concat [of i "map (ok_word crc dev n) [0..<4]" "[]"] i assms(1)
    by (simp add: o_def crc_words_def ok_word_def)
  finally show "word_at i bs = ok_word crc dev n i" .
qed

lemma le32_inj: "le32 x = le32 y \<Longrightarrow> x < 2 ^ 32 \<Longrightarrow> y < 2 ^ 32 \<Longrightarrow> x = y"
  by (metis le32_dec_le32)

lemma erased_not_ok:
  assumes "crc_words crc" "16 \<le> k"
  shows "\<not> rec_ok crc dev n (replicate k 255)"
proof
  assume r: "rec_ok crc dev n (replicate k 255)"
  let ?x = "\<lambda>i. uadd dev (uadd (umul n 4) i)"
  have lim: "?x i < 2 ^ 32" for i by (simp add: uadd_def)
  have "word_at 0 (replicate k (255 :: byte)) = word_at 1 (replicate k 255)" using assms(2) by (simp add: word_at_def)
  then have "crc (le32 (?x 0)) = crc (le32 (?x 1))" using r by (simp add: rec_ok_def ok_word_def)
  then have "le32 (?x 0) = le32 (?x 1)" using assms(1) by (auto simp: crc_words_def inj_on_def)
  then have "?x 0 = ?x 1" by (rule le32_inj) (rule lim)+
  moreover have "?x 0 = (dev + umul n 4) mod 2 ^ 32" "?x 1 = Suc (dev + umul n 4) mod 2 ^ 32"
    by (simp_all add: uadd_def mod_simps)
  ultimately show False by (simp add: mod_Suc split: if_splits)
qed

section \<open>The stored state\<close>

definition header_ok :: "(byte list \<Rightarrow> nat) \<Rightarrow> 'f wl_flash \<Rightarrow> wl_state \<Rightarrow> bool" where
  "header_ok crc w h \<longleftrightarrow> bounded h \<and> state_crc crc h = ws_crc h \<and> ws_version h = wc_version (w_cfg w) \<and>
     core h = core ((w_state w)\<lparr>ws_pos := 0\<rparr>)"

definition rec_bytes :: "nat \<Rightarrow> nat \<Rightarrow> 'f wl_flash \<Rightarrow> mem \<Rightarrow> byte list" where
  "rec_bytes a i w m = mem_read (record_addr a i w) (wc_wr_size (w_cfg w)) m"

definition stored :: "(byte list \<Rightarrow> nat) \<Rightarrow> 'f wl_flash \<Rightarrow> mem \<Rightarrow> bool" where
  "stored crc w m \<longleftrightarrow> bounded (w_state w) \<and>
     (\<exists>h. header_ok crc w h \<and> mem_read (w_addr_state1 w) sizeof_state m = state_bytes h \<and>
        mem_read (w_addr_state2 w) sizeof_state m = state_bytes h) \<and>
     (\<forall>i < ws_pos (w_state w). rec_ok crc (ws_device_id (w_state w)) i (rec_bytes (w_addr_state1 w) i w m)) \<and>
     (\<forall>i < ws_max_pos (w_state w). ws_pos (w_state w) \<le> i \<longrightarrow>
        rec_bytes (w_addr_state1 w) i w m = replicate (wc_wr_size (w_cfg w)) 255)"

lemma state_areas:
  assumes "wl_geom w" "fits w m"
  shows "w_addr_state1 w + w_state_size w \<le> length m" "w_addr_state2 w + w_state_size w \<le> length m"
    "sizeof_state \<le> w_state_size w" "w_addr_state1 w + w_state_size w \<le> w_addr_state2 w"
    "i \<le> n_blocks w \<Longrightarrow> record_addr (w_addr_state1 w) i w + wc_wr_size (w_cfg w) \<le> w_addr_state1 w + w_state_size w"
    "record_addr a i w = a + sizeof_state + i * wc_wr_size (w_cfg w)"
  using areas(2,3) [OF assms(1)] areas(4) [OF assms(1), of 0] rec_area(1) [OF assms(1), of i] assms(2)
  by (simp_all add: fits_def record_addr_def)

lemma stored_agree:
  assumes g: "wl_geom w" and f: "fits w m" and s: "stored crc w m" and ag: "mem_agree (states_area w) m m'"
  shows "stored crc w m'"
proof -
  note sa = state_areas [OF g f]
  have hd: "mem_read a sizeof_state m' = mem_read a sizeof_state m" if "a = w_addr_state1 w \<or> a = w_addr_state2 w" for a
    using that sa by (intro mem_read_agree [symmetric] mem_agree_subset [OF ag]) (auto simp: states_area_def)
  have mx: "ws_max_pos (w_state w) = n_blocks w + 1" "ws_pos (w_state w) < ws_max_pos (w_state w)" using g by (auto simp: wl_geom_def wl_pos_ok_def)
  have rb: "rec_bytes (w_addr_state1 w) i w m' = rec_bytes (w_addr_state1 w) i w m" if "i < ws_max_pos (w_state w)" for i
    unfolding rec_bytes_def
    using that mx sa(1,4) sa(5) [of i] sa(6) by (intro mem_read_agree [symmetric] mem_agree_subset [OF ag]) (auto simp: states_area_def)
  show ?thesis using s mx(2) hd rb unfolding stored_def by auto
qed

section \<open>A move keeps it\<close>

lemma core_done: "core (done_state crc s) = core (next_state s)"
  by (simp add: done_state_def)

lemma next_access: "next_state (s\<lparr>ws_access_count := n\<rparr>) = (next_state s)\<lparr>ws_access_count := n\<rparr>"
  by (simp add: next_state_def)

lemma state_crc_own:
  assumes "length (ws_reserved s) = 7"
  shows "state_crc crc (s\<lparr>ws_crc := x\<rparr>) = state_crc crc s"
proof -
  have "length (concat (map le32 zs)) = 4 * length zs" for zs by (induction zs) simp_all
  then show ?thesis using assms by (simp add: state_crc_def state_bytes_def WL_STATE_CRC_LEN_V2_def)
qed

lemma bounded_done:
  assumes g: "wl_geom w" and b: "bounded (w_state w)" and c: "crc_words crc"
  shows "bounded (done_state crc ((w_state w)\<lparr>ws_access_count := 0\<rparr>))"
proof -
  have "state_crc crc s < 2 ^ 32" for s using c by (simp add: crc_words_def state_crc_def)
  then show ?thesis using b small_positions [OF g] by (auto simp: bounded_def done_state_def next_state_def)
qed

lemma moved_states:
  assumes g: "wl_geom w" and f: "fits w m"
  shows "mem_agree (states_area w) m (moved w m)"
proof (rule mem_agree_subset [OF length_moved(2) [OF g f]])
  show "states_area w \<subseteq> - dummy w"
    using areas(1) [OF g] block_area [OF g next_block_le(3) [OF g]] by (auto simp: states_area_def dummy_def)
qed

lemma recorded_read:
  assumes g: "wl_geom w" and f: "fits w m" and r: "is_record crc w r1" "is_record crc w r2"
    and p: "w_addr_state1 w \<le> p" "p + n \<le> w_addr_state2 w + w_state_size w"
    and d1: "p + n \<le> rec_addr (w_addr_state1 w) w \<or> rec_addr (w_addr_state1 w) w + wc_wr_size (w_cfg w) \<le> p"
    and d2: "p + n \<le> rec_addr (w_addr_state2 w) w \<or> rec_addr (w_addr_state2 w) w + wc_wr_size (w_cfg w) \<le> p"
  shows "mem_read p n (recorded w r1 r2 m) = mem_read p n m"
proof -
  note mf = move_fits [OF g f] and sa = state_areas [OF g f]
  have l: "length r1 = wc_wr_size (w_cfg w)" "length r2 = wc_wr_size (w_cfg w)" using r by (simp_all add: is_record_def)
  have lm: "w_addr_cfg w \<le> length (moved w m)" using mf(4) by (simp add: fits_def)
  have "mem_agree {p..<p + n} (moved w m) (nor_write (rec_addr (w_addr_state1 w) w) r1 (moved w m))"
    by (rule mem_agree_subset [OF nor_frame(1)]) (use mf(2) lm l d1 in auto)
  moreover have "mem_agree {p..<p + n} (nor_write (rec_addr (w_addr_state1 w) w) r1 (moved w m)) (recorded w r1 r2 m)"
    unfolding recorded_def by (rule mem_agree_subset [OF nor_frame(1)]) (use mf(2,3) lm l d2 in auto)
  moreover have "mem_agree {p..<p + n} m (moved w m)"
    using moved_states [OF g f] by (rule mem_agree_subset) (use p in \<open>auto simp: states_area_def\<close>)
  ultimately have "mem_agree {p..<p + n} m (recorded w r1 r2 m)" by (blast intro: mem_agree_trans)
  then show ?thesis by (rule mem_read_agree [symmetric]) (use p sa(2) in linarith)
qed

lemma recorded_record:
  assumes g: "wl_geom w" and f: "fits w m" and r: "is_record crc w r1" "is_record crc w r2"
    and e: "rec_bytes (w_addr_state1 w) (ws_pos (w_state w)) w m = replicate (wc_wr_size (w_cfg w)) 255"
  shows "rec_bytes (w_addr_state1 w) (ws_pos (w_state w)) w (recorded w r1 r2 m) = r1"
proof -
  let ?r1 = "rec_addr (w_addr_state1 w) w" and ?r2 = "rec_addr (w_addr_state2 w) w" and ?n = "wc_wr_size (w_cfg w)"
  note mf = move_fits [OF g f] and sa = state_areas [OF g f] and ra = rec_area [OF g next_block_le(3) [OF g]]
  have l: "length r1 = ?n" "length r2 = ?n" using r by (simp_all add: is_record_def)
  have lm: "w_addr_cfg w \<le> length (moved w m)" using mf(4) by (simp add: fits_def)
  have ad: "w_addr_state1 w \<le> ?r1" "?r1 + ?n \<le> w_addr_state2 w" "w_addr_state2 w \<le> ?r2" using ra sa(4) by (simp_all add: rec_addr_def)
  have "mem_read ?r1 ?n (moved w m) = mem_read ?r1 ?n m"
    by (rule mem_read_agree [OF mem_agree_subset [OF moved_states [OF g f]], symmetric])
      (use ad sa(1,2,4) mf(2) in \<open>auto simp: states_area_def\<close>)
  then have "mem_read ?r1 (length r1) (moved w m) = replicate (length r1) 255" using e l by (simp add: rec_bytes_def rec_addr_def)
  from nor_write_erased [OF this] have nw: "nor_write ?r1 r1 (moved w m) = mem_write ?r1 r1 (moved w m)" .
  have "mem_agree {?r1..<?r1 + ?n} (nor_write ?r1 r1 (moved w m)) (recorded w r1 r2 m)"
    unfolding recorded_def by (rule mem_agree_subset [OF nor_frame(1)]) (use mf(2,3) lm l ad in auto)
  then have "mem_read ?r1 ?n (recorded w r1 r2 m) = mem_read ?r1 ?n (nor_write ?r1 r1 (moved w m))"
    by (rule mem_read_agree [symmetric]) (use mf(2) lm l in simp)
  also have "\<dots> = r1" unfolding nw l(1) [symmetric] using mf(2) lm l by (intro mem_read_write_same) simp_all
  finally show ?thesis by (simp add: rec_bytes_def rec_addr_def)
qed

text \<open>An area that was just written has its header, and its records are erased.\<close>

lemma stamped_read:
  assumes "a + n \<le> length m" "length bs \<le> n"
  shows "mem_read a (length bs) (stamped a n bs m) = bs"
    "length bs \<le> k \<Longrightarrow> k + j \<le> n \<Longrightarrow> mem_read (a + k) j (stamped a n bs m) = replicate j 255"
    "p + i \<le> length m \<Longrightarrow> p + i \<le> a \<or> a + n \<le> p \<Longrightarrow> mem_read p i (stamped a n bs m) = mem_read p i m" "length (stamped a n bs m) = length m"
proof -
  let ?x = "bs @ replicate (n - length bs) (255 :: byte)"
  have lx: "length ?x = n" using assms(2) by simp
  show "length (stamped a n bs m) = length m" using assms by (simp add: stamped_def)
  show "mem_read a (length bs) (stamped a n bs m) = bs"
    unfolding stamped_def using assms by (intro nth_equalityI) (auto simp: nth_mem_read nth_mem_write nth_append)
  show "length bs \<le> k \<Longrightarrow> k + j \<le> n \<Longrightarrow> mem_read (a + k) j (stamped a n bs m) = replicate j 255"
    unfolding stamped_def using assms by (intro nth_equalityI) (auto simp: nth_mem_read nth_mem_write nth_append)
  show "p + i \<le> length m \<Longrightarrow> p + i \<le> a \<or> a + n \<le> p \<Longrightarrow> mem_read p i (stamped a n bs m) = mem_read p i m"
    unfolding stamped_def using assms lx by (intro mem_read_write_disjoint) auto
qed

lemma record_bounds:
  assumes g: "wl_geom w" and f: "fits w m" and i: "i < ws_max_pos (w_state w)" "i \<noteq> ws_pos (w_state w)"
  shows "w_addr_state1 w + sizeof_state \<le> record_addr (w_addr_state1 w) i w"
    "record_addr (w_addr_state1 w) i w + wc_wr_size (w_cfg w) \<le> w_addr_state2 w"
    "record_addr (w_addr_state1 w) i w + wc_wr_size (w_cfg w) \<le> rec_addr (w_addr_state1 w) w \<or>
     rec_addr (w_addr_state1 w) w + wc_wr_size (w_cfg w) \<le> record_addr (w_addr_state1 w) i w"
proof -
  have "ws_max_pos (w_state w) = n_blocks w + 1" using g by (simp add: wl_geom_def wl_pos_ok_def)
  then have "i \<le> n_blocks w" using i(1) by simp
  note ra = rec_area [OF g this] and sa = state_areas [OF g f]
  show "w_addr_state1 w + sizeof_state \<le> record_addr (w_addr_state1 w) i w"
    "record_addr (w_addr_state1 w) i w + wc_wr_size (w_cfg w) \<le> w_addr_state2 w" using ra sa(4) by simp_all
  show "record_addr (w_addr_state1 w) i w + wc_wr_size (w_cfg w) \<le> rec_addr (w_addr_state1 w) w \<or>
     rec_addr (w_addr_state1 w) w + wc_wr_size (w_cfg w) \<le> record_addr (w_addr_state1 w) i w"
    using blocks_disjoint [OF i(2), of "wc_wr_size (w_cfg w)"] by (auto simp: rec_addr_def record_addr_def)
qed

lemma recorded_other:
  assumes g: "wl_geom w" and f: "fits w m" and r: "is_record crc w r1" "is_record crc w r2"
  shows "mem_read (w_addr_state1 w) sizeof_state (recorded w r1 r2 m) = mem_read (w_addr_state1 w) sizeof_state m"
    "mem_read (w_addr_state2 w) sizeof_state (recorded w r1 r2 m) = mem_read (w_addr_state2 w) sizeof_state m"
    "i < ws_max_pos (w_state w) \<Longrightarrow> i \<noteq> ws_pos (w_state w) \<Longrightarrow>
     rec_bytes (w_addr_state1 w) i w (recorded w r1 r2 m) = rec_bytes (w_addr_state1 w) i w m"
proof -
  note sa = state_areas [OF g f] and ra = rec_area [OF g next_block_le(3) [OF g], folded rec_addr_def]
  show "mem_read (w_addr_state1 w) sizeof_state (recorded w r1 r2 m) = mem_read (w_addr_state1 w) sizeof_state m"
    by (rule recorded_read [OF g f r]) (use sa(3,4) ra in auto)
  show "mem_read (w_addr_state2 w) sizeof_state (recorded w r1 r2 m) = mem_read (w_addr_state2 w) sizeof_state m"
    by (rule recorded_read [OF g f r]) (use sa(3,4) ra in auto)
  assume i: "i < ws_max_pos (w_state w)" "i \<noteq> ws_pos (w_state w)"
  note rb = record_bounds [OF g f i]
  show "rec_bytes (w_addr_state1 w) i w (recorded w r1 r2 m) = rec_bytes (w_addr_state1 w) i w m"
    unfolding rec_bytes_def by (rule recorded_read [OF g f r]) (use rb ra sa(3,4) in auto)
qed

lemma step_stored:
  assumes g: "wl_geom w0" and f: "fits w0 m" and s: "stored crc w0 m" and c: "crc_words crc"
    and r: "is_record crc w0 r1" "is_record crc w0 r2" and b: "base w = base w0"
    and st: "w_state w = done_state crc ((w_state w0)\<lparr>ws_access_count := 0\<rparr>)" and n: "ws_pos (w_state w0) + 1 \<noteq> ws_max_pos (w_state w0)"
  shows "stored crc w (recorded w0 r1 r2 m)"
proof -
  let ?m = "recorded w0 r1 r2 m" and ?a = "w_addr_state1 w0" and ?p = "ws_pos (w_state w0)" and ?d = "ws_device_id (w_state w0)"
  have e: "w_addr_state1 w = ?a" "w_addr_state2 w = w_addr_state2 w0" "w_cfg w = w_cfg w0" "\<And>i m. rec_bytes ?a i w m = rec_bytes ?a i w0 m"
    using b by (simp_all add: base_eq rec_bytes_def record_addr_def)
  have st': "w_state w = (w_state w0)\<lparr>ws_access_count := 0, ws_pos := ?p + 1\<rparr>" using st n by (simp add: done_state_def next_state_def)
  have pm: "?p < ws_max_pos (w_state w0)" using g by (simp add: wl_geom_def wl_pos_ok_def)
  note ro = recorded_other [OF g f r]
  have er: "rec_bytes ?a i w0 m = replicate (wc_wr_size (w_cfg w0)) 255" if "i < ws_max_pos (w_state w0)" "?p \<le> i" for i
    using s that by (simp add: stored_def)
  have own: "rec_ok crc ?d ?p (rec_bytes ?a ?p w0 ?m)"
    unfolding recorded_record [OF g f r er [OF pm order_refl]] using r(1) by (intro rec_ok_bytes [OF c]) (simp add: is_record_def)
  have old: "rec_ok crc ?d i (rec_bytes ?a i w0 ?m)" if "i < ?p" for i
    using s that pm ro(3) [of i] by (simp add: stored_def)
  from s obtain h where h: "header_ok crc w0 h" "mem_read ?a sizeof_state m = state_bytes h"
    "mem_read (w_addr_state2 w0) sizeof_state m = state_bytes h" by (auto simp: stored_def)
  have "header_ok crc w h" using h(1) by (simp add: header_ok_def e st' core_eq)
  then have hd: "\<exists>h. header_ok crc w h \<and> mem_read ?a sizeof_state ?m = state_bytes h \<and> mem_read (w_addr_state2 w0) sizeof_state ?m = state_bytes h"
    using h(2,3) ro(1,2) by (intro exI [of _ h]) simp
  have bd: "bounded (w_state w)" unfolding st using s by (intro bounded_done [OF g _ c]) (simp add: stored_def)
  have ok: "rec_ok crc ?d i (rec_bytes ?a i w0 ?m)" if "i < ?p + 1" for i
    using own old [of i] that by (cases "i = ?p") auto
  have free: "rec_bytes ?a i w0 ?m = replicate (wc_wr_size (w_cfg w0)) 255" if "i < ws_max_pos (w_state w0)" "?p + 1 \<le> i" for i
    using ro(3) [of i] er [of i] that by simp
  show ?thesis unfolding stored_def using bd hd ok free by (simp add: e st')
qed

lemma fresh_stored:
  assumes g: "wl_geom w" and f: "fits w m" and h: "header_ok crc w (w_state w)" and p: "ws_pos (w_state w) = 0"
  shows "stored crc w (round_mem w (w_state w) m)"
proof -
  let ?a = "w_addr_state1 w" and ?b = "w_addr_state2 w" and ?n = "w_state_size w" and ?bs = "state_bytes (w_state w)" and ?k = "wc_wr_size (w_cfg w)"
  note sa = state_areas [OF g f]
  have bd: "bounded (w_state w)" using h by (simp add: header_ok_def)
  then have lb: "length ?bs = sizeof_state" by (intro length_state_bytes) (simp add: bounded_def)
  have mx: "ws_max_pos (w_state w) = n_blocks w + 1" using g by (simp add: wl_geom_def wl_pos_ok_def)
  note s1 = stamped_read [OF sa(1), of ?bs, unfolded lb, OF sa(3)]
  note s2 = stamped_read [of ?b ?n "stamped ?a ?n ?bs m" ?bs, unfolded s1(4) lb, OF sa(2,3)]
  have "rec_bytes ?a i w (round_mem w (w_state w) m) = replicate ?k 255" if "i \<le> n_blocks w" for i
  proof -
    have r: "sizeof_state + i * ?k + ?k \<le> ?n" using areas(4) [OF g that] by simp
    let ?q = "?a + (sizeof_state + i * ?k)"
    have "mem_read ?q ?k (round_mem w (w_state w) m) = mem_read ?q ?k (stamped ?a ?n ?bs m)"
      unfolding round_mem_def by (rule s2(3)) (use r sa(1,4) in auto)
    also have "\<dots> = replicate ?k 255" by (rule s1(2)) (use r in simp_all)
    finally show ?thesis by (simp add: rec_bytes_def record_addr_def add.assoc)
  qed
  moreover have "mem_read ?a sizeof_state (round_mem w (w_state w) m) = ?bs"
    unfolding round_mem_def using s2(3) [of ?a sizeof_state] s1(1) sa by simp
  moreover have "mem_read ?b sizeof_state (round_mem w (w_state w) m) = ?bs" unfolding round_mem_def by (rule s2(1))
  ultimately show ?thesis unfolding stored_def using bd h mx p by auto
qed

lemma round_stored:
  assumes g: "wl_geom w0" and f: "fits w0 m" and s: "bounded (w_state w0)" and v: "ws_version (w_state w0) = wc_version (w_cfg w0)"
    and c: "crc_words crc" and b: "base w = base w0"
    and st: "w_state w = done_state crc ((w_state w0)\<lparr>ws_access_count := 0\<rparr>)" and n: "ws_pos (w_state w0) + 1 = ws_max_pos (w_state w0)"
  shows "stored crc w (round_mem w0 (w_state w) m)"
proof -
  let ?n = "w0\<lparr>w_state := next_state (w_state w0)\<rparr>"
  have bn: "base w = base ?n" "core (w_state w) = core (w_state ?n)"
    using b by (simp_all add: st core_done next_access)
  have gw: "wl_geom w" "fits w m" using geom_core(1) [OF bn] next_geom [OF g] f b by (simp_all add: fits_def base_eq)
  have r: "round_mem w0 (w_state w) m = round_mem w (w_state w) m" using b by (simp add: round_mem_def base_eq)
  have mx: "ws_pos (w_state w) = 0" "ws_version (w_state w) = wc_version (w_cfg w)"
    using n v b by (simp_all add: st done_state_def next_state_def base_eq)
  have "state_crc crc (w_state w) = ws_crc (w_state w)"
    using n g by (simp add: st done_state_def) (subst state_crc_own, simp_all add: wl_geom_def wl_pos_ok_def next_state_def)
  then have "header_ok crc w (w_state w)" using bounded_done [OF g s c] mx unfolding st [symmetric] by (simp add: header_ok_def core_eq)
  then show ?thesis unfolding r using gw mx(1) by (intro fresh_stored)
qed

lemma move_done_stored:
  assumes g: "wl_geom w0" and f: "fits w0 m" and s: "stored crc w0 m" and c: "crc_words crc" and d: "move_done crc content w0 m w"
  shows "stored crc w (content (w_flash w))"
proof -
  from d obtain r1 r2 where r: "is_record crc w0 r1" "is_record crc w0 r2" and b: "base w = base w0"
    "w_state w = done_state crc ((w_state w0)\<lparr>ws_access_count := 0\<rparr>)"
    and m: "content (w_flash w) = (if ws_pos (w_state w0) + 1 = ws_max_pos (w_state w0)
       then round_mem w0 (w_state w) (recorded w0 r1 r2 m) else recorded w0 r1 r2 m)"
    unfolding move_done_def by (elim exE conjE)
  have sv: "bounded (w_state w0)" "ws_version (w_state w0) = wc_version (w_cfg w0)" using s by (auto simp: stored_def header_ok_def core_eq)
  show ?thesis
  proof (cases "ws_pos (w_state w0) + 1 = ws_max_pos (w_state w0)")
    case True
    then show ?thesis using round_stored [OF g move_fits(6) [OF g f r] sv c b True] m by simp
  next
    case False
    then show ?thesis using step_stored [OF g f s c r b False] m by simp
  qed
qed

end
