(* ===== verification/WL_Access.thy ===== *)
theory WL_Access
  imports WL_Stored
begin

text \<open>
  Accesses. Moving a block, completely or up to an error of the flash, does not change what the storage
  holds, and an access of the storage has the effect of the same access of a flat flash memory.
\<close>

section \<open>A move keeps the storage\<close>

lemma in_use_data:
  assumes "wl_geom w"
  shows "in_use w \<subseteq> - dummy w" "in_use w \<subseteq> - states_area w" "x \<in> in_use w \<Longrightarrow> x < w_addr_state1 w"
  using areas(1) [OF assms] by (auto simp: in_use_def states_area_def)

lemma fits_data: "wl_geom w \<Longrightarrow> fits w m \<Longrightarrow> wc_start_addr (w_cfg w) + w_flash_size w + wc_page_size (w_cfg w) \<le> length m"
  using areas(1-3) [of w] by (simp add: fits_def)

lemma vmem_moved:
  assumes g: "wl_geom w" and m: "fits w m"
  shows "vmem w (moved w m) = vmem w m" "vmem (w\<lparr>w_state := next_state (w_state w)\<rparr>) (moved w m) = vmem w m"
proof -
  let ?s = "wc_start_addr (w_cfg w)" and ?P = "wc_page_size (w_cfg w)" and ?d = "ws_pos (w_state w)" and ?n = "next_block w"
  note n = next_block_le [OF g] and l = move_fits(1) [OF g m]
  have "mem_agree (in_use w) m (moved w m)" using length_moved(2) [OF g m] in_use_data(1) [OF g] by (rule mem_agree_subset)
  from vmem_agree [OF g this fits_data [OF g m]] show same: "vmem w (moved w m) = vmem w m" by simp
  have "moved w m ! (?s + ?d * ?P + j) = moved w m ! (?s + ?n * ?P + j)" if j: "j < ?P" for j
  proof -
    have "?d * ?P + ?P \<le> ?n * ?P \<or> ?n * ?P + ?P \<le> ?d * ?P" using blocks_disjoint [of ?d ?n ?P] n(2) by auto
    then have "\<not> (?s + ?d * ?P \<le> ?s + ?n * ?P + j \<and> ?s + ?n * ?P + j < ?s + ?d * ?P + ?P)" using j by linarith
    then have "moved w m ! (?s + ?n * ?P + j) = m ! (?s + ?n * ?P + j)"
      using l [OF n(1)] l [OF n(3)] j unfolding moved_def by (subst nth_mem_write) auto
    moreover have "moved w m ! (?s + ?d * ?P + j) = m ! (?s + ?n * ?P + j)"
      using l [OF n(1)] l [OF n(3)] j unfolding moved_def by (subst nth_mem_write) (auto simp: nth_mem_read)
    ultimately show ?thesis by simp
  qed
  from vmem_next [OF g] this same show "vmem (w\<lparr>w_state := next_state (w_state w)\<rparr>) (moved w m) = vmem w m" by simp
qed

text \<open>The same storage, with an object that is still well formed.\<close>

definition same_storage :: "('f \<Rightarrow> mem) \<Rightarrow> 'f wl_flash \<Rightarrow> mem \<Rightarrow> 'f wl_flash \<Rightarrow> bool" where
  "same_storage content w0 m w \<longleftrightarrow> base w = base w0 \<and> wl_geom w \<and> fits w (content (w_flash w)) \<and>
     vmem w (content (w_flash w)) = vmem w0 m"

lemma fits_base: "base w = base w' \<Longrightarrow> length m = length m' \<Longrightarrow> fits w m = fits w' m'"
  by (simp add: fits_def base_eq)

lemma hurt_same:
  assumes g: "wl_geom w0" and m: "fits w0 m'" and h: "hurt content u w0 A m' w" and A: "in_use w0 \<subseteq> - A" and v: "vmem w0 m' = vmem w0 m"
  shows "same_storage content w0 m w"
proof -
  have b: "base w = base w0" "core (w_state w) = core (w_state w0)" "mem_agree (- A) m' (content (w_flash w))"
    using h by (simp_all add: hurt_def)
  note gc = geom_core [OF b(1,2)]
  have "vmem w0 m' = vmem w0 (content (w_flash w))"
    by (rule vmem_agree [OF g mem_agree_subset [OF b(3) A] fits_data [OF g m]])
  then show ?thesis using b g gc v m fits_base [OF b(1), of "content (w_flash w)" m'] by (simp add: same_storage_def mem_agree_def)
qed

lemma rec_outside:
  assumes "wl_geom w"
  shows "in_use w \<subseteq> - {rec_addr (w_addr_state1 w) w..<rec_addr (w_addr_state1 w) w + k}"
    "in_use w \<subseteq> - {rec_addr (w_addr_state2 w) w..<rec_addr (w_addr_state2 w) w + k}"
  using in_use_data(3) [OF assms] areas(2) [OF assms] by (fastforce simp: rec_addr_def record_addr_def)+

lemma next_same:
  assumes g: "wl_geom w0" and m: "fits w0 m" and b: "base w = base w0" "core (w_state w) = core (next_state (w_state w0))"
    and ag: "mem_agree (- states_area w0) (moved w0 m) (content (w_flash w))"
  shows "same_storage content w0 m w"
proof -
  let ?n = "w0\<lparr>w_state := next_state (w_state w0)\<rparr>"
  have gn: "wl_geom ?n" by (rule next_geom [OF g])
  have bn: "base w = base ?n" "core (w_state w) = core (w_state ?n)" using b by simp_all
  note gc = geom_core [OF bn]
  have f: "fits ?n (moved w0 m)" using move_fits(4) [OF g m] by (simp add: fits_def)
  have "in_use ?n \<subseteq> - states_area w0" using in_use_data(2) [OF gn] by (simp add: states_area_def)
  from vmem_agree [OF gn mem_agree_subset [OF ag this] fits_data [OF gn f]]
  have "vmem ?n (content (w_flash w)) = vmem w0 m" using vmem_moved(2) [OF g m] by simp
  then show ?thesis using b gn gc f ag fits_base [OF bn(1), of "content (w_flash w)" "moved w0 m"]
    by (simp add: same_storage_def mem_agree_def)
qed

lemma move_failed_same:
  assumes g: "wl_geom w0" and m: "fits w0 m" and f: "move_failed crc content w0 m w"
  shows "same_storage content w0 m w"
proof -
  note vm = vmem_moved [OF g m] and mf = move_fits [OF g m]
  have rv: "vmem w0 (nor_write (rec_addr (w_addr_state1 w0) w0) r (moved w0 m)) = vmem w0 m" if r: "is_record crc w0 r" for r
  proof -
    have "rec_addr (w_addr_state1 w0) w0 + length r \<le> length (moved w0 m)" using mf(2,4) r by (simp add: is_record_def fits_def)
    from nor_frame(1) [OF this] have "mem_agree (in_use w0) (moved w0 m) (nor_write (rec_addr (w_addr_state1 w0) w0) r (moved w0 m))"
      using rec_outside(1) [OF g] by (rule mem_agree_subset)
    from vmem_agree [OF g this fits_data [OF g mf(4)]] show ?thesis using vm(1) by simp
  qed
  from f show ?thesis unfolding move_failed_def
  proof (elim disjE exE conjE)
    assume "hurt content False w0 (dummy w0) m w"
    then show ?thesis using hurt_same [OF g m _ in_use_data(1) [OF g]] by blast
  next
    assume "hurt content False w0 {rec_addr (w_addr_state1 w0) w0..<rec_addr (w_addr_state1 w0) w0 + wc_wr_size (w_cfg w0)} (moved w0 m) w"
    from hurt_same [OF g mf(4) this rec_outside(1) [OF g] vm(1)] show ?thesis .
  next
    fix r assume r: "is_record crc w0 r"
      "hurt content False w0 {rec_addr (w_addr_state2 w0) w0..<rec_addr (w_addr_state2 w0) w0 + wc_wr_size (w_cfg w0)}
        (nor_write (rec_addr (w_addr_state1 w0) w0) r (moved w0 m)) w"
    from hurt_same [OF g mf(5) [OF r(1)] r(2) rec_outside(2) [OF g] rv [OF r(1)]] show ?thesis .
  qed (rule next_same [OF g m])
qed

lemma move_done_same:
  assumes g: "wl_geom w0" and m: "fits w0 m" and f: "move_done crc content w0 m w"
  shows "same_storage content w0 m w"
proof -
  from f obtain r1 r2 where r: "is_record crc w0 r1" "is_record crc w0 r2" and b: "base w = base w0"
    "w_state w = done_state crc ((w_state w0)\<lparr>ws_access_count := 0\<rparr>)"
    and c: "content (w_flash w) = (if ws_pos (w_state w0) + 1 = ws_max_pos (w_state w0)
       then round_mem w0 (w_state w) (recorded w0 r1 r2 m) else recorded w0 r1 r2 m)"
    unfolding move_done_def by (elim exE conjE)
  have co: "core (w_state w) = core (next_state (w_state w0))" by (simp add: b(2) core_done next_access)
  note mf = move_fits [OF g m] and ar = areas [OF g]
  have "length (ws_reserved (w_state w)) = 7" using g by (simp add: b(2) reserved_next wl_geom_def wl_pos_ok_def)
  then have lb: "length (state_bytes (w_state w)) \<le> w_state_size w0" using ar(4) [of 0] by (simp add: length_state_bytes)
  let ?m = "recorded w0 r1 r2 m" let ?m1 = "stamped (w_addr_state1 w0) (w_state_size w0) (state_bytes (w_state w)) ?m"
  have l: "w_addr_state2 w0 + w_state_size w0 \<le> length ?m" using mf(6) [OF r] ar(3) by (simp add: fits_def)
  have a1: "mem_agree (- states_area w0) ?m ?m1"
    unfolding stamped_def by (rule mem_agree_write) (use l lb ar(2) in \<open>auto simp: states_area_def\<close>)
  then have "length ?m1 = length ?m" by (simp add: mem_agree_def)
  then have "mem_agree (- states_area w0) ?m1 (round_mem w0 (w_state w) ?m)"
    unfolding round_mem_def stamped_def [of "w_addr_state2 w0"]
    by (intro mem_agree_write) (use l lb ar(2) in \<open>auto simp: states_area_def\<close>)
  from mem_agree_trans [OF a1 this] have "mem_agree (- states_area w0) ?m (content (w_flash w))"
    by (auto simp: c mem_agree_def)
  from mem_agree_trans [OF mf(7) [OF r] this] show ?thesis by (rule next_same [OF g m b(1) co])
qed

section \<open>Operations\<close>

text \<open>
  The object \<open>w\<close> with the parameters \<open>b\<close> is ready and its storage holds \<open>v\<close>; when the flash works, the
  state is stored in it.
\<close>

definition holds :: "('f \<Rightarrow> mem) \<Rightarrow> ('f \<Rightarrow> bool) \<Rightarrow> (byte list \<Rightarrow> nat) \<Rightarrow> bool \<Rightarrow> bool \<times> bool \<times> wl_config \<times> nat list \<Rightarrow> mem \<Rightarrow> 'f wl_flash \<Rightarrow> bool" where
  "holds content up crc u b v w \<longleftrightarrow> base w = b \<and> wl_geom w \<and> fits w (content (w_flash w)) \<and> vmem w (content (w_flash w)) = v \<and>
     (u \<longrightarrow> up (w_flash w) \<and> stored crc w (content (w_flash w)))"

text \<open>After an error the storage may have changed in a range.\<close>

definition spoilt :: "('f \<Rightarrow> mem) \<Rightarrow> ('f \<Rightarrow> bool) \<Rightarrow> (byte list \<Rightarrow> nat) \<Rightarrow> bool \<Rightarrow> bool \<times> bool \<times> wl_config \<times> nat list \<Rightarrow> nat \<Rightarrow> nat \<Rightarrow> mem \<Rightarrow> 'f wl_flash \<Rightarrow> bool" where
  "spoilt content up crc u b a n v w \<longleftrightarrow> \<not> u \<and> (\<exists>v'. mem_agree (- {a..<a + n}) v v' \<and> holds content up crc u b v' w)"

lemma holds_spoilt: "\<not> u \<Longrightarrow> holds content up crc u b v w \<Longrightarrow> spoilt content up crc u b a n v w"
  unfolding spoilt_def by (intro conjI exI [of _ v]) (simp_all add: mem_agree_def)

lemma same_holds:
  "same_storage content w0 m w \<Longrightarrow> u \<longrightarrow> up (w_flash w) \<and> stored crc w (content (w_flash w)) \<Longrightarrow> holds content up crc u (base w0) (vmem w0 m) w"
  by (simp add: same_storage_def holds_def)

lemma stored_access:
  assumes "stored crc w m" "n < 2 ^ 32"
  shows "stored crc (set_access n w) m"
proof -
  have "bounded (w_state (set_access n w))" using assms by (auto simp: stored_def bounded_def set_access_def)
  then show ?thesis using assms(1)
    by (simp add: stored_def header_ok_def rec_bytes_def record_addr_def) (simp add: set_access_def core_eq)
qed

lemma holds_access:
  assumes h: "holds content up crc u b v w" and n: "n < 2 ^ 32"
  shows "holds content up crc u b v (set_access n w)"
proof -
  let ?a = "set_access n w"
  have "w_flash ?a = w_flash w" by (simp add: set_access_def)
  then show ?thesis using h geom_core [of ?a w] fits_base [of ?a w] stored_access [OF _ n, of crc w] by (simp add: holds_def)
qed

lemma stored_start: "stored crc w m \<Longrightarrow> stored crc (start_move w) m"
  using stored_access [of crc w m 0] by (simp add: start_move_def stored_def header_ok_def rec_bytes_def record_addr_def)

lemma start_move_facts:
  "base (start_move w) = base w" "core (w_state (start_move w)) = core (w_state w)" "w_flash (start_move w) = w_flash w"
  "w_dummy_addr (start_move w) = wc_start_addr (w_cfg w) + ws_pos (w_state w) * wc_page_size (w_cfg w)"
  "ws_access_count (w_state (start_move w)) = 0" "w_cfg (start_move w) = w_cfg w" "ws_pos (w_state (start_move w)) = ws_pos (w_state w)"
  by (simp_all add: start_move_def) (simp_all add: set_access_def)

context flash_driver begin

lemma updateWL_rule:
  assumes c: "u \<longrightarrow> crc_words crc"
  shows "triple (holds content up crc u b v) (updateWL drv crc) (holds content up crc u b v) (\<lambda>w. holds content up crc u b v w \<and> \<not> u)"
proof (rule tripleI)
  fix w :: "'f wl_flash" assume h: "holds content up crc u b v w"
  then have g: "wl_geom w" by (simp add: holds_def)
  let ?s = "start_move w" and ?m = "content (w_flash w)"
  note sf = start_move_facts [of w] note gc = geom_core [OF sf(1,2)]
  have gs: "wl_geom ?s" using gc(1) g by simp
  have fs: "fits ?s ?m" using h fits_base [OF sf(1)] by (simp add: holds_def)
  have at: "at content up u ?s ?m ?s" using h by (simp add: at_def holds_def sf)
  have bv: "base ?s = b" "vmem ?s ?m = v" using h gc(2) by (simp_all add: holds_def sf)
  show "\<exists>r w'. updateWL drv crc w = Inr (r, w') \<and> (if r = ESP_OK then holds content up crc u b v w' else holds content up crc u b v w' \<and> \<not> u)"
  proof (cases "uadd (ws_access_count (w_state w)) 1 < ws_max_count (w_state w)")
    case True
    let ?a = "set_access (uadd (ws_access_count (w_state w)) 1) w"
    have "holds content up crc u b v ?a" by (rule holds_access [OF h]) (simp add: uadd_def)
    then show ?thesis using True updateWL_eq [OF g, of drv crc] by simp
  next
    case False
    from tripleD [OF move_rule [OF gs fs sf(4) [folded sf(6,7)] sf(5)] at, of crc] obtain r w' where r: "updateWL drv crc w = Inr (r, w')"
      "if r = ESP_OK then move_done crc content ?s ?m w' \<and> (u \<longrightarrow> up (w_flash w')) else move_failed crc content ?s ?m w' \<and> \<not> u"
      using False unfolding updateWL_eq [OF g, of drv crc] sf(6,7) gc(5) by auto
    have "same_storage content ?s ?m w'" using r(2) move_done_same [OF gs fs] move_failed_same [OF gs fs] by (auto split: if_splits)
    then have "holds content up crc u b v w'" if "u \<longrightarrow> up (w_flash w') \<and> stored crc w' (content (w_flash w'))"
      using same_holds [of content ?s ?m w' u up crc] bv that by simp
    moreover have "stored crc w' (content (w_flash w'))" if "u" "r = ESP_OK"
      using r(2) that h c move_done_stored [OF gs fs stored_start, of crc content w'] by (auto simp: holds_def)
    ultimately show ?thesis using r by (auto split: if_splits)
  qed
qed

end

definition page_of :: "bool \<times> bool \<times> wl_config \<times> nat list \<Rightarrow> nat" where
  "page_of b = wc_page_size (fst (snd (snd b)))"

definition size_of :: "bool \<times> bool \<times> wl_config \<times> nat list \<Rightarrow> nat" where
  "size_of b = snd (snd (snd b)) ! 3"

lemma of_base [simp]: "page_of (base w) = wc_page_size (w_cfg w)" "size_of (base w) = w_flash_size w"
  by (simp_all add: page_of_def size_of_def base_def)

lemma holds_bounds:
  assumes "holds content up crc u b v w"
  shows "wl_geom w" "fits w (content (w_flash w))" "v = vmem w (content (w_flash w))" "length v = w_flash_size w"
    "wc_start_addr (w_cfg w) + w_flash_size w + wc_page_size (w_cfg w) \<le> length (content (w_flash w))"
  using assms fits_data [of w] by (auto simp: holds_def)

lemma holds_flash:
  assumes "holds content up crc u b v w" "u \<longrightarrow> up f" "length (content f) = length (content (w_flash w))" "v' = vmem w (content f)"
    "u \<longrightarrow> mem_agree (- {wc_start_addr (w_cfg w)..<wc_start_addr (w_cfg w) + w_flash_size w + wc_page_size (w_cfg w)}) (content (w_flash w)) (content f)"
  shows "holds content up crc u b v' (w\<lparr>w_flash := f\<rparr>)"
proof -
  note gc = geom_core [of "w\<lparr>w_flash := f\<rparr>" w]
  have "stored crc (w\<lparr>w_flash := f\<rparr>) (content f)" if u
  proof -
    have g: "wl_geom w" "fits w (content (w_flash w))" "stored crc w (content (w_flash w))" using assms(1) that by (simp_all add: holds_def)
    have "mem_agree (states_area w) (content (w_flash w)) (content f)"
      using assms(5) that areas(1) [OF g(1)] by (elim impE mem_agree_subset) (auto simp: states_area_def)
    from stored_agree [OF g this] show ?thesis by (simp add: stored_def header_ok_def rec_bytes_def record_addr_def)
  qed
  then show ?thesis using assms(1-4) gc fits_base [of "w\<lparr>w_flash := f\<rparr>" w "content f" "content (w_flash w)"] by (simp add: holds_def)
qed

text \<open>A change of the flash in the range of an access is a change of the storage in its range.\<close>

lemma vmem_spoilt:
  assumes g: "wl_geom w" and c: "in_page (wc_page_size (w_cfg w)) a n" "a + n \<le> w_flash_size w" "0 < n"
    and m: "wc_start_addr (w_cfg w) + w_flash_size w + wc_page_size (w_cfg w) \<le> length m"
    and ag: "mem_agree (- {wc_start_addr (w_cfg w) + calcAddr a w..<wc_start_addr (w_cfg w) + calcAddr a w + n}) m m'"
  shows "mem_agree (- {a..<a + n}) (vmem w m) (vmem w m')"
proof -
  let ?p = "wc_start_addr (w_cfg w) + calcAddr a w" let ?j = "mem_read ?p n m'"
  have r: "?p + n \<le> length m" using calcAddr_range [OF g c] m by simp
  have lj: "length ?j = n" using r ag by (simp add: mem_agree_def)
  have "m' = mem_write ?p ?j m"
  proof (rule nth_equalityI)
    show "length m' = length (mem_write ?p ?j m)" using r ag lj by (simp add: mem_agree_def)
    fix i assume "i < length m'"
    then show "m' ! i = mem_write ?p ?j m ! i" using r ag lj by (auto simp: mem_agree_def nth_mem_write nth_mem_read)
  qed
  moreover have "?j \<noteq> []" using lj c(3) by (cases ?j) auto
  ultimately have "vmem w m' = mem_write a ?j (vmem w m)" using vmem_write(1) [OF g, of a ?j m] c m lj by simp
  then show ?thesis using mem_agree_write [of a ?j "vmem w m" "- {a..<a + n}"] lj c by simp
qed

lemma vmem_nor_write:
  assumes "wl_geom w" "in_page (wc_page_size (w_cfg w)) a (length bs)" "a + length bs \<le> w_flash_size w" "bs \<noteq> []"
    "wc_start_addr (w_cfg w) + w_flash_size w + wc_page_size (w_cfg w) \<le> length m"
  shows "vmem w (nor_write (wc_start_addr (w_cfg w) + calcAddr a w) bs m) = nor_write a bs (vmem w m)"
proof -
  let ?p = "wc_start_addr (w_cfg w) + calcAddr a w"
  let ?bs = "map2 (AND) (mem_read ?p (length bs) m) bs"
  have "?p + length bs \<le> length m" using vmem_write(2) [OF assms(1-3,5,4)] .
  then have l: "length ?bs = length bs" by simp
  then have "?bs \<noteq> []" using assms(4) by (cases ?bs) auto
  from vmem_write(1) [OF assms(1) _ _ assms(5) this] show ?thesis
    using assms vmem_read [OF assms(1-3,5)] l by (simp add: nor_write_def)
qed

lemma vmem_nor_erase:
  assumes "wl_geom w" "in_page (wc_page_size (w_cfg w)) a n" "a + n \<le> w_flash_size w" "0 < n"
    "wc_start_addr (w_cfg w) + w_flash_size w + wc_page_size (w_cfg w) \<le> length m"
  shows "vmem w (nor_erase (wc_start_addr (w_cfg w) + calcAddr a w) n m) = nor_erase a n (vmem w m)"
  using vmem_write(1) [OF assms(1), of a "replicate n 255" m] assms by (simp add: nor_erase_def)

lemma data_frame:
  assumes g: "wl_geom w" and m: "wc_start_addr (w_cfg w) + w_flash_size w + wc_page_size (w_cfg w) \<le> length m"
    and c: "in_page (wc_page_size (w_cfg w)) a n" "a + n \<le> w_flash_size w" "0 < n"
  shows "mem_agree (- {wc_start_addr (w_cfg w)..<wc_start_addr (w_cfg w) + w_flash_size w + wc_page_size (w_cfg w)}) m
      (nor_erase (wc_start_addr (w_cfg w) + calcAddr a w) n m)"
    "length bs = n \<Longrightarrow> mem_agree (- {wc_start_addr (w_cfg w)..<wc_start_addr (w_cfg w) + w_flash_size w + wc_page_size (w_cfg w)}) m
      (nor_write (wc_start_addr (w_cfg w) + calcAddr a w) bs m)"
proof -
  note r = calcAddr_range [OF g c]
  show "mem_agree (- {wc_start_addr (w_cfg w)..<wc_start_addr (w_cfg w) + w_flash_size w + wc_page_size (w_cfg w)}) m
      (nor_erase (wc_start_addr (w_cfg w) + calcAddr a w) n m)"
    by (rule mem_agree_subset [OF nor_frame(2)]) (use r m in auto)
  show "length bs = n \<Longrightarrow> mem_agree (- {wc_start_addr (w_cfg w)..<wc_start_addr (w_cfg w) + w_flash_size w + wc_page_size (w_cfg w)}) m
      (nor_write (wc_start_addr (w_cfg w) + calcAddr a w) bs m)"
    by (rule mem_agree_subset [OF nor_frame(1)]) (use r m in auto)
qed

text \<open>A sector is in a page, and its place in the flash is a sector.\<close>

lemma sector_access:
  assumes g: "wl_geom w" and a: "SPI_FLASH_SEC_SIZE dvd a" "a + SPI_FLASH_SEC_SIZE \<le> w_flash_size w"
  shows "in_page (wc_page_size (w_cfg w)) a SPI_FLASH_SEC_SIZE" "SPI_FLASH_SEC_SIZE dvd calcAddr a w"
proof -
  let ?n = SPI_FLASH_SEC_SIZE and ?P = "wc_page_size (w_cfg w)"
  have P: "?n dvd ?P" "0 < ?P" "0 < ?n" using g by (simp_all add: wl_geom_def wl_sizes_def Let_def SPI_FLASH_SEC_SIZE_def)
  have r: "?n dvd a mod ?P" using a(1) P(1) by (simp add: dvd_mod_iff)
  moreover have "a mod ?P < ?P" using P(2) by simp
  ultimately have "?P - a mod ?P \<noteq> 0" "?n dvd ?P - a mod ?P" using P(1) by (simp_all add: dvd_diff_nat)
  then have "?n \<le> ?P - a mod ?P" by (intro dvd_imp_le) simp_all
  then show "in_page ?P a ?n" using \<open>a mod ?P < ?P\<close> by (simp add: in_page_def)
  have "a < w_flash_size w" using a(2) P(3) by linarith
  from calcAddr_at(1) [OF g this] show "?n dvd calcAddr a w" using r P(1) by simp
qed

context flash_driver begin

lemma write_chunk_rule:
  assumes c: "in_page (page_of b) a (length bs)" "a + length bs \<le> size_of b" and "bs \<noteq> []"
  shows "triple (holds content up crc u b v) (\<lambda>w. drv_write drv (wc_start_addr (w_cfg w) + calcAddr a w) bs w)
    (holds content up crc u b (nor_write a bs v)) (spoilt content up crc u b a (length bs) v)"
proof (rule write_rule [where u = u])
  fix w :: "'f wl_flash" and f assume h: "holds content up crc u b v w"
  then have w: "in_page (wc_page_size (w_cfg w)) a (length bs)" "a + length bs \<le> w_flash_size w" using c by (auto simp: holds_def)
  note hb = holds_bounds [OF h]
  have r: "wc_start_addr (w_cfg w) + calcAddr a w + length bs \<le> length (content (w_flash w))" using vmem_write(2) [OF hb(1) w hb(5) assms(3)] .
  then show "u \<Longrightarrow> up (w_flash w) \<and> wc_start_addr (w_cfg w) + calcAddr a w + length bs \<le> length (content (w_flash w))"
    using h by (simp add: holds_def)
  show "u \<longrightarrow> up f \<Longrightarrow> content f = nor_write (wc_start_addr (w_cfg w) + calcAddr a w) bs (content (w_flash w)) \<Longrightarrow>
      holds content up crc u b (nor_write a bs v) (w\<lparr>w_flash := f\<rparr>)"
    using vmem_nor_write [OF hb(1) w assms(3) hb(5)] r hb(3) data_frame(2) [OF hb(1,5) w, of bs] assms(3) by (intro holds_flash [OF h]) simp_all
  assume e: "\<not> u" "mem_agree (- {wc_start_addr (w_cfg w) + calcAddr a w..<wc_start_addr (w_cfg w) + calcAddr a w + length bs}) (content (w_flash w)) (content f)"
  have "holds content up crc u b (vmem w (content f)) (w\<lparr>w_flash := f\<rparr>)"
    by (rule holds_flash [OF h]) (use e in \<open>auto simp: mem_agree_def\<close>)
  moreover have "mem_agree (- {a..<a + length bs}) v (vmem w (content f))"
    unfolding hb(3) by (rule vmem_spoilt [OF hb(1) w _ hb(5) e(2)]) (use assms(3) in simp)
  ultimately show "spoilt content up crc u b a (length bs) v (w\<lparr>w_flash := f\<rparr>)" using e(1) unfolding spoilt_def by blast
qed

lemma erase_chunk_rule:
  assumes c: "SPI_FLASH_SEC_SIZE dvd a" "a + SPI_FLASH_SEC_SIZE \<le> size_of b"
  shows "triple (holds content up crc u b v)
    (\<lambda>w. drv_erase_range drv (wc_start_addr (w_cfg w) + calcAddr a w) SPI_FLASH_SEC_SIZE w)
    (holds content up crc u b (nor_erase a SPI_FLASH_SEC_SIZE v)) (spoilt content up crc u b a SPI_FLASH_SEC_SIZE v)"
proof (rule erase_rule [where u = u])
  let ?n = SPI_FLASH_SEC_SIZE
  have pos: "0 < ?n" by (simp add: SPI_FLASH_SEC_SIZE_def)
  fix w :: "'f wl_flash" and f assume h: "holds content up crc u b v w"
  note hb = holds_bounds [OF h]
  have sz: "a + ?n \<le> w_flash_size w" using h c(2) by (auto simp: holds_def)
  note sa = sector_access [OF hb(1) c(1) sz] note w = sa(1) sz sa(2)
  have r: "wc_start_addr (w_cfg w) + calcAddr a w + ?n \<le> length (content (w_flash w))" using calcAddr_range [OF hb(1) w(1,2) pos] hb(5) by simp
  have "?n dvd wc_start_addr (w_cfg w)" using hb(1) by (simp add: wl_geom_def wl_sizes_def Let_def)
  then show "u \<Longrightarrow> up (w_flash w) \<and> wc_start_addr (w_cfg w) + calcAddr a w + ?n \<le> length (content (w_flash w)) \<and>
      ?n dvd wc_start_addr (w_cfg w) + calcAddr a w \<and> ?n dvd ?n"
    using h r w(3) by (simp add: holds_def)
  show "u \<longrightarrow> up f \<Longrightarrow> content f = nor_erase (wc_start_addr (w_cfg w) + calcAddr a w) ?n (content (w_flash w)) \<Longrightarrow>
      holds content up crc u b (nor_erase a ?n v) (w\<lparr>w_flash := f\<rparr>)"
    using vmem_nor_erase [OF hb(1) w(1,2) pos hb(5)] r hb(3) data_frame(1) [OF hb(1,5) w(1,2) pos] by (intro holds_flash [OF h]) simp_all
  assume e: "\<not> u" "mem_agree (- {wc_start_addr (w_cfg w) + calcAddr a w..<wc_start_addr (w_cfg w) + calcAddr a w + ?n}) (content (w_flash w)) (content f)"
  have "holds content up crc u b (vmem w (content f)) (w\<lparr>w_flash := f\<rparr>)"
    by (rule holds_flash [OF h]) (use e in \<open>auto simp: mem_agree_def\<close>)
  moreover have "mem_agree (- {a..<a + ?n}) v (vmem w (content f))"
    unfolding hb(3) by (rule vmem_spoilt [OF hb(1) w(1,2) pos hb(5) e(2)])
  ultimately show "spoilt content up crc u b a ?n v (w\<lparr>w_flash := f\<rparr>)" using e(1) unfolding spoilt_def by blast
qed

lemma read_chunk:
  assumes c: "in_page (page_of b) a n" "a + n \<le> size_of b" "0 < n" and h: "holds content up crc u b v w"
    and d: "fa_read drv (wc_start_addr (w_cfg w) + calcAddr a w) n (w_flash w) = (r, bs, f)"
  shows "holds content up crc u b v (w\<lparr>w_flash := f\<rparr>)" "r = ESP_OK \<Longrightarrow> bs = mem_read a n v" "u \<Longrightarrow> r = ESP_OK"
proof -
  let ?p = "wc_start_addr (w_cfg w) + calcAddr a w"
  note hb = holds_bounds [OF h]
  have w: "in_page (wc_page_size (w_cfg w)) a n" "a + n \<le> w_flash_size w" using h c by (auto simp: holds_def)
  have r: "?p + n \<le> length (content (w_flash w))" using calcAddr_range [OF hb(1) w c(3)] hb(5) by simp
  have up: "u \<Longrightarrow> r = ESP_OK \<and> up f" using h read_up [of "w_flash w" ?p n] r d by (auto simp: holds_def)
  then show "u \<Longrightarrow> r = ESP_OK" by simp
  show "holds content up crc u b v (w\<lparr>w_flash := f\<rparr>)" using up read_keeps [OF d] hb(3) by (intro holds_flash [OF h]) (simp_all add: mem_agree_def)
  show "r = ESP_OK \<Longrightarrow> bs = mem_read a n v" using read_ok [of ?p n "w_flash w" bs f] d vmem_read [OF hb(1) w hb(5)] hb(3) by simp
qed

end

end
