(* ===== verification/WL_Refine.thy ===== *)
theory WL_Refine
  imports WL_Access
begin

text \<open>
  The interface of \<^verbatim>\<open>WL_Flash\<close> refines a flat flash memory. An access is split into pages; an access that
  starts at a page or stays in one is split into accesses that stay in a page. The flat memory is the
  relation \<open>flat_step\<close>; a run of requests to the wear levelling is a run of the flat memory.
\<close>

section \<open>Several pages\<close>

lemma nor_write_append:
  assumes "a + length xs + length ys \<le> length m"
  shows "nor_write a (xs @ ys) m = nor_write (a + length xs) ys (nor_write a xs m)"
proof (rule nth_equalityI)
  show "length (nor_write a (xs @ ys) m) = length (nor_write (a + length xs) ys (nor_write a xs m))" using assms by simp
  fix i assume "i < length (nor_write a (xs @ ys) m)"
  then have i: "i < length m" using assms by simp
  have nw: "nor_write p bs n ! i = (if p \<le> i \<and> i < p + length bs then n ! i AND bs ! (i - p) else n ! i)"
    if "p + length bs \<le> length n" "i < length n" for p bs n
    using that by (auto simp: nor_write_def nth_mem_write nth_mem_read)
  show "nor_write a (xs @ ys) m ! i = nor_write (a + length xs) ys (nor_write a xs m) ! i"
    using assms i by (auto simp: nw nth_append)
qed

lemma nor_erase_add:
  assumes "a + n + k \<le> length m"
  shows "nor_erase a (n + k) m = nor_erase (a + n) k (nor_erase a n m)"
  unfolding nor_erase_def using assms by (intro nth_equalityI) (auto simp: nth_mem_write)

lemma spoilt_widen:
  assumes "mem_agree (- {a..<a + n}) v v1" "spoilt content up crc u b a' n' v1 w" "a \<le> a'" "a' + n' \<le> a + n"
  shows "spoilt content up crc u b a n v w"
proof -
  from assms(2) obtain v' where v': "\<not> u" "mem_agree (- {a'..<a' + n'}) v1 v'" "holds content up crc u b v' w"
    unfolding spoilt_def by (elim conjE exE)
  have "mem_agree (- {a..<a + n}) v v'" using assms(1) agree_widen [OF v'(2) assms(3,4)] by (rule mem_agree_trans)
  then show ?thesis using v'(1,3) unfolding spoilt_def by blast
qed

text \<open>The accesses \<open>ps\<close>, relative to the address \<open>a\<close>, go on from the offset \<open>k\<close> to \<open>e\<close>, each in a page.\<close>

fun contig :: "nat \<Rightarrow> nat \<Rightarrow> nat \<Rightarrow> (nat \<times> nat) list \<Rightarrow> nat \<Rightarrow> bool" where
  "contig P a k [] e \<longleftrightarrow> k = e"
| "contig P a k ((off, n) # ps) e \<longleftrightarrow> off = k \<and> 0 < n \<and> in_page P (a + off) n \<and> contig P a (k + n) ps e"

lemma contig_le: "contig P a k ps e \<Longrightarrow> k \<le> e"
  by (induction ps arbitrary: k) (auto, fastforce)

lemma contig_pages:
  assumes "P dvd a" "contig P a ((k + j) * P) ps e" "0 < P"
  shows "contig P a (k * P) (map (\<lambda>i. (i * P, P)) [k..<k + j] @ ps) e"
  using assms(2)
proof (induction j arbitrary: k)
  case (Suc j)
  have "contig P a (Suc k * P) (map (\<lambda>i. (i * P, P)) [Suc k..<Suc k + j] @ ps) e" by (rule Suc.IH) (use Suc.prems in simp)
  moreover have "in_page P (a + k * P) P" using assms(1) by (simp add: in_page_def dvd_eq_mod_eq_0 mod_add_eq)
  moreover have "[k..<k + Suc j] = k # [Suc k..<Suc k + j]" by (simp add: upt_conv_Cons del: upt_Suc)
  ultimately show ?case using assms(3) by (simp add: add.commute)
qed simp

lemma page_accesses_contig:
  assumes "0 < P" "0 < sz" "sz < 2 ^ 32" "P dvd a \<or> in_page P a sz"
  shows "contig P a 0 (page_accesses P sz) sz"
proof -
  let ?c = "(sz - 1) div P"
  have c: "?c * P \<le> sz - 1" "sz - 1 < ?c * P + P" using div_mult_mod_eq [of "sz - 1" P] mod_less_divisor [OF assms(1), of "sz - 1"] by linarith+
  have u: "usub sz 1 = sz - 1" using assms(2,3) by (intro usub_le) simp_all
  have s: "usub sz (?c * P) = sz - ?c * P" using c(1) assms(3) by (intro usub_le) linarith+
  have pa: "page_accesses P sz = map (\<lambda>i. (i * P, P)) [0..<?c] @ [(?c * P, sz - ?c * P)]"
    unfolding page_accesses_def u Let_def s by simp
  show ?thesis
  proof (cases "P dvd a")
    case True
    have "in_page P (a + ?c * P) (sz - ?c * P)" using True c(2) by (simp add: in_page_def dvd_eq_mod_eq_0 mod_add_eq)
    moreover have "?c * P < sz" using c(1) assms(2) by linarith
    ultimately have "contig P a ((0 + ?c) * P) [(?c * P, sz - ?c * P)] sz" by simp
    from contig_pages [OF True this assms(1)] show ?thesis unfolding pa by simp
  next
    case False
    then have "in_page P a sz" using assms(4) by simp
    then have "?c = 0" using assms(2) by (simp add: in_page_def)
    then show ?thesis using \<open>in_page P a sz\<close> assms(2) unfolding pa by simp
  qed
qed

context flash_driver begin

lemma write_pages_rule:
  assumes "contig (page_of b) a k ps (length src)" "a + length src \<le> size_of b" "size_of b < 2 ^ 31" "length v = size_of b"
  shows "triple (holds content up crc u b v) (write_pages drv a src ps)
    (holds content up crc u b (nor_write (a + k) (drop k src) v)) (spoilt content up crc u b a (length src) v)"
  using assms(1,4)
proof (induction ps arbitrary: k v)
  case Nil
  then show ?case by (simp add: triple_def nor_write_def)
next
  case (Cons p ps)
  obtain n where p: "p = (k, n)" using Cons.prems(1) by (cases p) auto
  have c: "0 < n" "in_page (page_of b) (a + k) n" "contig (page_of b) a (k + n) ps (length src)" using Cons.prems(1) p by simp_all
  have le: "k + n \<le> length src" using contig_le [OF c(3)] .
  let ?bs = "mem_read k n src"
  have bs: "length ?bs = n" "?bs \<noteq> []" using le c(1) by (simp, metis length_mem_read le less_nat_zero_code list.size(3))
  have ad: "uadd a k = a + k" using le assms(2,3) by (intro uadd_small) simp
  have cat: "drop k src = ?bs @ drop (k + n) src" by (simp add: mem_read_def add.commute) (metis append_take_drop_id drop_drop add.commute)
  let ?v = "nor_write (a + k) ?bs v"
  have lv: "a + k + length ?bs \<le> length v" using le bs(1) assms(2) Cons.prems(2) by linarith
  have ag: "mem_agree (- {a..<a + length src}) v ?v" by (rule mem_agree_subset [OF nor_frame(1) [OF lv]]) (use le bs(1) in auto)
  have "triple (holds content up crc u b v) (\<lambda>w. drv_write drv (wc_start_addr (w_cfg w) + calcAddr (a + k) w) ?bs w)
      (holds content up crc u b ?v) (spoilt content up crc u b a (length src) v)"
  proof (rule triple_post [OF write_chunk_rule])
    fix w assume "spoilt content up crc u b (a + k) (length ?bs) v w"
    then show "spoilt content up crc u b a (length src) v w"
      by (rule spoilt_widen [rotated]) (use le bs(1) in \<open>simp_all add: mem_agree_def\<close>)
  qed (use c bs le assms(2) in simp_all)
  moreover have "triple (holds content up crc u b ?v) (write_pages drv a src ps)
      (holds content up crc u b (nor_write (a + k) (drop k src) v)) (spoilt content up crc u b a (length src) v)"
  proof (rule triple_post [OF Cons.IH [OF c(3)]])
    show "length ?v = size_of b" using Cons.prems(2) lv by simp
    fix w
    show "holds content up crc u b (nor_write (a + (k + n)) (drop (k + n) src) ?v) w \<Longrightarrow> holds content up crc u b (nor_write (a + k) (drop k src) v) w"
      unfolding cat using nor_write_append [of "a + k" ?bs "drop (k + n) src" v] lv le bs(1) assms(2) Cons.prems(2) by (simp add: add.assoc)
    show "spoilt content up crc u b a (length src) ?v w \<Longrightarrow> spoilt content up crc u b a (length src) v w"
      by (erule spoilt_widen [OF ag]) simp_all
  qed
  ultimately have "triple (holds content up crc u b v)
      (check (\<lambda>w. drv_write drv (wc_start_addr (w_cfg w) + calcAddr (a + k) w) ?bs w) (write_pages drv a src ps))
      (holds content up crc u b (nor_write (a + k) (drop k src) v)) (spoilt content up crc u b a (length src) v)" by (rule triple_check)
  then show ?case by (rule triple_cong) (simp add: p mem_load_def le ad)
qed

lemma read_pages_holds:
  assumes "contig (page_of b) a k ps sz" "a + sz \<le> size_of b" "size_of b < 2 ^ 31" "holds content up crc u b v w"
  shows "\<exists>r bs w'. read_pages drv a sz ps dest w = Inr (r, dest @ bs, w') \<and> holds content up crc u b v w' \<and>
    (r = ESP_OK \<longrightarrow> bs = mem_read (a + k) (sz - k) v) \<and> (u \<longrightarrow> r = ESP_OK)"
  using assms(1,4)
proof (induction ps arbitrary: k dest w)
  case Nil
  then show ?case by simp
next
  case (Cons p ps)
  obtain n where p: "p = (k, n)" using Cons.prems(1) by (cases p) auto
  have c: "0 < n" "in_page (page_of b) (a + k) n" "contig (page_of b) a (k + n) ps sz" using Cons.prems(1) p by simp_all
  have le: "k + n \<le> sz" using contig_le [OF c(3)] .
  have ad: "uadd a k = a + k" using le assms(2,3) by (intro uadd_small) simp
  obtain r bs f where d: "fa_read drv (wc_start_addr (w_cfg w) + calcAddr (a + k) w) n (w_flash w) = (r, bs, f)"
    by (cases "fa_read drv (wc_start_addr (w_cfg w) + calcAddr (a + k) w) n (w_flash w)")
  have "a + k + n \<le> size_of b" using le assms(2) by linarith
  note rc = read_chunk [OF c(2) this c(1) Cons.prems(2) d]
  show ?case
  proof (cases "r = ESP_OK")
    case False
    then show ?thesis using rc d le ad p by (intro exI [of _ r] exI [of _ "[]"] exI [of _ "w\<lparr>w_flash := f\<rparr>"]) auto
  next
    case True
    from Cons.IH [OF c(3) rc(1), of "dest @ bs"] obtain r' bs' w' where i: "read_pages drv a sz ps (dest @ bs) (w\<lparr>w_flash := f\<rparr>) = Inr (r', (dest @ bs) @ bs', w')"
      "holds content up crc u b v w'" "r' = ESP_OK \<longrightarrow> bs' = mem_read (a + (k + n)) (sz - (k + n)) v" "u \<longrightarrow> r' = ESP_OK" by (elim exE conjE)
    have "sz - k = n + (sz - (k + n))" using le by simp
    then have "mem_read (a + k) (sz - k) v = mem_read (a + k) n v @ mem_read (a + k + n) (sz - (k + n)) v"
      by (simp only: mem_read_append)
    then show ?thesis using i rc(2) [OF True] d le ad p True
      by (intro exI [of _ r'] exI [of _ "bs @ bs'"] exI [of _ w']) (simp add: add.assoc)
  qed
qed

lemma erase_sector_rule:
  assumes "fst (snd b)" "(s + 1) * SPI_FLASH_SEC_SIZE \<le> size_of b" "size_of b < 2 ^ 31" "length v = size_of b" and crc: "u \<longrightarrow> crc_words crc"
  shows "triple (holds content up crc u b v) (WL_erase_sector drv crc s)
    (holds content up crc u b (nor_erase (s * SPI_FLASH_SEC_SIZE) SPI_FLASH_SEC_SIZE v))
    (spoilt content up crc u b (s * SPI_FLASH_SEC_SIZE) SPI_FLASH_SEC_SIZE v)"
proof -
  let ?n = SPI_FLASH_SEC_SIZE let ?a = "s * SPI_FLASH_SEC_SIZE"
  have a: "?n dvd ?a" "?a + ?n \<le> size_of b" using assms(2) by simp_all
  have n: "0 < ?n" by (simp add: SPI_FLASH_SEC_SIZE_def)
  have "triple (holds content up crc u b v) (updateWL drv crc) (holds content up crc u b v) (spoilt content up crc u b ?a ?n v)"
    by (rule triple_post [OF updateWL_rule [OF crc]]) (auto intro: holds_spoilt)
  moreover have "triple (holds content up crc u b v)
    (\<lambda>w. if w_flash_size w = 0 \<or> wc_sector_size (w_cfg w) = 0 then Inl Div_by_zero
       else let virt_addr = calcAddr (umul s (wc_sector_size (w_cfg w))) w
            in case fa_erase_sector drv ((wc_start_addr (w_cfg w) + virt_addr) div wc_sector_size (w_cfg w)) (w_flash w) of
                 (result, f) \<Rightarrow> Inr (result, w\<lparr>w_flash := f\<rparr>))
    (holds content up crc u b (nor_erase ?a ?n v)) (spoilt content up crc u b ?a ?n v)"
  proof (rule triple_cong [OF erase_chunk_rule [OF a]])
    fix w :: "'f wl_flash" assume h: "holds content up crc u b v w"
    note hb = holds_bounds [OF h]
    have z: "wc_sector_size (w_cfg w) = ?n" "0 < w_flash_size w" "?n dvd wc_start_addr (w_cfg w)"
      using hb(1) by (simp_all add: wl_geom_def wl_sizes_def Let_def)
    have sz: "?a + ?n \<le> w_flash_size w" using h a(2) by (auto simp: holds_def)
    have "umul s ?n = ?a" using a(2) assms(3) by (intro umul_small) simp
    moreover have "(wc_start_addr (w_cfg w) + calcAddr ?a w) div ?n * ?n = wc_start_addr (w_cfg w) + calcAddr ?a w"
      using sector_access(2) [OF hb(1) a(1) sz] z(3) by (intro dvd_div_mult_self dvd_add)
    ultimately show "(if w_flash_size w = 0 \<or> wc_sector_size (w_cfg w) = 0 then Inl Div_by_zero
       else let virt_addr = calcAddr (umul s (wc_sector_size (w_cfg w))) w
            in case fa_erase_sector drv ((wc_start_addr (w_cfg w) + virt_addr) div wc_sector_size (w_cfg w)) (w_flash w) of
                 (result, f) \<Rightarrow> Inr (result, w\<lparr>w_flash := f\<rparr>)) =
      drv_erase_range drv (wc_start_addr (w_cfg w) + calcAddr ?a w) ?n w"
      using z(2) n unfolding z(1) erase_sector drv_erase_range_def by simp
  qed
  ultimately have t: "triple (holds content up crc u b v) (check (updateWL drv crc)
    (\<lambda>w. if w_flash_size w = 0 \<or> wc_sector_size (w_cfg w) = 0 then Inl Div_by_zero
       else let virt_addr = calcAddr (umul s (wc_sector_size (w_cfg w))) w
            in case fa_erase_sector drv ((wc_start_addr (w_cfg w) + virt_addr) div wc_sector_size (w_cfg w)) (w_flash w) of
                 (result, f) \<Rightarrow> Inr (result, w\<lparr>w_flash := f\<rparr>)))
    (holds content up crc u b (nor_erase ?a ?n v)) (spoilt content up crc u b ?a ?n v)" by (rule triple_check)
  have "w_initialized w" if "holds content up crc u b v w" for w :: "'f wl_flash" using that assms(1) by (auto simp: holds_def base_def)
  then show ?thesis by (intro triple_cong [OF t]) (simp add: WL_erase_sector_def)
qed

lemma erase_sectors_rule:
  assumes "fst (snd b)" "(s + k) * SPI_FLASH_SEC_SIZE \<le> size_of b" "size_of b < 2 ^ 31" "length v = size_of b" and crc: "u \<longrightarrow> crc_words crc"
  shows "triple (holds content up crc u b v) (erase_sectors drv crc (map ((+) s) [0..<k]))
    (holds content up crc u b (nor_erase (s * SPI_FLASH_SEC_SIZE) (k * SPI_FLASH_SEC_SIZE) v))
    (spoilt content up crc u b (s * SPI_FLASH_SEC_SIZE) (k * SPI_FLASH_SEC_SIZE) v)"
  using assms(2,4)
proof (induction k arbitrary: s v)
  case 0
  then show ?case by (simp add: triple_def nor_erase_def)
next
  case (Suc k)
  let ?n = SPI_FLASH_SEC_SIZE let ?a = "s * ?n" let ?e = "spoilt content up crc u b ?a (Suc k * ?n) v" let ?v = "nor_erase ?a ?n v"
  have l: "?a + Suc k * ?n \<le> size_of b" using Suc.prems(1) by (simp add: add_mult_distrib)
  then have lv: "?a + ?n \<le> length v" using Suc.prems(2) by simp
  have ag: "mem_agree (- {?a..<?a + Suc k * ?n}) v ?v" by (rule mem_agree_subset [OF nor_frame(2) [OF lv]]) auto
  have "triple (holds content up crc u b v) (WL_erase_sector drv crc s) (holds content up crc u b ?v) ?e"
  proof (rule triple_post [OF erase_sector_rule [OF assms(1) _ assms(3) Suc.prems(2) crc]])
    fix w assume "spoilt content up crc u b ?a ?n v w"
    then show "?e w" by (rule spoilt_widen [rotated]) (simp_all add: mem_agree_def)
  qed (use l in simp_all)
  moreover have "triple (holds content up crc u b ?v) (erase_sectors drv crc (map ((+) (Suc s)) [0..<k]))
      (holds content up crc u b (nor_erase ?a (Suc k * ?n) v)) ?e"
  proof (rule triple_post [OF Suc.IH])
    show "(Suc s + k) * ?n \<le> size_of b" "length ?v = size_of b" using l lv Suc.prems(2) by (simp_all add: add_mult_distrib)
    fix w
    show "holds content up crc u b (nor_erase (Suc s * ?n) (k * ?n) ?v) w \<Longrightarrow> holds content up crc u b (nor_erase ?a (Suc k * ?n) v) w"
      using nor_erase_add [of ?a ?n "k * ?n" v] l Suc.prems(2) by (simp add: add.commute)
    show "spoilt content up crc u b (Suc s * ?n) (k * ?n) ?v w \<Longrightarrow> ?e w" by (erule spoilt_widen [OF ag]) simp_all
  qed
  moreover have "map ((+) s) [0..<Suc k] = s # map ((+) (Suc s)) [0..<k]"
    by (simp add: upt_conv_Cons map_Suc_upt [symmetric] o_def del: upt_Suc)
  ultimately show ?case by (simp only: erase_sectors.simps [abs_def]) (rule triple_check)
qed

end

section \<open>A flat flash memory\<close>

datatype wl_req = Req_read nat nat | Req_write nat "byte list" | Req_erase nat nat | Req_flush

type_synonym wl_reply = "esp_err \<times> byte list"

definition wl_call :: "'f flash_access \<Rightarrow> (byte list \<Rightarrow> nat) \<Rightarrow> wl_req \<Rightarrow> 'f wl_flash \<Rightarrow> (wl_reply \<times> 'f wl_flash) res" where
  "wl_call drv crc q w = (case q of
     Req_read a n \<Rightarrow> bindR (WL_read drv a n w) (\<lambda>(r, bs, w). Inr ((r, bs), w))
   | Req_write a bs \<Rightarrow> bindR (WL_write drv a bs w) (\<lambda>(r, w). Inr ((r, []), w))
   | Req_erase a n \<Rightarrow> bindR (WL_erase_range drv crc a n w) (\<lambda>(r, w). Inr ((r, []), w))
   | Req_flush \<Rightarrow> bindR (WL_flush drv crc w) (\<lambda>(r, w). Inr ((r, []), w)))"

fun wl_calls :: "'f flash_access \<Rightarrow> (byte list \<Rightarrow> nat) \<Rightarrow> wl_req list \<Rightarrow> 'f wl_flash \<Rightarrow> (wl_reply list \<times> 'f wl_flash) res" where
  "wl_calls drv crc [] w = Inr ([], w)"
| "wl_calls drv crc (q # qs) w = bindR (wl_call drv crc q w) (\<lambda>(r, w). bindR (wl_calls drv crc qs w) (\<lambda>(rs, w). Inr (r # rs, w)))"

text \<open>
  The requests that the code serves as it should. They are inside the storage; an erase is of whole
  sectors from the beginning of one; a read or write is not empty and begins at the beginning of a page
  or stays within one. The documentation has no such limit on pages and no limit on empty accesses: the
  code needs them, since it maps the last part of an access by its first address only, and computes
  with the size minus one.
\<close>

definition req_ok :: "nat \<Rightarrow> nat \<Rightarrow> wl_req \<Rightarrow> bool" where
  "req_ok P sz q = (case q of
     Req_read a n \<Rightarrow> 0 < n \<and> a + n \<le> sz \<and> (P dvd a \<or> in_page P a n)
   | Req_write a bs \<Rightarrow> 0 < length bs \<and> a + length bs \<le> sz \<and> (P dvd a \<or> in_page P a (length bs))
   | Req_erase a n \<Rightarrow> a + n \<le> sz \<and> SPI_FLASH_SEC_SIZE dvd a \<and> SPI_FLASH_SEC_SIZE dvd n
   | Req_flush \<Rightarrow> True)"

text \<open>
  A step of the flat memory: a request that succeeds has its effect, and one that fails may leave
  anything in its range.
\<close>

inductive flat_step :: "mem \<Rightarrow> wl_req \<Rightarrow> wl_reply \<Rightarrow> mem \<Rightarrow> bool" where
  flat_read: "flat_step v (Req_read a n) (ESP_OK, mem_read a n v) v"
| flat_write: "flat_step v (Req_write a bs) (ESP_OK, []) (nor_write a bs v)"
| flat_erase: "flat_step v (Req_erase a n) (ESP_OK, []) (nor_erase a n v)"
| flat_flush: "flat_step v Req_flush (ESP_OK, []) v"
| flat_read_error: "r \<noteq> ESP_OK \<Longrightarrow> flat_step v (Req_read a n) (r, bs) v"
| flat_write_error: "r \<noteq> ESP_OK \<Longrightarrow> mem_agree (- {a..<a + length bs}) v v' \<Longrightarrow> flat_step v (Req_write a bs) (r, []) v'"
| flat_erase_error: "r \<noteq> ESP_OK \<Longrightarrow> mem_agree (- {a..<a + n}) v v' \<Longrightarrow> flat_step v (Req_erase a n) (r, []) v'"
| flat_flush_error: "r \<noteq> ESP_OK \<Longrightarrow> flat_step v Req_flush (r, []) v"

inductive flat_run :: "mem \<Rightarrow> wl_req list \<Rightarrow> wl_reply list \<Rightarrow> mem \<Rightarrow> bool" where
  flat_nil: "flat_run v [] [] v"
| flat_cons: "flat_step v q r v1 \<Longrightarrow> flat_run v1 qs rs v2 \<Longrightarrow> flat_run v (q # qs) (r # rs) v2"

lemma flat_step_length:
  assumes "flat_step v q r v'" "req_ok P (length v) q"
  shows "length v' = length v"
  using assms by (cases rule: flat_step.cases) (auto simp: req_ok_def mem_agree_def)

lemma holds_start:
  assumes "holds content up crc u b v w" "fst (snd b)"
  shows "w_initialized w" "0 < wc_page_size (w_cfg w)" "0 < w_flash_size w" "page_of b = wc_page_size (w_cfg w)" "size_of b = w_flash_size w"
    "size_of b < 2 ^ 31" "length v = size_of b" "wc_sector_size (w_cfg w) = SPI_FLASH_SEC_SIZE"
  using assms by (auto simp: holds_def wl_geom_def wl_sizes_def Let_def base_def page_of_def size_of_def)

lemma erase_range_sectors:
  assumes "w_initialized w" "wc_sector_size (w_cfg w) = SPI_FLASH_SEC_SIZE" "k * SPI_FLASH_SEC_SIZE < 2 ^ 31"
  shows "WL_erase_range drv crc (s * SPI_FLASH_SEC_SIZE) (k * SPI_FLASH_SEC_SIZE) w = erase_sectors drv crc (map ((+) s) [0..<k]) w"
proof -
  let ?n = "k * SPI_FLASH_SEC_SIZE"
  have "uadd ?n SPI_FLASH_SEC_SIZE = ?n + SPI_FLASH_SEC_SIZE" "usub (?n + SPI_FLASH_SEC_SIZE) 1 = ?n + SPI_FLASH_SEC_SIZE - 1"
    using assms(3) by (simp_all add: SPI_FLASH_SEC_SIZE_def)
  moreover have "(?n + SPI_FLASH_SEC_SIZE - 1) div SPI_FLASH_SEC_SIZE = k" "s * SPI_FLASH_SEC_SIZE div SPI_FLASH_SEC_SIZE = s"
    by (simp_all add: SPI_FLASH_SEC_SIZE_def)
  ultimately show ?thesis using assms(1) unfolding WL_erase_range_def assms(2) by (simp add: SPI_FLASH_SEC_SIZE_def)
qed

lemma triple_flat:
  assumes "triple (holds content up crc u b v) m (holds content up crc u b v') (spoilt content up crc u b a n v)" "holds content up crc u b v w"
    and "flat_step v q (ESP_OK, []) v'" "\<And>r v'. r \<noteq> ESP_OK \<Longrightarrow> mem_agree (- {a..<a + n}) v v' \<Longrightarrow> flat_step v q (r, []) v'"
  shows "\<exists>r w' v'. m w = Inr (r, w') \<and> flat_step v q (r, []) v' \<and> holds content up crc u b v' w' \<and> (u \<longrightarrow> r = ESP_OK)"
proof -
  from tripleD [OF assms(1,2)] obtain r w' where r: "m w = Inr (r, w')"
    "if r = ESP_OK then holds content up crc u b v' w' else spoilt content up crc u b a n v w'" by (elim exE conjE)
  show ?thesis
  proof (cases "r = ESP_OK")
    case True
    then show ?thesis using r assms(3) by (intro exI [of _ r] exI [of _ w'] exI [of _ v']) simp
  next
    case False
    then obtain v1 where "\<not> u" "mem_agree (- {a..<a + n}) v v1" "holds content up crc u b v1 w'" using r(2) unfolding spoilt_def by auto
    then show ?thesis using r(1) assms(4) [OF False] by (intro exI [of _ r] exI [of _ w'] exI [of _ v1]) simp
  qed
qed

context flash_driver begin

lemma write_refines:
  assumes h: "holds content up crc u b v w" "fst (snd b)" and q: "req_ok (page_of b) (size_of b) (Req_write a bs)"
  shows "\<exists>r w' v'. WL_write drv a bs w = Inr (r, w') \<and> flat_step v (Req_write a bs) (r, []) v' \<and> holds content up crc u b v' w' \<and> (u \<longrightarrow> r = ESP_OK)"
proof -
  note hs = holds_start [OF h]
  have r: "0 < length bs" "a + length bs \<le> size_of b" "page_of b dvd a \<or> in_page (page_of b) a (length bs)" using q by (auto simp: req_ok_def)
  have "length bs < 2 ^ 32" using r(2) hs(6) by simp
  from page_accesses_contig [OF _ r(1) this r(3)] hs(2,4) have c: "contig (page_of b) a 0 (page_accesses (page_of b) (length bs)) (length bs)" by simp
  have e: "WL_write drv a bs w = write_pages drv a bs (page_accesses (page_of b) (length bs)) w"
    using hs(1-4) by (simp add: WL_write_def)
  have t: "triple (holds content up crc u b v) (write_pages drv a bs (page_accesses (page_of b) (length bs)))
    (holds content up crc u b (nor_write a bs v)) (spoilt content up crc u b a (length bs) v)"
    using write_pages_rule [OF c r(2) hs(6,7)] by simp
  show ?thesis unfolding e by (rule triple_flat [OF t h(1)]) (auto intro: flat_write flat_write_error)
qed

lemma erase_refines:
  assumes h: "holds content up crc u b v w" "fst (snd b)" and crc: "u \<longrightarrow> crc_words crc" and q: "req_ok (page_of b) (size_of b) (Req_erase a n)"
  shows "\<exists>r w' v'. WL_erase_range drv crc a n w = Inr (r, w') \<and> flat_step v (Req_erase a n) (r, []) v' \<and> holds content up crc u b v' w' \<and> (u \<longrightarrow> r = ESP_OK)"
proof -
  note hs = holds_start [OF h]
  have r: "a + n \<le> size_of b" "SPI_FLASH_SEC_SIZE dvd a" "SPI_FLASH_SEC_SIZE dvd n" using q by (auto simp: req_ok_def)
  obtain s where a: "a = s * SPI_FLASH_SEC_SIZE" using r(2) by (metis dvdE mult.commute)
  obtain k where n: "n = k * SPI_FLASH_SEC_SIZE" using r(3) by (metis dvdE mult.commute)
  have sz: "(s + k) * SPI_FLASH_SEC_SIZE \<le> size_of b" using r(1) unfolding a n by (simp add: add_mult_distrib)
  have "k * SPI_FLASH_SEC_SIZE < 2 ^ 31" using sz hs(6) by (simp add: add_mult_distrib)
  note e = erase_range_sectors [OF hs(1,8) this, of drv crc s, folded a n]
  have t: "triple (holds content up crc u b v) (erase_sectors drv crc (map ((+) s) [0..<k]))
    (holds content up crc u b (nor_erase a n v)) (spoilt content up crc u b a n v)"
    unfolding a n by (rule erase_sectors_rule [OF h(2) sz hs(6,7) crc])
  show ?thesis unfolding e by (rule triple_flat [OF t h(1)]) (auto intro: flat_erase flat_erase_error)
qed

lemma flush_refines:
  assumes h: "holds content up crc u b v w" and crc: "u \<longrightarrow> crc_words crc"
  shows "\<exists>r w' v'. WL_flush drv crc w = Inr (r, w') \<and> flat_step v Req_flush (r, []) v' \<and> holds content up crc u b v' w' \<and> (u \<longrightarrow> r = ESP_OK)"
proof -
  let ?a = "set_access (usub (ws_max_count (w_state w)) 1) w"
  have "holds content up crc u b v ?a" by (rule holds_access [OF h]) (simp add: usub_def)
  from tripleD [OF updateWL_rule [OF crc] this] obtain r w' where "WL_flush drv crc w = Inr (r, w')"
    "if r = ESP_OK then holds content up crc u b v w' else holds content up crc u b v w' \<and> \<not> u" unfolding WL_flush_def by (elim exE conjE)
  then show ?thesis by (intro exI [of _ r] exI [of _ w'] exI [of _ v]) (auto intro: flat_flush flat_flush_error split: if_splits)
qed

lemma read_refines:
  assumes h: "holds content up crc u b v w" "fst (snd b)" and q: "req_ok (page_of b) (size_of b) (Req_read a n)"
  shows "\<exists>r bs w'. WL_read drv a n w = Inr (r, bs, w') \<and> flat_step v (Req_read a n) (r, bs) v \<and> holds content up crc u b v w' \<and> (u \<longrightarrow> r = ESP_OK)"
proof -
  note hs = holds_start [OF h]
  have r: "0 < n" "a + n \<le> size_of b" "page_of b dvd a \<or> in_page (page_of b) a n" using q by (auto simp: req_ok_def)
  have "n < 2 ^ 32" using r(2) hs(6) by simp
  from page_accesses_contig [OF _ r(1) this r(3)] hs(2,4) have c: "contig (page_of b) a 0 (page_accesses (page_of b) n) n" by simp
  have e: "WL_read drv a n w = read_pages drv a n (page_accesses (page_of b) n) [] w" using hs(1-4) by (simp add: WL_read_def)
  from read_pages_holds [OF c r(2) hs(6) h(1), of "[]"] obtain r bs w' where
    "WL_read drv a n w = Inr (r, bs, w')" "holds content up crc u b v w'" "r = ESP_OK \<longrightarrow> bs = mem_read a n v" "u \<longrightarrow> r = ESP_OK"
    unfolding e by auto
  moreover from this(3) have "flat_step v (Req_read a n) (r, bs) v" by (cases "r = ESP_OK") (auto intro: flat_read flat_read_error)
  ultimately show ?thesis by (intro exI [of _ r] exI [of _ bs] exI [of _ w']) simp
qed

lemma call_refines:
  assumes h: "holds content up crc u b v w" "fst (snd b)" and crc: "u \<longrightarrow> crc_words crc" and q: "req_ok (page_of b) (size_of b) q"
  shows "\<exists>r w' v'. wl_call drv crc q w = Inr (r, w') \<and> flat_step v q r v' \<and> holds content up crc u b v' w' \<and> (u \<longrightarrow> fst r = ESP_OK)"
proof (cases q)
  case (Req_read a n)
  from read_refines [OF h q [unfolded this]] obtain r bs w' where "WL_read drv a n w = Inr (r, bs, w')"
    "flat_step v (Req_read a n) (r, bs) v" "holds content up crc u b v w'" "u \<longrightarrow> r = ESP_OK" by (elim exE conjE)
  then show ?thesis using Req_read by (intro exI [of _ "(r, bs)"] exI [of _ w'] exI [of _ v]) (simp add: wl_call_def)
next
  case (Req_write a bs)
  from write_refines [OF h q [unfolded this]] obtain r w' v' where "WL_write drv a bs w = Inr (r, w')"
    "flat_step v (Req_write a bs) (r, []) v'" "holds content up crc u b v' w'" "u \<longrightarrow> r = ESP_OK" by (elim exE conjE)
  then show ?thesis using Req_write by (intro exI [of _ "(r, [])"] exI [of _ w'] exI [of _ v']) (simp add: wl_call_def)
next
  case (Req_erase a n)
  from erase_refines [OF h crc q [unfolded this]] obtain r w' v' where "WL_erase_range drv crc a n w = Inr (r, w')"
    "flat_step v (Req_erase a n) (r, []) v'" "holds content up crc u b v' w'" "u \<longrightarrow> r = ESP_OK" by (elim exE conjE)
  then show ?thesis using Req_erase by (intro exI [of _ "(r, [])"] exI [of _ w'] exI [of _ v']) (simp add: wl_call_def)
next
  case Req_flush
  from flush_refines [OF h(1) crc] obtain r w' v' where "WL_flush drv crc w = Inr (r, w')"
    "flat_step v Req_flush (r, []) v'" "holds content up crc u b v' w'" "u \<longrightarrow> r = ESP_OK" by (elim exE conjE)
  then show ?thesis using Req_flush by (intro exI [of _ "(r, [])"] exI [of _ w'] exI [of _ v']) (simp add: wl_call_def)
qed

lemma calls_refine:
  assumes "holds content up crc u b v w" "fst (snd b)" and crc: "u \<longrightarrow> crc_words crc" and "\<forall>q \<in> set qs. req_ok (page_of b) (size_of b) q"
  shows "\<exists>rs w' v'. wl_calls drv crc qs w = Inr (rs, w') \<and> flat_run v qs rs v' \<and> holds content up crc u b v' w' \<and> (u \<longrightarrow> (\<forall>r \<in> set rs. fst r = ESP_OK))"
  using assms(1,4)
proof (induction qs arbitrary: v w)
  case Nil
  then show ?case by (auto intro: flat_nil)
next
  case (Cons q qs)
  from call_refines [OF Cons.prems(1) assms(2) crc] Cons.prems(2) obtain r w1 v1 where
    1: "wl_call drv crc q w = Inr (r, w1)" "flat_step v q r v1" "holds content up crc u b v1 w1" "u \<longrightarrow> fst r = ESP_OK" by (auto, blast)
  from Cons.IH [OF 1(3)] Cons.prems(2) obtain rs w2 v2 where
    2: "wl_calls drv crc qs w1 = Inr (rs, w2)" "flat_run v1 qs rs v2" "holds content up crc u b v2 w2" "u \<longrightarrow> (\<forall>r \<in> set rs. fst r = ESP_OK)" by auto
  show ?case using 1 2 flat_cons [OF 1(2) 2(2)] by (intro exI [of _ "r # rs"] exI [of _ w2] exI [of _ v2]) simp
qed

end

end
