(* ===== verification/WL_Mount.thy ===== *)
theory WL_Mount
  imports WL_Refine
begin

text \<open>
  Starting up: \<^verbatim>\<open>config\<close> lays out the areas, and \<^verbatim>\<open>init\<close> finds the state in the flash, or writes a new one
  when there is none.
\<close>

section \<open>Finding the position\<close>

lemma word_at_append: "4 * i + 4 \<le> length bs \<Longrightarrow> word_at i (bs @ ys) = word_at i bs"
  by (simp add: word_at_def)

lemma rec_ok_append: "16 \<le> length bs \<Longrightarrow> rec_ok crc dev n (bs @ ys) = rec_ok crc dev n bs"
  by (auto simp: rec_ok_def word_at_append)

lemma OkBuffSet_rec: "16 \<le> length (w_temp_buff w) \<Longrightarrow> OkBuffSet crc n w = Inr (rec_ok crc (ws_device_id (w_state w)) n (w_temp_buff w))"
  by (simp add: OkBuffSet_def rec_ok_def)

text \<open>The first \<open>p\<close> of the \<open>n\<close> positions have a record.\<close>

definition marked :: "(byte list \<Rightarrow> nat) \<Rightarrow> nat \<Rightarrow> nat \<Rightarrow> nat \<Rightarrow> 'f wl_flash \<Rightarrow> mem \<Rightarrow> bool" where
  "marked crc dev p n w m \<longleftrightarrow> p \<le> n \<and> (\<forall>i < p. rec_ok crc dev i (rec_bytes (w_addr_state1 w) i w m)) \<and>
     (p < n \<longrightarrow> \<not> rec_ok crc dev p (rec_bytes (w_addr_state1 w) p w m))"

lemma sizes_temp:
  assumes "wl_sizes w"
  shows "16 \<le> wc_wr_size (w_cfg w)" "wc_wr_size (w_cfg w) \<le> length (w_temp_buff w)"
    "i \<le> n_blocks w \<Longrightarrow> record_addr (w_addr_state1 w) i w + wc_wr_size (w_cfg w) \<le> w_addr_state2 w"
    "w_addr_state2 w + w_state_size w \<le> w_addr_cfg w" "sizeof_state \<le> w_state_size w" "w_addr_state1 w + w_state_size w \<le> w_addr_state2 w"
proof -
  show "16 \<le> wc_wr_size (w_cfg w)" "wc_wr_size (w_cfg w) \<le> length (w_temp_buff w)"
    "w_addr_state2 w + w_state_size w \<le> w_addr_cfg w" "w_addr_state1 w + w_state_size w \<le> w_addr_state2 w"
    using assms by (simp_all add: wl_sizes_def Let_def)
  have z: "w_addr_state1 w + w_state_size w \<le> w_addr_state2 w" "sizeof_state + (n_blocks w + 1) * wc_wr_size (w_cfg w) \<le> w_state_size w"
    using assms by (simp_all add: wl_sizes_def Let_def n_blocks_def)
  then show "sizeof_state \<le> w_state_size w" by linarith
  assume "i \<le> n_blocks w"
  then have "(i + 1) * wc_wr_size (w_cfg w) \<le> (n_blocks w + 1) * wc_wr_size (w_cfg w)" by (intro mult_le_mono1) simp
  then show "record_addr (w_addr_state1 w) i w + wc_wr_size (w_cfg w) \<le> w_addr_state2 w" using z unfolding record_addr_def add_mult_distrib mult_1 by linarith
qed

context flash_driver begin

lemma read_record:
  fixes w0 :: "'f wl_flash"
  assumes z: "wl_sizes w0" and f: "fits w0 m" and i: "i \<le> n_blocks w0" and a: "at content up True w0 m w"
  shows "\<exists>w'. drv_read_temp drv (record_addr (w_addr_state1 w) i w) (wc_wr_size (w_cfg w)) w = Inr (ESP_OK, w') \<and> at content up True w0 m w' \<and>
    OkBuffSet crc i w' = Inr (rec_ok crc (ws_device_id (w_state w0)) i (rec_bytes (w_addr_state1 w0) i w0 m))"
proof -
  let ?a = "record_addr (w_addr_state1 w0) i w0" and ?n = "wc_wr_size (w_cfg w0)"
  note st = sizes_temp [OF z]
  have e: "record_addr (w_addr_state1 w) i w = ?a" "w_cfg w = w_cfg w0" "length (w_temp_buff w) = length (w_temp_buff w0)"
    using a by (simp_all add: at_def base_eq record_addr_def)
  have l: "?a + ?n \<le> length m" using st(3) [OF i] st(4) f by (simp add: fits_def)
  then obtain f' where d: "fa_read drv ?a ?n (w_flash w) = (ESP_OK, mem_read ?a ?n m, f')" "up f'"
    using read_up [of "w_flash w" ?a ?n] a by (auto simp: at_def)
  let ?w = "w\<lparr>w_flash := f', w_temp_buff := mem_read ?a ?n m @ drop ?n (w_temp_buff w)\<rparr>"
  have "length (w_temp_buff ?w) = length (w_temp_buff w)" using l st(2) e by simp
  then have at: "at content up True w0 m ?w" using a d read_keeps [OF d(1)] by (simp add: at_def)
  have "OkBuffSet crc i ?w = Inr (rec_ok crc (ws_device_id (w_state w0)) i (rec_bytes (w_addr_state1 w0) i w0 m))"
    using a l st(1,2) e(3) by (subst OkBuffSet_rec) (simp_all add: rec_ok_append rec_bytes_def at_def)
  then show ?thesis using d(1) at e l by (intro exI [of _ ?w]) (simp add: drv_read_temp_def read_into_full)
qed

lemma recover_loop_up:
  fixes w0 :: "'f wl_flash"
  assumes z: "wl_sizes w0" and f: "fits w0 m" and n: "n \<le> n_blocks w0 + 1"
    and p: "marked crc (ws_device_id (w_state w0)) p n w0 m"
    and k: "k \<le> p" and a: "at content up True w0 m w"
  shows "\<exists>w'. recover_loop drv crc [k..<n] pos w = Inr (ESP_OK, (if p < n then p else if k < n then n - 1 else pos), w') \<and> at content up True w0 m w'"
  using k a
proof (induction "n - k" arbitrary: k pos w)
  case 0
  then show ?case using p by (intro exI [of _ w]) (auto simp: marked_def)
next
  case (Suc j)
  have kn: "k < n" "j = n - Suc k" using Suc.hyps(2) by linarith+
  have "k \<le> n_blocks w0" using kn(1) n by simp
  from read_record [OF z f this Suc.prems(2), of crc] obtain w1 where
    r: "drv_read_temp drv (record_addr (w_addr_state1 w) k w) (wc_wr_size (w_cfg w)) w = Inr (ESP_OK, w1)" "at content up True w0 m w1"
    "OkBuffSet crc k w1 = Inr (rec_ok crc (ws_device_id (w_state w0)) k (rec_bytes (w_addr_state1 w0) k w0 m))" by (elim exE conjE)
  have up: "[k..<n] = k # [Suc k..<n]" using kn(1) by (rule upt_conv_Cons)
  show ?case
  proof (cases "k < p")
    case True
    then have ok: "rec_ok crc (ws_device_id (w_state w0)) k (rec_bytes (w_addr_state1 w0) k w0 m)" using p by (simp add: marked_def)
    from Suc.hyps(1) [OF kn(2) _ r(2), of k] True obtain w' where "recover_loop drv crc [Suc k..<n] k w1 =
        Inr (ESP_OK, (if p < n then p else if Suc k < n then n - 1 else k), w')" "at content up True w0 m w'" by (auto simp: Suc_le_eq)
    then show ?thesis using r ok up kn(1) by (intro exI [of _ w']) auto
  next
    case False
    then have "p = k" using Suc.prems(1) by simp
    then show ?thesis using r p up kn(1) by (intro exI [of _ w1]) (simp add: marked_def)
  qed
qed

lemma recoverPos_up:
  fixes w :: "'f wl_flash"
  assumes z: "wl_sizes w" and f: "fits w (content (w_flash w))" and n: "ws_max_pos (w_state w) = n_blocks w + 1"
    and p: "marked crc (ws_device_id (w_state w)) p (ws_max_pos (w_state w)) w (content (w_flash w))" and up: "up (w_flash w)"
  shows "\<exists>w'. recoverPos drv crc w = Inr (ESP_OK, w') \<and> base w' = base w \<and> w_state w' = (w_state w)\<lparr>ws_pos := min p (n_blocks w)\<rparr> \<and>
    up (w_flash w') \<and> content (w_flash w') = content (w_flash w)"
proof -
  have "at content up True w (content (w_flash w)) w" using up by (simp add: at_def)
  from recover_loop_up [OF z f _ p _ this, of 0 0] n obtain w' where
    r: "recover_loop drv crc [0..<ws_max_pos (w_state w)] 0 w = Inr (ESP_OK, (if p < ws_max_pos (w_state w) then p else ws_max_pos (w_state w) - 1), w')"
    "at content up True w (content (w_flash w)) w'" by auto
  have "w_state w' = w_state w" using r(2) by (simp add: at_def)
  moreover have "(if p < ws_max_pos (w_state w) then p else ws_max_pos (w_state w) - 1) = min p (n_blocks w)"
    using p n by (auto simp: marked_def)
  ultimately show ?thesis using r n
    by (intro exI [of _ "w'\<lparr>w_state := (w_state w)\<lparr>ws_pos := min p (n_blocks w)\<rparr>\<rparr>"]) (simp add: recoverPos_def at_def)
qed

text \<open>\<^verbatim>\<open>init\<close> with two valid headers that are the same.\<close>

lemma init_reads:
  fixes w :: "'f wl_flash"
  assumes c: "w_configured w" and z: "wl_sizes w" and f: "fits w (content (w_flash w))" and up: "up (w_flash w)"
  shows "\<exists>f'. WL_init drv crc rnd w = init_states drv crc rnd (state_of_bytes (mem_read (w_addr_state2 w) sizeof_state (content (w_flash w))))
      (w\<lparr>w_initialized := False, w_state := state_of_bytes (mem_read (w_addr_state1 w) sizeof_state (content (w_flash w))), w_flash := f'\<rparr>) \<and>
    up f' \<and> content f' = content (w_flash w)"
proof -
  let ?m = "content (w_flash w)"
  note st = sizes_temp [OF z]
  have l: "w_addr_state1 w + sizeof_state \<le> length ?m" "w_addr_state2 w + sizeof_state \<le> length ?m"
    using st(4-6) f by (simp_all add: fits_def)
  from read_up [OF up l(1)] obtain f1 where f1: "fa_read drv (w_addr_state1 w) sizeof_state (w_flash w) = (ESP_OK, mem_read (w_addr_state1 w) sizeof_state ?m, f1)"
    "up f1" by (elim exE conjE)
  note k1 = read_keeps [OF f1(1)]
  from read_up [OF f1(2), of "w_addr_state2 w" sizeof_state] l(2) obtain f2 where
    f2: "fa_read drv (w_addr_state2 w) sizeof_state f1 = (ESP_OK, mem_read (w_addr_state2 w) sizeof_state ?m, f2)" "up f2" unfolding k1 by auto
  show ?thesis using c f1 f2 k1 read_keeps [OF f2(1)] l(1) by (intro exI [of _ f2]) (simp add: WL_init_def drv_read_state_def)
qed

lemma init_healthy:
  fixes w :: "'f wl_flash"
  assumes c: "w_configured w" and z: "wl_sizes w" and f: "fits w (content (w_flash w))" and up: "up (w_flash w)"
    and h: "bounded h" "state_crc crc h = ws_crc h" "ws_version h = wc_version (w_cfg w)" "ws_max_pos h = n_blocks w + 1"
      "mem_read (w_addr_state1 w) sizeof_state (content (w_flash w)) = state_bytes h"
      "mem_read (w_addr_state2 w) sizeof_state (content (w_flash w)) = state_bytes h"
    and p: "marked crc (ws_device_id h) p (n_blocks w + 1) w (content (w_flash w))"
  shows "\<exists>w'. WL_init drv crc rnd w = Inr (ESP_OK, w') \<and> base w' = base (w\<lparr>w_initialized := True\<rparr>) \<and>
    w_state w' = h\<lparr>ws_pos := min p (n_blocks w)\<rparr> \<and> up (w_flash w') \<and> content (w_flash w') = content (w_flash w)"
proof -
  from init_reads [OF c z f up, of crc rnd] obtain f' where i: "WL_init drv crc rnd w =
      init_states drv crc rnd h (w\<lparr>w_initialized := False, w_state := h, w_flash := f'\<rparr>)" "up f'" "content f' = content (w_flash w)"
    unfolding h(5,6) state_roundtrip [OF h(1)] by (elim exE conjE)
  let ?w = "w\<lparr>w_initialized := False, w_state := h, w_flash := f'\<rparr>"
  have same: "wl_sizes ?w" "fits ?w (content (w_flash ?w))" "n_blocks ?w = n_blocks w"
    using z f i(3) by (simp_all add: wl_sizes_def Let_def fits_def n_blocks_def)
  have "marked crc (ws_device_id (w_state ?w)) p (ws_max_pos (w_state ?w)) ?w (content (w_flash ?w))"
    using p h(4) i(3) by (simp add: marked_def rec_bytes_def record_addr_def)
  from recoverPos_up [OF same(1,2) _ this] h(4) i(2) same(3) obtain w' where r: "recoverPos drv crc ?w = Inr (ESP_OK, w')" "base w' = base ?w"
    "w_state w' = h\<lparr>ws_pos := min p (n_blocks w)\<rparr>" "up (w_flash w')" "content (w_flash w') = content f'" by auto
  have "init_states drv crc rnd h ?w = Inr (ESP_OK, w'\<lparr>w_initialized := True\<rparr>)"
    using h(2,3) r(1) by (simp add: init_states_def check_def init_done_def)
  then show ?thesis using i r by (intro exI [of _ "w'\<lparr>w_initialized := True\<rparr>"]) (simp add: base_def)
qed

end

section \<open>Mounting again\<close>

text \<open>A new object \<open>n\<close> that was configured like \<open>w\<close>.\<close>

definition like :: "'f wl_flash \<Rightarrow> 'f wl_flash \<Rightarrow> bool" where
  "like w n \<longleftrightarrow> w_configured n \<and> base (n\<lparr>w_initialized := True\<rparr>) = base w"

lemma like_facts:
  assumes "like w n" "wl_geom w"
  shows "w_configured n" "wl_sizes n" "n_blocks n = n_blocks w" "fits n m = fits w m" "w_addr_state1 n = w_addr_state1 w"
    "w_addr_state2 n = w_addr_state2 w" "w_cfg n = w_cfg w" "rec_bytes a i n m = rec_bytes a i w m" "base (n\<lparr>w_initialized := True\<rparr>) = base w"
proof -
  let ?n = "n\<lparr>w_initialized := True\<rparr>"
  have b: "base ?n = base w" using assms by (simp add: like_def)
  then have e: "w_cfg n = w_cfg w" "w_flash_size n = w_flash_size w" "w_addr_state1 n = w_addr_state1 w" "w_addr_state2 n = w_addr_state2 w"
    "w_addr_cfg n = w_addr_cfg w" "w_cfg_size n = w_cfg_size w" "w_state_size n = w_state_size w" "length (w_temp_buff n) = length (w_temp_buff w)"
    by (simp_all add: base_eq)
  show "w_configured n" "base (n\<lparr>w_initialized := True\<rparr>) = base w" using assms by (simp_all add: like_def)
  show "wl_sizes n" using assms(2) by (simp add: wl_geom_def wl_sizes_def Let_def e)
  show "n_blocks n = n_blocks w" "fits n m = fits w m" "w_addr_state1 n = w_addr_state1 w" "w_addr_state2 n = w_addr_state2 w"
    "w_cfg n = w_cfg w" "rec_bytes a i n m = rec_bytes a i w m"
    by (simp_all add: e n_blocks_def fits_def rec_bytes_def record_addr_def)
qed

context flash_driver begin

lemma remount_position:
  fixes w n :: "'f wl_flash"
  assumes l: "like w n" and g: "wl_geom w" and up: "up (w_flash n)" and f: "fits w (content (w_flash n))"
    and h: "header_ok crc w h" "mem_read (w_addr_state1 w) sizeof_state (content (w_flash n)) = state_bytes h"
      "mem_read (w_addr_state2 w) sizeof_state (content (w_flash n)) = state_bytes h"
    and p: "marked crc (ws_device_id (w_state w)) p (n_blocks w + 1) w (content (w_flash n))"
  shows "\<exists>w'. WL_init drv crc rnd n = Inr (ESP_OK, w') \<and> base w' = base w \<and> core (w_state w') = core ((w_state w)\<lparr>ws_pos := min p (n_blocks w)\<rparr>) \<and>
    bounded (w_state w') \<and> up (w_flash w') \<and> content (w_flash w') = content (w_flash n)"
proof -
  note lf = like_facts [OF l g]
  have co: "ws_max_pos h = n_blocks w + 1" "ws_device_id h = ws_device_id (w_state w)" and hb: "bounded h"
    using h(1) g by (auto simp: header_ok_def core_eq wl_geom_def wl_pos_ok_def)
  have "marked crc (ws_device_id h) p (n_blocks n + 1) n (content (w_flash n))" using p by (simp add: marked_def lf co)
  from init_healthy [OF lf(1,2) _ up hb _ _ _ _ _ this, of rnd] h f co obtain w' where
    "WL_init drv crc rnd n = Inr (ESP_OK, w')" "base w' = base (n\<lparr>w_initialized := True\<rparr>)"
    "w_state w' = h\<lparr>ws_pos := min p (n_blocks n)\<rparr>" "up (w_flash w')" "content (w_flash w') = content (w_flash n)"
    by (auto simp: lf header_ok_def)
  moreover have "core (h\<lparr>ws_pos := q\<rparr>) = core ((w_state w)\<lparr>ws_pos := q\<rparr>)" for q using h(1) by (simp add: header_ok_def core_eq)
  moreover have "bounded (h\<lparr>ws_pos := min p (n_blocks w)\<rparr>)" using hb co(1) by (auto simp: bounded_def)
  ultimately show ?thesis by (intro exI [of _ w']) (simp add: lf)
qed

lemma remount_stored:
  fixes w n :: "'f wl_flash"
  assumes l: "like w n" and g: "wl_geom w" and up: "up (w_flash n)" and f: "fits w (content (w_flash n))"
    and s: "stored crc w (content (w_flash n))" and c: "crc_words crc"
  shows "\<exists>w'. WL_init drv crc rnd n = Inr (ESP_OK, w') \<and> holds content up crc True (base w) (vmem w (content (w_flash n))) w' \<and>
    core (w_state w') = core (w_state w) \<and> content (w_flash w') = content (w_flash n)"
proof -
  let ?m = "content (w_flash n)" and ?p = "ws_pos (w_state w)"
  have pm: "?p < ws_max_pos (w_state w)" "ws_max_pos (w_state w) = n_blocks w + 1" using g by (auto simp: wl_geom_def wl_pos_ok_def)
  have e: "rec_bytes (w_addr_state1 w) ?p w ?m = replicate (wc_wr_size (w_cfg w)) 255" using s pm(1) by (simp add: stored_def)
  have "marked crc (ws_device_id (w_state w)) ?p (n_blocks w + 1) w ?m"
    using s pm e erased_not_ok [OF c areas(5) [OF g]] by (simp add: marked_def stored_def)
  moreover from s obtain h where "header_ok crc w h" "mem_read (w_addr_state1 w) sizeof_state ?m = state_bytes h"
    "mem_read (w_addr_state2 w) sizeof_state ?m = state_bytes h" by (auto simp: stored_def)
  ultimately obtain w' where w': "WL_init drv crc rnd n = Inr (ESP_OK, w')" "base w' = base w"
    "core (w_state w') = core ((w_state w)\<lparr>ws_pos := min ?p (n_blocks w)\<rparr>)" "bounded (w_state w')" "up (w_flash w')" "content (w_flash w') = ?m"
    using remount_position [OF l g up f, of crc _ ?p rnd] by blast
  have co: "core (w_state w') = core (w_state w)" using w'(3) pm by (simp add: core_eq)
  note gc = geom_core [OF w'(2) co]
  have "stored crc w' ?m"
    using s w'(2,4) co by (simp add: stored_def header_ok_def base_eq core_eq rec_bytes_def record_addr_def)
  then have "holds content up crc True (base w) (vmem w ?m) w'"
    using w' g gc f fits_base [OF w'(2), of ?m ?m] by (simp add: holds_def)
  then show ?thesis using w' co by blast
qed

text \<open>
  The position record that was being written may be there or not; \<open>w\<close> is the object before the move.
\<close>

lemma remount_pending:
  fixes w n :: "'f wl_flash"
  assumes l: "like w n" and g: "wl_geom w" and up: "up (w_flash n)" and f: "fits w m" "length (content (w_flash n)) = length m"
    and s: "stored crc w m" and c: "crc_words crc" and last: "ws_pos (w_state w) + 1 < ws_max_pos (w_state w)"
    and hd: "mem_read (w_addr_state1 w) sizeof_state (content (w_flash n)) = mem_read (w_addr_state1 w) sizeof_state m"
      "mem_read (w_addr_state2 w) sizeof_state (content (w_flash n)) = mem_read (w_addr_state2 w) sizeof_state m"
    and rc: "\<And>i. i < ws_max_pos (w_state w) \<Longrightarrow> i \<noteq> ws_pos (w_state w) \<Longrightarrow>
      rec_bytes (w_addr_state1 w) i w (content (w_flash n)) = rec_bytes (w_addr_state1 w) i w m"
    and v: "vmem w (content (w_flash n)) = v"
    and v1: "rec_ok crc (ws_device_id (w_state w)) (ws_pos (w_state w)) (rec_bytes (w_addr_state1 w) (ws_pos (w_state w)) w (content (w_flash n))) \<Longrightarrow>
      vmem (w\<lparr>w_state := next_state (w_state w)\<rparr>) (content (w_flash n)) = v"
  shows "\<exists>w'. WL_init drv crc rnd n = Inr (ESP_OK, w') \<and> holds content up crc False (base w) v w'"
proof -
  let ?m = "content (w_flash n)" and ?p = "ws_pos (w_state w)" and ?d = "ws_device_id (w_state w)"
  let ?k = "if rec_ok crc ?d ?p (rec_bytes (w_addr_state1 w) ?p w ?m) then ?p + 1 else ?p"
  have pm: "ws_max_pos (w_state w) = n_blocks w + 1" using g by (auto simp: wl_geom_def wl_pos_ok_def)
  have "rec_bytes (w_addr_state1 w) (?p + 1) w ?m = replicate (wc_wr_size (w_cfg w)) 255" using s last rc [of "?p + 1"] by (simp add: stored_def)
  then have nx: "\<not> rec_ok crc ?d (?p + 1) (rec_bytes (w_addr_state1 w) (?p + 1) w ?m)" using erased_not_ok [OF c areas(5) [OF g]] by simp
  have old: "rec_ok crc ?d i (rec_bytes (w_addr_state1 w) i w ?m)" if "i < ?p" for i
    using s that last rc [of i] by (simp add: stored_def)
  have mk: "marked crc ?d ?k (n_blocks w + 1) w ?m" using nx old last pm by (auto simp: marked_def less_Suc_eq)
  from s obtain h where h: "header_ok crc w h" "mem_read (w_addr_state1 w) sizeof_state ?m = state_bytes h"
    "mem_read (w_addr_state2 w) sizeof_state ?m = state_bytes h" using hd by (auto simp: stored_def)
  have fn: "fits w ?m" using f by (simp add: fits_def)
  from remount_position [OF l g up fn h mk, of rnd] obtain w' where w': "WL_init drv crc rnd n = Inr (ESP_OK, w')" "base w' = base w"
    "core (w_state w') = core ((w_state w)\<lparr>ws_pos := min ?k (n_blocks w)\<rparr>)" "content (w_flash w') = ?m" by (elim exE conjE)
  show ?thesis
  proof (cases "rec_ok crc ?d ?p (rec_bytes (w_addr_state1 w) ?p w ?m)")
    case True
    let ?n = "w\<lparr>w_state := next_state (w_state w)\<rparr>"
    have co: "core (w_state w') = core (w_state ?n)" "base w' = base ?n" using w' True last pm by (simp_all add: next_state_def)
    note gc = geom_core [OF co(2,1)]
    show ?thesis using w' gc v1 [OF True] next_geom [OF g] fn fits_base [OF w'(2), of ?m ?m] by (intro exI [of _ w']) (simp add: holds_def)
  next
    case False
    have co: "core (w_state w') = core (w_state w)" using w' False last pm by (simp add: core_eq)
    note gc = geom_core [OF w'(2) co]
    show ?thesis using w' gc v g fn fits_base [OF w'(2), of ?m ?m] by (intro exI [of _ w']) (simp add: holds_def)
  qed
qed

lemma remount_record:
  fixes w n :: "'f wl_flash"
  defines "recs \<equiv> {rec_addr (w_addr_state1 w) w..<rec_addr (w_addr_state1 w) w + wc_wr_size (w_cfg w)} \<union>
    {rec_addr (w_addr_state2 w) w..<rec_addr (w_addr_state2 w) w + wc_wr_size (w_cfg w)}"
  assumes l: "like w n" and g: "wl_geom w" and up: "up (w_flash n)" and f: "fits w m" and s: "stored crc w m" and c: "crc_words crc"
    and last: "ws_pos (w_state w) + 1 < ws_max_pos (w_state w)" and ag: "mem_agree (- recs) (moved w m) (content (w_flash n))"
    and v0: "vmem w (content (w_flash n)) = vmem w m"
  shows "\<exists>w'. WL_init drv crc rnd n = Inr (ESP_OK, w') \<and> holds content up crc False (base w) (vmem w m) w'"
proof -
  let ?m = "content (w_flash n)" let ?r1 = "rec_addr (w_addr_state1 w) w" and ?r2 = "rec_addr (w_addr_state2 w) w" and ?k = "wc_wr_size (w_cfg w)"
  let ?nx = "w\<lparr>w_state := next_state (w_state w)\<rparr>"
  note fit = move_fits [OF g f] and sa = state_areas [OF g f] and ra = rec_area [OF g next_block_le(3) [OF g], folded rec_addr_def]
  have rd: "mem_read p q ?m = mem_read p q m" if "w_addr_state1 w \<le> p" "p + q \<le> w_addr_state2 w + w_state_size w"
    "p + q \<le> ?r1 \<or> ?r1 + ?k \<le> p" "p + q \<le> ?r2 \<or> ?r2 + ?k \<le> p" for p q
  proof -
    have "mem_agree {p..<p + q} (moved w m) ?m" by (rule mem_agree_subset [OF ag]) (use that in \<open>auto simp: recs_def\<close>)
    moreover have "mem_agree {p..<p + q} m (moved w m)" using moved_states [OF g f] by (rule mem_agree_subset) (use that in \<open>auto simp: states_area_def\<close>)
    ultimately have "mem_agree {p..<p + q} m ?m" by (blast intro: mem_agree_trans)
    then show ?thesis by (rule mem_read_agree [symmetric]) (use that sa(2) in linarith)
  qed
  have len: "length ?m = length m" using ag length_moved(1) [OF g f] by (simp add: mem_agree_def)
  show ?thesis
  proof (rule remount_pending [OF l g up f len s c last _ _ _ v0])
    show "mem_read (w_addr_state1 w) sizeof_state ?m = mem_read (w_addr_state1 w) sizeof_state m" by (rule rd) (use sa(3,4) ra in auto)
    show "mem_read (w_addr_state2 w) sizeof_state ?m = mem_read (w_addr_state2 w) sizeof_state m" by (rule rd) (use sa(3,4) ra in auto)
    show "rec_bytes (w_addr_state1 w) i w ?m = rec_bytes (w_addr_state1 w) i w m" if "i < ws_max_pos (w_state w)" "i \<noteq> ws_pos (w_state w)" for i
      unfolding rec_bytes_def by (rule rd) (use record_bounds [OF g f that] ra sa(3,4) in auto)
    have "x \<notin> recs" if "x \<in> in_use ?nx" for x using in_use_data(3) [OF next_geom [OF g] that] ra sa(4) by (auto simp: recs_def)
    then have "mem_agree (in_use ?nx) (moved w m) ?m" by (intro mem_agree_subset [OF ag]) blast
    from vmem_agree [OF next_geom [OF g] this] fits_data [OF g fit(4)] vmem_moved(2) [OF g f] show "vmem ?nx ?m = vmem w m" by simp
  qed
qed

lemma remount_after_failure:
  fixes w n :: "'f wl_flash"
  assumes l: "like w n" and g: "wl_geom w" and up: "up (w_flash n)" and f: "fits w m" and s: "stored crc w m" and c: "crc_words crc"
    and last: "ws_pos (w_state w) + 1 < ws_max_pos (w_state w)"
    and mf: "move_failed crc content w m wx" and n: "content (w_flash n) = content (w_flash wx)"
  shows "\<exists>w'. WL_init drv crc rnd n = Inr (ESP_OK, w') \<and> holds content up crc False (base w) (vmem w m) w'"
proof -
  let ?m = "content (w_flash n)" let ?r1 = "rec_addr (w_addr_state1 w) w" and ?r2 = "rec_addr (w_addr_state2 w) w" and ?k = "wc_wr_size (w_cfg w)"
  note fit = move_fits [OF g f]
  have "hurt content False w A m' wx \<Longrightarrow> core (w_state wx) = core (w_state w) \<and> base wx = base w" for A m' by (simp add: hurt_def)
  then have "core (w_state wx) = core (w_state w)" "base wx = base w" using mf last unfolding move_failed_def by auto
  from geom_core(2) [OF this(2,1)] have v0: "vmem w ?m = vmem w m" using move_failed_same [OF g f mf] n by (simp add: same_storage_def)
  note records = remount_record [OF l g up f s c last _ v0]
  from mf show ?thesis unfolding move_failed_def
  proof (elim disjE exE conjE)
    assume "hurt content False w (dummy w) m wx"
    then have ag: "mem_agree (- dummy w) m ?m" by (simp add: hurt_def n)
    have "mem_agree (states_area w) m ?m"
      by (rule mem_agree_subset [OF ag]) (use areas(1) [OF g] block_area [OF g next_block_le(3) [OF g]] in \<open>auto simp: states_area_def dummy_def\<close>)
    from stored_agree [OF g f s this] have st: "stored crc w ?m" .
    have "fits w ?m" using f ag by (simp add: fits_def mem_agree_def)
    from remount_stored [OF l g up this st c, of rnd] obtain w' where w': "WL_init drv crc rnd n = Inr (ESP_OK, w')"
      "holds content up crc True (base w) (vmem w ?m) w'" by (elim exE conjE)
    then show ?thesis using v0 by (intro exI [of _ w']) (simp add: holds_def)
  next
    assume "hurt content False w {?r1..<?r1 + ?k} (moved w m) wx"
    then show ?thesis by (intro records) (auto simp: hurt_def n elim!: mem_agree_subset)
  next
    fix r assume r: "is_record crc w r" "hurt content False w {?r2..<?r2 + ?k} (nor_write ?r1 r (moved w m)) wx"
    have "length r = ?k" using r(1) by (simp add: is_record_def)
    then have "mem_agree (- {?r1..<?r1 + ?k}) (moved w m) (nor_write ?r1 r (moved w m))" using nor_frame(1) [of ?r1 r "moved w m"] fit(2,4) by (simp add: fits_def)
    then have "mem_agree (- ({?r1..<?r1 + ?k} \<union> {?r2..<?r2 + ?k})) (moved w m) (nor_write ?r1 r (moved w m))" by (rule mem_agree_subset) auto
    moreover have "mem_agree (- ({?r1..<?r1 + ?k} \<union> {?r2..<?r2 + ?k})) (nor_write ?r1 r (moved w m)) ?m"
      using r(2) by (auto simp: hurt_def n elim!: mem_agree_subset)
    ultimately show ?thesis by (intro records) (rule mem_agree_trans)
  qed (use last in simp)
qed

end

end
