(* ===== verification/WL_Crash.thy ===== *)
theory WL_Crash
  imports WL_Mount
begin

text \<open>
  A loss of power. A request is interrupted at some call of the flash driver, which may have left
  anything in the range it was for, and a new object is started on what is then in the flash.
\<close>

lemma like_base: "base w = base w' \<Longrightarrow> like w n = like w' n"
  by (simp add: like_def)

lemma like_access: "like (set_access k w) n = like w n" "like (start_move w) n = like w n"
  by (simp_all add: like_def start_move_facts)

text \<open>The requests that change the flash, with at most one move of a block.\<close>

definition one_move :: "wl_req \<Rightarrow> bool" where
  "one_move q \<longleftrightarrow> (case q of Req_read a n \<Rightarrow> False | Req_erase a n \<Rightarrow> n = SPI_FLASH_SEC_SIZE | _ \<Rightarrow> True)"

text \<open>A new object \<open>n\<close> starts, and its storage holds \<open>v\<close>.\<close>

definition survives :: "'f flash_access \<Rightarrow> ('f \<Rightarrow> mem) \<Rightarrow> ('f \<Rightarrow> bool) \<Rightarrow> (byte list \<Rightarrow> nat) \<Rightarrow> nat \<Rightarrow> 'f wl_flash \<Rightarrow> 'f wl_flash \<Rightarrow> mem \<Rightarrow> bool" where
  "survives drv content up crc rnd w n v \<longleftrightarrow> (\<exists>w'. WL_init drv crc rnd n = Inr (ESP_OK, w') \<and> holds content up crc False (base w) v w')"

lemma contig_set: "contig P a k ps e \<Longrightarrow> (off, n) \<in> set ps \<Longrightarrow> k \<le> off \<and> off + n \<le> e \<and> 0 < n \<and> in_page P (a + off) n"
proof (induction ps arbitrary: k)
  case (Cons p ps)
  obtain m where p: "p = (k, m)" "contig P a (k + m) ps e" "0 < m" "in_page P (a + k) m" using Cons.prems(1) by (cases p) auto
  show ?case
  proof (cases "(off, n) = p")
    case True
    then show ?thesis using p contig_le [OF p(2)] by simp
  next
    case False
    then show ?thesis using Cons.IH [OF p(2)] Cons.prems(2) by auto
  qed
qed simp

context flash_driver begin

lemma updateWL_cases:
  fixes w :: "'f wl_flash"
  assumes g: "wl_geom w" and f: "fits w (content (w_flash w))" and s: "stored crc w (content (w_flash w))" and c: "crc_words crc"
  shows "\<exists>r w'. updateWL drv crc w = Inr (r, w') \<and>
    (if r = ESP_OK then same_storage content w (content (w_flash w)) w' \<and> stored crc w' (content (w_flash w'))
     else move_failed crc content (start_move w) (content (w_flash w)) w')"
proof (cases "uadd (ws_access_count (w_state w)) 1 < ws_max_count (w_state w)")
  case True
  let ?a = "set_access (uadd (ws_access_count (w_state w)) 1) w"
  have "holds content (\<lambda>_. True) crc True (base w) (vmem w (content (w_flash w))) ?a"
    by (rule holds_access) (use g f s in \<open>simp_all add: holds_def uadd_def\<close>)
  then show ?thesis using True updateWL_eq [OF g, of drv crc] by (simp add: holds_def same_storage_def)
next
  case False
  let ?s = "start_move w" and ?m = "content (w_flash w)"
  note sf = start_move_facts [of w] note gc = geom_core [OF sf(1,2)]
  have gs: "wl_geom ?s" "fits ?s ?m" "stored crc ?s ?m" using gc(1) g f fits_base [OF sf(1)] stored_start [OF s] by simp_all
  have at: "at content up False ?s ?m ?s" by (simp add: at_def sf)
  from tripleD [OF move_rule [OF gs(1,2) sf(4) [folded sf(6,7)] sf(5)] at, of crc] obtain r w' where r: "updateWL drv crc w = Inr (r, w')"
    "if r = ESP_OK then move_done crc content ?s ?m w' else move_failed crc content ?s ?m w'"
    using False unfolding updateWL_eq [OF g, of drv crc] sf(6,7) gc(5) by auto
  then show ?thesis using move_done_same [OF gs(1,2)] move_done_stored [OF gs c] gc(2) sf(1)
    by (intro exI [of _ r] exI [of _ w']) (auto simp: same_storage_def)
qed

lemma survives_failed:
  fixes w n :: "'f wl_flash"
  assumes l: "like w n" and g: "wl_geom w" and f: "fits w (content (w_flash w))" and s: "stored crc w (content (w_flash w))" and c: "crc_words crc"
    and last: "ws_pos (w_state w) + 1 < ws_max_pos (w_state w)"
    and mf: "move_failed crc content (start_move w) (content (w_flash w)) w'" and n: "content (w_flash n) = content (w_flash w')" "up (w_flash n)"
  shows "survives drv content up crc rnd w n (vmem w (content (w_flash w)))"
proof -
  let ?s = "start_move w" and ?m = "content (w_flash w)"
  note sf = start_move_facts [of w] note gc = geom_core [OF sf(1,2)]
  have "wl_geom ?s" "fits ?s ?m" "stored crc ?s ?m" "like ?s n" using gc(1) g f fits_base [OF sf(1)] stored_start [OF s] l by (simp_all add: like_access)
  moreover have "ws_pos (w_state ?s) + 1 < ws_max_pos (w_state ?s)" using last sf(2) by (simp add: core_eq)
  ultimately show ?thesis using remount_after_failure [of ?s n ?m crc w' rnd] n c mf gc(2) sf(1) by (simp add: survives_def)
qed

lemma survives_stored:
  fixes w n :: "'f wl_flash"
  assumes l: "like w n" and g: "wl_geom w" and f: "fits w (content (w_flash n))" and s: "stored crc w (content (w_flash n))" and c: "crc_words crc"
    and n: "up (w_flash n)"
  shows "survives drv content up crc rnd w n (vmem w (content (w_flash n)))"
proof -
  from remount_stored [OF l g n f s c, of rnd] obtain w' where "WL_init drv crc rnd n = Inr (ESP_OK, w')"
    "holds content up crc True (base w) (vmem w (content (w_flash n))) w'" by (elim exE conjE)
  then show ?thesis unfolding survives_def by (intro exI [of _ w']) (simp add: holds_def)
qed

text \<open>A change in the data area.\<close>

lemma survives_data:
  fixes w n :: "'f wl_flash"
  assumes l: "like w n" and g: "wl_geom w" and f: "fits w m" and s: "stored crc w m" and c: "crc_words crc" and n: "up (w_flash n)"
    and ag: "mem_agree (states_area w) m (content (w_flash n))"
  shows "survives drv content up crc rnd w n (vmem w (content (w_flash n)))"
  by (rule survives_stored [OF l g _ stored_agree [OF g f s ag] c n]) (use f ag in \<open>simp add: fits_def mem_agree_def\<close>)

lemma write_pages_frame:
  fixes w :: "'f wl_flash"
  assumes "write_pages drv a src ps w = Inr (r, w')" "wl_geom w" "\<forall>(off, k) \<in> set ps. in_page (wc_page_size (w_cfg w)) (uadd a off) k \<and> uadd a off + k \<le> w_flash_size w \<and> 0 < k"
  shows "base w' = base w \<and> w_state w' = w_state w \<and>
    mem_agree (- {wc_start_addr (w_cfg w)..<wc_start_addr (w_cfg w) + w_flash_size w + wc_page_size (w_cfg w)}) (content (w_flash w)) (content (w_flash w'))"
  using assms
proof (induction ps arbitrary: w)
  case Nil
  then show ?case by (simp add: mem_agree_def)
next
  case (Cons p ps)
  obtain off k where p: "p = (off, k)" by (cases p)
  have bs: "off + k \<le> length src" using Cons.prems(1) p by (auto simp: mem_load_def bindR_def split: if_splits)
  let ?a = "wc_start_addr (w_cfg w) + calcAddr (uadd a off) w" let ?A = "{wc_start_addr (w_cfg w)..<wc_start_addr (w_cfg w) + w_flash_size w + wc_page_size (w_cfg w)}"
  obtain e f where d: "fa_write drv ?a (mem_read off k src) (w_flash w) = (e, f)" by (cases "fa_write drv ?a (mem_read off k src) (w_flash w)")
  have acc: "in_page (wc_page_size (w_cfg w)) (uadd a off) k" "uadd a off + k \<le> w_flash_size w" "0 < k" using Cons.prems(3) p by auto
  have ag: "mem_agree (- ?A) (content (w_flash w)) (content f)"
    by (rule mem_agree_subset [OF write_frame [OF d]]) (use calcAddr_range [OF Cons.prems(2) acc] bs in auto)
  let ?w = "w\<lparr>w_flash := f\<rparr>"
  show ?case
  proof (cases "e = ESP_OK")
    case False
    then have "w' = ?w" using Cons.prems(1) p d bs by (simp add: mem_load_def check_def drv_write_def)
    then show ?thesis using ag by simp
  next
    case True
    then have "write_pages drv a src ps ?w = Inr (r, w')" using Cons.prems(1) p d bs by (simp add: mem_load_def check_def drv_write_def)
    moreover have "wl_geom ?w" using geom_core(1) [of ?w w] Cons.prems(2) by simp
    ultimately show ?thesis using Cons.IH [of ?w] Cons.prems(3) p mem_agree_trans [OF ag] by auto
  qed
qed

lemma crash_write:
  fixes w :: "'f wl_flash"
  assumes g: "wl_geom w" and f: "fits w (content (w_flash w))" and s: "stored crc w (content (w_flash w))" and c: "crc_words crc" and i: "w_initialized w"
    and q: "req_ok (wc_page_size (w_cfg w)) (w_flash_size w) (Req_write a bs)"
  shows "\<exists>r w' v. WL_write drv a bs w = Inr (r, w') \<and> flat_step (vmem w (content (w_flash w))) (Req_write a bs) (r, []) v \<and>
    (\<forall>n. like w n \<longrightarrow> up (w_flash n) \<longrightarrow> content (w_flash n) = content (w_flash w') \<longrightarrow> survives drv content up crc rnd w n v)"
proof -
  let ?P = "wc_page_size (w_cfg w)"
  have h: "holds content up crc False (base w) (vmem w (content (w_flash w))) w" using g f by (simp add: holds_def)
  have ib: "fst (snd (base w))" using i by (simp add: base_def)
  note hs = holds_start [OF h ib]
  from write_refines [OF h ib, of a bs] q obtain r w' v where r: "WL_write drv a bs w = Inr (r, w')"
    "flat_step (vmem w (content (w_flash w))) (Req_write a bs) (r, []) v" "holds content up crc False (base w) v w'" by auto
  have rq: "0 < length bs" "a + length bs \<le> w_flash_size w" "?P dvd a \<or> in_page ?P a (length bs)" using q by (auto simp: req_ok_def)
  have lim: "w_flash_size w < 2 ^ 31" using hs(6) by simp
  have ct: "contig ?P a 0 (page_accesses ?P (length bs)) (length bs)"
    using page_accesses_contig [OF hs(2) rq(1) _ rq(3)] rq(2) lim by simp
  have "write_pages drv a bs (page_accesses ?P (length bs)) w = Inr (r, w')" using r(1) hs(1-3) by (simp add: WL_write_def)
  moreover have "in_page ?P (uadd a off) k \<and> uadd a off + k \<le> w_flash_size w \<and> 0 < k" if "(off, k) \<in> set (page_accesses ?P (length bs))" for off k
    using contig_set [OF ct that] rq(2) lim by (simp add: uadd_small)
  ultimately have fr: "base w' = base w" "w_state w' = w_state w"
    "mem_agree (- {wc_start_addr (w_cfg w)..<wc_start_addr (w_cfg w) + w_flash_size w + ?P}) (content (w_flash w)) (content (w_flash w'))"
    using write_pages_frame [OF _ g, of a bs _ r w'] by blast+
  have ag: "mem_agree (states_area w) (content (w_flash w)) (content (w_flash w'))"
    by (rule mem_agree_subset [OF fr(3)]) (use areas(1) [OF g] in \<open>auto simp: states_area_def\<close>)
  have v: "v = vmem w (content (w_flash w'))" using r(3) geom_core(2) [OF fr(1)] fr(2) by (simp add: holds_def)
  have "survives drv content up crc rnd w n v" if "like w n" "up (w_flash n)" "content (w_flash n) = content (w_flash w')" for n
    using survives_data [OF that(1) g f s c that(2), of rnd] ag that(3) v by simp
  then show ?thesis using r by (intro exI [of _ r] exI [of _ w'] exI [of _ v]) simp
qed

lemma crash_update:
  fixes w :: "'f wl_flash"
  assumes g: "wl_geom w" and f: "fits w (content (w_flash w))" and s: "stored crc w (content (w_flash w))" and c: "crc_words crc"
    and last: "ws_pos (w_state w) + 1 < ws_max_pos (w_state w)"
  shows "\<exists>r w'. updateWL drv crc w = Inr (r, w') \<and> (r = ESP_OK \<longrightarrow> same_storage content w (content (w_flash w)) w' \<and> stored crc w' (content (w_flash w'))) \<and>
    (\<forall>n. like w n \<longrightarrow> up (w_flash n) \<longrightarrow> content (w_flash n) = content (w_flash w') \<longrightarrow> survives drv content up crc rnd w n (vmem w (content (w_flash w))))"
proof -
  from updateWL_cases [OF g f s c] obtain r w' where r: "updateWL drv crc w = Inr (r, w')"
    "if r = ESP_OK then same_storage content w (content (w_flash w)) w' \<and> stored crc w' (content (w_flash w'))
     else move_failed crc content (start_move w) (content (w_flash w)) w'" by (elim exE conjE)
  have "survives drv content up crc rnd w n (vmem w (content (w_flash w)))"
    if n: "like w n" "up (w_flash n)" "content (w_flash n) = content (w_flash w')" for n
  proof (cases "r = ESP_OK")
    case True
    then have ss: "base w' = base w" "wl_geom w'" "fits w' (content (w_flash n))" "vmem w' (content (w_flash n)) = vmem w (content (w_flash w))"
      "stored crc w' (content (w_flash n))" using r(2) n(3) by (simp_all add: same_storage_def)
    have "like w' n" using like_base [OF ss(1)] n(1) by simp
    from survives_stored [OF this ss(2,3,5) c n(2), of rnd] show ?thesis using ss(1,4) by (simp add: survives_def)
  next
    case False
    then show ?thesis using survives_failed [OF n(1) g f s c last _ n(3,2)] r(2) by simp
  qed
  then show ?thesis using r by (intro exI [of _ r] exI [of _ w']) simp
qed

lemma crash_flush:
  fixes w :: "'f wl_flash"
  assumes g: "wl_geom w" and f: "fits w (content (w_flash w))" and s: "stored crc w (content (w_flash w))" and c: "crc_words crc"
    and last: "ws_pos (w_state w) + 1 < ws_max_pos (w_state w)"
  shows "\<exists>r w'. WL_flush drv crc w = Inr (r, w') \<and>
    (\<forall>n. like w n \<longrightarrow> up (w_flash n) \<longrightarrow> content (w_flash n) = content (w_flash w') \<longrightarrow> survives drv content up crc rnd w n (vmem w (content (w_flash w))))"
proof -
  let ?a = "set_access (usub (ws_max_count (w_state w)) 1) w"
  have b: "base ?a = base w" "core (w_state ?a) = core (w_state w)" "w_flash ?a = w_flash w" by (simp, simp, simp add: set_access_def)
  note gc = geom_core [OF b(1,2)]
  have "stored crc ?a (content (w_flash ?a))" using stored_access [OF s] b(3) by (simp add: usub_def)
  moreover have "fits ?a (content (w_flash ?a))" "wl_geom ?a" "ws_pos (w_state ?a) + 1 < ws_max_pos (w_state ?a)"
    using f g gc(1) b(3) fits_base [OF b(1)] last by (simp, simp, simp add: set_access_def)
  ultimately show ?thesis using crash_update [of ?a crc rnd] c gc(2) b(3) unfolding WL_flush_def
    by (auto simp: like_access survives_def)
qed

lemma crash_erase:
  fixes w :: "'f wl_flash"
  assumes g: "wl_geom w" and f: "fits w (content (w_flash w))" and s: "stored crc w (content (w_flash w))" and c: "crc_words crc" and i: "w_initialized w"
    and last: "ws_pos (w_state w) + 1 < ws_max_pos (w_state w)"
    and q: "req_ok (wc_page_size (w_cfg w)) (w_flash_size w) (Req_erase (k * SPI_FLASH_SEC_SIZE) SPI_FLASH_SEC_SIZE)"
  shows "\<exists>r w' v. WL_erase_sector drv crc k w = Inr (r, w') \<and>
    flat_step (vmem w (content (w_flash w))) (Req_erase (k * SPI_FLASH_SEC_SIZE) SPI_FLASH_SEC_SIZE) (r, []) v \<and>
    (\<forall>n. like w n \<longrightarrow> up (w_flash n) \<longrightarrow> content (w_flash n) = content (w_flash w') \<longrightarrow> survives drv content up crc rnd w n v)"
proof -
  let ?z = SPI_FLASH_SEC_SIZE let ?a = "k * SPI_FLASH_SEC_SIZE" let ?v = "vmem w (content (w_flash w))"
  from crash_update [OF g f s c last, of rnd] obtain r w1 where u: "updateWL drv crc w = Inr (r, w1)"
    "r = ESP_OK \<longrightarrow> same_storage content w (content (w_flash w)) w1 \<and> stored crc w1 (content (w_flash w1))"
    "\<forall>n. like w n \<longrightarrow> up (w_flash n) \<longrightarrow> content (w_flash n) = content (w_flash w1) \<longrightarrow> survives drv content up crc rnd w n ?v" by (elim exE conjE)
  show ?thesis
  proof (cases "r = ESP_OK")
    case False
    then have "flat_step ?v (Req_erase ?a ?z) (r, []) ?v" by (intro flat_erase_error) (simp_all add: mem_agree_def)
    then show ?thesis using u False i by (intro exI [of _ r] exI [of _ w1] exI [of _ ?v]) (simp add: WL_erase_sector_def check_def)
  next
    case True
    then have ss: "base w1 = base w" "wl_geom w1" "fits w1 (content (w_flash w1))" "vmem w1 (content (w_flash w1)) = ?v"
      "stored crc w1 (content (w_flash w1))" using u(2) by (simp_all add: same_storage_def)
    have e: "wc_sector_size (w_cfg w1) = ?z" "0 < w_flash_size w1" "w_flash_size w1 = w_flash_size w" "?z dvd wc_start_addr (w_cfg w1)" "w_flash_size w1 < 2 ^ 31"
      using ss(1,2) by (simp_all add: wl_geom_def wl_sizes_def Let_def base_eq)
    have n: "0 < ?z" "?z dvd ?a" by (simp_all add: SPI_FLASH_SEC_SIZE_def)
    have sz: "?a + ?z \<le> w_flash_size w1" using q e(3) by (simp add: req_ok_def)
    note sa = sector_access [OF ss(2) n(2) sz] note fd = fits_data [OF ss(2,3)]
    let ?p = "wc_start_addr (w_cfg w1) + calcAddr ?a w1"
    have "?p div ?z * ?z = ?p" using sa(2) e(4) by (intro dvd_div_mult_self dvd_add)
    moreover obtain r2 f2 where d: "fa_erase_range drv ?p ?z (w_flash w1) = (r2, f2)" by (cases "fa_erase_range drv ?p ?z (w_flash w1)")
    moreover have "umul k ?z = ?a" using sz e(5) by (intro umul_small) simp
    ultimately have res: "WL_erase_sector drv crc k w = Inr (r2, w1\<lparr>w_flash := f2\<rparr>)"
      using u(1) True i e(2) n(1) by (simp add: WL_erase_sector_def check_def e(1) erase_sector)
    note fr = erase_frame [OF d]
    have ag: "mem_agree (states_area w1) (content (w_flash w1)) (content f2)"
      by (rule mem_agree_subset [OF fr]) (use areas(1) [OF ss(2)] calcAddr_range [OF ss(2) sa(1) sz n(1)] in \<open>auto simp: states_area_def\<close>)
    have st: "flat_step ?v (Req_erase ?a ?z) (r2, []) (vmem w1 (content f2))"
    proof (cases "r2 = ESP_OK")
      case True
      then show ?thesis using erase_ok [of ?p ?z "w_flash w1" f2] d vmem_nor_erase [OF ss(2) sa(1) sz n(1) fd] ss(4) by (simp add: flat_erase)
    next
      case False
      then show ?thesis using vmem_spoilt [OF ss(2) sa(1) sz n(1) fd fr] ss(4) by (intro flat_erase_error) simp_all
    qed
    have "survives drv content up crc rnd w n (vmem w1 (content f2))" if "like w n" "up (w_flash n)" "content (w_flash n) = content f2" for n
      using survives_data [OF _ ss(2,3,5) c, of n rnd] that ag like_base [OF ss(1)] ss(1) by (simp add: survives_def)
    then show ?thesis using res st by (intro exI [of _ r2] exI [of _ "w1\<lparr>w_flash := f2\<rparr>"] exI [of _ "vmem w1 (content f2)"]) simp
  qed
qed

lemma crash_call:
  fixes w :: "'f wl_flash"
  assumes g: "wl_geom w" and f: "fits w (content (w_flash w))" and s: "stored crc w (content (w_flash w))" and c: "crc_words crc" and i: "w_initialized w"
    and last: "ws_pos (w_state w) + 1 < ws_max_pos (w_state w)"
    and q: "req_ok (wc_page_size (w_cfg w)) (w_flash_size w) q" "one_move q"
  shows "\<exists>r w' v. wl_call drv crc q w = Inr (r, w') \<and> flat_step (vmem w (content (w_flash w))) q r v \<and>
    (\<forall>n. like w n \<longrightarrow> up (w_flash n) \<longrightarrow> content (w_flash n) = content (w_flash w') \<longrightarrow> survives drv content up crc rnd w n v)"
proof (cases q)
  case (Req_write a bs)
  from crash_write [OF g f s c i q(1) [unfolded this], of rnd] obtain r w' v where "WL_write drv a bs w = Inr (r, w')"
    "flat_step (vmem w (content (w_flash w))) (Req_write a bs) (r, []) v"
    "\<forall>n. like w n \<longrightarrow> up (w_flash n) \<longrightarrow> content (w_flash n) = content (w_flash w') \<longrightarrow> survives drv content up crc rnd w n v" by (elim exE conjE)
  then show ?thesis using Req_write by (intro exI [of _ "(r, [])"] exI [of _ w'] exI [of _ v]) (simp add: wl_call_def)
next
  case (Req_erase a n)
  have "n = SPI_FLASH_SEC_SIZE" "SPI_FLASH_SEC_SIZE dvd a" using q Req_erase by (simp_all add: one_move_def req_ok_def)
  then obtain k where a: "a = k * SPI_FLASH_SEC_SIZE" "n = 1 * SPI_FLASH_SEC_SIZE" by (metis dvdE mult.commute mult_1)
  have z: "wc_sector_size (w_cfg w) = SPI_FLASH_SEC_SIZE" using g by (simp add: wl_geom_def wl_sizes_def Let_def)
  have "check (WL_erase_sector drv crc k) (erase_sectors drv crc []) w = WL_erase_sector drv crc k w"
    by (auto simp: check_def bindR_def split: sum.splits prod.splits)
  then have e: "WL_erase_range drv crc a n w = WL_erase_sector drv crc k w"
    using erase_range_sectors [OF i z, of 1 drv crc k] unfolding a by (simp add: SPI_FLASH_SEC_SIZE_def)
  from crash_erase [OF g f s c i last, of k rnd] q(1) Req_erase a obtain r w' v where "WL_erase_sector drv crc k w = Inr (r, w')"
    "flat_step (vmem w (content (w_flash w))) q (r, []) v"
    "\<forall>n. like w n \<longrightarrow> up (w_flash n) \<longrightarrow> content (w_flash n) = content (w_flash w') \<longrightarrow> survives drv content up crc rnd w n v" by auto
  then show ?thesis using Req_erase e by (intro exI [of _ "(r, [])"] exI [of _ w'] exI [of _ v]) (simp add: wl_call_def)
next
  case Req_flush
  from crash_flush [OF g f s c last, of rnd] obtain r w' where "WL_flush drv crc w = Inr (r, w')"
    "\<forall>n. like w n \<longrightarrow> up (w_flash n) \<longrightarrow> content (w_flash n) = content (w_flash w') \<longrightarrow> survives drv content up crc rnd w n (vmem w (content (w_flash w)))"
    by (elim exE conjE)
  then show ?thesis using Req_flush
    by (intro exI [of _ "(r, [])"] exI [of _ w'] exI [of _ "vmem w (content (w_flash w))"]) (cases "r = ESP_OK"; simp add: wl_call_def flat_flush flat_flush_error)
qed (use q in \<open>simp add: one_move_def\<close>)

end

end
