(* ===== verification/WL_Start.thy ===== *)
theory WL_Start
  imports WL_Crash
begin

text \<open>
  The first mount: the layout that \<^verbatim>\<open>config\<close> computes for the parameters of \<^verbatim>\<open>wl_mount\<close>, and \<^verbatim>\<open>init\<close> on a
  flash without a state.
\<close>

section \<open>Layout\<close>

text \<open>
  The parameters that \<^verbatim>\<open>wl_mount\<close> uses; the CRC and the padding of the structure are not set, and \<open>crc0\<close> and
  \<open>pad\<close> are what they happen to be.
\<close>

definition WL_DEFAULT_UPDATERATE :: nat where "WL_DEFAULT_UPDATERATE = 16"
definition WL_DEFAULT_TEMP_BUFF_SIZE :: nat where "WL_DEFAULT_TEMP_BUFF_SIZE = 32"
definition WL_DEFAULT_WRITE_SIZE :: nat where "WL_DEFAULT_WRITE_SIZE = 16"
definition WL_DEFAULT_START_ADDR :: nat where "WL_DEFAULT_START_ADDR = 0"
definition WL_CURRENT_VERSION :: nat where "WL_CURRENT_VERSION = 2"

definition wl_mount_cfg :: "nat \<Rightarrow> byte list \<Rightarrow> esp_partition_t \<Rightarrow> wl_config" where
  "wl_mount_cfg crc0 pad part = \<lparr>wc_start_addr = WL_DEFAULT_START_ADDR, wc_full_mem_size = pt_size part,
     wc_page_size = SPI_FLASH_SEC_SIZE, wc_sector_size = SPI_FLASH_SEC_SIZE, wc_updaterate = WL_DEFAULT_UPDATERATE,
     wc_wr_size = WL_DEFAULT_WRITE_SIZE, wc_version = WL_CURRENT_VERSION, wc_temp_buff_size = WL_DEFAULT_TEMP_BUFF_SIZE,
     wc_crc = crc0, wc_padding = pad\<rparr>"

lemmas wl_defaults = WL_DEFAULT_UPDATERATE_def WL_DEFAULT_TEMP_BUFF_SIZE_def WL_DEFAULT_WRITE_SIZE_def
  WL_DEFAULT_START_ADDR_def WL_CURRENT_VERSION_def SPI_FLASH_SEC_SIZE_def sizeof_state_def sizeof_config_def

text \<open>The sectors of a state area for a partition of \<open>n\<close> sectors.\<close>

definition state_sectors :: "nat \<Rightarrow> nat" where
  "state_sectors n = (if 4096 < 64 + n * 16 then (64 + n * 16 + 4095) div 4096 else 1)"

lemma state_sectors:
  "1 \<le> state_sectors n" "64 + n * 16 \<le> state_sectors n * 4096" "5 \<le> n \<Longrightarrow> 2 * state_sectors n + 3 \<le> n"
proof -
  have d: "x \<le> (x + 4095) div 4096 * 4096" "(x + 4095) div 4096 * 4096 \<le> x + 4095" for x :: nat
    using div_mult_mod_eq [of "x + 4095" 4096] mod_less_divisor [of 4096 "x + 4095"] by linarith+
  show "64 + n * 16 \<le> state_sectors n * 4096" using d(1) [of "64 + n * 16"] by (simp add: state_sectors_def)
  then show "1 \<le> state_sectors n" by (cases "state_sectors n") simp_all
  show "5 \<le> n \<Longrightarrow> 2 * state_sectors n + 3 \<le> n" using d(2) [of "64 + n * 16"] unfolding state_sectors_def by (split if_split) linarith
qed

text \<open>The object after \<^verbatim>\<open>config\<close>, for a partition of \<open>n\<close> sectors.\<close>

definition laid_out :: "nat \<Rightarrow> 'f wl_flash \<Rightarrow> bool" where
  "laid_out n w \<longleftrightarrow> wc_start_addr (w_cfg w) = 0 \<and> wc_page_size (w_cfg w) = 4096 \<and> wc_sector_size (w_cfg w) = 4096 \<and>
     wc_full_mem_size (w_cfg w) = n * 4096 \<and>
     wc_wr_size (w_cfg w) = 16 \<and> wc_temp_buff_size (w_cfg w) = 32 \<and> length (w_temp_buff w) = 32 \<and> wc_version (w_cfg w) = 2 \<and>
     wc_updaterate (w_cfg w) = 16 \<and>
     w_state_size w = state_sectors n * 4096 \<and> w_cfg_size w = 4096 \<and> w_addr_cfg w = (n - 1) * 4096 \<and>
     w_addr_state2 w = (n - 1 - state_sectors n) * 4096 \<and> w_addr_state1 w = (n - 1 - 2 * state_sectors n) * 4096 \<and>
     w_flash_size w = (n - 2 - 2 * state_sectors n) * 4096"

lemma laid_out_sizes:
  assumes "laid_out n w" "5 \<le> n" "n < 2 ^ 20" "w_flash_size w < 2 ^ 31"
  shows "wl_sizes w" "w_addr_cfg w + w_cfg_size w = n * 4096"
proof -
  obtain k where k: "n = 2 * state_sectors n + 3 + k" using state_sectors(3) [OF assms(2)] le_iff_add by blast
  define s where "s = state_sectors n"
  have e: "n = 2 * s + 3 + k" "1 \<le> s" "64 + n * 16 \<le> s * 4096" using k state_sectors(1,2) [of n] by (simp_all add: s_def)
  note lo = assms(1) [unfolded laid_out_def, folded s_def]
  have a: "w_addr_cfg w = (2 * s + 2 + k) * 4096" "w_addr_state2 w = (s + 2 + k) * 4096" "w_addr_state1 w = (2 + k) * 4096" "w_flash_size w = (k + 1) * 4096"
    using lo e(1) by simp_all
  show "w_addr_cfg w + w_cfg_size w = n * 4096" using lo e(1) by simp
  have "(2 * s + 2 + k) * 4096 + 4096 < 2 ^ 32" using assms(3) e(1) by simp
  then show "wl_sizes w" unfolding wl_sizes_def Let_def a using lo e(2,3) assms(4) a(4)
    by (simp add: wl_defaults) (use e(1) in simp)
qed

text \<open>Partitions of less than 5 sectors are refused; the size of the storage wraps around for them.\<close>

lemma small_storage:
  assumes "n < 5"
  shows "to_ptrdiff (umul (usub (usub (usub (n * 4096) (umul 4096 2)) 4096 div 4096) 1) 4096) \<le> 0"
proof -
  have "n \<in> {0, 1, 2, 3, 4}" using assms by auto
  then show ?thesis by (elim insertE) (simp_all add: umul_def usub_def to_ptrdiff_def)
qed

lemma large_storage:
  assumes "5 \<le> n" "n < 2 ^ 20"
  shows "umul (usub (usub (usub (n * 4096) (umul (state_sectors n * 4096) 2)) 4096 div 4096) 1) 4096 = (n - 2 - 2 * state_sectors n) * 4096"
    "umul (state_sectors n * 4096) 2 = 2 * state_sectors n * 4096"
proof -
  obtain k where k: "n = 2 * state_sectors n + 3 + k" using state_sectors(3) [OF assms(1)] le_iff_add by blast
  define s where "s = state_sectors n"
  have e: "n = 2 * s + 3 + k" "2 * s + 3 + k < 2 ^ 20" using k assms(2) by (simp_all add: s_def)
  have m: "umul (s * 4096) 2 = 2 * s * 4096" using e(2) by (subst umul_small) simp_all
  then show "umul (state_sectors n * 4096) 2 = 2 * state_sectors n * 4096" by (simp add: s_def)
  have "usub (n * 4096) (2 * s * 4096) = (3 + k) * 4096" using e by (subst usub_le) simp_all
  moreover have "usub ((3 + k) * 4096) 4096 = (2 + k) * 4096" using e(2) by (subst usub_le) simp_all
  moreover have "usub (2 + k) 1 = 1 + k" "umul (1 + k) 4096 = (1 + k) * 4096" using e(2) by simp_all
  ultimately show "umul (usub (usub (usub (n * 4096) (umul (state_sectors n * 4096) 2)) 4096 div 4096) 1) 4096 = (n - 2 - 2 * state_sectors n) * 4096"
    unfolding s_def [symmetric] m by (simp add: e(1))
qed

lemma state_size_sectors:
  assumes "n < 2 ^ 20"
  shows "(let need = uadd 64 (umul n 16) in if 4096 < need then umul (usub (uadd need 4096) 1 div 4096) 4096 else 4096) = state_sectors n * 4096"
proof -
  have n: "umul n 16 = n * 16" "uadd 64 (n * 16) = 64 + n * 16" "uadd (64 + n * 16) 4096 = 64 + n * 16 + 4096"
    "usub (64 + n * 16 + 4096) 1 = 64 + n * 16 + 4095" using assms by (simp_all add: usub_le)
  have "(64 + n * 16 + 4095) div 4096 * 4096 \<le> 64 + n * 16 + 4095" by simp
  then have "umul ((64 + n * 16 + 4095) div 4096) 4096 = (64 + n * 16 + 4095) div 4096 * 4096" using assms by (intro umul_small) simp
  then show ?thesis unfolding Let_def n by (simp add: state_sectors_def)
qed

definition config_result :: "nat \<Rightarrow> wl_config \<Rightarrow> 'f wl_flash \<Rightarrow> 'f wl_flash" where
  "config_result n cfg w = w\<lparr>w_cfg := cfg, w_configured := False, w_state_size := state_sectors n * 4096, w_cfg_size := 4096,
     w_addr_cfg := usub (n * 4096) 4096, w_addr_state1 := usub (usub (n * 4096) (umul (state_sectors n * 4096) 2)) 4096,
     w_addr_state2 := usub (usub (n * 4096) (state_sectors n * 4096)) 4096,
     w_flash_size := umul (usub (usub (usub (n * 4096) (umul (state_sectors n * 4096) 2)) 4096 div 4096) 1) 4096\<rparr>"

lemma mount_config_eq:
  fixes w :: "'f wl_flash" and crc malloc c0 pad part n
  defines "cfg \<equiv> (wl_mount_cfg c0 pad part)\<lparr>wc_crc := crc (take 32 (config_bytes (wl_mount_cfg c0 pad part)))\<rparr>"
  assumes part: "pt_size part = n * 4096" "n < 2 ^ 20"
  shows "WL_config crc malloc (wl_mount_cfg c0 pad part) w =
    (if to_ptrdiff (w_flash_size (config_result n cfg w)) \<le> 0 then Inr (ESP_ERR_INVALID_ARG, config_result n cfg w)
     else case malloc 32 of None \<Rightarrow> Inr (ESP_ERR_NO_MEM, config_result n cfg w)
       | Some buff \<Rightarrow> Inr (ESP_OK, (config_result n cfg w)\<lparr>w_temp_buff := buff, w_configured := True\<rparr>))"
proof -
  have f: "wc_temp_buff_size cfg = 32" "wc_wr_size cfg = 16" "wc_full_mem_size cfg = n * 4096" "wc_sector_size cfg = 4096" "wc_page_size cfg = 4096" "wc_start_addr cfg = 0"
    using part by (simp_all add: cfg_def wl_mount_cfg_def wl_defaults)
  have z: "umul (usub (uadd 48 4096) 1 div 4096) 4096 = 4096" by (simp add: umul_def usub_def uadd_def)
  have t: "uadd 0 (n * 4096) = n * 4096" "n * 4096 div 4096 = n" using part(2) by simp_all
  have k: "(if (32 :: nat) < 16 then cfg\<lparr>wc_temp_buff_size := 16\<rparr> else cfg) = cfg" by simp
  show ?thesis
    unfolding WL_config_def cfg_def [symmetric] Let_def f k sizeof_state_def sizeof_config_def z t state_size_sectors [OF part(2), unfolded Let_def] config_result_def
    by (simp split: option.split)
qed

lemma mount_config:
  fixes w :: "'f wl_flash"
  assumes part: "pt_size part = n * 4096" "n < 2 ^ 20" and mem: "\<And>k bs. malloc k = Some bs \<Longrightarrow> length bs = k"
  shows "\<exists>r w'. WL_config crc malloc (wl_mount_cfg c0 pad part) w = Inr (r, w') \<and> w_flash w' = w_flash w \<and>
    (r = ESP_OK \<longrightarrow> w_configured w' \<and> laid_out n w' \<and> wl_sizes w' \<and> w_addr_cfg w' + w_cfg_size w' = n * 4096) \<and>
    (r = ESP_OK \<longleftrightarrow> 5 \<le> n \<and> (n - 2 - 2 * state_sectors n) * 4096 < 2 ^ 31 \<and> malloc 32 \<noteq> None)"
proof -
  let ?cfg = "(wl_mount_cfg c0 pad part)\<lparr>wc_crc := crc (take 32 (config_bytes (wl_mount_cfg c0 pad part)))\<rparr>" let ?w = "config_result n ?cfg w"
  note eq = mount_config_eq [OF part, of crc malloc c0 pad w]
  show ?thesis
  proof (cases "5 \<le> n")
    case False
    then have "state_sectors n = 1" by (simp add: state_sectors_def)
    then have "to_ptrdiff (w_flash_size ?w) \<le> 0" using small_storage [of n] False by (simp add: config_result_def)
    then show ?thesis using False by (simp add: eq) (simp add: config_result_def)
  next
    case True
    note ls = large_storage [OF True part(2)]
    have fs: "w_flash_size ?w = (n - 2 - 2 * state_sectors n) * 4096" using ls by (simp add: config_result_def)
    have nz: "0 < n - 2 - 2 * state_sectors n" using state_sectors(3) [OF True] by linarith
    have neg: "to_ptrdiff (w_flash_size ?w) \<le> 0 \<longleftrightarrow> \<not> (n - 2 - 2 * state_sectors n) * 4096 < 2 ^ 31"
      unfolding fs to_ptrdiff_def using nz part(2) by auto
    have lo: "laid_out n (?w\<lparr>w_temp_buff := buff, w_configured := True\<rparr>)" if "malloc 32 = Some buff" for buff
    proof -
      obtain k where k: "n = 2 * state_sectors n + 3 + k" using state_sectors(3) [OF True] le_iff_add by blast
      define s where "s = state_sectors n"
      have e: "n = 2 * s + 3 + k" "2 * s + 3 + k < 2 ^ 20" using k part(2) by (simp_all add: s_def)
      have "usub (n * 4096) 4096 = (n - 1) * 4096" "usub (usub (n * 4096) (2 * s * 4096)) 4096 = (n - 1 - 2 * s) * 4096"
        "usub (usub (n * 4096) (s * 4096)) 4096 = (n - 1 - s) * 4096" using e(2) by (simp_all add: e(1))
      then show ?thesis
        unfolding laid_out_def using mem [OF that] ls part by (simp add: config_result_def wl_mount_cfg_def wl_defaults s_def)
    qed
    show ?thesis
    proof (cases "(n - 2 - 2 * state_sectors n) * 4096 < 2 ^ 31")
      case False
      then show ?thesis by (simp add: eq neg) (simp add: config_result_def)
    next
      case lim: True
      show ?thesis
      proof (cases "malloc 32")
        case None
        then show ?thesis using lim by (simp add: eq neg) (simp add: config_result_def)
      next
        case (Some buff)
        let ?v = "?w\<lparr>w_temp_buff := buff, w_configured := True\<rparr>"
        have "w_flash_size ?v < 2 ^ 31" using lim fs by simp
        note sz = laid_out_sizes [OF lo [OF Some] True part(2) this]
        have "WL_config crc malloc (wl_mount_cfg c0 pad part) w = Inr (ESP_OK, ?v)" using eq neg lim Some by simp
        moreover have "w_flash ?v = w_flash w" by (simp add: config_result_def)
        ultimately show ?thesis using lo [OF Some] True lim Some sz by (intro exI [of _ ESP_OK] exI [of _ ?v]) simp
      qed
    qed
  qed
qed

section \<open>A new state\<close>

text \<open>The state that \<^verbatim>\<open>initSections\<close> writes.\<close>

definition first_state :: "(byte list \<Rightarrow> nat) \<Rightarrow> nat \<Rightarrow> 'f wl_flash \<Rightarrow> wl_state" where
  "first_state crc rnd w =
     (let s = \<lparr>ws_pos = 0, ws_max_pos = n_blocks w + 1, ws_move_count = 0, ws_access_count = 0, ws_max_count = wc_updaterate (w_cfg w),
        ws_block_size = wc_page_size (w_cfg w), ws_version = wc_version (w_cfg w), ws_device_id = rnd, ws_reserved = replicate 7 0,
        ws_crc = ws_crc (w_state w)\<rparr>
      in s\<lparr>ws_crc := state_crc crc s\<rparr>)"

text \<open>What \<^verbatim>\<open>initSections\<close> needs of the configuration.\<close>

definition cfg_ok :: "'f wl_flash \<Rightarrow> bool" where
  "cfg_ok w \<longleftrightarrow> wl_sizes w \<and> 0 < wc_updaterate (w_cfg w) \<and> wc_updaterate (w_cfg w) < 2 ^ 32 \<and> wc_version (w_cfg w) < 2 ^ 32 \<and>
     length (config_bytes (w_cfg w)) \<le> w_cfg_size w"

lemma first_state_ok:
  assumes k: "cfg_ok w" and c: "crc_words crc" and r: "rnd < 2 ^ 32"
  shows "wl_geom (w\<lparr>w_state := first_state crc rnd w\<rparr>)" "header_ok crc (w\<lparr>w_state := first_state crc rnd w\<rparr>) (first_state crc rnd w)"
    "ws_pos (first_state crc rnd w) = 0" "ws_device_id (first_state crc rnd w) = rnd"
proof -
  let ?s = "first_state crc rnd w"
  have z: "wl_sizes w" using k by (simp add: cfg_ok_def)
  note nb = n_blocks [OF z]
  have lim: "w_flash_size w < 2 ^ 31" "wc_page_size (w_cfg w) \<le> w_flash_size w + wc_page_size (w_cfg w)" "w_flash_size w + wc_page_size (w_cfg w) < 2 ^ 32"
    using z by (simp_all add: wl_sizes_def Let_def)
  have n: "n_blocks w \<le> w_flash_size w" by (simp add: n_blocks_def)
  show pd: "ws_pos ?s = 0" "ws_device_id ?s = rnd" by (simp_all add: first_state_def Let_def)
  have "wl_sizes (w\<lparr>w_state := ?s\<rparr>)" using z by (simp add: wl_sizes_def Let_def)
  then show "wl_geom (w\<lparr>w_state := ?s\<rparr>)"
    using nb(2) by (simp add: wl_geom_def wl_pos_ok_def n_blocks_def) (simp add: first_state_def n_blocks_def Let_def)
  have "state_crc crc t < 2 ^ 32" for t using c by (simp add: crc_words_def state_crc_def)
  then have "bounded ?s" using k r n lim unfolding bounded_def by (simp add: first_state_def Let_def cfg_ok_def)
  moreover have "state_crc crc ?s = ws_crc ?s" unfolding first_state_def Let_def by (subst state_crc_own) simp_all
  ultimately show "header_ok crc (w\<lparr>w_state := ?s\<rparr>) ?s" using pd by (simp add: header_ok_def core_eq) (simp add: first_state_def Let_def)
qed

definition write_sections :: "'f flash_access \<Rightarrow> 'f wl_op" where
  "write_sections drv = check (\<lambda>w. write_state drv (w_addr_state1 w) w) (check (\<lambda>w. write_state drv (w_addr_state2 w) w)
     (check (\<lambda>w. drv_erase_range drv (w_addr_cfg w) (w_cfg_size w) w) (check (\<lambda>w. drv_write drv (w_addr_cfg w) (config_bytes (w_cfg w)) w) finish)))"

lemma initSections_eq:
  assumes k: "cfg_ok w"
  shows "initSections drv crc rnd w = write_sections drv (w\<lparr>w_state := first_state crc rnd w\<rparr>)"
proof -
  have z: "wl_sizes w" using k by (simp add: cfg_ok_def)
  have p: "0 < wc_page_size (w_cfg w)" "0 < w_state_size w" using z sizes_temp(5) [OF z] by (simp_all add: wl_sizes_def Let_def sizeof_state_def)
  have "n_blocks w \<le> w_flash_size w" "w_flash_size w < 2 ^ 31" using z by (simp_all add: n_blocks_def wl_sizes_def Let_def)
  then have "uadd 1 (n_blocks w) = 1 + n_blocks w" by (intro uadd_small) simp
  then show ?thesis using p k unfolding initSections_def Let_def n_blocks_def [symmetric]
    by (simp add: cfg_ok_def first_state_def write_sections_def Let_def) (cases "w_state w"; simp)
qed

context flash_driver begin

lemma write_sections_rule:
  fixes w :: "'f wl_flash"
  assumes g: "wl_geom w" and f: "fits w m" and k: "cfg_ok w"
  shows "triple (at content up True w m) (write_sections drv)
    (at content up True w (stamped (w_addr_cfg w) (w_cfg_size w) (config_bytes (w_cfg w)) (round_mem w (w_state w) m))) (\<lambda>_. False)"
    "length (round_mem w (w_state w) m) = length m"
proof -
  let ?s1 = "stamped (w_addr_state1 w) (w_state_size w) (state_bytes (w_state w)) m" let ?m1 = "round_mem w (w_state w) m"
  let ?a = "w_addr_cfg w" and ?n = "w_cfg_size w" and ?bs = "config_bytes (w_cfg w)"
  note sa = state_areas [OF g f]
  have al: "SPI_FLASH_SEC_SIZE dvd w_addr_state1 w" "SPI_FLASH_SEC_SIZE dvd w_addr_state2 w" "SPI_FLASH_SEC_SIZE dvd w_state_size w"
    "SPI_FLASH_SEC_SIZE dvd ?a" "SPI_FLASH_SEC_SIZE dvd ?n" using g by (simp_all add: wl_geom_def wl_sizes_def Let_def)
  have lb: "length (state_bytes (w_state w)) \<le> w_state_size w"
    using length_state_bytes [of "w_state w"] sa(3) g by (simp add: wl_geom_def wl_pos_ok_def)
  note s1 = stamped_read(4) [OF sa(1) lb] note s2 = stamped_read(4) [OF sa(2) [folded s1] lb]
  show len: "length ?m1 = length m" using s1 s2 by (simp add: round_mem_def)
  have cf: "?a + ?n \<le> length ?m1" "length ?bs \<le> ?n" using f k len by (simp_all add: fits_def cfg_ok_def)
  have "triple (at content up True w m) (\<lambda>w. write_state drv (w_addr_state1 w) w) (at content up True w ?s1) (\<lambda>_. False)"
    by (rule triple_cong [OF triple_post [OF write_state_rule [of "w_addr_state1 w" w m True]]])
      (use sa(1) al lb in \<open>simp_all add: at_def hurt_def base_eq\<close>)
  moreover have "triple (at content up True w ?s1) (\<lambda>w. write_state drv (w_addr_state2 w) w) (at content up True w ?m1) (\<lambda>_. False)"
    by (rule triple_cong [OF triple_post [OF write_state_rule [of "w_addr_state2 w" w ?s1 True]]])
      (use sa(2) s1 al lb in \<open>simp_all add: at_def hurt_def base_eq round_mem_def\<close>)
  moreover have "triple (at content up True w ?m1) (\<lambda>w. drv_erase_range drv (w_addr_cfg w) (w_cfg_size w) w) (at content up True w (nor_erase ?a ?n ?m1)) (\<lambda>_. False)"
    by (rule erase_rule [where u = True]) (use al cf in \<open>auto simp: at_def base_eq\<close>)
  moreover have "triple (at content up True w (nor_erase ?a ?n ?m1)) (\<lambda>w. drv_write drv (w_addr_cfg w) (config_bytes (w_cfg w)) w) (at content up True w (stamped ?a ?n ?bs ?m1)) (\<lambda>_. False)"
    by (rule write_rule [where u = True]) (use cf nor_stamped [OF cf] in \<open>auto simp: at_def base_eq\<close>)
  moreover have "triple (at content up True w (stamped ?a ?n ?bs ?m1)) finish (at content up True w (stamped ?a ?n ?bs ?m1)) (\<lambda>_. False)"
    by (simp add: triple_def finish_def)
  ultimately show "triple (at content up True w m) (write_sections drv) (at content up True w (stamped ?a ?n ?bs ?m1)) (\<lambda>_. False)"
    unfolding write_sections_def by (blast intro: triple_check)
qed

lemma initSections_up:
  fixes w :: "'f wl_flash"
  assumes k: "cfg_ok w" and f: "fits w (content (w_flash w))" and up: "up (w_flash w)" and c: "crc_words crc" and r: "rnd < 2 ^ 32"
  shows "\<exists>w'. initSections drv crc rnd w = Inr (ESP_OK, w') \<and> base w' = base w \<and> w_state w' = first_state crc rnd w \<and> up (w_flash w') \<and>
    wl_geom w' \<and> fits w' (content (w_flash w')) \<and> stored crc w' (content (w_flash w'))"
proof -
  let ?w = "w\<lparr>w_state := first_state crc rnd w\<rparr>" and ?m = "content (w_flash w)" let ?m1 = "round_mem ?w (w_state ?w) ?m"
  let ?m2 = "stamped (w_addr_cfg w) (w_cfg_size w) (config_bytes (w_cfg w)) ?m1"
  note fs = first_state_ok [OF k c r]
  have fw: "fits ?w ?m" using f by (simp add: fits_def)
  have kw: "cfg_ok ?w" using k by (simp add: cfg_ok_def wl_sizes_def Let_def)
  note ws = write_sections_rule [OF fs(1) fw kw]
  have "at content up True ?w ?m ?w" using up by (simp add: at_def)
  from tripleD [OF ws(1) this] obtain w' where i: "write_sections drv ?w = Inr (ESP_OK, w')" "at content up True ?w ?m2 w'" by (auto split: if_splits)
  have b: "base w' = base ?w" "w_state w' = w_state ?w" "content (w_flash w') = ?m2" "up (w_flash w')" using i(2) by (simp_all add: at_def)
  have cf: "w_addr_cfg w + w_cfg_size w \<le> length ?m1" "length (config_bytes (w_cfg w)) \<le> w_cfg_size w" using f ws(2) k by (simp_all add: fits_def cfg_ok_def)
  have st: "stored crc ?w ?m1" by (rule fresh_stored [OF fs(1) fw]) (use fs in simp_all)
  have "mem_agree (states_area ?w) ?m1 ?m2"
    unfolding stamped_def by (rule mem_agree_write) (use cf areas(3) [OF fs(1)] in \<open>auto simp: states_area_def\<close>)
  moreover have f1: "fits ?w ?m1" using cf by (simp add: fits_def)
  ultimately have "stored crc ?w ?m2" using stored_agree [OF fs(1) _ st] by blast
  then have s: "stored crc w' (content (w_flash w'))" using b by (simp add: stored_def header_ok_def base_eq rec_bytes_def record_addr_def)
  have "wl_geom w'" "fits w' (content (w_flash w'))" using geom_core(1) [of w' ?w] b fs(1) stamped_read(4) [OF cf] f1 by (simp_all add: fits_def base_eq)
  then show ?thesis using b s i(1) initSections_eq [OF k, of drv crc rnd] by (intro exI [of _ w']) simp
qed

end

section \<open>The first mount\<close>

text \<open>Neither header is valid, and they are not both of version 1.\<close>

definition unformatted :: "(byte list \<Rightarrow> nat) \<Rightarrow> nat \<Rightarrow> nat \<Rightarrow> mem \<Rightarrow> bool" where
  "unformatted crc a1 a2 m \<longleftrightarrow>
     (let h1 = state_of_bytes (mem_read a1 sizeof_state m); h2 = state_of_bytes (mem_read a2 sizeof_state m)
      in state_crc crc h1 \<noteq> ws_crc h1 \<and> state_crc crc h2 \<noteq> ws_crc h2 \<and> (ws_version h1 \<noteq> 1 \<or> ws_version h2 \<noteq> 1))"

context flash_driver begin

lemma init_fresh:
  fixes w :: "'f wl_flash"
  assumes cw: "w_configured w" and k: "cfg_ok w" and f: "fits w (content (w_flash w))" and up: "up (w_flash w)"
    and c: "crc_words crc" and r: "rnd < 2 ^ 32" and un: "unformatted crc (w_addr_state1 w) (w_addr_state2 w) (content (w_flash w))"
  shows "\<exists>w'. WL_init drv crc rnd w = Inr (ESP_OK, w') \<and> base w' = base (w\<lparr>w_initialized := True\<rparr>) \<and>
    holds content up crc True (base w') (vmem w' (content (w_flash w'))) w' \<and> ws_pos (w_state w') = 0"
proof -
  let ?h1 = "state_of_bytes (mem_read (w_addr_state1 w) sizeof_state (content (w_flash w)))"
  let ?h2 = "state_of_bytes (mem_read (w_addr_state2 w) sizeof_state (content (w_flash w)))"
  have z: "wl_sizes w" using k by (simp add: cfg_ok_def)
  from init_reads [OF cw z f up, of crc rnd] obtain f1 where i: "WL_init drv crc rnd w =
      init_states drv crc rnd ?h2 (w\<lparr>w_initialized := False, w_state := ?h1, w_flash := f1\<rparr>)" "up f1" "content f1 = content (w_flash w)" by (elim exE conjE)
  let ?w1 = "w\<lparr>w_initialized := False, w_state := ?h1, w_flash := f1\<rparr>"
  have l2: "w_addr_state2 w + sizeof_state \<le> length (content (w_flash w))" using sizes_temp(4,5) [OF z] f by (simp add: fits_def)
  from read_up [OF i(2), of "w_addr_state2 w" sizeof_state] l2 obtain f2 where
    f2: "fa_read drv (w_addr_state2 w) sizeof_state f1 = (ESP_OK, mem_read (w_addr_state2 w) sizeof_state (content (w_flash w)), f2)" "up f2" unfolding i(3) by auto
  have c2: "content f2 = content (w_flash w)" using read_keeps [OF f2(1)] i(3) by simp
  let ?w2 = "w\<lparr>w_initialized := False, w_state := ?h1, w_flash := f2\<rparr>"
  have u: "updateVersion drv crc rnd ?w1 = Inr (ESP_FAIL, ?w2)" using un f2 by (auto simp: updateVersion_def updateV1_V2_def Let_def unformatted_def)
  have k2: "cfg_ok ?w2" "fits ?w2 (content (w_flash ?w2))" "up (w_flash ?w2)"
    using k f f2 c2 by (simp_all add: cfg_ok_def wl_sizes_def Let_def fits_def)
  from initSections_up [OF k2 c r] obtain w3 where w3: "initSections drv crc rnd ?w2 = Inr (ESP_OK, w3)" "base w3 = base ?w2" "up (w_flash w3)"
    "wl_geom w3" "fits w3 (content (w_flash w3))" "stored crc w3 (content (w_flash w3))" "w_state w3 = first_state crc rnd ?w2" by (elim exE conjE)
  have mx: "ws_max_pos (w_state w3) = n_blocks w3 + 1" "wl_sizes w3" "ws_pos (w_state w3) = 0" using w3(4,7) by (simp_all add: wl_geom_def wl_pos_ok_def first_state_def Let_def)
  have "marked crc (ws_device_id (w_state w3)) 0 (ws_max_pos (w_state w3)) w3 (content (w_flash w3))"
    using w3(6) mx erased_not_ok [OF c areas(5) [OF w3(4)]] by (simp add: marked_def stored_def)
  from recoverPos_up [OF mx(2) w3(5) mx(1) this w3(3)] obtain w4 where w4: "recoverPos drv crc w3 = Inr (ESP_OK, w4)" "base w4 = base w3"
    "w_state w4 = (w_state w3)\<lparr>ws_pos := 0\<rparr>" "up (w_flash w4)" "content (w_flash w4) = content (w_flash w3)" by (auto simp: min_def)
  let ?w5 = "w4\<lparr>w_initialized := True\<rparr>"
  have s4: "w_state ?w5 = w_state w3" using w4(3) mx(3) by (cases "w_state w3") simp
  have "base w3 = base (w\<lparr>w_initialized := False\<rparr>)" using w3(2) by (simp add: base_def)
  then have bb: "base ?w5 = base (w\<lparr>w_initialized := True\<rparr>)" using w4(2) by (simp add: base_eq)
  have "wl_geom ?w5" "fits ?w5 (content (w_flash ?w5))" "stored crc ?w5 (content (w_flash ?w5))"
    using w3(4-6) w4(2,5) s4 by (simp_all add: wl_geom_def wl_sizes_def wl_pos_ok_def n_blocks_def Let_def fits_def stored_def header_ok_def rec_bytes_def record_addr_def base_eq)
  then have "holds content up crc True (base ?w5) (vmem ?w5 (content (w_flash ?w5))) ?w5" using w4(4) by (simp add: holds_def)
  moreover have "WL_init drv crc rnd w = Inr (ESP_OK, ?w5)"
    using i(1) u w3(1) w4(1) un by (simp add: init_states_def check_def init_done_def unformatted_def Let_def)
  ultimately show ?thesis using bb s4 mx(3) by (intro exI [of _ ?w5]) simp
qed

end

end
