(* ===== verification/Wear_Levelling.thy ===== *)
theory Wear_Levelling
  imports WL_Start
begin

text \<open>
  The interface of \<^verbatim>\<open>components/wear_levelling/wear_levelling.cpp\<close>: the table of mounted instances with their
  handles, with \<^verbatim>\<open>CONFIG_WL_SECTOR_SIZE\<close> 4096, so that an instance is a \<^verbatim>\<open>WL_Flash\<close>. All instances use the
  one flash chip; it is in the state of the system, and a method of an instance runs on it. The locks
  make the calls sequential and have no other effect on the state.
\<close>

section \<open>Model\<close>

definition MAX_WL_HANDLES :: nat where "MAX_WL_HANDLES = 8"
definition WL_INVALID_HANDLE :: int where "WL_INVALID_HANDLE = - 1"

record 'c wl_system =
  wls_chip :: 'c
  s_instances :: "(esp_partition_t \<times> 'c wl_flash) option list"

text \<open>
  What \<^verbatim>\<open>wl_mount\<close> gets from outside: whether the \<^verbatim>\<open>Partition\<close> can be allocated, the memory for the
  \<^verbatim>\<open>WL_Flash\<close>, the allocation of its buffer, the value of \<^verbatim>\<open>esp_random\<close>, and the members of the
  configuration that are not set.
\<close>

record 'c mount_env =
  me_partition :: bool
  me_wl_flash :: "'c wl_flash option"
  me_malloc :: "nat \<Rightarrow> byte list option"
  me_random :: nat
  me_crc :: nat
  me_padding :: "byte list"

fun free_handle :: "nat \<Rightarrow> 'i option list \<Rightarrow> nat option" where
  "free_handle i [] = None"
| "free_handle i (None # xs) = Some i"
| "free_handle i (Some _ # xs) = free_handle (i + 1) xs"

definition wl_mount :: "'c esp_flash_t \<Rightarrow> (byte list \<Rightarrow> nat) \<Rightarrow> 'c mount_env \<Rightarrow> esp_partition_t \<Rightarrow> 'c wl_system \<Rightarrow>
    (esp_err \<times> int \<times> 'c wl_system) res" where
  "wl_mount chip crc env part sys = (case free_handle 0 (s_instances sys) of
     None \<Rightarrow> Inr (ESP_ERR_NO_MEM, WL_INVALID_HANDLE, sys)
   | Some h \<Rightarrow>
       if \<not> me_partition env then Inr (ESP_ERR_NO_MEM, WL_INVALID_HANDLE, sys)
       else case me_wl_flash env of
         None \<Rightarrow> Inr (ESP_ERR_NO_MEM, WL_INVALID_HANDLE, sys)
       | Some w \<Rightarrow>
           bindR (WL_config crc (me_malloc env) (wl_mount_cfg (me_crc env) (me_padding env) part) (w\<lparr>w_flash := wls_chip sys\<rparr>)) (\<lambda>(result, w).
             if result \<noteq> ESP_OK then Inr (result, WL_INVALID_HANDLE, sys\<lparr>wls_chip := w_flash w\<rparr>)
             else bindR (WL_init (Partition_t chip part) crc (me_random env) w) (\<lambda>(result, w).
               if result \<noteq> ESP_OK then Inr (result, WL_INVALID_HANDLE, sys\<lparr>wls_chip := w_flash w\<rparr>)
               else Inr (ESP_OK, int h, sys\<lparr>wls_chip := w_flash w, s_instances := (s_instances sys)[h := Some (part, w)]\<rparr>))))"

definition check_handle :: "int \<Rightarrow> 'c wl_system \<Rightarrow> esp_err res" where
  "check_handle handle sys =
     (if handle = WL_INVALID_HANDLE then Inr ESP_ERR_NOT_FOUND
      else if handle \<ge> int MAX_WL_HANDLES then Inr ESP_ERR_INVALID_ARG
      else if handle < 0 \<or> length (s_instances sys) \<le> nat handle then Inl Out_of_bounds
      else if s_instances sys ! nat handle = None then Inr ESP_ERR_NOT_FOUND
      else Inr ESP_OK)"

text \<open>A method of the instance of a handle that was checked.\<close>

definition call_instance :: "'c esp_flash_t \<Rightarrow> ('c flash_access \<Rightarrow> 'c wl_flash \<Rightarrow> ('r \<times> 'c wl_flash) res) \<Rightarrow> int \<Rightarrow> 'c wl_system \<Rightarrow>
    ('r \<times> 'c wl_system) res" where
  "call_instance chip method handle sys = (case s_instances sys ! nat handle of
     None \<Rightarrow> Inl Bad_pointer
   | Some (part, w) \<Rightarrow>
       bindR (method (Partition_t chip part) (w\<lparr>w_flash := wls_chip sys\<rparr>)) (\<lambda>(r, w).
         Inr (r, sys\<lparr>wls_chip := w_flash w, s_instances := (s_instances sys)[nat handle := Some (part, w)]\<rparr>)))"

definition wl_unmount :: "'c esp_flash_t \<Rightarrow> (byte list \<Rightarrow> nat) \<Rightarrow> int \<Rightarrow> 'c wl_system \<Rightarrow> (esp_err \<times> 'c wl_system) res" where
  "wl_unmount chip crc handle sys = bindR (check_handle handle sys) (\<lambda>result.
     if result \<noteq> ESP_OK then Inr (result, sys)
     else bindR (call_instance chip (\<lambda>drv. WL_flush drv crc) handle sys) (\<lambda>(result, sys).
       Inr (result, sys\<lparr>s_instances := (s_instances sys)[nat handle := None]\<rparr>)))"

definition wl_erase_range :: "'c esp_flash_t \<Rightarrow> (byte list \<Rightarrow> nat) \<Rightarrow> int \<Rightarrow> nat \<Rightarrow> nat \<Rightarrow> 'c wl_system \<Rightarrow> (esp_err \<times> 'c wl_system) res" where
  "wl_erase_range chip crc handle start_addr sz sys = bindR (check_handle handle sys) (\<lambda>result.
     if result \<noteq> ESP_OK then Inr (result, sys)
     else call_instance chip (\<lambda>drv. WL_erase_range drv crc start_addr sz) handle sys)"

definition wl_write :: "'c esp_flash_t \<Rightarrow> int \<Rightarrow> nat \<Rightarrow> byte list \<Rightarrow> 'c wl_system \<Rightarrow> (esp_err \<times> 'c wl_system) res" where
  "wl_write chip handle dest_addr src sys = bindR (check_handle handle sys) (\<lambda>result.
     if result \<noteq> ESP_OK then Inr (result, sys)
     else call_instance chip (\<lambda>drv. WL_write drv dest_addr src) handle sys)"

definition wl_read :: "'c esp_flash_t \<Rightarrow> int \<Rightarrow> nat \<Rightarrow> nat \<Rightarrow> 'c wl_system \<Rightarrow> ((esp_err \<times> byte list) \<times> 'c wl_system) res" where
  "wl_read chip handle src_addr sz sys = bindR (check_handle handle sys) (\<lambda>result.
     if result \<noteq> ESP_OK then Inr ((result, []), sys)
     else call_instance chip (\<lambda>drv w. bindR (WL_read drv src_addr sz w) (\<lambda>(r, bs, w). Inr ((r, bs), w))) handle sys)"

definition wl_size :: "int \<Rightarrow> 'c wl_system \<Rightarrow> nat res" where
  "wl_size handle sys = bindR (check_handle handle sys) (\<lambda>err.
     if err \<noteq> ESP_OK then Inr 0
     else case s_instances sys ! nat handle of None \<Rightarrow> Inl Bad_pointer | Some (part, w) \<Rightarrow> Inr (WL_chip_size w))"

definition wl_sector_size :: "int \<Rightarrow> 'c wl_system \<Rightarrow> nat res" where
  "wl_sector_size handle sys = bindR (check_handle handle sys) (\<lambda>err.
     if err \<noteq> ESP_OK then Inr 0
     else case s_instances sys ! nat handle of None \<Rightarrow> Inl Bad_pointer | Some (part, w) \<Rightarrow> Inr (WL_sector_size w))"

section \<open>A partition keeps to its part of the chip\<close>

definition part_range :: "esp_partition_t \<Rightarrow> nat set" where
  "part_range p = {pt_address p..<pt_address p + pt_size p}"

text \<open>The partition works, and the rest of the chip is as in \<open>m\<close>.\<close>

definition only_part :: "esp_partition_t \<Rightarrow> ('c \<Rightarrow> mem) \<Rightarrow> ('c \<Rightarrow> bool) \<Rightarrow> mem \<Rightarrow> 'c \<Rightarrow> bool" where
  "only_part p content up m f \<longleftrightarrow> partition_up p content up f \<and> mem_agree (- part_range p) m (content f)"

lemma frame_in_part:
  assumes "mem_agree (- {pt_address p + a..<pt_address p + a + n}) m m'" "a + n \<le> pt_size p"
  shows "mem_agree (- part_range p) m m'"
  using assms(1) by (rule mem_agree_subset) (use assms(2) in \<open>auto simp: part_range_def\<close>)

context partition_on_chip begin

lemma only_part_write:
  assumes "only_part part content up m f" "a + length bs \<le> length (slice part (content f))"
  shows "\<exists>f'. esp_partition_write chip part a bs f = (ESP_OK, f') \<and> only_part part content up m f'"
proof -
  have u: "partition_up part content up f" using assms(1) by (simp add: only_part_def)
  from partition_write_up [OF u assms(2)] obtain f' where f': "esp_partition_write chip part a bs f = (ESP_OK, f')" "partition_up part content up f'" by blast
  have "esp_flash_write chip (pt_address part + a) bs f = (ESP_OK, f')" using f'(1) by (auto simp: esp_partition_write_def split: if_splits)
  from frame_in_part [OF chip_write_frame [OF this] in_range(1) [OF u assms(2)]] show ?thesis
    using f' assms(1) by (auto simp: only_part_def intro: mem_agree_trans)
qed

lemma only_part_erase:
  assumes "only_part part content up m f" "a + n \<le> length (slice part (content f))" "a mod SPI_FLASH_SEC_SIZE = 0" "n mod SPI_FLASH_SEC_SIZE = 0"
  shows "\<exists>f'. esp_partition_erase_range chip part a n f = (ESP_OK, f') \<and> only_part part content up m f'"
proof -
  have u: "partition_up part content up f" using assms(1) by (simp add: only_part_def)
  from partition_erase_up [OF u assms(2-4)] obtain f' where f': "esp_partition_erase_range chip part a n f = (ESP_OK, f')" "partition_up part content up f'" by blast
  have "esp_flash_erase_region chip (pt_address part + a) n f = (ESP_OK, f')" using f'(1) by (auto simp: esp_partition_erase_range_def split: if_splits)
  from frame_in_part [OF chip_erase_frame [OF this] in_range(1) [OF u assms(2)]] show ?thesis
    using f' assms(1) by (auto simp: only_part_def intro: mem_agree_trans)
qed

lemma only_part_read:
  assumes "only_part part content up m f" "a + n \<le> length (slice part (content f))"
  shows "\<exists>f'. esp_partition_read chip part a n f = (ESP_OK, mem_read a n (slice part (content f)), f') \<and> only_part part content up m f'"
proof -
  have u: "partition_up part content up f" using assms(1) by (simp add: only_part_def)
  from partition_read_up [OF u assms(2)] obtain f' where f': "esp_partition_read chip part a n f = (ESP_OK, mem_read a n (slice part (content f)), f')"
    "partition_up part content up f'" by blast
  have "esp_flash_read chip (pt_address part + a) n f = (ESP_OK, mem_read a n (slice part (content f)), f')"
    using f'(1) by (auto simp: esp_partition_read_def split: if_splits)
  from chip_read_keeps [OF this] show ?thesis using f' assms(1) by (auto simp: only_part_def)
qed

lemma isolated: "flash_driver (Partition_t chip part) (\<lambda>f. slice part (content f)) (only_part part content up m)"
  by unfold_locales
    (simp_all add: Partition_t_def Partition_read_def Partition_write_def Partition_erase_range_def Partition_erase_sector_def
      partition_read_ok partition_write_ok partition_erase_ok partition_frames only_part_read only_part_write only_part_erase)

end

end
