(* ===== verification/WL_System.thy ===== *)
theory WL_System
  imports Wear_Levelling
begin

text \<open>
  The instances together. Every mounted partition holds its own storage; a call for one handle acts on
  its storage like an access of a flat flash memory and leaves the storages of the others alone.
\<close>

section \<open>The invariant of the system\<close>

definition storage :: "('c \<Rightarrow> mem) \<Rightarrow> 'c wl_system \<Rightarrow> nat \<Rightarrow> mem" where
  "storage content sys h = (case s_instances sys ! h of None \<Rightarrow> []
     | Some (part, w) \<Rightarrow> vmem w (slice part (content (wls_chip sys))))"

definition mounted :: "'c wl_system \<Rightarrow> nat \<Rightarrow> bool" where
  "mounted sys h \<longleftrightarrow> h < MAX_WL_HANDLES \<and> s_instances sys ! h \<noteq> None"

text \<open>The layout of the object is the one for its partition.\<close>

definition laid_for :: "esp_partition_t \<Rightarrow> 'c wl_flash \<Rightarrow> bool" where
  "laid_for part w \<longleftrightarrow> (\<exists>k. pt_size part = k * 4096 \<and> 5 \<le> k \<and> k < 2 ^ 20 \<and> laid_out k w)"

lemma laid_base: "base w = base w' \<Longrightarrow> laid_out k w = laid_out k w'" "base w = base w' \<Longrightarrow> laid_for part w = laid_for part w'"
  by (simp_all add: laid_out_def laid_for_def base_eq)

definition ready :: "('c \<Rightarrow> mem) \<Rightarrow> ('c \<Rightarrow> bool) \<Rightarrow> (byte list \<Rightarrow> nat) \<Rightarrow> 'c \<Rightarrow> esp_partition_t \<Rightarrow> 'c wl_flash \<Rightarrow> bool" where
  "ready content up crc c part w \<longleftrightarrow> w_initialized w \<and> w_configured w \<and> laid_for part w \<and> partition_up part content up c \<and> wl_geom w \<and> fits w (slice part (content c)) \<and>
     stored crc w (slice part (content c))"

definition sys_ok :: "'c esp_flash_t \<Rightarrow> ('c \<Rightarrow> mem) \<Rightarrow> ('c \<Rightarrow> bool) \<Rightarrow> (byte list \<Rightarrow> nat) \<Rightarrow> 'c wl_system \<Rightarrow> bool" where
  "sys_ok chip content up crc sys \<longleftrightarrow> length (s_instances sys) = MAX_WL_HANDLES \<and> up (wls_chip sys) \<and>
     (\<forall>h < MAX_WL_HANDLES. \<forall>part w. s_instances sys ! h = Some (part, w) \<longrightarrow>
        partition_on_chip chip content up part \<and> ready content up crc (wls_chip sys) part w) \<and>
     (\<forall>h < MAX_WL_HANDLES. \<forall>h' < MAX_WL_HANDLES. \<forall>p w p' w'. h \<noteq> h' \<longrightarrow> s_instances sys ! h = Some (p, w) \<longrightarrow>
        s_instances sys ! h' = Some (p', w') \<longrightarrow> part_range p \<inter> part_range p' = {})"

lemma slice_disjoint:
  assumes "mem_agree (- part_range p) m m'" "part_range p \<inter> part_range p' = {}"
  shows "slice p' m = slice p' m'"
proof (rule nth_equalityI)
  show "length (slice p' m) = length (slice p' m')" using assms(1) by (simp add: length_slice mem_agree_def)
  fix i assume i: "i < length (slice p' m)"
  then have "pt_address p' + i \<in> part_range p'" "pt_address p' + i < length m" by (auto simp: length_slice part_range_def)
  then show "slice p' m ! i = slice p' m' ! i" using assms i by (auto simp: nth_slice length_slice mem_agree_def)
qed

lemma ready_agree:
  assumes "ready content up crc c part w" "only_part p content up (content c) c'" "part_range p \<inter> part_range part = {}"
  shows "ready content up crc c' part w" "slice part (content c') = slice part (content c)"
proof -
  have a: "mem_agree (- part_range p) (content c) (content c')" "up c'" using assms(2) by (simp_all add: only_part_def partition_up_def)
  show s: "slice part (content c') = slice part (content c)" using slice_disjoint [OF a(1) assms(3)] by simp
  show "ready content up crc c' part w" using assms(1) a s by (simp add: ready_def partition_up_def mem_agree_def)
qed

lemma ready_holds:
  "ready content up crc c part w \<Longrightarrow> holds (\<lambda>f. slice part (content f)) (only_part part content up (content c)) crc True (base w)
     (vmem w (slice part (content c))) (w\<lparr>w_flash := c\<rparr>)"
proof -
  let ?w = "w\<lparr>w_flash := c\<rparr>"
  assume r: "ready content up crc c part w"
  have "base ?w = base w" "core (w_state ?w) = core (w_state w)" by simp_all
  note gc = geom_core [OF this]
  have "stored crc ?w m = stored crc w m" "fits ?w m = fits w m" for m
    by (simp_all add: stored_def header_ok_def rec_bytes_def record_addr_def fits_def)
  then show ?thesis using r gc by (simp add: holds_def ready_def only_part_def mem_agree_def)
qed

lemma holds_ready:
  assumes "holds (\<lambda>f. slice part (content f)) (only_part part content up m) crc True b v w" "w_initialized w" "w_configured w" "laid_for part w"
  shows "ready content up crc (w_flash w) part w" "vmem w (slice part (content (w_flash w))) = v" "only_part part content up m (w_flash w)"
  using assms by (simp_all add: holds_def ready_def only_part_def)

text \<open>An instance is replaced by \<open>w\<close>, which changed only the range of its partition.\<close>

lemma instance_update:
  fixes sys :: "'c wl_system"
  assumes s: "sys_ok chip content up crc sys" and h: "h < MAX_WL_HANDLES"
    and pt: "partition_on_chip chip content up part"
      "\<forall>h' < MAX_WL_HANDLES. \<forall>p' w'. h' \<noteq> h \<longrightarrow> s_instances sys ! h' = Some (p', w') \<longrightarrow> part_range part \<inter> part_range p' = {}"
    and w: "ready content up crc (w_flash w) part w" "only_part part content up (content (wls_chip sys)) (w_flash w)"
  defines "sys' \<equiv> sys\<lparr>wls_chip := w_flash w, s_instances := (s_instances sys)[h := Some (part, w)]\<rparr>"
  shows "sys_ok chip content up crc sys'" "storage content sys' h = vmem w (slice part (content (w_flash w)))"
    "h' \<noteq> h \<Longrightarrow> h' < MAX_WL_HANDLES \<Longrightarrow> storage content sys' h' = storage content sys h'" "h' \<noteq> h \<Longrightarrow> mounted sys' h' = mounted sys h'" "mounted sys' h"
proof -
  have len: "length (s_instances sys) = MAX_WL_HANDLES" using s by (simp add: sys_ok_def)
  have p: "part_range part \<inter> part_range p' = {}" if "i < MAX_WL_HANDLES" "i \<noteq> h" "s_instances sys ! i = Some (p', w')" for i p' w'
    using pt(2) that by blast
  have new: "s_instances sys' ! i = (if i = h then Some (part, w) else s_instances sys ! i)" if "i < MAX_WL_HANDLES" for i
    using that len by (simp add: sys'_def nth_list_update)
  have old: "partition_on_chip chip content up p'" "ready content up crc (wls_chip sys) p' w'"
    if "i < MAX_WL_HANDLES" "s_instances sys ! i = Some (p', w')" for i p' w' using s that unfolding sys_ok_def by blast+
  have inst: "partition_on_chip chip content up p' \<and> ready content up crc (wls_chip sys') p' w'"
    if "i < MAX_WL_HANDLES" "s_instances sys' ! i = Some (p', w')" for i p' w'
  proof (cases "i = h")
    case True
    then show ?thesis using that new [OF that(1)] pt(1) w(1) by (simp add: sys'_def)
  next
    case False
    then have o: "s_instances sys ! i = Some (p', w')" using that new [OF that(1)] by simp
    show ?thesis using old [OF that(1) o] ready_agree(1) [OF _ w(2) p [OF that(1) False o]] by (simp add: sys'_def)
  qed
  have dj: "part_range p1 \<inter> part_range p2 = {}" if "i < MAX_WL_HANDLES" "j < MAX_WL_HANDLES" "i \<noteq> j" "s_instances sys' ! i = Some (p1, w1)" "s_instances sys' ! j = Some (p2, w2)" for i j p1 w1 p2 w2
  proof -
    have "s_instances sys ! i = Some (p1, w1) \<Longrightarrow> s_instances sys ! j = Some (p2, w2) \<Longrightarrow> ?thesis" using s that(1-3) unfolding sys_ok_def by blast
    then show ?thesis using that new [OF that(1)] new [OF that(2)] p [of j p2 w2] p [of i p1 w1] by (cases "i = h"; cases "j = h") auto
  qed
  have "up (wls_chip sys')" using w(1) by (simp add: ready_def partition_up_def sys'_def)
  then show "sys_ok chip content up crc sys'" using inst dj len unfolding sys_ok_def by (auto simp: sys'_def)
  show "storage content sys' h = vmem w (slice part (content (w_flash w)))" using new [OF h] by (simp add: storage_def) (simp add: sys'_def)
  show "mounted sys' h" using new [OF h] h by (simp add: mounted_def)
  assume n: "h' \<noteq> h"
  then show "mounted sys' h' = mounted sys h'" using new [of h'] by (cases "h' < MAX_WL_HANDLES") (simp_all add: mounted_def)
  assume b: "h' < MAX_WL_HANDLES"
  have "slice p' (content (w_flash w)) = slice p' (content (wls_chip sys))" if o: "s_instances sys ! h' = Some (p', w')" for p' w'
    using ready_agree(2) [OF old(2) [OF b o] w(2) p [OF b n o]] .
  then show "storage content sys' h' = storage content sys h'" using new [OF b] n by (auto simp: storage_def sys'_def split: option.splits)
qed

section \<open>Calls\<close>

datatype api_req = Api_read nat nat nat | Api_write nat nat "byte list" | Api_erase nat nat nat

fun api_handle :: "api_req \<Rightarrow> nat" where
  "api_handle (Api_read h a n) = h" | "api_handle (Api_write h a bs) = h" | "api_handle (Api_erase h a n) = h"

fun api_wl :: "api_req \<Rightarrow> wl_req" where
  "api_wl (Api_read h a n) = Req_read a n" | "api_wl (Api_write h a bs) = Req_write a bs" | "api_wl (Api_erase h a n) = Req_erase a n"

fun api_call :: "'c esp_flash_t \<Rightarrow> (byte list \<Rightarrow> nat) \<Rightarrow> api_req \<Rightarrow> 'c wl_system \<Rightarrow> (wl_reply \<times> 'c wl_system) res" where
  "api_call chip crc (Api_read h a n) sys = wl_read chip (int h) a n sys"
| "api_call chip crc (Api_write h a bs) sys = bindR (wl_write chip (int h) a bs sys) (\<lambda>(r, sys). Inr ((r, []), sys))"
| "api_call chip crc (Api_erase h a n) sys = bindR (wl_erase_range chip crc (int h) a n sys) (\<lambda>(r, sys). Inr ((r, []), sys))"

fun api_calls :: "'c esp_flash_t \<Rightarrow> (byte list \<Rightarrow> nat) \<Rightarrow> api_req list \<Rightarrow> 'c wl_system \<Rightarrow> (wl_reply list \<times> 'c wl_system) res" where
  "api_calls chip crc [] sys = Inr ([], sys)"
| "api_calls chip crc (q # qs) sys = bindR (api_call chip crc q sys) (\<lambda>(r, sys). bindR (api_calls chip crc qs sys) (\<lambda>(rs, sys). Inr (r # rs, sys)))"

text \<open>The specification: a flat flash memory for every handle.\<close>

inductive flat_system :: "(nat \<Rightarrow> mem) \<Rightarrow> api_req list \<Rightarrow> wl_reply list \<Rightarrow> (nat \<Rightarrow> mem) \<Rightarrow> bool" where
  flat_system_nil: "flat_system m [] [] m"
| flat_system_cons: "flat_step (m (api_handle q)) (api_wl q) (ESP_OK, bs) v \<Longrightarrow> flat_system (m(api_handle q := v)) qs rs m' \<Longrightarrow>
    flat_system m (q # qs) ((ESP_OK, bs) # rs) m'"

definition storages :: "('c \<Rightarrow> mem) \<Rightarrow> 'c wl_system \<Rightarrow> nat \<Rightarrow> mem" where
  "storages content sys h = (if mounted sys h then storage content sys h else [])"

text \<open>A request for a mounted partition that is \<open>req_ok\<close> for its storage.\<close>

definition api_ok :: "'c wl_system \<Rightarrow> api_req \<Rightarrow> bool" where
  "api_ok sys q \<longleftrightarrow> mounted sys (api_handle q) \<and> (\<forall>part w. s_instances sys ! api_handle q = Some (part, w) \<longrightarrow>
     req_ok (wc_page_size (w_cfg w)) (w_flash_size w) (api_wl q))"

lemma check_mounted:
  assumes "sys_ok chip content up crc sys" "mounted sys h"
  shows "check_handle (int h) sys = Inr ESP_OK"
  using assms by (simp add: check_handle_def mounted_def sys_ok_def WL_INVALID_HANDLE_def)

lemma api_call_instance:
  assumes "sys_ok chip content up crc sys" "mounted sys (api_handle q)"
  shows "api_call chip crc q sys = call_instance chip (\<lambda>drv. wl_call drv crc (api_wl q)) (int (api_handle q)) sys"
  using check_mounted [OF assms]
  by (cases q) (auto simp: wl_read_def wl_write_def wl_erase_range_def call_instance_def wl_call_def bindR_def split: option.splits sum.splits prod.splits)

text \<open>A method that refines a step of the flat memory, on the instance of a handle.\<close>

lemma call_instance_ok:
  fixes sys :: "'c wl_system"
  assumes s: "sys_ok chip content up crc sys" and h: "h < MAX_WL_HANDLES" "s_instances sys ! h = Some (part, w)"
    and m: "\<exists>r w'. method (Partition_t chip part) (w\<lparr>w_flash := wls_chip sys\<rparr>) = Inr (r, w') \<and> R r v \<and>
      holds (\<lambda>f. slice part (content f)) (only_part part content up (content (wls_chip sys))) crc True (base w) v w'"
  shows "\<exists>r w'. call_instance chip method (int h) sys = Inr (r, sys\<lparr>wls_chip := w_flash w', s_instances := (s_instances sys)[h := Some (part, w')]\<rparr>) \<and>
    R r v \<and> base w' = base w \<and> ready content up crc (w_flash w') part w' \<and> vmem w' (slice part (content (w_flash w'))) = v \<and>
    only_part part content up (content (wls_chip sys)) (w_flash w')"
proof -
  from m obtain r w' where r: "method (Partition_t chip part) (w\<lparr>w_flash := wls_chip sys\<rparr>) = Inr (r, w')" "R r v"
    "holds (\<lambda>f. slice part (content f)) (only_part part content up (content (wls_chip sys))) crc True (base w) v w'" by (elim exE conjE)
  have rd: "ready content up crc (wls_chip sys) part w" using s h unfolding sys_ok_def by blast
  have b: "base w' = base w" using r(3) by (simp add: holds_def)
  then have "w_initialized w'" "w_configured w'" "laid_for part w'" using rd laid_base(2) [OF b] by (simp_all add: ready_def base_eq)
  note hr = holds_ready [OF r(3) this]
  show ?thesis using r(1,2) b hr h by (intro exI [of _ r] exI [of _ w']) (simp add: call_instance_def)
qed

lemma mounted_instance:
  assumes s: "sys_ok chip content up crc sys" and h: "mounted sys h"
  shows "\<exists>part w. h < MAX_WL_HANDLES \<and> s_instances sys ! h = Some (part, w) \<and> partition_on_chip chip content up part \<and> ready content up crc (wls_chip sys) part w \<and>
    storage content sys h = vmem w (slice part (content (wls_chip sys))) \<and>
    (\<forall>h' < MAX_WL_HANDLES. \<forall>p' w'. h' \<noteq> h \<longrightarrow> s_instances sys ! h' = Some (p', w') \<longrightarrow> part_range part \<inter> part_range p' = {})"
proof -
  obtain part w where i: "h < MAX_WL_HANDLES" "s_instances sys ! h = Some (part, w)" using h by (auto simp: mounted_def)
  then show ?thesis using s unfolding sys_ok_def by (intro exI [of _ part] exI [of _ w]) (auto simp: storage_def)
qed

lemma api_call_ok:
  fixes sys :: "'c wl_system"
  assumes s: "sys_ok chip content up crc sys" and q: "api_ok sys q" and c: "crc_words crc"
  shows "\<exists>bs v sys'. api_call chip crc q sys = Inr ((ESP_OK, bs), sys') \<and> flat_step (storages content sys (api_handle q)) (api_wl q) (ESP_OK, bs) v \<and>
    sys_ok chip content up crc sys' \<and> storages content sys' = (storages content sys)(api_handle q := v) \<and> (\<forall>q. api_ok sys' q = api_ok sys q)"
proof -
  let ?h = "api_handle q"
  have mh: "mounted sys ?h" using q by (simp add: api_ok_def)
  from mounted_instance [OF s mh] obtain part w where i: "?h < MAX_WL_HANDLES" "s_instances sys ! ?h = Some (part, w)" "partition_on_chip chip content up part"
    "ready content up crc (wls_chip sys) part w" "storage content sys ?h = vmem w (slice part (content (wls_chip sys)))"
    "\<forall>h' < MAX_WL_HANDLES. \<forall>p' w'. h' \<noteq> ?h \<longrightarrow> s_instances sys ! h' = Some (p', w') \<longrightarrow> part_range part \<inter> part_range p' = {}" by (elim exE conjE)
  let ?v = "vmem w (slice part (content (wls_chip sys)))"
  have st: "storages content sys ?h = ?v" using mh i(5) by (simp add: storages_def)
  have rq: "req_ok (wc_page_size (w_cfg w)) (w_flash_size w) (api_wl q)" using q i(2) by (simp add: api_ok_def)
  have "w_initialized w" using i(4) by (simp add: ready_def)
  then have ib: "fst (snd (base w))" by (simp add: base_def)
  from flash_driver.call_refines [OF partition_on_chip.isolated [OF i(3)] ready_holds [OF i(4)] ib, of "api_wl q"] c rq obtain r w1 v where
    m: "wl_call (Partition_t chip part) crc (api_wl q) (w\<lparr>w_flash := wls_chip sys\<rparr>) = Inr (r, w1)" "flat_step ?v (api_wl q) r v" "fst r = ESP_OK"
    "holds (\<lambda>f. slice part (content f)) (only_part part content up (content (wls_chip sys))) crc True (base w) v w1" by auto
  from call_instance_ok [OF s i(1,2), of "\<lambda>drv. wl_call drv crc (api_wl q)" "\<lambda>r v. flat_step ?v (api_wl q) r v \<and> fst r = ESP_OK" v] m
  obtain r w' where r: "call_instance chip (\<lambda>drv. wl_call drv crc (api_wl q)) (int ?h) sys =
      Inr (r, sys\<lparr>wls_chip := w_flash w', s_instances := (s_instances sys)[?h := Some (part, w')]\<rparr>)" "flat_step ?v (api_wl q) r v" "fst r = ESP_OK"
    "base w' = base w" "ready content up crc (w_flash w') part w'" "vmem w' (slice part (content (w_flash w'))) = v"
    "only_part part content up (content (wls_chip sys)) (w_flash w')" by auto
  let ?s = "sys\<lparr>wls_chip := w_flash w', s_instances := (s_instances sys)[?h := Some (part, w')]\<rparr>"
  note iu = instance_update [OF s i(1,3,6) r(5,7)]
  have sts: "storages content ?s = (storages content sys)(?h := v)"
  proof
    fix h'
    have "mounted sys h' \<Longrightarrow> h' < MAX_WL_HANDLES" by (simp add: mounted_def)
    then show "storages content ?s h' = ((storages content sys)(?h := v)) h'"
      using iu(2,5) r(6) iu(3,4) [of h'] by (cases "h' = ?h") (simp_all add: storages_def)
  qed
  have ok: "api_ok ?s q' = api_ok sys q'" for q'
    using iu(4,5) mh i(1,2) r(4) s by (cases "api_handle q' = ?h") (auto simp: api_ok_def base_eq sys_ok_def)
  have "r = (ESP_OK, snd r)" using r(3) by (cases r) simp
  then show ?thesis using api_call_instance [OF s mh] r(1,2) st iu(1) sts ok
    by (intro exI [of _ "snd r"] exI [of _ v] exI [of _ ?s]) simp
qed

lemma api_calls_ok:
  fixes sys :: "'c wl_system"
  assumes "sys_ok chip content up crc sys" "\<forall>q \<in> set qs. api_ok sys q" and c: "crc_words crc"
  shows "\<exists>rs sys'. api_calls chip crc qs sys = Inr (rs, sys') \<and> flat_system (storages content sys) qs rs (storages content sys') \<and> sys_ok chip content up crc sys'"
  using assms(1,2)
proof (induction qs arbitrary: sys)
  case Nil
  then show ?case by (auto intro: flat_system_nil)
next
  case (Cons q qs)
  have "api_ok sys q" using Cons.prems(2) by simp
  from api_call_ok [OF Cons.prems(1) this c] obtain bs v sys1 where 1: "api_call chip crc q sys = Inr ((ESP_OK, bs), sys1)"
    "flat_step (storages content sys (api_handle q)) (api_wl q) (ESP_OK, bs) v" "sys_ok chip content up crc sys1"
    "storages content sys1 = (storages content sys)(api_handle q := v)" "\<forall>q. api_ok sys1 q = api_ok sys q" by (elim exE conjE)
  from Cons.IH [OF 1(3)] Cons.prems(2) 1(5) obtain rs sys2 where 2: "api_calls chip crc qs sys1 = Inr (rs, sys2)"
    "flat_system (storages content sys1) qs rs (storages content sys2)" "sys_ok chip content up crc sys2" by auto
  show ?case using 1(1) 2 flat_system_cons [of "storages content sys" q bs v qs rs "storages content sys2"] 1(2,4)
    by (intro exI [of _ "(ESP_OK, bs) # rs"] exI [of _ sys2]) simp
qed

end
