(* ===== verification/WL_Remount.thy ===== *)
theory WL_Remount
  imports WL_System
begin

text \<open>
  Mounting and unmounting. A partition without a state gets a new one, and what a partition held when it
  was unmounted it holds when it is mounted again.
\<close>

section \<open>The environment\<close>

text \<open>The allocations succeed with the size they are for, and the random number is a word.\<close>

definition env_ok :: "'c mount_env \<Rightarrow> bool" where
  "env_ok env \<longleftrightarrow> me_partition env \<and> me_wl_flash env \<noteq> None \<and> me_malloc env 32 \<noteq> None \<and> (\<forall>k bs. me_malloc env k = Some bs \<longrightarrow> length bs = k) \<and>
     me_random env < 2 ^ 32 \<and> length (me_padding env) = 12"

text \<open>The partition is on the chip, has a size that is accepted, and is not in use.\<close>

definition mountable :: "'c esp_flash_t \<Rightarrow> ('c \<Rightarrow> mem) \<Rightarrow> ('c \<Rightarrow> bool) \<Rightarrow> esp_partition_t \<Rightarrow> nat \<Rightarrow> 'c wl_system \<Rightarrow> bool" where
  "mountable chip content up part k sys \<longleftrightarrow> partition_on_chip chip content up part \<and> pt_address part + pt_size part \<le> length (content (wls_chip sys)) \<and>
     pt_size part = k * 4096 \<and> 5 \<le> k \<and> k < 2 ^ 20 \<and> (k - 2 - 2 * state_sectors k) * 4096 < 2 ^ 31 \<and>
     (\<forall>h < MAX_WL_HANDLES. \<forall>p w. s_instances sys ! h = Some (p, w) \<longrightarrow> part_range part \<inter> part_range p = {})"

lemma free_handle_bound: "free_handle i xs = Some h \<Longrightarrow> i \<le> h \<and> h < i + length xs \<and> xs ! (h - i) = None"
  by (induction i xs rule: free_handle.induct) (auto simp: nth_Cons')

lemma config_bytes_length: "laid_out k w \<Longrightarrow> length (wc_padding (w_cfg w)) = 12 \<Longrightarrow> length (config_bytes (w_cfg w)) = 48"
  by (simp add: config_bytes_def)

lemma mount_object:
  fixes sys :: "'c wl_system"
  assumes e: "env_ok env" and m: "mountable chip content up part k sys" and c: "crc_words crc" and up: "up (wls_chip sys)" and w: "me_wl_flash env = Some w"
  shows "\<exists>n. WL_config crc (me_malloc env) (wl_mount_cfg (me_crc env) (me_padding env) part) (w\<lparr>w_flash := wls_chip sys\<rparr>) = Inr (ESP_OK, n) \<and>
    w_flash n = wls_chip sys \<and> w_configured n \<and> laid_out k n \<and> cfg_ok n \<and> fits n (slice part (content (wls_chip sys)))"
proof -
  have p: "pt_size part = k * 4096" "5 \<le> k" "k < 2 ^ 20" "(k - 2 - 2 * state_sectors k) * 4096 < 2 ^ 31" "pt_address part + pt_size part \<le> length (content (wls_chip sys))"
    using m by (simp_all add: mountable_def)
  have "length bs = i" if "me_malloc env i = Some bs" for i bs using e that by (simp add: env_ok_def)
  from mount_config [OF p(1,3), of "me_malloc env" crc "me_crc env" "me_padding env" "w\<lparr>w_flash := wls_chip sys\<rparr>"] this e p obtain n where
    n: "WL_config crc (me_malloc env) (wl_mount_cfg (me_crc env) (me_padding env) part) (w\<lparr>w_flash := wls_chip sys\<rparr>) = Inr (ESP_OK, n)"
    "w_flash n = wls_chip sys" "w_configured n" "laid_out k n" "wl_sizes n" "w_addr_cfg n + w_cfg_size n = k * 4096" by (auto simp: env_ok_def)
  have "wc_padding (w_cfg n) = me_padding env"
    using n(1) unfolding mount_config_eq [OF p(1,3)] by (auto simp: config_result_def wl_mount_cfg_def split: if_splits option.splits)
  then have "length (config_bytes (w_cfg n)) = 48" using e config_bytes_length [OF n(4)] by (simp add: env_ok_def)
  then have "cfg_ok n" using n(4,5) by (simp add: cfg_ok_def laid_out_def)
  moreover have "fits n (slice part (content (wls_chip sys)))" using n(6) p(1,5) by (simp add: fits_def length_slice)
  ultimately show ?thesis using n by blast
qed

text \<open>After the object was started.\<close>

lemma mount_done:
  fixes sys :: "'c wl_system"
  assumes s: "sys_ok chip content up crc sys" and e: "env_ok env" and m: "mountable chip content up part k sys" and c: "crc_words crc"
    and h: "free_handle 0 (s_instances sys) = Some h"
    and init: "\<And>n. w_flash n = wls_chip sys \<Longrightarrow> w_configured n \<Longrightarrow> laid_out k n \<Longrightarrow> cfg_ok n \<Longrightarrow> fits n (slice part (content (wls_chip sys))) \<Longrightarrow>
      \<exists>w. WL_init (Partition_t chip part) crc (me_random env) n = Inr (ESP_OK, w) \<and> base w = base (n\<lparr>w_initialized := True\<rparr>) \<and> R (vmem w (slice part (content (w_flash w)))) \<and>
        holds (\<lambda>f. slice part (content f)) (only_part part content up (content (wls_chip sys))) crc True (base w) (vmem w (slice part (content (w_flash w)))) w"
  shows "\<exists>sys'. wl_mount chip crc env part sys = Inr (ESP_OK, int h, sys') \<and> sys_ok chip content up crc sys' \<and> mounted sys' h \<and> \<not> mounted sys h \<and>
    R (storage content sys' h) \<and> wl_size (int h) sys' = Inr ((k - 2 - 2 * state_sectors k) * 4096) \<and>
    length (storage content sys' h) = (k - 2 - 2 * state_sectors k) * 4096 \<and>
    (\<forall>h' < MAX_WL_HANDLES. h' \<noteq> h \<longrightarrow> storage content sys' h' = storage content sys h' \<and> mounted sys' h' = mounted sys h')"
proof -
  have up: "up (wls_chip sys)" and len: "length (s_instances sys) = MAX_WL_HANDLES" using s by (simp_all add: sys_ok_def)
  obtain w0 where w0: "me_wl_flash env = Some w0" using e by (auto simp: env_ok_def)
  from mount_object [OF e m c up w0] obtain n where n: "WL_config crc (me_malloc env) (wl_mount_cfg (me_crc env) (me_padding env) part) (w0\<lparr>w_flash := wls_chip sys\<rparr>) = Inr (ESP_OK, n)"
    "w_flash n = wls_chip sys" "w_configured n" "laid_out k n" "cfg_ok n" "fits n (slice part (content (wls_chip sys)))" by (elim exE conjE)
  from init [OF n(2-6)] obtain w where w: "WL_init (Partition_t chip part) crc (me_random env) n = Inr (ESP_OK, w)" "base w = base (n\<lparr>w_initialized := True\<rparr>)"
    "R (vmem w (slice part (content (w_flash w))))"
    "holds (\<lambda>f. slice part (content f)) (only_part part content up (content (wls_chip sys))) crc True (base w) (vmem w (slice part (content (w_flash w)))) w" by (elim exE conjE)
  have lo: "laid_out k w" "w_initialized w" "w_configured w" using n(3,4) w(2) laid_base(1) [OF w(2)] by (simp_all add: base_eq laid_out_def)
  then have lf: "laid_for part w" using m unfolding laid_for_def mountable_def by blast
  note hr = holds_ready [OF w(4) lo(2,3) lf]
  have hb: "h < MAX_WL_HANDLES" "s_instances sys ! h = None" using free_handle_bound [OF h] len by simp_all
  have pt: "partition_on_chip chip content up part"
    "\<forall>h' < MAX_WL_HANDLES. \<forall>p' w'. h' \<noteq> h \<longrightarrow> s_instances sys ! h' = Some (p', w') \<longrightarrow> part_range part \<inter> part_range p' = {}"
    using m unfolding mountable_def by blast+
  let ?s = "sys\<lparr>wls_chip := w_flash w, s_instances := (s_instances sys)[h := Some (part, w)]\<rparr>"
  note iu = instance_update [OF s hb(1) pt hr(1,3)]
  have eq: "wl_mount chip crc env part sys = Inr (ESP_OK, int h, ?s)" using h e w0 n(1) w(1) by (simp add: wl_mount_def env_ok_def)
  have sz: "w_flash_size w = (k - 2 - 2 * state_sectors k) * 4096" using lo(1) by (simp add: laid_out_def)
  have "wl_size (int h) ?s = Inr (w_flash_size w)"
    using check_mounted [OF iu(1,5)] hb len lo(3) by (simp add: wl_size_def WL_chip_size_def)
  then show ?thesis using eq iu w(3) hb sz by (intro exI [of _ ?s]) (simp add: mounted_def)
qed

lemma mount_fresh:
  fixes sys :: "'c wl_system"
  assumes s: "sys_ok chip content up crc sys" and e: "env_ok env" and m: "mountable chip content up part k sys" and c: "crc_words crc"
    and h: "free_handle 0 (s_instances sys) = Some h"
    and u: "unformatted crc ((k - 1 - 2 * state_sectors k) * 4096) ((k - 1 - state_sectors k) * 4096) (slice part (content (wls_chip sys)))"
  shows "\<exists>sys'. wl_mount chip crc env part sys = Inr (ESP_OK, int h, sys') \<and> sys_ok chip content up crc sys' \<and> mounted sys' h \<and> \<not> mounted sys h \<and>
    True \<and> wl_size (int h) sys' = Inr ((k - 2 - 2 * state_sectors k) * 4096) \<and>
    length (storage content sys' h) = (k - 2 - 2 * state_sectors k) * 4096 \<and>
    (\<forall>h' < MAX_WL_HANDLES. h' \<noteq> h \<longrightarrow> storage content sys' h' = storage content sys h' \<and> mounted sys' h' = mounted sys h')"
proof (rule mount_done [OF s e m c h])
  fix n :: "'c wl_flash"
  assume n: "w_flash n = wls_chip sys" "w_configured n" "laid_out k n" "cfg_ok n" "fits n (slice part (content (wls_chip sys)))"
  have pc: "partition_on_chip chip content up part" using m by (simp add: mountable_def)
  have up: "only_part part content up (content (wls_chip sys)) (w_flash n)"
    using s m n(1) by (simp add: only_part_def partition_up_def sys_ok_def mountable_def mem_agree_def)
  have "me_random env < 2 ^ 32" using e by (simp add: env_ok_def)
  moreover have "unformatted crc (w_addr_state1 n) (w_addr_state2 n) (slice part (content (w_flash n)))" using u n(1,3) by (simp add: laid_out_def)
  ultimately show "\<exists>w. WL_init (Partition_t chip part) crc (me_random env) n = Inr (ESP_OK, w) \<and> base w = base (n\<lparr>w_initialized := True\<rparr>) \<and> True \<and>
      holds (\<lambda>f. slice part (content f)) (only_part part content up (content (wls_chip sys))) crc True (base w) (vmem w (slice part (content (w_flash w)))) w"
    using flash_driver.init_fresh [OF partition_on_chip.isolated [OF pc] n(2,4) _ up c] n(1,5) by auto
qed

section \<open>Unmounting\<close>

text \<open>The flash holds \<open>v\<close> as the storage of a partition.\<close>

definition kept :: "('c \<Rightarrow> mem) \<Rightarrow> (byte list \<Rightarrow> nat) \<Rightarrow> 'c \<Rightarrow> esp_partition_t \<Rightarrow> mem \<Rightarrow> bool" where
  "kept content crc c part v \<longleftrightarrow> (\<exists>w :: 'c wl_flash. w_initialized w \<and> w_configured w \<and> laid_for part w \<and> wl_geom w \<and>
     fits w (slice part (content c)) \<and> stored crc w (slice part (content c)) \<and> vmem w (slice part (content c)) = v)"

lemma sys_ok_sub:
  assumes s: "sys_ok chip content up crc sys" and c: "wls_chip sys' = wls_chip sys" "length (s_instances sys') = MAX_WL_HANDLES"
    and i: "\<And>j x. s_instances sys' ! j = Some x \<Longrightarrow> j < MAX_WL_HANDLES \<Longrightarrow> s_instances sys ! j = Some x"
  shows "sys_ok chip content up crc sys'"
proof -
  have 1: "partition_on_chip chip content up p \<and> ready content up crc (wls_chip sys') p w" if "h < MAX_WL_HANDLES" "s_instances sys' ! h = Some (p, w)" for h p w
    using s i [OF that(2,1)] that(1) unfolding sys_ok_def c by blast
  have 2: "part_range p \<inter> part_range p' = {}" if "h < MAX_WL_HANDLES" "h' < MAX_WL_HANDLES" "h \<noteq> h'" "s_instances sys' ! h = Some (p, w)" "s_instances sys' ! h' = Some (p', w')" for h h' p p' w w'
    using s i [OF that(4,1)] i [OF that(5,2)] that(1-3) unfolding sys_ok_def by blast
  have "up (wls_chip sys')" using s c by (simp add: sys_ok_def)
  then show ?thesis using c(2) 1 2 unfolding sys_ok_def by (intro conjI allI impI) (assumption | blast)+
qed

lemma unmount_ok:
  fixes sys :: "'c wl_system"
  assumes s: "sys_ok chip content up crc sys" and c: "crc_words crc" and h: "mounted sys h" and i: "s_instances sys ! h = Some (part, w)"
  shows "\<exists>sys'. wl_unmount chip crc (int h) sys = Inr (ESP_OK, sys') \<and> sys_ok chip content up crc sys' \<and> kept content crc (wls_chip sys') part (storage content sys h) \<and>
    length (content (wls_chip sys')) = length (content (wls_chip sys)) \<and> s_instances sys' = (s_instances sys)[h := None] \<and>
    (\<forall>h' < MAX_WL_HANDLES. h' \<noteq> h \<longrightarrow> storage content sys' h' = storage content sys h')"
proof -
  from mounted_instance [OF s h] i have m: "h < MAX_WL_HANDLES" "partition_on_chip chip content up part" "ready content up crc (wls_chip sys) part w"
    "storage content sys h = vmem w (slice part (content (wls_chip sys)))"
    "\<forall>h' < MAX_WL_HANDLES. \<forall>p' w'. h' \<noteq> h \<longrightarrow> s_instances sys ! h' = Some (p', w') \<longrightarrow> part_range part \<inter> part_range p' = {}" by auto
  let ?v = "vmem w (slice part (content (wls_chip sys)))"
  from flash_driver.flush_refines [OF partition_on_chip.isolated [OF m(2)] ready_holds [OF m(3)]] c obtain r w1 v where
    f: "WL_flush (Partition_t chip part) crc (w\<lparr>w_flash := wls_chip sys\<rparr>) = Inr (r, w1)" "flat_step ?v Req_flush (r, []) v" "r = ESP_OK"
    "holds (\<lambda>f. slice part (content f)) (only_part part content up (content (wls_chip sys))) crc True (base w) v w1" by auto
  have "v = ?v" using f(2) by (cases rule: flat_step.cases) auto
  with call_instance_ok [OF s m(1) i, of "\<lambda>drv. WL_flush drv crc" "\<lambda>r v. r = ESP_OK" ?v] f obtain w' where
    r: "call_instance chip (\<lambda>drv. WL_flush drv crc) (int h) sys = Inr (ESP_OK, sys\<lparr>wls_chip := w_flash w', s_instances := (s_instances sys)[h := Some (part, w')]\<rparr>)"
    "base w' = base w" "ready content up crc (w_flash w') part w'" "vmem w' (slice part (content (w_flash w'))) = ?v"
    "only_part part content up (content (wls_chip sys)) (w_flash w')" by auto
  let ?s = "sys\<lparr>wls_chip := w_flash w', s_instances := (s_instances sys)[h := Some (part, w')]\<rparr>" let ?t = "?s\<lparr>s_instances := (s_instances ?s)[h := None]\<rparr>"
  note iu = instance_update [OF s m(1,2,5) r(3,5)]
  have len: "length (s_instances sys) = MAX_WL_HANDLES" using s by (simp add: sys_ok_def)
  have t: "s_instances ?t ! j = (if j = h then None else s_instances ?s ! j)" if "j < MAX_WL_HANDLES" for j using that len by (simp add: nth_list_update)
  have sub: "s_instances ?t ! j = Some x \<Longrightarrow> j < MAX_WL_HANDLES \<Longrightarrow> s_instances ?s ! j = Some x" for j x using t [of j] by (simp split: if_splits)
  have "sys_ok chip content up crc ?t" by (rule sys_ok_sub [OF iu(1)]) (use sub len in simp_all)
  moreover have "wl_unmount chip crc (int h) sys = Inr (ESP_OK, ?t)" using check_mounted [OF s h] r(1) by (simp add: wl_unmount_def)
  moreover have "kept content crc (wls_chip ?t) part (storage content sys h)"
    unfolding kept_def m(4) using r(3,4) by (intro exI [of _ w']) (simp add: ready_def)
  moreover have "length (content (wls_chip ?t)) = length (content (wls_chip sys))" using r(5) by (simp add: only_part_def mem_agree_def)
  moreover have "storage content ?t h' = storage content sys h'" if "h' < MAX_WL_HANDLES" "h' \<noteq> h" for h'
    using iu(3) [OF that(2,1)] t [OF that(1)] that(2) by (auto simp: storage_def split: option.splits)
  ultimately show ?thesis by (intro exI [of _ ?t]) simp
qed

lemma recfg:
  assumes "laid_out k w" "laid_out k n" "w_configured w" "w_initialized w" "w_configured n"
  defines "v \<equiv> w\<lparr>w_cfg := w_cfg n\<rparr>"
  shows "like v n" "wl_geom v = wl_geom w" "fits v m = fits w m" "stored crc v m = stored crc w m" "vmem v m = vmem w m"
proof -
  have e: "wc_start_addr (w_cfg n) = wc_start_addr (w_cfg w)" "wc_page_size (w_cfg n) = wc_page_size (w_cfg w)" "wc_sector_size (w_cfg n) = wc_sector_size (w_cfg w)"
    "wc_wr_size (w_cfg n) = wc_wr_size (w_cfg w)" "wc_temp_buff_size (w_cfg n) = wc_temp_buff_size (w_cfg w)" "wc_version (w_cfg n) = wc_version (w_cfg w)"
    using assms(1,2) by (simp_all add: laid_out_def)
  show "like v n" using assms(1-5) by (simp add: like_def base_eq v_def laid_out_def)
  show "wl_geom v = wl_geom w" by (simp add: v_def wl_geom_def wl_sizes_def wl_pos_ok_def n_blocks_def Let_def e)
  show "fits v m = fits w m" by (simp add: v_def fits_def)
  show "stored crc v m = stored crc w m" by (simp add: v_def stored_def header_ok_def rec_bytes_def record_addr_def e)
  have "calcAddr i v = calcAddr i w" for i by (simp add: calcAddr_def v_def Let_def e)
  then show "vmem v m = vmem w m" by (simp add: vmem_def v_def e)
qed

lemma mount_kept:
  fixes sys :: "'c wl_system"
  assumes s: "sys_ok chip content up crc sys" and e: "env_ok env" and m: "mountable chip content up part k sys" and c: "crc_words crc"
    and h: "free_handle 0 (s_instances sys) = Some h" and kp: "kept content crc (wls_chip sys) part v"
  shows "\<exists>sys'. wl_mount chip crc env part sys = Inr (ESP_OK, int h, sys') \<and> sys_ok chip content up crc sys' \<and> mounted sys' h \<and> \<not> mounted sys h \<and>
    storage content sys' h = v \<and> wl_size (int h) sys' = Inr ((k - 2 - 2 * state_sectors k) * 4096) \<and>
    length (storage content sys' h) = (k - 2 - 2 * state_sectors k) * 4096 \<and>
    (\<forall>h' < MAX_WL_HANDLES. h' \<noteq> h \<longrightarrow> storage content sys' h' = storage content sys h' \<and> mounted sys' h' = mounted sys h')"
proof (rule mount_done [OF s e m c h])
  fix n :: "'c wl_flash"
  assume n: "w_flash n = wls_chip sys" "w_configured n" "laid_out k n" "cfg_ok n" "fits n (slice part (content (wls_chip sys)))"
  have pc: "partition_on_chip chip content up part" using m by (simp add: mountable_def)
  from kp obtain w :: "'c wl_flash" where w: "w_initialized w" "w_configured w" "laid_for part w" "wl_geom w"
     "fits w (slice part (content (wls_chip sys)))" "stored crc w (slice part (content (wls_chip sys)))" "vmem w (slice part (content (wls_chip sys))) = v"
    unfolding kept_def by (elim exE conjE)
  have lo: "laid_out k w" using w(3) m by (auto simp: laid_for_def mountable_def)
  have up: "only_part part content up (content (wls_chip sys)) (w_flash n)"
    using s m n(1) by (simp add: only_part_def partition_up_def sys_ok_def mountable_def mem_agree_def)
  let ?w = "w\<lparr>w_cfg := w_cfg n\<rparr>"
  note rc = recfg [OF lo n(3) w(2,1) n(2)]
  have g: "wl_geom ?w" using rc(2) w(4) by simp
  from flash_driver.remount_stored [OF partition_on_chip.isolated [OF pc] rc(1) g up _ _ c, of "me_random env"] rc(3-5) w(5-7) n(1) obtain w' where
    w': "WL_init (Partition_t chip part) crc (me_random env) n = Inr (ESP_OK, w')"
    "holds (\<lambda>f. slice part (content f)) (only_part part content up (content (wls_chip sys))) crc True (base ?w) v w'" by auto
  have b: "base w' = base ?w" "vmem w' (slice part (content (w_flash w'))) = v" using w'(2) by (simp_all add: holds_def)
  show "\<exists>w. WL_init (Partition_t chip part) crc (me_random env) n = Inr (ESP_OK, w) \<and> base w = base (n\<lparr>w_initialized := True\<rparr>) \<and>
      vmem w (slice part (content (w_flash w))) = v \<and>
      holds (\<lambda>f. slice part (content f)) (only_part part content up (content (wls_chip sys))) crc True (base w) (vmem w (slice part (content (w_flash w)))) w"
    using w' b rc(1) by (intro exI [of _ w']) (simp add: like_def)
qed

lemma free_after: "h < length xs \<Longrightarrow> \<exists>h'. free_handle i (xs[h := None]) = Some h'"
proof (induction xs arbitrary: i h)
  case (Cons x xs)
  show ?case
  proof (cases h)
    case (Suc j)
    then show ?thesis using Cons.IH [of j] Cons.prems by (cases x) auto
  qed simp
qed simp

lemma ready_mountable:
  assumes s: "sys_ok chip content up crc sys" and h: "mounted sys h" and i: "s_instances sys ! h = Some (part, w)"
  shows "\<exists>k. mountable chip content up part k (sys\<lparr>wls_chip := c, s_instances := (s_instances sys)[h := None]\<rparr>) \<or> length (content c) \<noteq> length (content (wls_chip sys))"
proof -
  from mounted_instance [OF s h] i have m: "h < MAX_WL_HANDLES" "partition_on_chip chip content up part" "ready content up crc (wls_chip sys) part w"
    "\<forall>h' < MAX_WL_HANDLES. \<forall>p' w'. h' \<noteq> h \<longrightarrow> s_instances sys ! h' = Some (p', w') \<longrightarrow> part_range part \<inter> part_range p' = {}" by auto
  from m(3) obtain k where k: "pt_size part = k * 4096" "5 \<le> k" "k < 2 ^ 20" "laid_out k w" by (auto simp: ready_def laid_for_def)
  have "w_flash_size w < 2 ^ 31" using m(3) by (simp add: ready_def wl_geom_def wl_sizes_def Let_def)
  then have "(k - 2 - 2 * state_sectors k) * 4096 < 2 ^ 31" using k(4) by (simp add: laid_out_def)
  moreover have "pt_address part + pt_size part \<le> length (content (wls_chip sys))" using m(3) by (simp add: ready_def partition_up_def)
  moreover have "part_range part \<inter> part_range p' = {}" if "h' < MAX_WL_HANDLES" "(s_instances sys)[h := None] ! h' = Some (p', w')" for h' p' w'
    using m(4) that s by (cases "h' = h") (auto simp: sys_ok_def nth_list_update)
  ultimately show ?thesis using m(2) k(1-3) by (intro exI [of _ k]) (auto simp: mountable_def)
qed

end
