(* ===== verification/WL_Flaws.thy ===== *)
theory WL_Flaws
  imports WL_Remount
begin

text \<open>
  Where the wear levelling does not do what it should: the recovery of the first state, accesses beyond
  the end of the storage, and accesses that cross the end of a page.
\<close>

section \<open>Recovery of the first state\<close>

lemma rec_ok_unique:
  assumes "crc_words crc" "rec_ok crc d i bs" "rec_ok crc d' i bs" "d < 2 ^ 32" "d' < 2 ^ 32"
  shows "d = d'"
proof -
  have "crc (le32 (uadd d (uadd (umul i 4) 0))) = crc (le32 (uadd d' (uadd (umul i 4) 0)))" using assms(2,3) by (simp add: rec_ok_def ok_word_def)
  then have "le32 (uadd d (uadd (umul i 4) 0)) = le32 (uadd d' (uadd (umul i 4) 0))" using assms(1) by (auto simp: crc_words_def inj_on_def)
  then have "uadd d (uadd (umul i 4) 0) = uadd d' (uadd (umul i 4) 0)" by (rule le32_inj) (simp_all add: uadd_def)
  then have "(d + uadd (umul i 4) 0) mod 2 ^ 32 = (d' + uadd (umul i 4) 0) mod 2 ^ 32" by (simp add: uadd_def)
  then have "(uadd (umul i 4) 0 + d) mod 2 ^ 32 = (uadd (umul i 4) 0 + d') mod 2 ^ 32" by (simp add: add.commute)
  then show ?thesis by (rule rot_inj) (use assms(4,5) in simp_all)
qed

context flash_driver begin

text \<open>The loop copies no record when the records are not for the device of the state in memory.\<close>

lemma copy_none:
  fixes w0 :: "'f wl_flash"
  assumes z: "wl_sizes w0" and a: "at content up True w0 m w"
    and no: "\<forall>i \<in> set is. \<not> rec_ok crc (ws_device_id (w_state w0)) i (rec_bytes src i w0 m) \<and> record_addr src i w0 + wc_wr_size (w_cfg w0) \<le> length m"
  shows "\<exists>w'. copy_records drv crc src dst (is @ js) w = copy_records drv crc src dst js w' \<and> at content up True w0 m w'"
  using a no
proof (induction "is" arbitrary: w)
  case Nil
  then show ?case by auto
next
  case (Cons i "is")
  let ?a = "record_addr src i w0" and ?n = "wc_wr_size (w_cfg w0)"
  note st = sizes_temp [OF z]
  have e: "record_addr src i w = ?a" "w_cfg w = w_cfg w0" "length (w_temp_buff w) = length (w_temp_buff w0)"
    using Cons.prems(1) by (simp_all add: at_def base_eq record_addr_def)
  have l: "?a + ?n \<le> length m" using Cons.prems(2) by simp
  then obtain f' where d: "fa_read drv ?a ?n (w_flash w) = (ESP_OK, mem_read ?a ?n m, f')" "up f'"
    using read_up [of "w_flash w" ?a ?n] Cons.prems(1) by (auto simp: at_def)
  let ?w = "w\<lparr>w_flash := f', w_temp_buff := mem_read ?a ?n m @ drop ?n (w_temp_buff w)\<rparr>"
  have "length (w_temp_buff ?w) = length (w_temp_buff w)" using l st(2) e by simp
  then have at: "at content up True w0 m ?w" using Cons.prems(1) d read_keeps [OF d(1)] by (simp add: at_def)
  have "OkBuffSet crc i ?w = Inr (rec_ok crc (ws_device_id (w_state w0)) i (rec_bytes src i w0 m))"
    using Cons.prems(1) l st(1,2) e(3) by (subst OkBuffSet_rec) (simp_all add: rec_ok_append rec_bytes_def at_def)
  then have "copy_records drv crc src dst ((i # is) @ js) w = copy_records drv crc src dst (is @ js) ?w"
    using d(1) e l Cons.prems(2) by (simp add: check_def drv_read_temp_def read_into_full)
  then show ?case using Cons.IH [OF at] Cons.prems(2) by auto
qed

text \<open>The start of the recovery: the first state gets the header of the second.\<close>

lemma recover_write:
  fixes w :: "'f wl_flash"
  assumes z: "wl_sizes w" and f: "fits w (content (w_flash w))" and up: "up (w_flash w)" and s: "bounded s"
  shows "\<exists>w'. copy_state drv crc (w_addr_state2 w) (w_addr_state1 w) s w = copy_records drv crc (w_addr_state2 w) (w_addr_state1 w) (record_indices w) w' \<and>
    at content up True w (stamped (w_addr_state1 w) (w_state_size w) (state_bytes s) (content (w_flash w))) w'"
proof -
  let ?a = "w_addr_state1 w" and ?n = "w_state_size w" and ?m = "content (w_flash w)"
  note st = sizes_temp [OF z]
  have l: "?a + ?n \<le> length ?m" using st(4,6) f by (simp add: fits_def)
  have b: "length (state_bytes s) = sizeof_state" using s by (intro length_state_bytes) (simp add: bounded_def)
  have al: "?a mod SPI_FLASH_SEC_SIZE = 0" "?n mod SPI_FLASH_SEC_SIZE = 0" using z by (simp_all add: wl_sizes_def Let_def mod_eq_0_iff_dvd)
  from erase_up [OF up l al] obtain f1 where f1: "fa_erase_range drv ?a ?n (w_flash w) = (ESP_OK, f1)" "up f1" by blast
  have c1: "content f1 = nor_erase ?a ?n ?m" using erase_ok [OF f1(1)] by simp
  have l1: "?a + length (state_bytes s) \<le> length (content f1)" using l b st(5) by (simp add: c1)
  from write_up [OF f1(2) this] obtain f2 where f2: "fa_write drv ?a (state_bytes s) f1 = (ESP_OK, f2)" "up f2" by blast
  have c2: "content f2 = stamped ?a ?n (state_bytes s) ?m" using write_ok [OF f2(1)] nor_stamped [OF l, of "state_bytes s"] b st(5) by (simp add: c1)
  show ?thesis using f1(1) f2 c2
    by (intro exI [of _ "w\<lparr>w_flash := f2\<rparr>"]) (simp add: copy_state_def check_def drv_erase_range_def drv_write_def at_def record_indices_def)
qed

end

text \<open>The header of the first state in the flash.\<close>

definition first_header :: "'f wl_flash \<Rightarrow> mem \<Rightarrow> wl_state" where
  "first_header w m = state_of_bytes (mem_read (w_addr_state1 w) sizeof_state m)"

text \<open>
  The second state is whole, with all its position records, and the header of the first is not: the
  power failed when the first was being replaced at the end of a round. No other place that is taken for
  a record has one for the device of the header that was lost.
\<close>

definition first_lost :: "(byte list \<Rightarrow> nat) \<Rightarrow> 'f wl_flash \<Rightarrow> wl_state \<Rightarrow> mem \<Rightarrow> bool" where
  "first_lost crc w h m \<longleftrightarrow> bounded h \<and> state_crc crc h = ws_crc h \<and> ws_version h = wc_version (w_cfg w) \<and> ws_max_pos h = n_blocks w + 1 \<and>
     mem_read (w_addr_state2 w) sizeof_state m = state_bytes h \<and>
     state_crc crc (first_header w m) \<noteq> ws_crc (first_header w m) \<and> ws_device_id (first_header w m) \<noteq> ws_device_id h \<and>
     (\<forall>i \<le> n_blocks w. rec_ok crc (ws_device_id h) i (rec_bytes (w_addr_state2 w) i w m)) \<and>
     (\<forall>i. n_blocks w < i \<longrightarrow> record_addr (w_addr_state2 w) i w + wc_wr_size (w_cfg w) \<le> length m \<longrightarrow>
        \<not> rec_ok crc (ws_device_id (first_header w m)) i (rec_bytes (w_addr_state2 w) i w m))"

lemma le32_dec_bound: "le32_dec bs < 2 ^ 32"
proof -
  have "unat (bs ! i) \<le> 255" for i using unsigned_less [of "bs ! i", where 'a = nat] by simp
  from this [of 0] this [of 1] this [of 2] this [of 3] show ?thesis by (simp add: le32_dec_def)
qed

lemma lost_records:
  assumes "first_lost crc w h m" "crc_words crc" "record_addr (w_addr_state2 w) i w + wc_wr_size (w_cfg w) \<le> length m"
  shows "\<not> rec_ok crc (ws_device_id (first_header w m)) i (rec_bytes (w_addr_state2 w) i w m)"
proof (cases "i \<le> n_blocks w")
  case True
  have "ws_device_id h < 2 ^ 32" using assms(1) by (simp add: first_lost_def bounded_def)
  moreover have "ws_device_id (first_header w m) < 2 ^ 32" by (simp only: first_header_def state_of_bytes_def wl_state.simps word_at_def) (rule le32_dec_bound)
  ultimately show ?thesis using rec_ok_unique [OF assms(2)] assms(1) True unfolding first_lost_def by blast
next
  case False
  then show ?thesis using assms(1,3) by (simp add: first_lost_def)
qed

lemma stamped_second:
  assumes "wl_sizes w" "fits w m" "bounded h"
  defines "m' \<equiv> stamped (w_addr_state1 w) (w_state_size w) (state_bytes h) m"
  shows "length m' = length m" "w_addr_state2 w \<le> p \<Longrightarrow> p + k \<le> length m \<Longrightarrow> mem_read p k m' = mem_read p k m"
    "mem_read (w_addr_state1 w) sizeof_state m' = state_bytes h"
    "rec_bytes (w_addr_state1 w) 0 w m' = replicate (wc_wr_size (w_cfg w)) 255"
proof -
  note st = sizes_temp [OF assms(1)]
  have l: "w_addr_state1 w + w_state_size w \<le> length m" "length (state_bytes h) = sizeof_state" "length (state_bytes h) \<le> w_state_size w"
    using st(4-6) assms(2,3) length_state_bytes [of h] by (simp_all add: fits_def bounded_def)
  note sr = stamped_read [OF l(1,3)]
  show "length m' = length m" using sr(4) by (simp add: m'_def)
  show "w_addr_state2 w \<le> p \<Longrightarrow> p + k \<le> length m \<Longrightarrow> mem_read p k m' = mem_read p k m" using sr(3) st(6) by (simp add: m'_def)
  show "mem_read (w_addr_state1 w) sizeof_state m' = state_bytes h" using sr(1) l(2) by (simp add: m'_def)
  have "sizeof_state + (n_blocks w + 1) * wc_wr_size (w_cfg w) \<le> w_state_size w" using assms(1) by (simp add: wl_sizes_def Let_def n_blocks_def)
  then show "rec_bytes (w_addr_state1 w) 0 w m' = replicate (wc_wr_size (w_cfg w)) 255"
    using sr(2) [of sizeof_state "wc_wr_size (w_cfg w)"] l(2) by (simp add: m'_def rec_bytes_def record_addr_def)
qed

context flash_driver begin

text \<open>The copy of the records looks at as many as are in the flash, and copies none.\<close>

lemma lost_copy:
  fixes w :: "'f wl_flash"
  assumes cw: "w_configured w" and z: "wl_sizes w" and f: "fits w (content (w_flash w))" and up: "up (w_flash w)" and c: "crc_words crc"
    and fl: "first_lost crc w h (content (w_flash w))" and k: "record_indices w = [0..<k] @ js"
    and l: "\<forall>i < k. record_addr (w_addr_state2 w) i w + wc_wr_size (w_cfg w) \<le> length (content (w_flash w))"
  shows "\<exists>w0 w1. WL_init drv crc rnd w = check (recover_state1 drv crc h) (check (new_version drv crc rnd) init_done) w0 \<and>
    copy_state drv crc (w_addr_state2 w0) (w_addr_state1 w0) h w0 = copy_records drv crc (w_addr_state2 w) (w_addr_state1 w) js w1 \<and>
    at content up True (w\<lparr>w_initialized := False, w_state := first_header w (content (w_flash w))\<rparr>)
      (stamped (w_addr_state1 w) (w_state_size w) (state_bytes h) (content (w_flash w))) w1"
proof -
  let ?m = "content (w_flash w)" and ?h1 = "first_header w (content (w_flash w))"
  have fh: "bounded h" "state_crc crc h = ws_crc h" "mem_read (w_addr_state2 w) sizeof_state ?m = state_bytes h" "state_crc crc ?h1 \<noteq> ws_crc ?h1"
    using fl by (simp_all add: first_lost_def)
  from init_reads [OF cw z f up, of crc rnd] obtain f' where i: "WL_init drv crc rnd w =
      init_states drv crc rnd h (w\<lparr>w_initialized := False, w_state := ?h1, w_flash := f'\<rparr>)" "up f'" "content f' = ?m"
    unfolding fh(3) state_roundtrip [OF fh(1)] first_header_def by (elim exE conjE)
  let ?w = "w\<lparr>w_initialized := False, w_state := ?h1, w_flash := f'\<rparr>"
  have iw: "WL_init drv crc rnd w = check (recover_state1 drv crc h) (check (new_version drv crc rnd) init_done) ?w"
    using i(1) fh(2,4) by (simp add: init_states_def)
  have same: "wl_sizes ?w" "fits ?w (content (w_flash ?w))" "up (w_flash ?w)" using z f i(2,3) by (simp_all add: wl_sizes_def Let_def fits_def)
  from recover_write [OF same fh(1), of crc] obtain w1 where w1: "copy_state drv crc (w_addr_state2 ?w) (w_addr_state1 ?w) h ?w =
      copy_records drv crc (w_addr_state2 w) (w_addr_state1 w) (record_indices w) w1"
    "at content up True ?w (stamped (w_addr_state1 w) (w_state_size w) (state_bytes h) ?m) w1"
    using i(3) by (auto simp: record_indices_def)
  let ?m1 = "stamped (w_addr_state1 w) (w_state_size w) (state_bytes h) ?m"
  note s2 = stamped_second [OF z f fh(1)]
  have "\<not> rec_ok crc (ws_device_id ?h1) j (rec_bytes (w_addr_state2 w) j ?w ?m1) \<and> record_addr (w_addr_state2 w) j ?w + wc_wr_size (w_cfg w) \<le> length ?m1"
    if "j < k" for j using lost_records [OF fl c, of j] l that s2(1) s2(2) [of "record_addr (w_addr_state2 w) j w" "wc_wr_size (w_cfg w)"]
    by (simp add: rec_bytes_def record_addr_def)
  then obtain w2 where w2: "copy_records drv crc (w_addr_state2 w) (w_addr_state1 w) ([0..<k] @ js) w1 = copy_records drv crc (w_addr_state2 w) (w_addr_state1 w) js w2"
    "at content up True ?w ?m1 w2" using copy_none [OF same(1) w1(2), of "[0..<k]" crc "w_addr_state2 w" "w_addr_state1 w" js] by auto
  have "at content up True (w\<lparr>w_initialized := False, w_state := ?h1\<rparr>) ?m1 w2" using w2(2) by (simp add: at_def base_eq)
  then show ?thesis using iw w1(1) w2(1) k by (intro exI [of _ ?w] exI [of _ w2]) simp
qed

text \<open>When the flash has all the places, \<^verbatim>\<open>init\<close> succeeds with the last position.\<close>

lemma lost_init:
  fixes w :: "'f wl_flash"
  assumes cw: "w_configured w" and z: "wl_sizes w" and f: "fits w (content (w_flash w))" and up: "up (w_flash w)" and c: "crc_words crc"
    and fl: "first_lost crc w h (content (w_flash w))" and k: "record_indices w = [0..<k]"
    and l: "\<forall>i < k. record_addr (w_addr_state2 w) i w + wc_wr_size (w_cfg w) \<le> length (content (w_flash w))"
  shows "\<exists>w'. WL_init drv crc rnd w = Inr (ESP_OK, w') \<and> base w' = base (w\<lparr>w_initialized := True\<rparr>) \<and> w_state w' = h\<lparr>ws_pos := n_blocks w\<rparr> \<and>
    up (w_flash w') \<and> content (w_flash w') = stamped (w_addr_state1 w) (w_state_size w) (state_bytes h) (content (w_flash w))"
proof -
  let ?m = "content (w_flash w)" let ?m1 = "stamped (w_addr_state1 w) (w_state_size w) (state_bytes h) ?m"
  have fh: "bounded h" "ws_version h = wc_version (w_cfg w)" "ws_max_pos h = n_blocks w + 1" using fl by (simp_all add: first_lost_def)
  from lost_copy [OF cw z f up c fl _ l, of "[]" rnd] k obtain w0 w1 where
    i: "WL_init drv crc rnd w = check (recover_state1 drv crc h) (check (new_version drv crc rnd) init_done) w0"
    "copy_state drv crc (w_addr_state2 w0) (w_addr_state1 w0) h w0 = Inr (ESP_OK, w1)"
    "at content up True (w\<lparr>w_initialized := False, w_state := first_header w ?m\<rparr>) ?m1 w1" by auto
  have b: "base w1 = base (w\<lparr>w_initialized := False\<rparr>)" "up (w_flash w1)" "content (w_flash w1) = ?m1" using i(3) by (simp_all add: at_def base_eq)
  then have e: "w_addr_state1 w1 = w_addr_state1 w" "w_cfg w1 = w_cfg w" by (simp_all add: base_eq)
  note s2 = stamped_second [OF z f fh(1)]
  have "w_addr_state1 w + sizeof_state \<le> length ?m1" using s2(1) sizes_temp(4-6) [OF z] f by (simp add: fits_def)
  with read_up [OF b(2), of "w_addr_state1 w" sizeof_state] obtain f2 where
    f2: "fa_read drv (w_addr_state1 w) sizeof_state (w_flash w1) = (ESP_OK, state_bytes h, f2)" "up f2" unfolding b(3) s2(3) by auto
  let ?w = "w1\<lparr>w_flash := f2, w_state := h\<lparr>ws_pos := n_blocks w\<rparr>, w_initialized := True\<rparr>"
  have "usub (ws_max_pos h) 1 = n_blocks w" using fh(1,3) usub_le [of 1 "n_blocks w + 1"] by (simp add: bounded_def)
  then have "WL_init drv crc rnd w = Inr (ESP_OK, ?w)" unfolding i(1)
    using i(2) f2(1) fh(2) e state_roundtrip [OF fh(1)] length_state_bytes [of h] fh(1) by (simp add: bounded_def recover_state1_def check_def drv_read_state_def new_version_def init_done_def)
  moreover have "base ?w = base (w\<lparr>w_initialized := True\<rparr>)" using b(1) by (simp add: base_eq)
  ultimately show ?thesis using f2(2) read_keeps [OF f2(1)] b(3) by (intro exI [of _ ?w]) simp
qed

text \<open>When it has not, a read fails, and with it \<^verbatim>\<open>init\<close>.\<close>

lemma lost_fails:
  fixes w :: "'f wl_flash"
  assumes cw: "w_configured w" and z: "wl_sizes w" and f: "fits w (content (w_flash w))" and up: "up (w_flash w)" and c: "crc_words crc"
    and fl: "first_lost crc w h (content (w_flash w))" and k: "record_indices w = [0..<k] @ k # js"
    and l: "\<forall>i < k. record_addr (w_addr_state2 w) i w + wc_wr_size (w_cfg w) \<le> length (content (w_flash w))"
      "length (content (w_flash w)) < record_addr (w_addr_state2 w) k w + wc_wr_size (w_cfg w)"
  shows "\<exists>r w'. WL_init drv crc rnd w = Inr (r, w') \<and> r \<noteq> ESP_OK \<and> \<not> w_initialized w' \<and>
    content (w_flash w') = stamped (w_addr_state1 w) (w_state_size w) (state_bytes h) (content (w_flash w))"
proof -
  let ?m = "content (w_flash w)" let ?m1 = "stamped (w_addr_state1 w) (w_state_size w) (state_bytes h) ?m"
  have fh: "bounded h" using fl by (simp add: first_lost_def)
  from lost_copy [OF cw z f up c fl k l(1), of rnd] obtain w0 w1 where
    i: "WL_init drv crc rnd w = check (recover_state1 drv crc h) (check (new_version drv crc rnd) init_done) w0"
    "copy_state drv crc (w_addr_state2 w0) (w_addr_state1 w0) h w0 = copy_records drv crc (w_addr_state2 w) (w_addr_state1 w) (k # js) w1"
    "at content up True (w\<lparr>w_initialized := False, w_state := first_header w ?m\<rparr>) ?m1 w1" by (elim exE conjE)
  have b: "content (w_flash w1) = ?m1" "w_cfg w1 = w_cfg w" "\<not> w_initialized w1" "record_addr (w_addr_state2 w) k w1 = record_addr (w_addr_state2 w) k w"
    using i(3) by (simp_all add: at_def base_eq record_addr_def)
  obtain r bs f2 where f2: "fa_read drv (record_addr (w_addr_state2 w) k w) (wc_wr_size (w_cfg w)) (w_flash w1) = (r, bs, f2)" by (metis prod_cases3)
  let ?w1 = "w1\<lparr>w_flash := f2, w_temp_buff := read_into (wc_wr_size (w_cfg w)) bs (w_temp_buff w1)\<rparr>"
  have "r \<noteq> ESP_OK" using read_ok [of "record_addr (w_addr_state2 w) k w" "wc_wr_size (w_cfg w)" "w_flash w1" bs f2] f2 l(2) b(1) stamped_second(1) [OF z f fh] by auto
  then have "copy_records drv crc (w_addr_state2 w) (w_addr_state1 w) (k # js) w1 = Inr (r, ?w1)"
    using f2 b by (simp add: check_def drv_read_temp_def)
  then show ?thesis using i(1,2) \<open>r \<noteq> ESP_OK\<close> read_keeps [OF f2] b
    by (intro exI [of _ r] exI [of _ ?w1]) (simp add: recover_state1_def check_def)
qed

text \<open>The next start finds two headers that are the same, and no record.\<close>

lemma lost_again:
  fixes w n :: "'f wl_flash"
  assumes cw: "w_configured n" and z: "wl_sizes w" and f: "fits w m" and up: "up (w_flash n)" and c: "crc_words crc"
    and fl: "first_lost crc w h m" and n: "base (n\<lparr>w_initialized := True\<rparr>) = base (w\<lparr>w_initialized := True\<rparr>)"
      "content (w_flash n) = stamped (w_addr_state1 w) (w_state_size w) (state_bytes h) m"
  shows "\<exists>w'. WL_init drv crc rnd n = Inr (ESP_OK, w') \<and> base w' = base (w\<lparr>w_initialized := True\<rparr>) \<and> w_state w' = h\<lparr>ws_pos := 0\<rparr>"
proof -
  let ?m1 = "stamped (w_addr_state1 w) (w_state_size w) (state_bytes h) m"
  have fh: "bounded h" "state_crc crc h = ws_crc h" "ws_version h = wc_version (w_cfg w)" "ws_max_pos h = n_blocks w + 1" "mem_read (w_addr_state2 w) sizeof_state m = state_bytes h"
    using fl by (simp_all add: first_lost_def)
  note s2 = stamped_second [OF z f fh(1)]
  have e: "w_cfg n = w_cfg w" "w_flash_size n = w_flash_size w" "w_addr_state1 n = w_addr_state1 w" "w_addr_state2 n = w_addr_state2 w"
    "w_addr_cfg n = w_addr_cfg w" "w_cfg_size n = w_cfg_size w" "w_state_size n = w_state_size w" "length (w_temp_buff n) = length (w_temp_buff w)"
    using n(1) by (simp_all add: base_eq)
  have zn: "wl_sizes n" "fits n (content (w_flash n))" "n_blocks n = n_blocks w" using z f s2(1) n(2) by (simp_all add: wl_sizes_def Let_def e fits_def n_blocks_def)
  have "w_addr_state2 w + sizeof_state \<le> length m" using sizes_temp(4,5) [OF z] f by (simp add: fits_def)
  then have h2: "mem_read (w_addr_state2 n) sizeof_state (content (w_flash n)) = state_bytes h" using s2(2) fh(5) by (simp add: e n(2))
  have "\<not> rec_ok crc (ws_device_id h) 0 (rec_bytes (w_addr_state1 n) 0 n (content (w_flash n)))"
    using erased_not_ok [OF c sizes_temp(1) [OF z]] s2(4) by (simp add: n(2) e rec_bytes_def record_addr_def)
  then have "marked crc (ws_device_id h) 0 (n_blocks n + 1) n (content (w_flash n))" by (simp add: marked_def)
  from init_healthy [OF cw zn(1,2) up fh(1,2) _ _ _ h2 this, of rnd] fh zn(3) s2(3) n(2) obtain w' where
    "WL_init drv crc rnd n = Inr (ESP_OK, w')" "base w' = base (n\<lparr>w_initialized := True\<rparr>)" "w_state w' = h\<lparr>ws_pos := min 0 (n_blocks n)\<rparr>" by (auto simp: e)
  then show ?thesis using n(1) by (intro exI [of _ w']) simp
qed

end

text \<open>The two positions map every address to different pages.\<close>

lemma shifted:
  assumes "wl_sizes w" "base w1 = base w" "base w2 = base w" "w_state w1 = h\<lparr>ws_pos := n_blocks w\<rparr>" "w_state w2 = h\<lparr>ws_pos := 0\<rparr>"
  shows "calcAddr i w2 = calcAddr i w1 + wc_page_size (w_cfg w)"
proof -
  let ?P = "wc_page_size (w_cfg w)" and ?F = "w_flash_size w"
  note nb = n_blocks [OF assms(1)]
  have e: "w_cfg w1 = w_cfg w" "w_cfg w2 = w_cfg w" "w_flash_size w1 = ?F" "w_flash_size w2 = ?F" using assms(2,3) by (simp_all add: base_eq)
  have l: "0 < ?F" "?F + ?P < 2 ^ 32" using assms(1) by (simp_all add: wl_sizes_def Let_def)
  let ?r = "uadd (usub ?F (umul (ws_move_count h) ?P)) i mod ?F"
  have r: "?r < ?F" using l(1) by simp
  have u: "umul (n_blocks w) ?P = ?F" "umul 0 ?P = 0" using l(2) nb(1) by (simp_all add: umul_def)
  have "calcAddr i w1 = ?r" using r by (simp add: calcAddr_def Let_def e assms(4) u)
  moreover have "calcAddr i w2 = uadd ?r ?P" by (simp add: calcAddr_def Let_def e assms(5) u)
  moreover have "uadd ?r ?P = ?r + ?P" using r l(2) by (intro uadd_small) linarith
  ultimately show ?thesis by simp
qed

section \<open>Accesses beyond the end\<close>

lemma calcAddr_wraps:
  assumes "wl_geom w" "2 * w_flash_size w + i < 2 ^ 32"
  shows "calcAddr (w_flash_size w + i) w = calcAddr i w"
proof -
  let ?F = "w_flash_size w" and ?x = "ws_move_count (w_state w) * wc_page_size (w_cfg w)"
  have z: "wl_sizes w" "ws_move_count (w_state w) \<le> n_blocks w" using assms(1) by (auto simp: wl_geom_def wl_pos_ok_def)
  have x: "?x \<le> ?F" unfolding n_blocks(1) [OF z(1)] using z(2) by (rule mult_le_mono1)
  then have "umul (ws_move_count (w_state w)) (wc_page_size (w_cfg w)) = ?x" "usub ?F ?x = ?F - ?x"
    using assms(2) by (intro umul_small usub_le; linarith)+
  moreover have "uadd (?F - ?x) (?F + i) = ?F - ?x + i + ?F" "uadd (?F - ?x) i = ?F - ?x + i" using assms(2) x by (simp_all add: uadd_small)
  ultimately show ?thesis by (simp add: calcAddr_def Let_def)
qed

lemma write_pages_wraps:
  assumes "wl_geom w" "\<forall>(off, n) \<in> set ps. 2 * w_flash_size w + a + off < 2 ^ 32"
  shows "write_pages drv (w_flash_size w + a) src ps w = write_pages drv a src ps w"
  using assms
proof (induction ps arbitrary: w)
  case (Cons p ps)
  obtain off n where p: "p = (off, n)" by (cases p)
  have l: "2 * w_flash_size w + (a + off) < 2 ^ 32" using Cons.prems(2) p by simp
  then have "uadd (w_flash_size w + a) off = w_flash_size w + (a + off)" "uadd a off = a + off" by (simp_all add: uadd_small)
  then have e: "calcAddr (uadd (w_flash_size w + a) off) w = calcAddr (uadd a off) w" using calcAddr_wraps [OF Cons.prems(1) l] by simp
  have "write_pages drv (w_flash_size w + a) src ps (w\<lparr>w_flash := f\<rparr>) = write_pages drv a src ps (w\<lparr>w_flash := f\<rparr>)" for f
    using Cons.IH [of "w\<lparr>w_flash := f\<rparr>"] Cons.prems geom_core(1) [of "w\<lparr>w_flash := f\<rparr>" w] by simp
  then show ?case unfolding p by (auto simp: check_def drv_write_def e bindR_def split: sum.splits prod.splits)
qed simp

lemma page_accesses_bound:
  assumes "0 < P" "0 < sz" "sz < 2 ^ 32" "(off, n) \<in> set (page_accesses P sz)"
  shows "off \<le> sz"
proof -
  have c: "usub sz 1 = sz - 1" using assms(2,3) by (intro usub_le) simp_all
  have "i * P \<le> sz" if "i \<le> (sz - 1) div P" for i
  proof -
    have "i * P \<le> (sz - 1) div P * P" using that by (rule mult_le_mono1)
    also have "\<dots> \<le> sz - 1" by (rule div_times_less_eq_dividend)
    finally show ?thesis by simp
  qed
  then show ?thesis using assms(4) unfolding page_accesses_def Let_def c by auto
qed

lemma WL_write_wraps:
  assumes "wl_geom w" "src \<noteq> []" "2 * w_flash_size w + a + length src < 2 ^ 32"
  shows "WL_write drv (w_flash_size w + a) src w = WL_write drv a src w"
proof -
  have "off \<le> length src" if "(off, n) \<in> set (page_accesses (wc_page_size (w_cfg w)) (length src))" for off n
    using page_accesses_bound [OF geom_page [OF assms(1)] _ _ that] assms(2,3) by simp
  then have "\<forall>(off, n) \<in> set (page_accesses (wc_page_size (w_cfg w)) (length src)). 2 * w_flash_size w + a + off < 2 ^ 32" using assms(3) by fastforce
  from write_pages_wraps [OF assms(1) this] show ?thesis by (simp add: WL_write_def)
qed

text \<open>A write of no bytes: the size less one wraps around, and whole pages are read from the source.\<close>

lemma write_nothing:
  assumes "wl_geom w" "w_initialized w"
  shows "WL_write drv a [] w = Inl Out_of_bounds"
proof -
  let ?P = "wc_page_size (w_cfg w)"
  have p: "0 < ?P" "0 < w_flash_size w" "?P < 2 ^ 32" using assms(1) by (simp_all add: wl_geom_def wl_sizes_def Let_def)
  have "usub 0 1 = 2 ^ 32 - 1" by (simp add: usub_def)
  moreover have "0 < (2 ^ 32 - 1) div ?P" using p by (simp add: div_greater_zero_iff)
  ultimately have "[0..<usub 0 1 div ?P] = 0 # [1..<usub 0 1 div ?P]" by (simp add: upt_conv_Cons)
  then have "\<exists>ps. page_accesses ?P 0 = (0, ?P) # ps" by (simp add: page_accesses_def Let_def)
  then show ?thesis using assms(2) p by (auto simp: WL_write_def mem_load_def)
qed

section \<open>Accesses across the end of a page\<close>

lemma nor_cross:
  assumes g: "wl_geom w" and m: "wc_start_addr (w_cfg w) + w_flash_size w + wc_page_size (w_cfg w) \<le> length m"
    and a: "a < w_flash_size w" "0 < a mod wc_page_size (w_cfg w)" and k: "k = wc_page_size (w_cfg w) - a mod wc_page_size (w_cfg w)"
    and bs: "k < length bs" "length bs \<le> wc_page_size (w_cfg w)"
    and d: "calcAddr a w + k = ws_pos (w_state w) * wc_page_size (w_cfg w)"
  defines "p \<equiv> wc_start_addr (w_cfg w) + calcAddr a w"
  shows "p + length bs \<le> wc_start_addr (w_cfg w) + w_flash_size w + wc_page_size (w_cfg w)"
    "vmem w (nor_write p bs m) = nor_write a (take k bs) (vmem w m)"
proof -
  let ?P = "wc_page_size (w_cfg w)" and ?F = "w_flash_size w" and ?x = "take k bs" and ?y = "drop k bs"
  have z: "wl_sizes w" "ws_pos (w_state w) \<le> n_blocks w" using g by (auto simp: wl_geom_def wl_pos_ok_def)
  have "ws_pos (w_state w) * ?P \<le> ?F" unfolding n_blocks(1) [OF z(1)] using z(2) by (rule mult_le_mono1)
  then have top: "calcAddr a w + k + ?P \<le> ?F + ?P" using d by simp
  then show r: "p + length bs \<le> wc_start_addr (w_cfg w) + ?F + ?P" using bs(2) by (simp add: p_def)
  have m2: "a mod ?P < ?P" using geom_page [OF g] by simp
  then have "0 < k" by (simp add: k)
  then have lx: "length ?x = k" "?x \<noteq> []" using bs(1) by auto
  then have ip: "in_page ?P a (length ?x)" unfolding in_page_def lx(1) k by simp
  have "?P dvd ?F" using n_blocks(1) [OF z(1)] by simp
  then obtain q where q: "?F = ?P * q" ..
  have "a div ?P < q" using a(1) m2 unfolding q by (simp add: less_mult_imp_div_less mult.commute)
  then have "?P * (a div ?P + 1) \<le> ?F" unfolding q by (intro mult_le_mono2) simp
  then have fit: "a + length ?x \<le> ?F" using div_mult_mod_eq [of a ?P] m2 lx(1) k unfolding add_mult_distrib2 mult_1_right by (simp only: mult.commute)
  have sp: "nor_write p bs m = nor_write (p + k) ?y (nor_write p ?x m)"
    using nor_write_append [of p ?x ?y m] r m lx(1) bs(1) by simp
  have l1: "length (nor_write p ?x m) = length m" using r m lx(1) bs(1) by (intro length_nor(1)) simp
  then have ry: "p + k + length ?y \<le> length (nor_write p ?x m)" using r m bs(1) by simp
  have "{p + k..<p + k + length ?y} \<subseteq> dummy w" using d bs by (auto simp: dummy_def p_def)
  then have "in_use w \<subseteq> - {p + k..<p + k + length ?y}" using in_use_data(1) [OF g] by blast
  from vmem_agree [OF g mem_agree_subset [OF nor_frame(1) [OF ry] this]] l1 m
  have "vmem w (nor_write p bs m) = vmem w (nor_write p ?x m)" unfolding sp by simp
  then show "vmem w (nor_write p bs m) = nor_write a ?x (vmem w m)" using vmem_nor_write [OF g ip fit lx(2) m] by (simp add: p_def)
qed

context flash_driver begin

lemma write_cross:
  assumes g: "wl_geom w" and ft: "fits w (content (w_flash w))" and up: "up (w_flash w)" and i: "w_initialized w"
    and a: "a < w_flash_size w" "0 < a mod wc_page_size (w_cfg w)" and k: "k = wc_page_size (w_cfg w) - a mod wc_page_size (w_cfg w)"
    and bs: "k < length bs" "length bs \<le> wc_page_size (w_cfg w)"
    and d: "calcAddr a w + k = ws_pos (w_state w) * wc_page_size (w_cfg w)"
  shows "\<exists>f. WL_write drv a bs w = Inr (ESP_OK, w\<lparr>w_flash := f\<rparr>) \<and> vmem w (content f) = nor_write a (take k bs) (vmem w (content (w_flash w)))"
proof -
  let ?p = "wc_start_addr (w_cfg w) + calcAddr a w" and ?m = "content (w_flash w)" and ?P = "wc_page_size (w_cfg w)"
  note nc = nor_cross [OF g fits_data [OF g ft] a k bs d]
  have sz: "0 < ?P" "0 < w_flash_size w" "w_flash_size w < 2 ^ 31" "w_flash_size w + ?P < 2 ^ 32" using g by (simp_all add: wl_geom_def wl_sizes_def Let_def)
  have n: "0 < length bs" "length bs < 2 ^ 32" using bs sz by linarith+
  have "usub (length bs) 1 = length bs - 1" using n by (intro usub_le) linarith+
  moreover have "length bs - 1 < ?P" using n(1) bs(2) by linarith
  ultimately have "usub (length bs) 1 div ?P = 0" by simp
  then have pa: "page_accesses ?P (length bs) = [(0, length bs)]" using n(2) by (simp add: page_accesses_def usub_le)
  have "?p + length bs \<le> length ?m" using nc(1) fits_data [OF g ft] by simp
  from write_up [OF up this] obtain f where f: "fa_write drv ?p bs (w_flash w) = (ESP_OK, f)" "up f" by blast
  have "content f = nor_write ?p bs ?m" using write_ok [OF f(1)] by simp
  moreover have "uadd a 0 = a" using a(1) sz(3) by (simp add: uadd_small)
  ultimately show ?thesis using i sz f(1) pa nc(2)
    by (intro exI [of _ f]) (simp add: WL_write_def mem_load_def mem_read_def check_def drv_write_def)
qed

end

end
