(* ===== verification/WL_Upgrade.thy ===== *)
theory WL_Upgrade
  imports WL_Flaws
begin

text \<open>
  The update of a state of version 1. It counts the records of the old state from the place where those
  of version 2 begin, and writes headers and records of version 2, from which \<^verbatim>\<open>init\<close> then takes the
  position.
\<close>

section \<open>Records of version 2\<close>

lemma length_records: "length (concat (map (ok_bytes crc d) xs)) = 16 * length xs"
  by (induction xs) simp_all

lemma nth_record:
  "i < n \<Longrightarrow> take 16 (drop (16 * i) (concat (map (ok_bytes crc d) [0..<n]))) = ok_bytes crc d i"
proof -
  assume "i < n"
  then have "[0..<n] = [0..<i] @ i # [Suc i..<n]" using upt_add_eq_append [of 0 i "n - i"] by (simp add: upt_conv_Cons)
  then show ?thesis using length_records [of crc d "[0..<i]"] by simp
qed

text \<open>A header with the first \<open>k\<close> records.\<close>

definition with_records :: "(byte list \<Rightarrow> nat) \<Rightarrow> wl_state \<Rightarrow> nat \<Rightarrow> byte list" where
  "with_records crc s k = state_bytes s @ concat (map (ok_bytes crc (ws_device_id s)) [0..<k])"

lemma with_records_Suc: "with_records crc s (Suc k) = with_records crc s k @ ok_bytes crc (ws_device_id s) k"
  by (simp add: with_records_def)

lemma length_with_records: "length (ws_reserved s) = 7 \<Longrightarrow> length (with_records crc s k) = 64 + k * 16"
  by (simp add: with_records_def length_state_bytes sizeof_state_def length_records mult.commute)

lemma stamped_more:
  assumes "a + n \<le> length m" "length bs + length ys \<le> n"
  shows "nor_write (a + length bs) ys (stamped a n bs m) = stamped a n (bs @ ys) m"
proof -
  have "mem_read (a + length bs) (length ys) (stamped a n bs m) = replicate (length ys) 255"
    using stamped_read(2) [of a n m bs "length bs" "length ys"] assms by simp
  then have "nor_write (a + length bs) ys (stamped a n bs m) = mem_write (a + length bs) ys (stamped a n bs m)" by (rule nor_write_erased)
  also have "\<dots> = stamped a n (bs @ ys) m"
  proof (rule nth_equalityI)
    have l: "length (stamped a n bs m) = length m" "length (stamped a n (bs @ ys) m) = length m" using stamped_read(4) assms by simp_all
    then show "length (mem_write (a + length bs) ys (stamped a n bs m)) = length (stamped a n (bs @ ys) m)" using assms by simp
    fix i assume "i < length (mem_write (a + length bs) ys (stamped a n bs m))"
    then have "i < length m" using l assms by simp
    then show "mem_write (a + length bs) ys (stamped a n bs m) ! i = stamped a n (bs @ ys) m ! i"
      using assms l(1) by (simp add: nth_mem_write) (auto simp: stamped_def nth_mem_write nth_append)
  qed
  finally show ?thesis .
qed

lemma with_records_read:
  assumes m: "a + n \<le> length m" and k: "64 + k * 16 \<le> n" and s: "length (ws_reserved s) = 7" and crc: "crc_words crc"
  defines "m' \<equiv> stamped a n (with_records crc s k) m"
  shows "i < k \<Longrightarrow> rec_ok crc (ws_device_id s) i (mem_read (a + 64 + i * 16) 16 m')"
    "64 + (k + 1) * 16 \<le> n \<Longrightarrow> mem_read (a + 64 + k * 16) 16 m' = replicate 16 255"
proof -
  let ?bs = "with_records crc s k"
  have lb: "length ?bs = 64 + k * 16" "length ?bs \<le> n" using length_with_records [OF s] k by simp_all
  note sr = stamped_read [OF m lb(2)]
  show "64 + (k + 1) * 16 \<le> n \<Longrightarrow> mem_read (a + 64 + k * 16) 16 m' = replicate 16 255"
    using sr(2) [of "64 + k * 16" 16] lb(1) by (simp add: m'_def add.assoc)
  assume i: "i < k"
  then have b: "64 + i * 16 + 16 \<le> 64 + k * 16" by simp
  have "mem_read (a + (64 + i * 16)) 16 m' = take 16 (drop (64 + i * 16) (mem_read a (64 + k * 16) m'))"
    using b by (simp add: mem_read_def drop_take add.commute min_def)
  also have "\<dots> = take 16 (drop (64 + i * 16) ?bs)" using sr(1) lb(1) by (simp add: m'_def)
  also have "\<dots> = ok_bytes crc (ws_device_id s) i"
    using nth_record [OF i, of crc "ws_device_id s"] length_state_bytes [OF s] by (simp add: with_records_def sizeof_state_def mult.commute)
  finally have "mem_read (a + 64 + i * 16) 16 m' = ok_bytes crc (ws_device_id s) i" by (simp add: add.assoc)
  then show "rec_ok crc (ws_device_id s) i (mem_read (a + 64 + i * 16) 16 m')" by (intro rec_ok_bytes [OF crc]) simp
qed

section \<open>The update\<close>

context flash_driver begin

lemma v1_pos_up:
  fixes w0 :: "'f wl_flash"
  assumes a: "at content up True w0 m w" and k: "k \<le> p" "p < n"
    and r: "\<forall>i < p. mem_read (record_addr (w_addr_state1 w0) i w0) 1 m \<noteq> [255]" "mem_read (record_addr (w_addr_state1 w0) p w0) 1 m = [255]"
    and l: "\<forall>i \<le> p. record_addr (w_addr_state1 w0) i w0 + 1 \<le> length m"
  shows "\<exists>w'. v1_pos drv [k..<n] pos w = Inr (ESP_OK, p, w') \<and> at content up True w0 m w'"
  using a k(1)
proof (induction "p - k" arbitrary: k pos w)
  case (0 k)
  then have kp: "k = p" by simp
  obtain f where f: "fa_read drv (record_addr (w_addr_state1 w0) p w0) 1 (w_flash w) = (ESP_OK, [255], f)" "up f"
    using read_up [of "w_flash w" "record_addr (w_addr_state1 w0) p w0" 1] 0 l r(2) by (auto simp: at_def)
  have e: "record_addr (w_addr_state1 w) p w = record_addr (w_addr_state1 w0) p w0" using 0(2) by (simp add: at_def base_eq record_addr_def)
  have "at content up True w0 m (w\<lparr>w_flash := f\<rparr>)" using 0(2) f read_keeps [OF f(1)] by (simp add: at_def)
  then show ?case using f(1) e k(2) kp by (auto simp: upt_conv_Cons)
next
  case (Suc j)
  have kp: "k < p" "j = p - Suc k" using Suc.hyps(2) by linarith+
  let ?a = "record_addr (w_addr_state1 w0) k w0"
  obtain f where f: "fa_read drv ?a 1 (w_flash w) = (ESP_OK, mem_read ?a 1 m, f)" "up f"
    using read_up [of "w_flash w" ?a 1] Suc.prems(1) l kp(1) by (auto simp: at_def)
  have e: "record_addr (w_addr_state1 w) k w = ?a" using Suc.prems(1) by (simp add: at_def base_eq record_addr_def)
  have at: "at content up True w0 m (w\<lparr>w_flash := f\<rparr>)" using Suc.prems(1) f read_keeps [OF f(1)] by (simp add: at_def)
  from Suc.hyps(1) [OF kp(2) at, of k] kp(1) show ?case using f(1) e r(1) kp(1) k(2) by (auto simp: upt_conv_Cons)
qed

lemma write_records_rule:
  fixes w0 :: "'f wl_flash"
  assumes s: "length (ws_reserved (w_state w0)) = 7" and t: "wc_wr_size (w_cfg w0) = 16" "16 \<le> length (w_temp_buff w0)"
    and m: "a + n \<le> length m" "64 + j * 16 \<le> n" and k: "k \<le> j"
  shows "triple (at content up True w0 (stamped a n (with_records crc (w_state w0) k) m)) (write_records drv crc a [k..<j])
    (at content up True w0 (stamped a n (with_records crc (w_state w0) j) m)) (\<lambda>_. False)"
  using k
proof (induction "j - k" arbitrary: k)
  case 0
  then show ?case by (simp add: triple_def)
next
  case (Suc i)
  have kj: "k < j" "i = j - Suc k" using Suc.hyps(2) by linarith+
  let ?b = "with_records crc (w_state w0) k" and ?r = "ok_bytes crc (ws_device_id (w_state w0)) k"
  let ?m = "stamped a n ?b m" let ?P = "\<lambda>w. at content up True w0 ?m w \<and> take 16 (w_temp_buff w) = ?r"
  have lb: "length ?b = 64 + k * 16" by (rule length_with_records [OF s])
  have fit: "a + length ?b + 16 \<le> a + n" using lb m(2) kj(1) by simp
  have ml: "length ?m = length m" using fit by (intro stamped_read(4) [OF m(1)]) simp
  have "triple (at content up True w0 ?m) (fillOkBuff crc k) ?P (\<lambda>_. False)"
    using t(2) by (auto simp: triple_def fillOkBuff_def at_def base_eq)
  moreover have "triple ?P (\<lambda>w. drv_write drv (record_addr a k w) (temp_record w) w) (at content up True w0 (stamped a n (with_records crc (w_state w0) (Suc k)) m)) (\<lambda>_. False)"
  proof (rule write_rule [where u = True])
    fix w f assume w: "?P w"
    then have e: "record_addr a k w = a + length ?b" "temp_record w = ?r" using t(1) lb by (simp_all add: at_def base_eq record_addr_def temp_record_def sizeof_state_def)
    show "True \<Longrightarrow> up (w_flash w) \<and> record_addr a k w + length (temp_record w) \<le> length (content (w_flash w))" using w fit ml m(1) by (simp add: e at_def)
    show "True \<longrightarrow> up f \<Longrightarrow> content f = nor_write (record_addr a k w) (temp_record w) (content (w_flash w)) \<Longrightarrow>
        at content up True w0 (stamped a n (with_records crc (w_state w0) (Suc k)) m) (w\<lparr>w_flash := f\<rparr>)"
      using w stamped_more [OF m(1), of ?b ?r] fit by (simp add: e at_def with_records_Suc)
  qed simp
  moreover have "triple (at content up True w0 (stamped a n (with_records crc (w_state w0) (Suc k)) m)) (write_records drv crc a [Suc k..<j])
      (at content up True w0 (stamped a n (with_records crc (w_state w0) j) m)) (\<lambda>_. False)" using Suc.hyps(1) [OF kj(2)] kj(1) by simp
  ultimately have "triple (at content up True w0 ?m) (check (fillOkBuff crc k)
     (check (\<lambda>w. drv_write drv (record_addr a k w) (temp_record w) w) (write_records drv crc a [Suc k..<j])))
     (at content up True w0 (stamped a n (with_records crc (w_state w0) j) m)) (\<lambda>_. False)" by (intro triple_check)
  then show ?case by (rule triple_cong) (simp add: upt_conv_Cons [OF kj(1)])
qed

lemma clear_temp_at:
  assumes "triple (at content up True w0 m) k Q E" "wc_wr_size (w_cfg w0) \<le> length (w_temp_buff w0)"
  shows "triple (at content up True w0 m) (\<lambda>w. k (clear_temp w)) Q E"
proof -
  have "at content up True w0 m (clear_temp w)" if "at content up True w0 m w" for w
    using that assms(2) by (simp add: at_def base_eq clear_temp_def)
  then show ?thesis using assms(1) by (simp add: triple_def)
qed

text \<open>One state area: the header and the records up to the position.\<close>

lemma new_area_rules:
  fixes w0 :: "'f wl_flash"
  assumes s: "length (ws_reserved (w_state w0)) = 7" and t: "wc_wr_size (w_cfg w0) = 16" "16 \<le> length (w_temp_buff w0)"
    and m: "a + w_state_size w0 \<le> length m" "64 + j * 16 \<le> w_state_size w0" "SPI_FLASH_SEC_SIZE dvd a" "SPI_FLASH_SEC_SIZE dvd w_state_size w0"
    and A: "\<And>w. base w = base w0 \<Longrightarrow> A w = a"
  shows "triple (at content up True w0 m) (\<lambda>w. write_state drv (A w) w) (at content up True w0 (stamped a (w_state_size w0) (with_records crc (w_state w0) 0) m)) (\<lambda>_. False)"
    "triple (at content up True w0 (stamped a (w_state_size w0) (with_records crc (w_state w0) 0) m)) (\<lambda>w. write_records drv crc (A w) [0..<j] (clear_temp w))
      (at content up True w0 (stamped a (w_state_size w0) (with_records crc (w_state w0) j) m)) (\<lambda>_. False)"
proof -
  let ?m0 = "stamped a (w_state_size w0) (with_records crc (w_state w0) 0) m"
  have A': "at content up True w0 m' w \<Longrightarrow> A w = a" for m' w using A by (simp add: at_def)
  have "length (state_bytes (w_state w0)) \<le> w_state_size w0" using length_state_bytes [OF s] m(2) by (simp add: sizeof_state_def)
  from write_state_rule [OF m(1,3,4) this, of True] have "triple (at content up True w0 m) (write_state drv a) (at content up True w0 ?m0) (\<lambda>_. False)"
    by (rule triple_post) (simp_all add: with_records_def hurt_def)
  then show "triple (at content up True w0 m) (\<lambda>w. write_state drv (A w) w) (at content up True w0 ?m0) (\<lambda>_. False)" by (rule triple_cong) (simp add: A')
  have "triple (at content up True w0 ?m0) (\<lambda>w. write_records drv crc a [0..<j] (clear_temp w))
      (at content up True w0 (stamped a (w_state_size w0) (with_records crc (w_state w0) j) m)) (\<lambda>_. False)"
    using clear_temp_at [OF write_records_rule [OF s t m(1,2)]] t by simp
  then show "triple (at content up True w0 ?m0) (\<lambda>w. write_records drv crc (A w) [0..<j] (clear_temp w))
      (at content up True w0 (stamped a (w_state_size w0) (with_records crc (w_state w0) j) m)) (\<lambda>_. False)" by (rule triple_cong) (simp add: A')
qed

end

text \<open>
  What the update takes for a state of version 1 with \<open>p\<close> records: the eighth word of both headers is the
  CRC of the seven before it, and \<open>p\<close> is the number of records found behind 64 bytes, the size of a
  header of version 2. The header of version 1 had 32 bytes, as in \<^verbatim>\<open>test_apps/main/test_partition_v1.bin\<close>,
  so the records counted here are those after the first two.
\<close>

definition v1_found :: "(byte list \<Rightarrow> nat) \<Rightarrow> 'f wl_flash \<Rightarrow> nat \<Rightarrow> mem \<Rightarrow> bool" where
  "v1_found crc w p m \<longleftrightarrow>
     (let h1 = first_header w m; h2 = state_of_bytes (mem_read (w_addr_state2 w) sizeof_state m)
      in state_crc crc h1 \<noteq> ws_crc h1 \<and> state_crc crc h2 \<noteq> ws_crc h2 \<and> ws_device_id h1 = ws_device_id h2 \<and> ws_version h1 = 1 \<and> ws_version h2 = 1 \<and>
        crc (take WL_STATE_CRC_LEN_V1 (state_bytes h1)) = ws_device_id h1 \<and> crc (take WL_STATE_CRC_LEN_V1 (state_bytes h2)) = ws_device_id h2 \<and>
        ws_max_pos h1 = n_blocks w + 1 \<and> ws_move_count h1 < n_blocks w) \<and>
     p < n_blocks w \<and> (\<forall>i < p. mem_read (record_addr (w_addr_state1 w) i w) 1 m \<noteq> [255]) \<and>
     mem_read (record_addr (w_addr_state1 w) p w) 1 m = [255]"

definition upgraded :: "(byte list \<Rightarrow> nat) \<Rightarrow> nat \<Rightarrow> wl_state \<Rightarrow> wl_state" where
  "upgraded crc rnd h = (let s = h\<lparr>ws_version := 2, ws_pos := 0, ws_device_id := rnd, ws_reserved := replicate 7 0\<rparr> in s\<lparr>ws_crc := state_crc crc s\<rparr>)"

context flash_driver begin

lemma update_up:
  fixes w :: "'f wl_flash" and rnd :: nat
  assumes z: "wl_sizes w" "wc_wr_size (w_cfg w) = 16" and f: "fits w (content (w_flash w))" and up: "up (w_flash w)"
    and v: "v1_found crc w p (content (w_flash w))" and h: "w_state w = first_header w (content (w_flash w))"
  defines "s \<equiv> upgraded crc rnd (w_state w)"
  shows "\<exists>w'. updateVersion drv crc rnd w = Inr (ESP_OK, w') \<and> base w' = base w \<and> w_state w' = s\<lparr>ws_pos := p\<rparr> \<and> up (w_flash w') \<and>
    content (w_flash w') = stamped (w_addr_state2 w) (w_state_size w) (with_records crc s (p + 1))
      (stamped (w_addr_state1 w) (w_state_size w) (with_records crc s (p + 1)) (content (w_flash w)))"
proof -
  let ?m = "content (w_flash w)" and ?h2 = "state_of_bytes (mem_read (w_addr_state2 w) sizeof_state (content (w_flash w)))"
  let ?v = "w\<lparr>w_state := s\<rparr>" and ?n = "w_state_size w" and ?b = "with_records crc s (p + 1)"
  note st = sizes_temp [OF z(1)]
  have p: "p < n_blocks w" "ws_max_pos (w_state w) = n_blocks w + 1" using v h by (simp_all add: v1_found_def Let_def)
  have "w_addr_state2 w + sizeof_state \<le> length ?m" using st(4,5) f by (simp add: fits_def)
  from read_up [OF up this] obtain f2 where f2: "fa_read drv (w_addr_state2 w) sizeof_state (w_flash w) = (ESP_OK, mem_read (w_addr_state2 w) sizeof_state ?m, f2)"
    "up f2" by blast
  let ?w2 = "w\<lparr>w_flash := f2\<rparr>"
  have at2: "at content up True w ?m ?w2" using f2(2) read_keeps [OF f2(1)] by (simp add: at_def)
  have l: "record_addr (w_addr_state1 w) i w + 1 \<le> length ?m" if "i \<le> p" for i using st(3) [of i] st(4) f p(1) that z(2) by (simp add: fits_def)
  from v1_pos_up [OF at2, of 0 p "n_blocks w + 1" 0] p(1) v l obtain w3 where
    w3: "v1_pos drv [0..<n_blocks w + 1] 0 ?w2 = Inr (ESP_OK, p, w3)" "at content up True w ?m w3" by (auto simp: v1_found_def)
  have sz: "sizeof_state + (n_blocks w + 1) * 16 \<le> ?n" using z by (simp add: wl_sizes_def Let_def n_blocks_def)
  have bnd: "w_addr_state1 w + ?n \<le> length ?m" "w_addr_state2 w + ?n \<le> length ?m" "64 + (p + 1) * 16 \<le> ?n" using st(4,6) f sz p(1) by (simp_all add: fits_def sizeof_state_def)
  have al: "SPI_FLASH_SEC_SIZE dvd w_addr_state1 w" "SPI_FLASH_SEC_SIZE dvd w_addr_state2 w" "SPI_FLASH_SEC_SIZE dvd ?n" using z(1) by (simp_all add: wl_sizes_def Let_def)
  have rs: "length (ws_reserved s) = 7" by (simp add: s_def upgraded_def Let_def)
  let ?m1 = "stamped (w_addr_state1 w) ?n ?b ?m" let ?m2 = "stamped (w_addr_state2 w) ?n ?b ?m1"
  have l1: "length ?m1 = length ?m" using bnd length_with_records [OF rs, of crc "p + 1"] by (intro stamped_read(4)) simp_all
  have t: "length (ws_reserved (w_state ?v)) = 7" "wc_wr_size (w_cfg ?v) = 16" "16 \<le> length (w_temp_buff ?v)" using rs z(2) st(2) by simp_all
  have vs: "w_state_size ?v = ?n" "w_state ?v = s" by simp_all
  note N1 = new_area_rules [OF t, of "w_addr_state1 w" ?m "p + 1" w_addr_state1 crc, unfolded vs]
  note N2 = new_area_rules [OF t, of "w_addr_state2 w" ?m1 "p + 1" w_addr_state2 crc, unfolded vs]
  have "triple (at content up True ?v ?m) (check (\<lambda>w. write_state drv (w_addr_state1 w) w) (check (\<lambda>w. write_records drv crc (w_addr_state1 w) [0..<p + 1] (clear_temp w))
      (check (\<lambda>w. write_state drv (w_addr_state2 w) w) (check (\<lambda>w. write_records drv crc (w_addr_state2 w) [0..<p + 1] (clear_temp w))
        (\<lambda>w. Inr (ESP_OK, w\<lparr>w_state := (w_state w)\<lparr>ws_pos := p\<rparr>\<rparr>))))))
      (\<lambda>w'. base w' = base w \<and> w_state w' = s\<lparr>ws_pos := p\<rparr> \<and> up (w_flash w') \<and> content (w_flash w') = ?m2) (\<lambda>_. False)"
    by (rule triple_check [OF N1(1) triple_check [OF N1(2) triple_check [OF N2(1) triple_check [OF N2(2) triple_return]]]])
      (use bnd al l1 in \<open>simp_all add: base_eq at_def\<close>)
  moreover have "at content up True ?v ?m (w3\<lparr>w_state := s\<rparr>)" using w3(2) by (simp add: at_def base_eq)
  ultimately obtain w4 where w4: "check (\<lambda>w. write_state drv (w_addr_state1 w) w) (check (\<lambda>w. write_records drv crc (w_addr_state1 w) [0..<p + 1] (clear_temp w))
      (check (\<lambda>w. write_state drv (w_addr_state2 w) w) (check (\<lambda>w. write_records drv crc (w_addr_state2 w) [0..<p + 1] (clear_temp w))
        (\<lambda>w. Inr (ESP_OK, w\<lparr>w_state := (w_state w)\<lparr>ws_pos := p\<rparr>\<rparr>))))) (w3\<lparr>w_state := s\<rparr>) = Inr (ESP_OK, w4)"
    "base w4 = base w \<and> w_state w4 = s\<lparr>ws_pos := p\<rparr> \<and> up (w_flash w4) \<and> content (w_flash w4) = ?m2" using tripleD by (fastforce split: if_splits)
  have "updateVersion drv crc rnd w = Inr (ESP_OK, w4)"
    using v f2(1) w3(1) w4(1) p h by (simp add: updateVersion_def updateV1_V2_def v1_found_def Let_def s_def upgraded_def)
  with w4(2) show ?thesis by blast
qed

text \<open>One record more than were found is written, and \<^verbatim>\<open>init\<close> takes the number of records as position.\<close>

lemma init_upgrade:
  fixes w :: "'f wl_flash" and rnd :: nat
  assumes cw: "w_configured w" and z: "wl_sizes w" "wc_wr_size (w_cfg w) = 16" and f: "fits w (content (w_flash w))" and up: "up (w_flash w)" and c: "crc_words crc"
    and v: "v1_found crc w p (content (w_flash w))"
  shows "\<exists>w'. WL_init drv crc rnd w = Inr (ESP_OK, w') \<and> base w' = base (w\<lparr>w_initialized := True\<rparr>) \<and>
    w_state w' = (upgraded crc rnd (first_header w (content (w_flash w))))\<lparr>ws_pos := p + 1\<rparr>"
proof -
  let ?m = "content (w_flash w)" and ?n = "w_state_size w" let ?h = "first_header w ?m" let ?s = "upgraded crc rnd ?h"
  from init_reads [OF cw z(1) f up, of crc rnd] obtain f1 where i: "WL_init drv crc rnd w =
      init_states drv crc rnd (state_of_bytes (mem_read (w_addr_state2 w) sizeof_state ?m)) (w\<lparr>w_initialized := False, w_state := ?h, w_flash := f1\<rparr>)"
    "up f1" "content f1 = ?m" unfolding first_header_def by (elim exE conjE)
  let ?w1 = "w\<lparr>w_initialized := False, w_state := ?h, w_flash := f1\<rparr>" let ?b = "with_records crc ?s (p + 1)"
  have z1: "wl_sizes ?w1" "wc_wr_size (w_cfg ?w1) = 16" "fits ?w1 (content (w_flash ?w1))" "up (w_flash ?w1)" "w_state ?w1 = first_header ?w1 (content (w_flash ?w1))"
    "v1_found crc ?w1 p (content (w_flash ?w1))"
    using z f i(2,3) v by (simp_all add: wl_sizes_def Let_def fits_def first_header_def v1_found_def record_addr_def n_blocks_def)
  let ?m1 = "stamped (w_addr_state1 w) ?n ?b ?m" let ?m2 = "stamped (w_addr_state2 w) ?n ?b ?m1"
  from update_up [OF z1(1-4,6,5), of rnd] i(3) obtain w2 where
    w2: "updateVersion drv crc rnd ?w1 = Inr (ESP_OK, w2)" "base w2 = base ?w1" "w_state w2 = ?s\<lparr>ws_pos := p\<rparr>" "up (w_flash w2)" "content (w_flash w2) = ?m2" by auto
  have e: "w_addr_state1 w2 = w_addr_state1 w" "w_cfg w2 = w_cfg w" "n_blocks w2 = n_blocks w" using w2(2) by (simp_all add: base_eq n_blocks_def)
  have p: "p < n_blocks w" "ws_max_pos ?s = n_blocks w + 1" "ws_device_id ?s = rnd" "length (ws_reserved ?s) = 7"
    using v by (simp_all add: v1_found_def upgraded_def Let_def)
  note st = sizes_temp [OF z(1)]
  have sz: "64 + (n_blocks w + 1) * 16 \<le> ?n" using z by (simp add: wl_sizes_def Let_def n_blocks_def sizeof_state_def)
  have bnd: "w_addr_state1 w + ?n \<le> length ?m" "w_addr_state2 w + ?n \<le> length ?m" "64 + (p + 1) * 16 \<le> ?n" using st(4,6) f sz p(1) by (simp_all add: fits_def)
  have lb: "length ?b \<le> ?n" using bnd(3) length_with_records [OF p(4)] by simp
  note l1 = stamped_read(4) [OF bnd(1) lb] note l2 = stamped_read(4) [OF bnd(2) [folded l1] lb]
  have rb: "rec_bytes (w_addr_state1 w2) j w2 ?m2 = mem_read (w_addr_state1 w + 64 + j * 16) 16 ?m1" if "j \<le> n_blocks w" for j
    using stamped_read(3) [OF bnd(2) [folded l1] lb, of "w_addr_state1 w + 64 + j * 16" 16] st(3) [OF that] bnd(2) l1 z(2)
    by (simp add: rec_bytes_def record_addr_def e sizeof_state_def)
  note wr = with_records_read [OF bnd(1,3) p(4) c, unfolded p(3)]
  have "rec_ok crc rnd j (rec_bytes (w_addr_state1 w2) j w2 ?m2)" if "j < p + 1" for j using wr(1) [OF that] rb [of j] p(1) that by simp
  moreover have "\<not> rec_ok crc rnd (p + 1) (rec_bytes (w_addr_state1 w2) (p + 1) w2 ?m2)"
    using wr(2) rb [of "p + 1"] p(1) sz erased_not_ok [OF c, of 16] by simp
  ultimately have mk: "marked crc (ws_device_id (w_state w2)) (p + 1) (ws_max_pos (w_state w2)) w2 (content (w_flash w2))"
    using p w2(3,5) by (simp add: marked_def)
  have "wl_sizes w2" "fits w2 (content (w_flash w2))" "ws_max_pos (w_state w2) = n_blocks w2 + 1"
    using z(1) f w2(2,3,5) l1 l2 p(2) e(3) by (simp_all add: wl_sizes_def Let_def fits_def base_eq)
  from recoverPos_up [OF this mk w2(4)] obtain w3 where w3: "recoverPos drv crc w2 = Inr (ESP_OK, w3)" "base w3 = base w2"
    "w_state w3 = (w_state w2)\<lparr>ws_pos := min (p + 1) (n_blocks w2)\<rparr>" by (elim exE conjE)
  have "WL_init drv crc rnd w = Inr (ESP_OK, w3\<lparr>w_initialized := True\<rparr>)"
    using i(1) w2(1) w3(1) v by (simp add: init_states_def check_def init_done_def v1_found_def Let_def)
  moreover have "base (w3\<lparr>w_initialized := True\<rparr>) = base (w\<lparr>w_initialized := True\<rparr>)" using w3(2) w2(2) by (simp add: base_eq)
  moreover have "w_state (w3\<lparr>w_initialized := True\<rparr>) = ?s\<lparr>ws_pos := p + 1\<rparr>" using w3(3) w2(3) e(3) p(1) by simp
  ultimately show ?thesis by blast
qed

end

end
