(* ===== verification/WL_Sim.thy ===== *)
theory WL_Sim
  imports WL_Upgrade
begin

text \<open>
  A system to run: the simulated chip with a partition, erased, with a lost first state or with a state
  of version 1, and a checksum with the properties that are assumed of the CRC.
\<close>

section \<open>A checksum\<close>

definition sim_crc :: "byte list \<Rightarrow> nat" where
  "sim_crc bs = (le32_dec (take 4 (bs @ replicate 4 0)) + 1) mod 2 ^ 32"

lemma digits_eq: "x + 256 * y = x' + 256 * y' \<Longrightarrow> x < 256 \<Longrightarrow> x' < 256 \<Longrightarrow> x = x' \<and> y = (y' :: nat)"
proof -
  assume a: "x + 256 * y = x' + 256 * y'" "x < 256" "x' < 256"
  have "x = (x + 256 * y) mod 256" "x' = (x' + 256 * y') mod 256" using a(2,3) by simp_all
  then have "x = x'" using a(1) by (simp only:)
  then show ?thesis using a(1) by simp
qed

lemma le32_dec_inj:
  assumes "le32_dec bs = le32_dec bs'" "length bs = 4" "length bs' = 4"
  shows "bs = bs'"
proof -
  obtain a b c d where x: "bs = [a, b, c, d]" using assms(2) by (auto simp: numeral_eq_Suc length_Suc_conv)
  obtain a' b' c' d' where x': "bs' = [a', b', c', d']" using assms(3) by (auto simp: numeral_eq_Suc length_Suc_conv)
  have l: "unat z < 256" for z :: byte using unsigned_less [of z, where 'a = nat] by simp
  have "unat a + 256 * (unat b + 256 * (unat c + 256 * unat d)) = unat a' + 256 * (unat b' + 256 * (unat c' + 256 * unat d'))"
    using assms(1) by (simp add: x x' le32_dec_def)
  from digits_eq [OF this l l] digits_eq [OF _ l l, of b _ b'] digits_eq [OF _ l l, of c _ c'] have "unat a = unat a'" "unat b = unat b'" "unat c = unat c'" "unat d = unat d'"
    by blast+
  then have "a = a'" "b = b'" "c = c'" "d = d'" by (simp_all only: unsigned_word_eqI)
  then show ?thesis by (simp add: x x')
qed

lemma sim_crc_words: "crc_words sim_crc"
proof -
  have "inj_on sim_crc {bs. length bs = 4}"
  proof (rule inj_onI)
    fix x y :: "byte list" assume a: "x \<in> {bs. length bs = 4}" "y \<in> {bs. length bs = 4}" "sim_crc x = sim_crc y"
    then have "(1 + le32_dec x) mod 2 ^ 32 = (1 + le32_dec y) mod 2 ^ 32" by (simp add: sim_crc_def)
    from rot_inj [OF this le32_dec_bound le32_dec_bound] show "x = y" using le32_dec_inj a by simp
  qed
  then show ?thesis by (simp add: crc_words_def sim_crc_def)
qed

lemma sim_crc_le32: "v < 2 ^ 32 \<Longrightarrow> sim_crc (le32 v @ bs) = (v + 1) mod 2 ^ 32"
  by (simp add: sim_crc_def)

section \<open>Systems\<close>

definition sim_object :: "sim_flash wl_flash" where
  "sim_object = \<lparr>w_configured = False, w_initialized = False, w_state = state_of_bytes (replicate 64 0),
     w_cfg = \<lparr>wc_start_addr = 0, wc_full_mem_size = 0, wc_page_size = 0, wc_sector_size = 0, wc_updaterate = 0, wc_wr_size = 0, wc_version = 0,
       wc_temp_buff_size = 0, wc_crc = 0, wc_padding = replicate 12 0\<rparr>,
     w_addr_cfg = 0, w_addr_state1 = 0, w_addr_state2 = 0, w_flash_size = 0, w_state_size = 0, w_cfg_size = 0, w_temp_buff = [], w_dummy_addr = 0,
     w_flash = \<lparr>sim_mem = [], sim_faults = []\<rparr>\<rparr>"

definition sim_env :: "sim_flash mount_env" where
  "sim_env = \<lparr>me_partition = True, me_wl_flash = Some sim_object, me_malloc = (\<lambda>k. Some (replicate k 0)), me_random = 7, me_crc = 0, me_padding = replicate 12 0\<rparr>"

definition sim_sys :: "mem \<Rightarrow> sim_flash wl_system" where
  "sim_sys m = \<lparr>wls_chip = \<lparr>sim_mem = m, sim_faults = []\<rparr>, s_instances = replicate 8 None\<rparr>"

text \<open>A partition of \<open>k\<close> sectors after the first 64 KiB.\<close>

definition sectors_part :: "nat \<Rightarrow> esp_partition_t" where
  "sectors_part k = \<lparr>pt_address = 65536, pt_size = k * 4096\<rparr>"

definition chip_mem :: "mem \<Rightarrow> mem" where
  "chip_mem m = replicate 65536 255 @ m"

lemma sectors_part: "k < 2 ^ 19 \<Longrightarrow> partition_on_chip sim_chip sim_mem sim_up (sectors_part k)"
  by unfold_locales (simp_all add: sectors_part_def SPI_FLASH_SEC_SIZE_def)

lemma slice_chip: "length m = k * 4096 \<Longrightarrow> slice (sectors_part k) (chip_mem m) = m"
  by (simp add: slice_def mem_read_def sectors_part_def chip_mem_def)

lemma sim_env_ok: "env_ok sim_env"
  by (simp add: env_ok_def sim_env_def)

lemma sim_sys_ok: "sys_ok sim_chip sim_mem sim_up sim_crc (sim_sys m)" "free_handle 0 (s_instances (sim_sys m)) = Some 0"
  by (simp add: sys_ok_def sim_sys_def MAX_WL_HANDLES_def sim_up_def) (simp add: sim_sys_def numeral_eq_Suc)

lemma sim_mountable:
  assumes "5 \<le> k" "k < 2 ^ 19" "length m = k * 4096"
  shows "mountable sim_chip sim_mem sim_up (sectors_part k) k (sim_sys (chip_mem m))"
proof -
  have "(k - 2 - 2 * state_sectors k) * 4096 \<le> k * 4096" by (rule mult_le_mono1) simp
  then have "(k - 2 - 2 * state_sectors k) * 4096 < 2 ^ 31" using assms(2) by simp
  then show ?thesis using assms sectors_part [OF assms(2)] by (simp add: mountable_def sim_sys_def chip_mem_def MAX_WL_HANDLES_def) (simp add: sectors_part_def)
qed

text \<open>The configured object.\<close>

lemma sim_configured:
  assumes "5 \<le> k" "k < 2 ^ 19" "length m = k * 4096"
  shows "\<exists>w. w_flash w = \<lparr>sim_mem = chip_mem m, sim_faults = []\<rparr> \<and> w_configured w \<and> laid_out k w \<and> cfg_ok w \<and> fits w m"
proof -
  have "sim_up (wls_chip (sim_sys (chip_mem m)))" "me_wl_flash sim_env = Some sim_object" by (simp_all add: sim_sys_def sim_up_def sim_env_def)
  from mount_object [OF sim_env_ok sim_mountable [OF assms] sim_crc_words this] show ?thesis
    using slice_chip [OF assms(3)] by (auto simp: sim_sys_def)
qed

section \<open>An erased partition\<close>

lemma state_of_erased:
  defines "h \<equiv> state_of_bytes (replicate sizeof_state 255)"
  shows "state_crc sim_crc h = 0" "ws_crc h = 4294967295" "ws_version h = 4294967295" "ws_device_id h = 4294967295"
proof -
  have w: "word_at i (replicate 64 255) = 4294967295" if "i < 16" for i
    using that by (simp add: word_at_def le32_dec_def min_def)
  show "ws_crc h = 4294967295" "ws_version h = 4294967295" "ws_device_id h = 4294967295" using w by (simp_all add: h_def state_of_bytes_def sizeof_state_def)
  have p: "ws_pos h = 4294967295" using w [of 0] by (simp add: h_def state_of_bytes_def sizeof_state_def)
  have "take 60 (le32 (ws_pos h) @ xs) = le32 (ws_pos h) @ take 56 xs" for xs by simp
  then show "state_crc sim_crc h = 0" by (simp add: state_crc_def WL_STATE_CRC_LEN_V2_def state_bytes_def p sim_crc_le32)
qed

lemma erased_unformatted:
  assumes "a1 + 64 \<le> n" "a2 + 64 \<le> n"
  shows "unformatted sim_crc a1 a2 (replicate n 255)"
proof -
  have "mem_read a sizeof_state (replicate n 255) = replicate sizeof_state 255" if "a + 64 \<le> n" for a
    using that by (simp add: mem_read_def sizeof_state_def min_def)
  from this [OF assms(1)] this [OF assms(2)] state_of_erased show ?thesis by (simp add: unformatted_def)
qed

lemma sim_mounted:
  "\<exists>sys. wl_mount sim_chip sim_crc sim_env (sectors_part 12) (sim_sys (chip_mem (replicate 49152 255))) = Inr (ESP_OK, int 0, sys) \<and>
     sys_ok sim_chip sim_mem sim_up sim_crc sys \<and> mounted sys 0 \<and> wl_size 0 sys = Inr 32768"
proof -
  let ?s = "sim_sys (chip_mem (replicate 49152 255))"
  have ss: "state_sectors 12 = 1" by (simp add: state_sectors_def)
  have "unformatted sim_crc ((12 - 1 - 2 * state_sectors 12) * 4096) ((12 - 1 - state_sectors 12) * 4096) (slice (sectors_part 12) (sim_mem (wls_chip ?s)))"
    unfolding ss sim_sys_def wl_system.simps sim_flash.simps by (subst slice_chip) (simp_all add: erased_unformatted)
  from mount_fresh [OF sim_sys_ok(1) sim_env_ok sim_mountable sim_crc_words sim_sys_ok(2) this] show ?thesis by (auto simp: ss)
qed

text \<open>A started object.\<close>

lemma sim_started:
  "\<exists>w. holds (\<lambda>f. slice (sectors_part 12) (sim_mem f)) (partition_up (sectors_part 12) sim_mem sim_up) sim_crc True (base w)
       (vmem w (slice (sectors_part 12) (sim_mem (w_flash w)))) w \<and> laid_out 12 w \<and> w_initialized w \<and> w_configured w \<and> ws_pos (w_state w) = 0"
proof -
  let ?m = "replicate 49152 255 :: mem"
  have ss: "state_sectors 12 = 1" by (simp add: state_sectors_def)
  from sim_configured [of 12 ?m] obtain n where n: "w_flash n = \<lparr>sim_mem = chip_mem ?m, sim_faults = []\<rparr>" "w_configured n" "laid_out 12 n" "cfg_ok n" "fits n ?m" by auto
  have sl: "slice (sectors_part 12) (sim_mem (w_flash n)) = ?m" using slice_chip [of ?m 12] by (simp add: n(1))
  have up: "partition_up (sectors_part 12) sim_mem sim_up (w_flash n)" by (simp add: partition_up_def n(1) sim_up_def sectors_part_def chip_mem_def)
  have un: "unformatted sim_crc (w_addr_state1 n) (w_addr_state2 n) ?m" using n(3) by (simp add: laid_out_def ss erased_unformatted)
  have pc: "partition_on_chip sim_chip sim_mem sim_up (sectors_part 12)" by (rule sectors_part) simp
  from flash_driver.init_fresh [OF partition_on_chip.partition_driver [OF pc] n(2,4) _ up sim_crc_words, of 7] n(5) un sl obtain w where
    w: "base w = base (n\<lparr>w_initialized := True\<rparr>)" "ws_pos (w_state w) = 0"
    "holds (\<lambda>f. slice (sectors_part 12) (sim_mem f)) (partition_up (sectors_part 12) sim_mem sim_up) sim_crc True (base w)
       (vmem w (slice (sectors_part 12) (sim_mem (w_flash w)))) w" by auto
  have "laid_out 12 w" "w_initialized w" "w_configured w" using w(1) n(2,3) by (simp_all add: base_eq laid_out_def)
  then show ?thesis using w(2,3) by blast
qed

section \<open>A lost first state\<close>

definition lost_state :: "nat \<Rightarrow> wl_state" where
  "lost_state k = \<lparr>ws_pos = 0, ws_max_pos = k - 3, ws_move_count = 0, ws_access_count = 0, ws_max_count = 16, ws_block_size = 4096, ws_version = 2,
     ws_device_id = 7, ws_reserved = replicate 7 0, ws_crc = 1\<rparr>"

definition lost_bytes :: "nat \<Rightarrow> byte list" where
  "lost_bytes k = state_bytes (lost_state k) @ concat (map (ok_bytes sim_crc 7) [0..<k - 3])"

definition lost_mem :: "nat \<Rightarrow> mem" where
  "lost_mem k = mem_write ((k - 2) * 4096) (lost_bytes k) (replicate (k * 4096) 255)"

lemma lost_state_ok: "k < 2 ^ 19 \<Longrightarrow> bounded (lost_state k)" "state_crc sim_crc (lost_state k) = ws_crc (lost_state k)" "length (state_bytes (lost_state k)) = 64"
proof -
  show "k < 2 ^ 19 \<Longrightarrow> bounded (lost_state k)" by (simp add: bounded_def lost_state_def)
  show "length (state_bytes (lost_state k)) = 64" using length_state_bytes [of "lost_state k"] by (simp add: lost_state_def sizeof_state_def)
  have "take 60 (le32 (ws_pos (lost_state k)) @ xs) = le32 (ws_pos (lost_state k)) @ take 56 xs" for xs by simp
  then show "state_crc sim_crc (lost_state k) = ws_crc (lost_state k)"
    by (simp add: state_crc_def WL_STATE_CRC_LEN_V2_def state_bytes_def sim_crc_le32) (simp add: lost_state_def sim_crc_le32)
qed

lemma lost_mem_read:
  assumes "5 \<le> k" "k \<le> 252"
  shows "length (lost_mem k) = k * 4096" "mem_read ((k - 2) * 4096) 64 (lost_mem k) = state_bytes (lost_state k)"
    "i < k - 3 \<Longrightarrow> mem_read ((k - 2) * 4096 + 64 + i * 16) 16 (lost_mem k) = ok_bytes sim_crc 7 i"
    "p + n \<le> k * 4096 \<Longrightarrow> p + n \<le> (k - 2) * 4096 \<or> (k - 2) * 4096 + 64 + (k - 3) * 16 \<le> p \<Longrightarrow> mem_read p n (lost_mem k) = replicate n 255"
proof -
  let ?a = "(k - 2) * 4096" and ?m = "replicate (k * 4096) (255 :: byte)"
  have lb: "length (lost_bytes k) = 64 + (k - 3) * 16" by (simp add: lost_bytes_def length_records lost_state_ok(3) mult.commute)
  obtain j where j: "k = j + 5" "j \<le> 247" using assms le_Suc_ex [of 5 k] by auto
  have fit: "?a + length (lost_bytes k) \<le> length ?m" unfolding lb by (simp add: j(1)) (use j(2) in linarith)
  show "length (lost_mem k) = k * 4096" unfolding lost_mem_def using fit by simp
  have all: "mem_read ?a (64 + (k - 3) * 16) (lost_mem k) = lost_bytes k" unfolding lost_mem_def by (rule mem_read_write_same [OF fit lb [symmetric]])
  have sub: "mem_read (?a + x) n (lost_mem k) = take n (drop x (lost_bytes k))" if "x + n \<le> 64 + (k - 3) * 16" for x n
    unfolding all [symmetric] mem_read_def using that by (simp add: drop_take add.commute min_def)
  show "mem_read ?a 64 (lost_mem k) = state_bytes (lost_state k)" using sub [of 0 64] by (simp add: lost_bytes_def lost_state_ok(3))
  show "mem_read (?a + 64 + i * 16) 16 (lost_mem k) = ok_bytes sim_crc 7 i" if i: "i < k - 3"
  proof -
    have "64 + i * 16 + 16 \<le> 64 + (k - 3) * 16" using i by linarith
    from sub [OF this] show ?thesis using nth_record [OF i] by (simp add: lost_bytes_def lost_state_ok(3) add.assoc mult.commute)
  qed
  show "mem_read p n (lost_mem k) = replicate n 255" if "p + n \<le> k * 4096" "p + n \<le> ?a \<or> ?a + 64 + (k - 3) * 16 \<le> p"
  proof -
    have "mem_read p n (lost_mem k) = mem_read p n ?m"
      unfolding lost_mem_def by (rule mem_read_write_disjoint [OF fit]) (use that lb in auto)
    then show ?thesis using that(1) by (simp add: mem_read_def min_def)
  qed
qed

lemma lost_layout:
  assumes "laid_out k w" "5 \<le> k" "k \<le> 252"
  shows "w_addr_state2 w = (k - 2) * 4096" "w_addr_state1 w = (k - 3) * 4096" "n_blocks w = k - 4" "wc_wr_size (w_cfg w) = 16" "wc_version (w_cfg w) = 2"
    "record_addr a i w = a + 64 + i * 16" "record_indices w = [0..<k * 16]"
proof -
  have s: "state_sectors k = 1" using assms(3) by (simp add: state_sectors_def)
  show "w_addr_state2 w = (k - 2) * 4096" "w_addr_state1 w = (k - 3) * 4096" "n_blocks w = k - 4" "wc_wr_size (w_cfg w) = 16" "wc_version (w_cfg w) = 2"
    "record_addr a i w = a + 64 + i * 16" using assms(1) unfolding laid_out_def s by (simp_all add: n_blocks_def record_addr_def sizeof_state_def)
  have "umul k 16 = k * 16" using assms(3) by (intro umul_small) simp
  then show "record_indices w = [0..<k * 16]" using assms(1) by (simp add: laid_out_def record_indices_def)
qed

lemma lost_first:
  assumes "laid_out k w" "5 \<le> k" "k \<le> 252"
  shows "first_lost sim_crc w (lost_state k) (lost_mem k)"
proof -
  note ll = lost_layout [OF assms] and lr = lost_mem_read [OF assms(2,3)] and le = state_of_erased
  have k: "k - 3 = Suc (k - 4)" "k < 2 ^ 19" and k23: "k - 2 = Suc (k - 3)" using assms(2,3) by simp_all
  have "mem_read ((k - 3) * 4096) sizeof_state (lost_mem k) = replicate sizeof_state 255"
    by (rule lr(4)) (use assms(2) in \<open>simp_all add: sizeof_state_def k23\<close>)
  then have h: "first_header w (lost_mem k) = state_of_bytes (replicate sizeof_state 255)" by (simp add: first_header_def ll)
  have "rec_ok sim_crc 7 i (rec_bytes (w_addr_state2 w) i w (lost_mem k))" if "i \<le> n_blocks w" for i
    by (rule rec_ok_bytes [OF sim_crc_words]) (use that lr(3) [of i] k(1) in \<open>simp add: rec_bytes_def ll length_ok_bytes\<close>)
  moreover have "\<not> rec_ok sim_crc d i (rec_bytes (w_addr_state2 w) i w (lost_mem k))"
    if "n_blocks w < i" "record_addr (w_addr_state2 w) i w + wc_wr_size (w_cfg w) \<le> length (lost_mem k)" for i d
  proof -
    have "rec_bytes (w_addr_state2 w) i w (lost_mem k) = replicate 16 255"
      unfolding rec_bytes_def ll by (rule lr(4)) (use that lr(1) k(1) in \<open>simp_all add: ll\<close>)
    then show ?thesis using erased_not_ok [OF sim_crc_words, of 16] by simp
  qed
  ultimately show ?thesis using lost_state_ok(1) [OF k(2)] lost_state_ok(2) lr(2) h le k(1)
    by (simp add: first_lost_def ll sizeof_state_def) (simp add: lost_state_def)
qed

end
