(* ===== verification/WL_Props.thy ===== *)
theory WL_Props
  imports WL_Sim
begin

text \<open>
  The properties of the wear levelling over a partition of a flash chip, with instances on the simulated
  chip.
\<close>

section \<open>Layouts\<close>

lemma laid_out_fits:
  assumes "laid_out k w" "5 \<le> k" "k < 2 ^ 19" "pt_size part = k * 4096" "partition_up part content up f"
  shows "wl_sizes w" "fits w (slice part (content f))" "length (slice part (content f)) = k * 4096"
proof -
  have "(k - 2 - 2 * state_sectors k) * 4096 \<le> k * 4096" by (rule mult_le_mono1) simp
  then have "w_flash_size w < 2 ^ 31" using assms(1,3) by (simp add: laid_out_def)
  with laid_out_sizes [OF assms(1,2)] assms(3) have z: "wl_sizes w" "w_addr_cfg w + w_cfg_size w = k * 4096" by simp_all
  show "wl_sizes w" by (rule z(1))
  show l: "length (slice part (content f)) = k * 4096" using assms(4,5) by (auto simp: length_slice partition_up_def)
  show "fits w (slice part (content f))" using z(2) l by (simp add: fits_def)
qed

text \<open>The number of records that the loop of the recovery finds in the partition.\<close>

lemma records_in_partition:
  assumes "laid_out k w" "32 \<le> k" "k < 2 ^ 19"
  defines "i0 \<equiv> (1 + state_sectors k) * 256 - 4"
  shows "record_indices w = [0..<i0] @ i0 # [Suc i0..<k * 16]"
    "i < i0 \<Longrightarrow> record_addr (w_addr_state2 w) i w + wc_wr_size (w_cfg w) \<le> k * 4096" "k * 4096 < record_addr (w_addr_state2 w) i0 w + wc_wr_size (w_cfg w)"
proof -
  define s where "s = state_sectors k"
  have s: "1 \<le> s" "2 * s + 3 \<le> k" using state_sectors(1) [of k] state_sectors(3) [of k] assms(2) by (simp_all add: s_def)
  have "(64 + k * 16 + 4095) div 4096 * 4096 \<le> 64 + k * 16 + 4095" by simp
  then have s2: "s = 1 \<or> 253 \<le> k \<and> s * 4096 \<le> k * 16 + 4159" by (auto simp: s_def state_sectors_def)
  have "(1 + s) * 256 - 4 < k * 16" using s2 assms(2) by auto
  then have i0: "i0 < k * 16" "i0 + 4 = (1 + s) * 256" using s(1) by (simp_all add: i0_def s_def [symmetric])
  have "umul k 16 = k * 16" using assms(3) by (intro umul_small) simp
  then have "record_indices w = [0..<k * 16]" using assms(1) by (simp add: laid_out_def record_indices_def)
  also have "\<dots> = [0..<i0] @ i0 # [Suc i0..<k * 16]" using i0(1) upt_add_eq_append [of 0 i0 "k * 16 - i0"] by (simp add: upt_conv_Cons)
  finally show "record_indices w = [0..<i0] @ i0 # [Suc i0..<k * 16]" .
  obtain j where j: "k = j + 1 + s" using s(2) le_Suc_ex [of "1 + s" k] by auto
  have a: "record_addr (w_addr_state2 w) i w + wc_wr_size (w_cfg w) = j * 4096 + 64 + i * 16 + 16" for i
    using assms(1) unfolding laid_out_def s_def [symmetric] by (simp add: record_addr_def sizeof_state_def j)
  show "k * 4096 < record_addr (w_addr_state2 w) i0 w + wc_wr_size (w_cfg w)" unfolding a using i0(2) j by simp
  show "i < i0 \<Longrightarrow> record_addr (w_addr_state2 w) i w + wc_wr_size (w_cfg w) \<le> k * 4096" unfolding a using i0(2) j by simp
qed

lemma laid_out_base: "laid_out k (w\<lparr>w_initialized := b\<rparr>) = laid_out k w" "wl_sizes (w\<lparr>w_initialized := b\<rparr>) = wl_sizes w"
    "n_blocks (w\<lparr>w_initialized := b\<rparr>) = n_blocks w"
  by (simp_all add: laid_out_def wl_sizes_def Let_def n_blocks_def)

section \<open>Accesses\<close>

text \<open>
  C32. A sequence of requests to an initialised \<^verbatim>\<open>WL_Flash\<close> over a partition behaves like the sequence on a
  flat flash memory, whatever errors the flash chip has: a request that reports success has its effect
  on the storage, one that reports an error changes at most its own range, and the moves of blocks in
  between are not visible. The requests are inside the storage, erases are of whole sectors, and reads
  and writes are not empty and begin at the beginning of a page or stay within one. For other reads and
  writes, which the documentation does not exclude, this does not hold (C40).
\<close>

theorem wl_calls_flat:
  assumes "partition_on_chip chip content up part" "wl_geom w" "fits w (slice part (content (w_flash w)))" "w_initialized w"
    and "\<forall>q \<in> set qs. req_ok (wc_page_size (w_cfg w)) (w_flash_size w) q"
  shows "\<exists>rs w'. wl_calls (Partition_t chip part) crc qs w = Inr (rs, w') \<and>
    flat_run (vmem w (slice part (content (w_flash w)))) qs rs (vmem w' (slice part (content (w_flash w')))) \<and>
    wl_geom w' \<and> fits w' (slice part (content (w_flash w'))) \<and> w_flash_size w' = w_flash_size w"
proof -
  have "holds (\<lambda>f. slice part (content f)) (partition_up part content up) crc False (base w) (vmem w (slice part (content (w_flash w)))) w"
    using assms(2,3) by (simp add: holds_def)
  moreover have "fst (snd (base w))" using assms(4) by (simp add: base_def)
  ultimately obtain rs w' v' where r: "wl_calls (Partition_t chip part) crc qs w = Inr (rs, w')"
    "flat_run (vmem w (slice part (content (w_flash w)))) qs rs v'"
    "holds (\<lambda>f. slice part (content f)) (partition_up part content up) crc False (base w) v' w'"
    using flash_driver.calls_refine [OF partition_on_chip.partition_driver [OF assms(1)]] assms(5) of_base [of w] by metis
  then show ?thesis by (intro exI [of _ rs] exI [of _ w']) (auto simp: holds_def base_eq)
qed

theorem wl_calls_flat_witness:
  "\<exists>w rs w'. wl_calls (Partition_t sim_chip (sectors_part 12)) sim_crc [Req_write 5 [1, 2], Req_erase 0 8192, Req_read 100 3, Req_flush] w = Inr (rs, w') \<and>
    flat_run (vmem w (slice (sectors_part 12) (sim_mem (w_flash w)))) [Req_write 5 [1, 2], Req_erase 0 8192, Req_read 100 3, Req_flush] rs
      (vmem w' (slice (sectors_part 12) (sim_mem (w_flash w'))))"
proof -
  obtain w where w: "holds (\<lambda>f. slice (sectors_part 12) (sim_mem f)) (partition_up (sectors_part 12) sim_mem sim_up) sim_crc True (base w)
       (vmem w (slice (sectors_part 12) (sim_mem (w_flash w)))) w" "laid_out 12 w" "w_initialized w" using sim_started by blast
  have "partition_on_chip sim_chip sim_mem sim_up (sectors_part 12)" by (rule sectors_part) simp
  from wl_calls_flat [OF this, of w "[Req_write 5 [1, 2], Req_erase 0 8192, Req_read 100 3, Req_flush]" sim_crc] w show ?thesis
    by (auto simp: holds_def laid_out_def req_ok_def in_page_def state_sectors_def SPI_FLASH_SEC_SIZE_def)
qed

text \<open>
  C33. A power failure in the middle of a round: a flush, the erase of one sector, or a write that is not
  empty, lies in the storage and begins at the beginning of a page or stays within one, is interrupted
  at any step of the flash, which leaves arbitrary contents in the range of that step. When the object is
  started again over the same flash contents, \<^verbatim>\<open>init\<close> succeeds and the storage holds what a flat memory
  would hold after the request was done or interrupted: at most the range of the request has changed.
  The last position of a round is excluded: there the headers of the states are replaced, and a failure
  between the two is the case of C37 and C38.
\<close>

theorem interrupted_call:
  assumes "partition_on_chip chip content up part" "wl_geom w" "fits w (slice part (content (w_flash w)))" "stored crc w (slice part (content (w_flash w)))"
    and "crc_words crc" "w_initialized w" "ws_pos (w_state w) + 1 < ws_max_pos (w_state w)"
    and "req_ok (wc_page_size (w_cfg w)) (w_flash_size w) q" "one_move q"
  shows "\<exists>r w' v. wl_call (Partition_t chip part) crc q w = Inr (r, w') \<and> flat_step (vmem w (slice part (content (w_flash w)))) q r v \<and>
    fits w (slice part (content (w_flash w'))) \<and>
    (\<forall>n. like w n \<longrightarrow> partition_up part content up (w_flash n) \<longrightarrow> slice part (content (w_flash n)) = slice part (content (w_flash w')) \<longrightarrow>
      (\<exists>w''. WL_init (Partition_t chip part) crc rnd n = Inr (ESP_OK, w'') \<and> wl_geom w'' \<and> vmem w'' (slice part (content (w_flash w''))) = v))"
proof -
  let ?c = "\<lambda>f. slice part (content f)" and ?u = "partition_up part content up"
  note fd = partition_on_chip.partition_driver [OF assms(1)]
  from flash_driver.crash_call [OF fd assms(2-9), of rnd] obtain r w' v where
    c: "wl_call (Partition_t chip part) crc q w = Inr (r, w')" "flat_step (vmem w (?c (w_flash w))) q r v"
    "\<forall>n. like w n \<longrightarrow> ?u (w_flash n) \<longrightarrow> ?c (w_flash n) = ?c (w_flash w') \<longrightarrow> survives (Partition_t chip part) ?c ?u crc rnd w n v" by (elim exE conjE)
  have "holds ?c ?u crc False (base w) (vmem w (?c (w_flash w))) w" "fst (snd (base w))" using assms(2,3,6) by (simp_all add: holds_def base_def)
  from flash_driver.call_refines [OF fd this, of q] assms(8) c(1) obtain v' where "holds ?c ?u crc False (base w) v' w'" by auto
  then have "fits w (?c (w_flash w'))" using fits_base [of w' w] by (auto simp: holds_def)
  moreover have "\<exists>w''. WL_init (Partition_t chip part) crc rnd n = Inr (ESP_OK, w'') \<and> wl_geom w'' \<and> vmem w'' (?c (w_flash w'')) = v"
    if "like w n" "?u (w_flash n)" "?c (w_flash n) = ?c (w_flash w')" for n
    using c(3) that by (auto simp: survives_def holds_def)
  ultimately show ?thesis using c(1,2) by (intro exI [of _ r] exI [of _ w'] exI [of _ v]) simp
qed

theorem interrupted_call_witness:
  "\<exists>w r w' v. sim_faults (w_flash w) = [Some (replicate 4096 0)] \<and>
    wl_call (Partition_t sim_chip (sectors_part 12)) sim_crc (Req_erase 4096 4096) w = Inr (r, w') \<and>
    flat_step (vmem w (slice (sectors_part 12) (sim_mem (w_flash w)))) (Req_erase 4096 4096) r v \<and>
    (\<exists>n w''. sim_mem (w_flash n) = sim_mem (w_flash w') \<and> WL_init (Partition_t sim_chip (sectors_part 12)) sim_crc 3 n = Inr (ESP_OK, w'') \<and>
      vmem w'' (slice (sectors_part 12) (sim_mem (w_flash w''))) = v)"
proof -
  let ?p = "sectors_part 12"
  obtain w0 where w0: "holds (\<lambda>f. slice ?p (sim_mem f)) (partition_up ?p sim_mem sim_up) sim_crc True (base w0)
       (vmem w0 (slice ?p (sim_mem (w_flash w0)))) w0" "laid_out 12 w0" "w_initialized w0" "w_configured w0" "ws_pos (w_state w0) = 0" using sim_started by blast
  let ?w = "w0\<lparr>w_flash := (w_flash w0)\<lparr>sim_faults := [Some (replicate 4096 0)]\<rparr>\<rparr>"
  have g: "wl_geom ?w" "fits ?w (slice ?p (sim_mem (w_flash ?w)))" "stored sim_crc ?w (slice ?p (sim_mem (w_flash ?w)))"
    using w0(1) geom_core(1) [of ?w w0] by (simp_all add: holds_def fits_def stored_def header_ok_def rec_bytes_def record_addr_def)
  have sz: "w_flash_size w0 = 32768" "wc_page_size (w_cfg w0) = 4096" "w_addr_cfg w0 + w_cfg_size w0 = 49152" using w0(2) by (simp_all add: laid_out_def state_sectors_def)
  then have "ws_max_pos (w_state w0) = 9" using w0(1) by (simp add: holds_def wl_geom_def wl_pos_ok_def n_blocks_def)
  then have q: "w_initialized ?w" "ws_pos (w_state ?w) + 1 < ws_max_pos (w_state ?w)" "req_ok (wc_page_size (w_cfg ?w)) (w_flash_size ?w) (Req_erase 4096 4096)" "one_move (Req_erase 4096 4096)"
    using w0(3,5) sz by (simp_all add: req_ok_def one_move_def SPI_FLASH_SEC_SIZE_def)
  have pc: "partition_on_chip sim_chip sim_mem sim_up ?p" by (rule sectors_part) simp
  from interrupted_call [OF pc g sim_crc_words q, of 3] obtain r w' v where
    c: "wl_call (Partition_t sim_chip ?p) sim_crc (Req_erase 4096 4096) ?w = Inr (r, w')" "flat_step (vmem ?w (slice ?p (sim_mem (w_flash ?w)))) (Req_erase 4096 4096) r v"
    "fits ?w (slice ?p (sim_mem (w_flash w')))"
    "\<forall>n. like ?w n \<longrightarrow> partition_up ?p sim_mem sim_up (w_flash n) \<longrightarrow> slice ?p (sim_mem (w_flash n)) = slice ?p (sim_mem (w_flash w')) \<longrightarrow>
      (\<exists>w''. WL_init (Partition_t sim_chip ?p) sim_crc 3 n = Inr (ESP_OK, w'') \<and> wl_geom w'' \<and> vmem w'' (slice ?p (sim_mem (w_flash w''))) = v)" by (elim exE conjE)
  let ?n = "?w\<lparr>w_flash := \<lparr>sim_mem = sim_mem (w_flash w'), sim_faults = []\<rparr>\<rparr>"
  have "like ?w ?n" using w0(3,4) by (simp add: like_def base_eq)
  moreover have "partition_up ?p sim_mem sim_up (w_flash ?n)"
    using c(3) sz(3) by (simp add: partition_up_def sim_up_def fits_def length_slice) (simp add: sectors_part_def)
  ultimately obtain w'' where "WL_init (Partition_t sim_chip ?p) sim_crc 3 ?n = Inr (ESP_OK, w'')" "vmem w'' (slice ?p (sim_mem (w_flash w''))) = v"
    using c(4) [rule_format, of ?n] by auto
  then show ?thesis using c(1,2) by (intro exI [of _ ?w] exI [of _ r] exI [of _ w'] exI [of _ v] conjI exI [of _ ?n] exI [of _ w'']) simp_all
qed

section \<open>Mounted partitions\<close>

text \<open>
  C34. Any sequence of calls of \<^verbatim>\<open>wl_read\<close>, \<^verbatim>\<open>wl_write\<close> and \<^verbatim>\<open>wl_erase_range\<close> for the mounted partitions of a
  flash chip that works succeeds, and acts on every storage like the calls for its handle on a flat
  flash memory of its own; the storages do not influence each other, and the system stays well formed.
  The calls are inside the storage, erases are of whole sectors, and reads and writes are not empty and
  begin at the beginning of a page or stay within one; the documentation does not limit them to pages,
  and C40 shows what happens to a write across one.
\<close>

theorem api_calls_flat:
  assumes "sys_ok chip content up crc sys" "\<forall>q \<in> set qs. api_ok sys q" "crc_words crc"
  shows "\<exists>rs sys'. api_calls chip crc qs sys = Inr (rs, sys') \<and> flat_system (storages content sys) qs rs (storages content sys') \<and> sys_ok chip content up crc sys'"
  using assms by (rule api_calls_ok)

lemma sim_api_ok:
  assumes "sys_ok sim_chip sim_mem sim_up sim_crc sys" "mounted sys 0" "wl_size 0 sys = Inr 32768"
    "api_handle q = 0" "req_ok 4096 32768 (api_wl q)"
  shows "api_ok sys q"
proof -
  from mounted_instance [OF assms(1,2)] obtain part w where i: "s_instances sys ! 0 = Some (part, w)" "ready sim_mem sim_up sim_crc (wls_chip sys) part w" by (elim exE conjE)
  have "wc_page_size (w_cfg w) = 4096" using i(2) by (auto simp: ready_def laid_for_def laid_out_def)
  moreover have "w_flash_size w = 32768" using assms(3) check_mounted [OF assms(1,2)] i by (simp add: wl_size_def WL_chip_size_def ready_def split: if_splits)
  ultimately show ?thesis using assms(2,4,5) i(1) by (simp add: api_ok_def)
qed

theorem api_calls_flat_witness:
  "\<exists>sys rs sys'. mounted sys 0 \<and> api_calls sim_chip sim_crc [Api_erase 0 0 4096, Api_write 0 16 [1, 2, 3], Api_read 0 0 4096] sys = Inr (rs, sys') \<and>
    flat_system (storages sim_mem sys) [Api_erase 0 0 4096, Api_write 0 16 [1, 2, 3], Api_read 0 0 4096] rs (storages sim_mem sys')"
proof -
  obtain sys where s: "sys_ok sim_chip sim_mem sim_up sim_crc sys" "mounted sys 0" "wl_size 0 sys = Inr 32768" using sim_mounted by auto
  have "\<forall>q \<in> set [Api_erase 0 0 4096, Api_write 0 16 [1, 2, 3], Api_read 0 0 4096]. api_ok sys q"
    using sim_api_ok [OF s] by (simp add: req_ok_def in_page_def SPI_FLASH_SEC_SIZE_def)
  from api_calls_flat [OF s(1) this sim_crc_words] s(2) show ?thesis by blast
qed

text \<open>
  C35. What a partition holds survives unmounting: after \<^verbatim>\<open>wl_unmount\<close> and \<^verbatim>\<open>wl_mount\<close> of the same
  partition the storage is the same, under whatever handle it got, and the storages of the other
  partitions are as they were.
\<close>

theorem unmount_mount:
  assumes "sys_ok chip content up crc sys" "crc_words crc" "mounted sys h" "s_instances sys ! h = Some (part, w)" "env_ok env"
  shows "\<exists>sys1 h' sys2. wl_unmount chip crc (int h) sys = Inr (ESP_OK, sys1) \<and> wl_mount chip crc env part sys1 = Inr (ESP_OK, int h', sys2) \<and>
    storage content sys2 h' = storage content sys h \<and> sys_ok chip content up crc sys2 \<and> mounted sys2 h' \<and>
    (\<forall>j < MAX_WL_HANDLES. j \<noteq> h \<and> j \<noteq> h' \<longrightarrow> storage content sys2 j = storage content sys j)"
proof -
  from unmount_ok [OF assms(1-4)] obtain sys1 where u: "wl_unmount chip crc (int h) sys = Inr (ESP_OK, sys1)" "sys_ok chip content up crc sys1"
    "kept content crc (wls_chip sys1) part (storage content sys h)" "length (content (wls_chip sys1)) = length (content (wls_chip sys))"
    "s_instances sys1 = (s_instances sys)[h := None]" "\<forall>h' < MAX_WL_HANDLES. h' \<noteq> h \<longrightarrow> storage content sys1 h' = storage content sys h'" by (elim exE conjE)
  have "sys\<lparr>wls_chip := wls_chip sys1, s_instances := (s_instances sys)[h := None]\<rparr> = sys1" using u(5) by simp
  with ready_mountable [OF assms(1,3,4), of "wls_chip sys1"] u(4) obtain k where k: "mountable chip content up part k sys1" by auto
  have "h < length (s_instances sys)" using assms(1,3) by (simp add: sys_ok_def mounted_def)
  from free_after [OF this, of 0] obtain h' where h': "free_handle 0 (s_instances sys1) = Some h'" using u(5) by auto
  from mount_kept [OF u(2) assms(5) k assms(2) h' u(3)] obtain sys2 where m: "wl_mount chip crc env part sys1 = Inr (ESP_OK, int h', sys2)" "sys_ok chip content up crc sys2"
    "mounted sys2 h'" "storage content sys2 h' = storage content sys h"
    "\<forall>j < MAX_WL_HANDLES. j \<noteq> h' \<longrightarrow> storage content sys2 j = storage content sys1 j \<and> mounted sys2 j = mounted sys1 j" by (elim exE conjE)
  then show ?thesis using u(1,6) by (intro exI [of _ sys1] exI [of _ h'] exI [of _ sys2]) simp
qed

theorem unmount_mount_witness:
  "\<exists>sys sys1 h' sys2 part. mounted sys 0 \<and> wl_unmount sim_chip sim_crc (int 0) sys = Inr (ESP_OK, sys1) \<and>
    wl_mount sim_chip sim_crc sim_env part sys1 = Inr (ESP_OK, int h', sys2) \<and> storage sim_mem sys2 h' = storage sim_mem sys 0"
proof -
  obtain sys where s: "sys_ok sim_chip sim_mem sim_up sim_crc sys" "mounted sys 0" using sim_mounted by auto
  then obtain part w where "s_instances sys ! 0 = Some (part, w)" by (auto simp: mounted_def)
  from unmount_mount [OF s(1) sim_crc_words s(2) this sim_env_ok] s(2) show ?thesis by blast
qed

text \<open>
  C36. \<^verbatim>\<open>wl_mount\<close> of a partition of at least five sectors that has no valid state gives the first free
  handle, with a storage of the size that \<^verbatim>\<open>wl_size\<close> reports: two sectors and the two state areas less
  than the partition. The system is well formed with the new partition, and the others are as they were.
\<close>

theorem mount_unformatted:
  assumes "sys_ok chip content up crc sys" "env_ok env" "mountable chip content up part k sys" "crc_words crc"
    and "free_handle 0 (s_instances sys) = Some h"
    and "unformatted crc ((k - 1 - 2 * state_sectors k) * 4096) ((k - 1 - state_sectors k) * 4096) (slice part (content (wls_chip sys)))"
  shows "\<exists>sys'. wl_mount chip crc env part sys = Inr (ESP_OK, int h, sys') \<and> sys_ok chip content up crc sys' \<and> mounted sys' h \<and>
    wl_size (int h) sys' = Inr ((k - 2 - 2 * state_sectors k) * 4096) \<and> length (storage content sys' h) = (k - 2 - 2 * state_sectors k) * 4096 \<and>
    (\<forall>h' < MAX_WL_HANDLES. h' \<noteq> h \<longrightarrow> storage content sys' h' = storage content sys h' \<and> mounted sys' h' = mounted sys h')"
  using mount_fresh [OF assms] by blast

theorem mount_unformatted_witness:
  "\<exists>sys'. wl_mount sim_chip sim_crc sim_env (sectors_part 12) (sim_sys (chip_mem (replicate 49152 255))) = Inr (ESP_OK, int 0, sys') \<and>
    wl_size 0 sys' = Inr 32768 \<and> length (storage sim_mem sys' 0) = 32768"
proof -
  have ss: "state_sectors 12 = 1" by (simp add: state_sectors_def)
  have "unformatted sim_crc ((12 - 1 - 2 * state_sectors 12) * 4096) ((12 - 1 - state_sectors 12) * 4096)
      (slice (sectors_part 12) (sim_mem (wls_chip (sim_sys (chip_mem (replicate 49152 255))))))"
    unfolding ss sim_sys_def wl_system.simps sim_flash.simps by (subst slice_chip) (simp_all add: erased_unformatted)
  from mount_unformatted [OF sim_sys_ok(1) sim_env_ok sim_mountable sim_crc_words sim_sys_ok(2) this] show ?thesis by (auto simp: ss)
qed

section \<open>Recovery\<close>

text \<open>
  C37. The recovery of the first state loses the position. When only the second state is whole at the end
  of a round, with all its position records, \<^verbatim>\<open>init\<close> succeeds and takes the last position; but it
  compares the records with the device id of the header that was lost and copies none of them, so the
  next \<^verbatim>\<open>init\<close> over the same flash takes position 0, and every address of the storage is mapped one
  page further than before.
\<close>

theorem recovery_loses_position:
  assumes "partition_on_chip chip content up part" "pt_size part = k * 4096" "5 \<le> k" "k \<le> 31" "laid_out k w" "w_configured w" "crc_words crc"
    and "partition_up part content up (w_flash w)" "first_lost crc w h (slice part (content (w_flash w)))"
  shows "\<exists>w1. WL_init (Partition_t chip part) crc rnd w = Inr (ESP_OK, w1) \<and> ws_pos (w_state w1) = n_blocks w \<and>
    w_configured w1 \<and> w_initialized w1 \<and> partition_up part content up (w_flash w1) \<and>
    (\<forall>n. like w1 n \<longrightarrow> partition_up part content up (w_flash n) \<longrightarrow> slice part (content (w_flash n)) = slice part (content (w_flash w1)) \<longrightarrow>
      (\<exists>w2. WL_init (Partition_t chip part) crc rnd' n = Inr (ESP_OK, w2) \<and> ws_pos (w_state w2) = 0 \<and> (\<forall>i. calcAddr i w2 = calcAddr i w1 + 4096)))"
proof -
  let ?m = "slice part (content (w_flash w))" and ?i = "w\<lparr>w_initialized := True\<rparr>"
  note fd = partition_on_chip.partition_driver [OF assms(1)]
  have k: "k < 2 ^ 19" "k \<le> 252" using assms(4) by simp_all
  note lf = laid_out_fits [OF assms(5,3) k(1) assms(2,8)] and ll = lost_layout [OF assms(5,3) k(2)]
  obtain j where j: "k = j + 5" "j \<le> 26" using assms(3,4) le_Suc_ex [of 5 k] by auto
  have l: "\<forall>i < k * 16. record_addr (w_addr_state2 w) i w + wc_wr_size (w_cfg w) \<le> length ?m" unfolding lf(3) ll using j by simp
  from flash_driver.lost_init [OF fd assms(6) lf(1,2) assms(8,7,9) ll(7) l, of rnd] obtain w1 where
    w1: "WL_init (Partition_t chip part) crc rnd w = Inr (ESP_OK, w1)" "base w1 = base ?i" "w_state w1 = h\<lparr>ws_pos := n_blocks w\<rparr>" "partition_up part content up (w_flash w1)"
    "slice part (content (w_flash w1)) = stamped (w_addr_state1 w) (w_state_size w) (state_bytes h) ?m" by (elim exE conjE)
  have "\<exists>w2. WL_init (Partition_t chip part) crc rnd' n = Inr (ESP_OK, w2) \<and> ws_pos (w_state w2) = 0 \<and> (\<forall>i. calcAddr i w2 = calcAddr i w1 + 4096)"
    if n: "like w1 n" "partition_up part content up (w_flash n)" "slice part (content (w_flash n)) = slice part (content (w_flash w1))" for n
  proof -
    have "w_configured n" "base (n\<lparr>w_initialized := True\<rparr>) = base ?i" using n(1) w1(2) by (simp_all add: like_def)
    from flash_driver.lost_again [OF fd this(1) lf(1,2) n(2) assms(7,9) this(2), of rnd'] n(3) w1(5) obtain w2 where
      w2: "WL_init (Partition_t chip part) crc rnd' n = Inr (ESP_OK, w2)" "base w2 = base ?i" "w_state w2 = h\<lparr>ws_pos := 0\<rparr>" by auto
    have "calcAddr i w2 = calcAddr i w1 + 4096" for i
      using shifted [of ?i w1 w2 h i] w1(2,3) w2(2,3) lf(1) assms(5) by (simp add: laid_out_base) (simp add: laid_out_def)
    then show ?thesis using w2(1,3) by (intro exI [of _ w2]) simp
  qed
  moreover have "w_configured w1" "w_initialized w1" using w1(2) assms(6) by (simp_all add: base_eq)
  ultimately show ?thesis using w1(1,3,4) by (intro exI [of _ w1]) simp
qed

theorem recovery_loses_position_witness:
  "\<exists>w w1 n w2. sim_mem (w_flash w) = chip_mem (lost_mem 12) \<and> WL_init (Partition_t sim_chip (sectors_part 12)) sim_crc 3 w = Inr (ESP_OK, w1) \<and>
    ws_pos (w_state w1) = 8 \<and> w_flash n = w_flash w1 \<and> WL_init (Partition_t sim_chip (sectors_part 12)) sim_crc 4 n = Inr (ESP_OK, w2) \<and>
    ws_pos (w_state w2) = 0 \<and> (\<forall>i. calcAddr i w2 = calcAddr i w1 + 4096)"
proof -
  let ?p = "sectors_part 12"
  have lm: "length (lost_mem 12) = 12 * 4096" by (rule lost_mem_read) simp_all
  from sim_configured [OF _ _ lm] obtain w where w: "w_flash w = \<lparr>sim_mem = chip_mem (lost_mem 12), sim_faults = []\<rparr>" "w_configured w" "laid_out 12 w" by auto
  have sl: "slice ?p (sim_mem (w_flash w)) = lost_mem 12" using slice_chip [OF lm] by (simp add: w(1))
  have up: "partition_up ?p sim_mem sim_up (w_flash w)" using lm by (simp add: partition_up_def w(1) sim_up_def sectors_part_def chip_mem_def)
  have fl: "first_lost sim_crc w (lost_state 12) (slice ?p (sim_mem (w_flash w)))" unfolding sl by (rule lost_first [OF w(3)]) simp_all
  have pc: "partition_on_chip sim_chip sim_mem sim_up ?p" by (rule sectors_part) simp
  have sz: "pt_size ?p = 12 * 4096" by (simp add: sectors_part_def)
  from recovery_loses_position [OF pc sz _ _ w(3,2) sim_crc_words up fl, of 3 4] obtain w1 where
    w1: "WL_init (Partition_t sim_chip ?p) sim_crc 3 w = Inr (ESP_OK, w1)" "ws_pos (w_state w1) = n_blocks w" "partition_up ?p sim_mem sim_up (w_flash w1)" "w_configured w1" "w_initialized w1"
    "\<forall>n. like w1 n \<longrightarrow> partition_up ?p sim_mem sim_up (w_flash n) \<longrightarrow> slice ?p (sim_mem (w_flash n)) = slice ?p (sim_mem (w_flash w1)) \<longrightarrow>
      (\<exists>w2. WL_init (Partition_t sim_chip ?p) sim_crc 4 n = Inr (ESP_OK, w2) \<and> ws_pos (w_state w2) = 0 \<and> (\<forall>i. calcAddr i w2 = calcAddr i w1 + 4096))" by auto
  have "like w1 w1" using w1(4,5) by (simp add: like_def base_eq)
  from w1(6) [rule_format, OF this w1(3)] obtain w2 where "WL_init (Partition_t sim_chip ?p) sim_crc 4 w1 = Inr (ESP_OK, w2)" "ws_pos (w_state w2) = 0"
    "\<forall>i. calcAddr i w2 = calcAddr i w1 + 4096" by auto
  moreover have "n_blocks w = 8" using lost_layout(3) [OF w(3)] by simp
  ultimately show ?thesis using w(1) w1(1,2) by (intro exI [of _ w] exI [of _ w1] exI [of _ w1] exI [of _ w2]) simp
qed

text \<open>
  C38. In a partition of 32 or more sectors the recovery of the first state fails: its loop over the
  records multiplies their number by their size twice and reads beyond the end of the partition, which
  is an error. By then the first state has the header of the second but none of its records, so the
  next \<^verbatim>\<open>init\<close> succeeds with position 0 instead of the last one.
\<close>

theorem recovery_fails:
  assumes "partition_on_chip chip content up part" "pt_size part = k * 4096" "32 \<le> k" "k < 2 ^ 19" "laid_out k w" "w_configured w" "crc_words crc"
    and "partition_up part content up (w_flash w)" "first_lost crc w h (slice part (content (w_flash w)))"
  shows "\<exists>r w1. WL_init (Partition_t chip part) crc rnd w = Inr (r, w1) \<and> r \<noteq> ESP_OK \<and> \<not> w_initialized w1 \<and>
    length (slice part (content (w_flash w1))) = k * 4096 \<and>
    (\<forall>n. like (w\<lparr>w_initialized := True\<rparr>) n \<longrightarrow> partition_up part content up (w_flash n) \<longrightarrow> slice part (content (w_flash n)) = slice part (content (w_flash w1)) \<longrightarrow>
      (\<exists>w2. WL_init (Partition_t chip part) crc rnd' n = Inr (ESP_OK, w2) \<and> ws_pos (w_state w2) = 0))"
proof -
  let ?m = "slice part (content (w_flash w))" and ?i = "w\<lparr>w_initialized := True\<rparr>"
  note fd = partition_on_chip.partition_driver [OF assms(1)]
  have k5: "5 \<le> k" using assms(3) by simp
  note lf = laid_out_fits [OF assms(5) k5 assms(4,2,8)] and rp = records_in_partition [OF assms(5,3,4)]
  have l: "\<forall>i < (1 + state_sectors k) * 256 - 4. record_addr (w_addr_state2 w) i w + wc_wr_size (w_cfg w) \<le> length ?m" unfolding lf(3) using rp(2) by simp
  from flash_driver.lost_fails [OF fd assms(6) lf(1,2) assms(8,7,9) rp(1) l rp(3) [folded lf(3)], of rnd] obtain r w1 where
    w1: "WL_init (Partition_t chip part) crc rnd w = Inr (r, w1)" "r \<noteq> ESP_OK" "\<not> w_initialized w1"
    "slice part (content (w_flash w1)) = stamped (w_addr_state1 w) (w_state_size w) (state_bytes h) ?m" by (elim exE conjE)
  have "\<exists>w2. WL_init (Partition_t chip part) crc rnd' n = Inr (ESP_OK, w2) \<and> ws_pos (w_state w2) = 0"
    if n: "like ?i n" "partition_up part content up (w_flash n)" "slice part (content (w_flash n)) = slice part (content (w_flash w1))" for n
  proof -
    have "w_configured n" "base (n\<lparr>w_initialized := True\<rparr>) = base ?i" using n(1) by (simp_all add: like_def)
    from flash_driver.lost_again [OF fd this(1) lf(1,2) n(2) assms(7,9) this(2), of rnd'] n(3) w1(4) show ?thesis by auto
  qed
  moreover have "bounded h" using assms(9) by (simp add: first_lost_def)
  then have "length (slice part (content (w_flash w1))) = k * 4096" using stamped_second(1) [OF lf(1,2)] lf(3) w1(4) by simp
  ultimately show ?thesis using w1(1-3) by (intro exI [of _ r] exI [of _ w1]) simp
qed

theorem recovery_fails_witness:
  "\<exists>w r w1 n w2. sim_mem (w_flash w) = chip_mem (lost_mem 32) \<and> WL_init (Partition_t sim_chip (sectors_part 32)) sim_crc 3 w = Inr (r, w1) \<and> r \<noteq> ESP_OK \<and>
    sim_mem (w_flash n) = sim_mem (w_flash w1) \<and> WL_init (Partition_t sim_chip (sectors_part 32)) sim_crc 4 n = Inr (ESP_OK, w2) \<and> ws_pos (w_state w2) = 0"
proof -
  let ?p = "sectors_part 32"
  have lm: "length (lost_mem 32) = 32 * 4096" by (rule lost_mem_read) simp_all
  from sim_configured [OF _ _ lm] obtain w where w: "w_flash w = \<lparr>sim_mem = chip_mem (lost_mem 32), sim_faults = []\<rparr>" "w_configured w" "laid_out 32 w" by auto
  have sl: "slice ?p (sim_mem (w_flash w)) = lost_mem 32" using slice_chip [OF lm] by (simp add: w(1))
  have up: "partition_up ?p sim_mem sim_up (w_flash w)" using lm by (simp add: partition_up_def w(1) sim_up_def sectors_part_def chip_mem_def)
  have fl: "first_lost sim_crc w (lost_state 32) (slice ?p (sim_mem (w_flash w)))" unfolding sl by (rule lost_first [OF w(3)]) simp_all
  have pc: "partition_on_chip sim_chip sim_mem sim_up ?p" by (rule sectors_part) simp
  have sz: "pt_size ?p = 32 * 4096" by (simp add: sectors_part_def)
  from recovery_fails [OF pc sz _ _ w(3,2) sim_crc_words up fl, of 3 4] obtain r w1 where
    w1: "WL_init (Partition_t sim_chip ?p) sim_crc 3 w = Inr (r, w1)" "r \<noteq> ESP_OK" "length (slice ?p (sim_mem (w_flash w1))) = 32 * 4096"
    "\<forall>n. like (w\<lparr>w_initialized := True\<rparr>) n \<longrightarrow> partition_up ?p sim_mem sim_up (w_flash n) \<longrightarrow> slice ?p (sim_mem (w_flash n)) = slice ?p (sim_mem (w_flash w1)) \<longrightarrow>
      (\<exists>w2. WL_init (Partition_t sim_chip ?p) sim_crc 4 n = Inr (ESP_OK, w2) \<and> ws_pos (w_state w2) = 0)" by auto
  let ?n = "w\<lparr>w_flash := \<lparr>sim_mem = sim_mem (w_flash w1), sim_faults = []\<rparr>\<rparr>"
  have "like (w\<lparr>w_initialized := True\<rparr>) ?n" using w(2) by (simp add: like_def base_eq)
  moreover have "partition_up ?p sim_mem sim_up (w_flash ?n)" using w1(3) by (simp add: partition_up_def sim_up_def length_slice) (simp add: sectors_part_def)
  ultimately obtain w2 where "WL_init (Partition_t sim_chip ?p) sim_crc 4 ?n = Inr (ESP_OK, w2)" "ws_pos (w_state w2) = 0" using w1(4) [rule_format, of ?n] by auto
  then show ?thesis using w(1) w1(1,2) by (intro exI [of _ w] exI [of _ r] exI [of _ w1] exI [of _ ?n] exI [of _ w2]) simp
qed

section \<open>Accesses outside the contract\<close>

text \<open>
  C39. \<^verbatim>\<open>wl_write\<close> does not check its range. Take a write that is not empty, lies in the storage of a
  mounted partition on a chip that works, and begins at the beginning of a page or stays within one. The
  same write at the address plus the size of the storage, which is less than \<open>2 ^ 30\<close>, reports success
  and writes the data to the original address, where the documentation of the interface promises an
  error for an address that exceeds the size.
\<close>

theorem write_beyond_end:
  assumes "sys_ok chip content up crc sys" "crc_words crc" "wl_size (int h) sys = Inr n" "n < 2 ^ 30" "api_ok sys (Api_write h a src)"
  shows "\<exists>sys'. wl_write chip (int h) (n + a) src sys = Inr (ESP_OK, sys') \<and> storage content sys' h = nor_write a src (storage content sys h) \<and> sys_ok chip content up crc sys'"
proof -
  have mh: "mounted sys h" using assms(5) by (simp add: api_ok_def)
  from mounted_instance [OF assms(1) mh] obtain part w where i: "s_instances sys ! h = Some (part, w)" "ready content up crc (wls_chip sys) part w" by (elim exE conjE)
  have n: "w_flash_size w = n" using assms(3) check_mounted [OF assms(1) mh] i by (simp add: wl_size_def WL_chip_size_def ready_def split: if_splits)
  have rq: "src \<noteq> []" "a + length src \<le> n" using assms(5) i(1) n by (auto simp: api_ok_def req_ok_def)
  let ?w = "w\<lparr>w_flash := wls_chip sys\<rparr>"
  have g: "wl_geom ?w" using i(2) geom_core(1) [of ?w w] by (simp add: ready_def)
  have "2 * w_flash_size ?w + a + length src < 2 ^ 32" using rq(2) assms(4) n by simp
  from WL_write_wraps [OF g rq(1) this] n have e: "wl_write chip (int h) (n + a) src sys = wl_write chip (int h) a src sys"
    using i(1) check_mounted [OF assms(1) mh] by (simp add: wl_write_def call_instance_def)
  from api_call_ok [OF assms(1,5,2)] obtain bs v sys' where c: "api_call chip crc (Api_write h a src) sys = Inr ((ESP_OK, bs), sys')"
    "flat_step (storages content sys h) (Req_write a src) (ESP_OK, bs) v" "sys_ok chip content up crc sys'" "storages content sys' = (storages content sys)(h := v)"
    "\<forall>q. api_ok sys' q = api_ok sys q" by auto
  have "v = nor_write a src (storages content sys h)" using c(2) by (cases rule: flat_step.cases) simp_all
  moreover have "mounted sys' h" using c(5) assms(5) by (metis api_ok_def api_handle.simps(2))
  ultimately have "storage content sys' h = nor_write a src (storage content sys h)" using fun_cong [OF c(4), of h] mh by (simp add: storages_def)
  moreover have "wl_write chip (int h) a src sys = Inr (ESP_OK, sys')" using c(1) by (simp add: bindR_def split: sum.splits prod.splits)
  ultimately show ?thesis using e c(3) by (intro exI [of _ sys']) simp
qed

theorem write_beyond_end_witness:
  "\<exists>sys sys'. wl_size (int 0) sys = Inr 32768 \<and> wl_write sim_chip (int 0) (32768 + 16) [1, 2, 3] sys = Inr (ESP_OK, sys') \<and>
    storage sim_mem sys' 0 = nor_write 16 [1, 2, 3] (storage sim_mem sys 0)"
proof -
  obtain sys where s: "sys_ok sim_chip sim_mem sim_up sim_crc sys" "mounted sys 0" "wl_size 0 sys = Inr 32768" using sim_mounted by auto
  have "api_ok sys (Api_write 0 16 [1, 2, 3])" by (rule sim_api_ok [OF s]) (simp_all add: req_ok_def in_page_def)
  from write_beyond_end [OF s(1) sim_crc_words _ _ this, of 32768] s(3) obtain sys' where "wl_write sim_chip (int 0) (32768 + 16) [1, 2, 3] sys = Inr (ESP_OK, sys')"
    "storage sim_mem sys' 0 = nor_write 16 [1, 2, 3] (storage sim_mem sys 0)" by auto
  then show ?thesis using s(3) by (intro exI [of _ sys] exI [of _ sys']) simp
qed

text \<open>
  C40. A write of at most a page that begins inside a page and crosses its end is done as one access of
  the flash. When the dummy block follows in the flash, the part beyond the page goes there: the write
  reports success, and the storage has only the first part.
\<close>

theorem write_across_page:
  assumes "partition_on_chip chip content up part" "wl_geom w" "fits w (slice part (content (w_flash w)))" "partition_up part content up (w_flash w)" "w_initialized w"
    and "a < w_flash_size w" "0 < a mod wc_page_size (w_cfg w)" "k = wc_page_size (w_cfg w) - a mod wc_page_size (w_cfg w)"
    and "k < length bs" "length bs \<le> wc_page_size (w_cfg w)" "calcAddr a w + k = ws_pos (w_state w) * wc_page_size (w_cfg w)"
  shows "\<exists>f. WL_write (Partition_t chip part) a bs w = Inr (ESP_OK, w\<lparr>w_flash := f\<rparr>) \<and>
    vmem w (slice part (content f)) = nor_write a (take k bs) (vmem w (slice part (content (w_flash w))))"
  by (rule flash_driver.write_cross [OF partition_on_chip.partition_driver [OF assms(1)] assms(2-11)])

theorem write_across_page_witness:
  "\<exists>w f. calcAddr 4095 w = 4095 \<and> ws_pos (w_state w) = 1 \<and> WL_write (Partition_t sim_chip (sectors_part 12)) 4095 [1, 2] w = Inr (ESP_OK, w\<lparr>w_flash := f\<rparr>) \<and>
    vmem w (slice (sectors_part 12) (sim_mem f)) = nor_write 4095 [1] (vmem w (slice (sectors_part 12) (sim_mem (w_flash w))))"
proof -
  let ?p = "sectors_part 12"
  obtain w0 where w0: "holds (\<lambda>f. slice ?p (sim_mem f)) (partition_up ?p sim_mem sim_up) sim_crc True (base w0)
       (vmem w0 (slice ?p (sim_mem (w_flash w0)))) w0" "laid_out 12 w0" "w_initialized w0" using sim_started by blast
  let ?w = "w0\<lparr>w_state := (w_state w0)\<lparr>ws_pos := 1, ws_move_count := 0\<rparr>\<rparr>"
  have sz: "w_flash_size w0 = 32768" "wc_page_size (w_cfg w0) = 4096" using w0(2) by (simp_all add: laid_out_def state_sectors_def)
  have g: "wl_geom ?w" "fits ?w (slice ?p (sim_mem (w_flash ?w)))" "partition_up ?p sim_mem sim_up (w_flash ?w)" "w_initialized ?w"
    using w0(1,3) sz by (simp_all add: holds_def wl_geom_def wl_sizes_def wl_pos_ok_def n_blocks_def Let_def fits_def)
  have c: "calcAddr 4095 ?w = 4095" using sz by (simp add: calcAddr_def)
  have pc: "partition_on_chip sim_chip sim_mem sim_up ?p" by (rule sectors_part) simp
  from write_across_page [OF pc g, of 4095 1 "[1, 2]"] c sz show ?thesis by (intro exI [of _ ?w]) auto
qed

end
