(* ===== verification/Spec2Isabelle.thy ===== *)
theory Spec2Isabelle
  imports Ringbuf_Props Ringbuf_Blocking Console Esp_Timer_Dispatch Ets_Timer Esp_Event_Props Log_Props WL_Props
begin

text \<open>
  A verification development for core libraries of ESP-IDF v5.0.1, the firmware framework under \<^verbatim>\<open>src/\<close>.
  The framework is a collection of C components under \<^verbatim>\<open>src/components\<close>. The development models the
  software components whose behaviour is in their own code - data structures, dispatchers, parsers,
  storage layers - and leaves hardware access and third-party stacks out. Definitions keep the names of
  the C functions, one definition per function, and inner loops are definitions of their own.

  Conventions (theory \<open>Idf_Base\<close>). A C function that can fail an assertion or leave an object returns
  a \<open>res\<close>: \<open>Inl\<close> a fault, or \<open>Inr\<close> its result. Error codes are the values of \<open>esp_err\<close>. Objects with a
  byte layout are byte lists with reads and writes that fault out of range; other objects are records,
  linked lists are lists, and pointers are numbers. Unsigned arithmetic that can wrap is written with
  \<open>usub\<close> and \<open>uadd\<close> or on words. The outcome of allocations, of waiting and of calls into other
  libraries is a parameter of the definitions that depend on it.

  \<^item> Ring buffer, \<^verbatim>\<open>esp_ringbuf/ringbuf.c\<close>. \<open>Ringbuf\<close> models the control structure and the functions
    behind the function pointers of a buffer, \<open>Ringbuf_Api\<close> the public functions. \<open>Ring\<close>,
    \<open>Ringbuf_Facts\<close>, \<open>Ringbuf_Chain\<close> and \<open>Ringbuf_Skip\<close> hold the ring arithmetic, the macros, the
    layout of items in the storage and the two loops that skip items. \<open>Ringbuf_Bytes\<close>,
    \<open>Ringbuf_Items\<close>, \<open>Ringbuf_Send\<close>, \<open>Ringbuf_Recv\<close> and \<open>Ringbuf_Split\<close> show that every operation keeps
    the invariant of its type of buffer. \<open>Fifo\<close> states the contract of a first-in first-out channel as
    the locale \<open>fifo_channel\<close>; \<open>Ringbuf_Bytes_Fifo\<close> and \<open>Ringbuf_Items_Fifo\<close> interpret it on the three
    types of buffers (C1, C2, C3). \<open>Ringbuf_Props\<close> has the free size, the two-step send and the corner
    cases (C4, C5, C6, C8, C9, C10), \<open>Ringbuf_Blocking\<close> the calls that block (C7).
  \<^item> Console, \<^verbatim>\<open>console/split_argv.c\<close> and \<^verbatim>\<open>console/commands.c\<close>. \<open>Split_Argv\<close> shows that the in-place
    splitter agrees with a tokeniser on lists and undoes quoting (C11, C12); \<open>Console\<close> models the
    command registry with its heap of hints, and \<^verbatim>\<open>esp_console_run\<close>, which calls the splitter (C13 to C15).
  \<^item> Timers, \<^verbatim>\<open>esp_timer/src/esp_timer.c\<close>, the alarm registers of \<^verbatim>\<open>esp_timer_impl_systimer.c\<close> and the
    legacy interface \<^verbatim>\<open>ets_timer_legacy.c\<close> on top. \<open>Esp_Timer\<close> has the model, \<open>Esp_Timer_Inv\<close> the
    invariant, \<open>Esp_Timer_Props\<close> safety of all reachable states, the next alarm and restarting (C16, C17,
    C18), \<open>Esp_Timer_Dispatch\<close> the exact calls of a dispatch (C19, C20), \<open>Ets_Timer\<close> the legacy timers
    (C21, C22).
  \<^item> Event loops, \<^verbatim>\<open>esp_event/esp_event.c\<close> and \<^verbatim>\<open>default_event_loop.c\<close>. \<open>Esp_Event\<close> has the model,
    \<open>Esp_Event_Props\<close> the order of handlers and of posts and two corner cases (C23 to C27).
  \<^item> Log levels, \<^verbatim>\<open>log/log.c\<close>. \<open>Log_Level\<close> has the model and the order of the cache's heap, \<open>Log_Props\<close>
    the refinement of a map from tags to levels, the order of use and two corner cases (C28 to C31).
  \<^item> Wear levelling, \<^verbatim>\<open>wear_levelling/WL_Flash.cpp\<close>, \<^verbatim>\<open>Partition.cpp\<close> and \<^verbatim>\<open>wear_levelling.cpp\<close>, on the accesses
    of \<^verbatim>\<open>esp_partition/partition_target.c\<close>. \<open>Flash_Access\<close> models partitions and states the contracts: the
    locale \<open>flash_chip\<close> of a flash chip, where a failed operation leaves anything in its range, and
    \<open>flash_driver\<close> of the interface \<^verbatim>\<open>Flash_Access\<close>, which a partition on a chip meets. \<open>WL_Flash\<close> is the
    model of the class. \<open>WL_Map\<close> has the mapping of addresses and what the storage holds (\<open>vmem\<close>),
    \<open>WL_Hoare\<close> the rules to reason about steps that can fail, \<open>WL_Move\<close> the move of a block with all the
    ways it can fail, \<open>WL_Stored\<close> the state in the flash, \<open>WL_Access\<close> and \<open>WL_Refine\<close> the refinement of a
    flat flash memory (C32). \<open>WL_Mount\<close> has the search for the position, \<open>WL_Crash\<close> restarts after an
    interrupted request (C33), \<open>WL_Start\<close> the layout and the first start. \<open>Wear_Levelling\<close> models the table of
    handles, \<open>WL_System\<close> shows that the mounted partitions are independent flat memories (C34), and
    \<open>WL_Remount\<close> mounting and unmounting (C35, C36). \<open>WL_Flaws\<close> has what goes wrong in the recovery of the
    first state and for accesses that are not checked (C37 to C40), \<open>WL_Upgrade\<close> the update of a state
    of version 1. The requests for which the storage is a flat memory are the predicate \<open>req_ok\<close>: it is
    narrower than the documentation, and C39 and C40 are about writes outside of it. \<open>WL_Sim\<close> is a simulated chip with
    faults for the instances, and \<open>WL_Props\<close> holds the properties.

  Bounds and fuel. Loops whose end depends on the data take fuel: the loops that skip items get the
  storage size plus two, more than the number of headers in the storage; the loop of
  \<^verbatim>\<open>timer_process_alarm\<close> gets a number that C19 shows to be enough when the clock stands still and callbacks
  leave the timers alone. A run out of fuel is the fault
  \<open>Out_of_fuel\<close>, and the theorems show that it does not happen. All other loops are recursive functions
  that end.

  Not modelled: hardware drivers, register headers and the hardware abstraction layer, whose behaviour
  is that of the hardware; FreeRTOS, which is seen through the queues, semaphores and ticks that the
  components use; the third-party stacks and submodules (lwip, mbedtls, Bluetooth hosts, OpenThread,
  wpa_supplicant, FatFs, SPIFFS, protobuf, unity, tinyusb, the allocator core); binary libraries; the
  network protocols over sockets; the build system, tools and examples. Within the modelled components:
  printing of tables, profiling options that are off by default, and interleavings inside one critical
  section; for the wear levelling the extensions for sectors of 512 bytes and encrypted partitions. The
  driver of the flash chip below \<^verbatim>\<open>esp_partition\<close> is a parameter with the contract \<open>flash_chip\<close>, and the CRC of
  the ROM one with the contract \<open>crc_words\<close>: it has 32 bits and is one-to-one on single words, as every
  CRC of that length is. The operations of a component run one after the other, except for blocking ring buffer
  calls, where other tasks interfere.
\<close>

end
